(* ===== verification/Prelude.thy ===== *)
theory Prelude
  imports Main "HOL-Library.Word" "HOL-Library.Code_Target_Nat"
begin

text \<open>
  What every component of the model shares: bytes and machine constants, the outcome of a C
  call that returns a \<open>maelys_json_result_t\<close> and threads a state, the C allocator, the
  \<open>while\<close> loop that scans a buffer, decimal rendering (the \<open>%zu\<close>, \<open>PRIu64\<close> and \<open>PRId64\<close>
  conversions of \<open>snprintf\<close>), and the generic list lemmas.

  A C buffer with a size is a \<open>byte list\<close>; its length is the size. Sizes and handles are
  natural numbers; \<open>SIZE_MAX\<close> is the 64-bit \<open>size_t\<close> bound the overflow guards of the code
  are written with, and the arithmetic that could pass it is treated where it occurs
  (\<open>limits_resolve\<close>, the allocation bound, the key set).
\<close>

unbundle bit_operations_syntax

named_theorems outcome_iff \<open>when a composed call ends with a given outcome\<close>
named_theorems heap_simps \<open>what the allocator changes and what it leaves alone\<close>

section \<open>Bytes and machine constants\<close>

type_synonym byte = "8 word"
type_synonym bytes = "byte list"
type_synonym u32 = "32 word"
type_synonym u64 = "64 word"

definition SIZE_MAX :: nat where
  "SIZE_MAX = 18446744073709551615"

abbreviation QUOTE :: byte where "QUOTE \<equiv> 0x22"
abbreviation BACKSLASH :: byte where "BACKSLASH \<equiv> 0x5c"
abbreviation SLASH :: byte where "SLASH \<equiv> 0x2f"
abbreviation TILDE :: byte where "TILDE \<equiv> 0x7e"
abbreviation COMMA :: byte where "COMMA \<equiv> 0x2c"
abbreviation COLON :: byte where "COLON \<equiv> 0x3a"
abbreviation LBRACE :: byte where "LBRACE \<equiv> 0x7b"
abbreviation RBRACE :: byte where "RBRACE \<equiv> 0x7d"
abbreviation LBRACKET :: byte where "LBRACKET \<equiv> 0x5b"
abbreviation RBRACKET :: byte where "RBRACKET \<equiv> 0x5d"
abbreviation MINUS :: byte where "MINUS \<equiv> 0x2d"
abbreviation PLUS :: byte where "PLUS \<equiv> 0x2b"
abbreviation DOT :: byte where "DOT \<equiv> 0x2e"
abbreviation SPACE :: byte where "SPACE \<equiv> 0x20"
abbreviation TAB :: byte where "TAB \<equiv> 0x09"
abbreviation LF :: byte where "LF \<equiv> 0x0a"
abbreviation FF :: byte where "FF \<equiv> 0x0c"
abbreviation CR :: byte where "CR \<equiv> 0x0d"
abbreviation BS :: byte where "BS \<equiv> 0x08"

text \<open>The bytes of an ASCII string literal.\<close>

definition ascii :: "string \<Rightarrow> bytes" where
  "ascii s = map of_char s"

section \<open>Outcomes of a call\<close>

text \<open>
  A call either returns its value, or a failure code, or does neither: \<open>Stuck\<close> stands for a
  violated \<open>MAELYS_JSON_ASSERT\<close>, for an access outside an array, and for recursion that has
  used up the fuel it was given. Theorems show it does not happen.
\<close>

datatype ('e, 'a) outcome = Ret 'a | Fail 'e | Stuck

text \<open>\<open>andthen (c s) k\<close>: run the rest \<open>k\<close> when the call returned, pass its failure on otherwise.\<close>

fun andthen ::
  "('e, 'a) outcome \<times> 's \<Rightarrow> ('a \<Rightarrow> 's \<Rightarrow> ('e, 'b) outcome \<times> 's) \<Rightarrow> ('e, 'b) outcome \<times> 's" where
  "andthen (Ret x, s) k = k x s"
| "andthen (Fail e, s) k = (Fail e, s)"
| "andthen (Stuck, s) k = (Stuck, s)"

lemma andthen_Ret_iff [outcome_iff]:
  "andthen m k = (Ret y, t) \<longleftrightarrow> (\<exists>x s. m = (Ret x, s) \<and> k x s = (Ret y, t))"
  by (cases "(m, k)" rule: andthen.cases) auto

lemma andthen_Fail_iff [outcome_iff]:
  "andthen m k = (Fail e, t) \<longleftrightarrow>
     m = (Fail e, t) \<or> (\<exists>x s. m = (Ret x, s) \<and> k x s = (Fail e, t))"
  by (cases "(m, k)" rule: andthen.cases) auto

lemma andthen_Stuck_iff [outcome_iff]:
  "andthen m k = (Stuck, t) \<longleftrightarrow>
     m = (Stuck, t) \<or> (\<exists>x s. m = (Ret x, s) \<and> k x s = (Stuck, t))"
  by (cases "(m, k)" rule: andthen.cases) auto

text \<open>The rule the invariant proofs use: a property of both parts holds of the composition.\<close>

lemma andthen_rule:
  assumes "Q (fst m) (snd m)"
    and "\<And>x s. m = (Ret x, s) \<Longrightarrow> Q (Ret x) s \<Longrightarrow> P (fst (k x s)) (snd (k x s))"
    and "\<And>e s. m = (Fail e, s) \<Longrightarrow> Q (Fail e) s \<Longrightarrow> P (Fail e) s"
    and "\<And>s. m = (Stuck, s) \<Longrightarrow> Q Stuck s \<Longrightarrow> P Stuck s"
  shows "P (fst (andthen m k)) (snd (andthen m k))"
  using assms by (cases "(m, k)" rule: andthen.cases) auto

lemma andthen_assoc:
  "andthen (andthen m k) l = andthen m (\<lambda>x s. andthen (k x s) l)"
  by (cases "(m, k)" rule: andthen.cases) auto

section \<open>The allocator\<close>

text \<open>
  \<open>malloc\<close>, \<open>calloc\<close> and \<open>realloc\<close> may fail at any call. The outcomes of the coming calls are
  the list \<open>fates\<close> (once it is used up, calls succeed), so a statement for every \<open>fates\<close>
  covers every pattern of failures of a run. \<open>live\<close> counts the bytes allocated and not yet
  freed, \<open>peak\<close> is the largest value \<open>live\<close> had.
\<close>

record heap =
  fates :: "bool list"
  live :: nat
  peak :: nat

definition heap_claim :: "nat \<Rightarrow> heap \<Rightarrow> heap" where
  "heap_claim n h = h\<lparr>live := live h + n, peak := max (peak h) (live h + n)\<rparr>"

definition malloc :: "nat \<Rightarrow> heap \<Rightarrow> bool \<times> heap" where
  "malloc n h =
     (case fates h of
        [] \<Rightarrow> (True, heap_claim n h)
      | b # bs \<Rightarrow> if b then (True, heap_claim n (h\<lparr>fates := bs\<rparr>)) else (False, h\<lparr>fates := bs\<rparr>))"

definition mfree :: "nat \<Rightarrow> heap \<Rightarrow> heap" where
  "mfree n h = h\<lparr>live := live h - n\<rparr>"

text \<open>\<open>realloc\<close> of an area of \<open>old\<close> bytes to \<open>new\<close> bytes may hold both for a moment.\<close>

definition realloc :: "nat \<Rightarrow> nat \<Rightarrow> heap \<Rightarrow> bool \<times> heap" where
  "realloc old new h =
     (case malloc new h of
        (True, h') \<Rightarrow> (True, mfree old h')
      | (False, h') \<Rightarrow> (False, h'))"

lemma malloc_True_live [heap_simps]:
  "malloc n h = (True, h') \<Longrightarrow> live h' = live h + n \<and> peak h' = max (peak h) (live h + n)"
  by (auto simp: malloc_def heap_claim_def split: list.splits if_splits)

lemma malloc_False_live [heap_simps]:
  "malloc n h = (False, h') \<Longrightarrow> live h' = live h \<and> peak h' = peak h"
  by (auto simp: malloc_def heap_claim_def split: list.splits if_splits)

lemma malloc_reliable [heap_simps]:
  "fates h = [] \<Longrightarrow> malloc n h = (True, heap_claim n h)"
  by (simp add: malloc_def)

lemma heap_claim_fields [simp]:
  "fates (heap_claim n h) = fates h" "live (heap_claim n h) = live h + n"
  "peak (heap_claim n h) = max (peak h) (live h + n)"
  by (simp_all add: heap_claim_def)

lemma mfree_fields [simp]:
  "fates (mfree n h) = fates h" "live (mfree n h) = live h - n" "peak (mfree n h) = peak h"
  by (simp_all add: mfree_def)

section \<open>Scanning a buffer\<close>

text \<open>\<^verbatim>\<open>while (i < size && p(bytes[i])) ++i;\<close>, the loop most of the code is made of.\<close>

function scan_while :: "(byte \<Rightarrow> bool) \<Rightarrow> bytes \<Rightarrow> nat \<Rightarrow> nat" where
  "scan_while p bs i = (if i < length bs \<and> p (bs ! i) then scan_while p bs (Suc i) else i)"
  by pat_completeness auto
termination
  by (relation "measure (\<lambda>(p, bs, i). length bs - i)") auto

declare scan_while.simps [simp del]

lemma scan_while_takeWhile:
  "i \<le> length bs \<Longrightarrow> scan_while p bs i = i + length (takeWhile p (drop i bs))"
proof (induction p bs i rule: scan_while.induct)
  case (1 p bs i)
  show ?case
  proof (cases "i < length bs \<and> p (bs ! i)")
    case True
    then have "drop i bs = bs ! i # drop (Suc i) bs"
      by (simp add: Cons_nth_drop_Suc)
    with True "1.IH" show ?thesis
      by (simp add: scan_while.simps [of p bs i])
  next
    case False
    with "1.prems" show ?thesis
      by (cases "i < length bs")
        (auto simp: scan_while.simps [of p bs i] scan_while.simps [of p bs "length bs"]
           Cons_nth_drop_Suc [symmetric])
  qed
qed

lemma scan_while_ge: "i \<le> scan_while p bs i"
  by (induction p bs i rule: scan_while.induct) (subst scan_while.simps, auto)

lemma scan_while_le: "i \<le> length bs \<Longrightarrow> scan_while p bs i \<le> length bs"
  using length_takeWhile_le [of p "drop i bs"] by (simp add: scan_while_takeWhile)

lemma scan_while_stop:
  "scan_while p bs i < length bs \<Longrightarrow> \<not> p (bs ! scan_while p bs i)"
  by (induction p bs i rule: scan_while.induct)
    (metis scan_while.simps)

lemma scan_while_all:
  assumes "i \<le> k" "k < scan_while p bs i"
  shows "p (bs ! k)"
  using assms
proof (induction p bs i rule: scan_while.induct)
  case (1 p bs i)
  then show ?case
    by (metis le_antisym not_less_eq_eq not_less scan_while.simps)
qed

section \<open>Decimal digits\<close>

text \<open>The digits \<open>snprintf\<close> writes for an unsigned and for a signed integer.\<close>

fun decimal :: "nat \<Rightarrow> bytes" where
  "decimal n = (if n < 10 then [of_nat (48 + n)] else decimal (n div 10) @ [of_nat (48 + n mod 10)])"

declare decimal.simps [simp del]

definition decimal_int :: "int \<Rightarrow> bytes" where
  "decimal_int z = (if z < 0 then MINUS # decimal (nat (- z)) else decimal (nat z))"

lemma decimal_nonempty [simp]: "decimal n \<noteq> []"
  by (subst decimal.simps) simp

text \<open>The value of a digit sequence, and that \<open>decimal\<close> is its inverse.\<close>

definition digit_value :: "byte \<Rightarrow> nat" where
  "digit_value b = unat b - 48"

definition digits_value :: "bytes \<Rightarrow> nat" where
  "digits_value bs = foldl (\<lambda>v b. v * 10 + digit_value b) 0 bs"

definition is_digit_byte :: "byte \<Rightarrow> bool" where
  "is_digit_byte b \<longleftrightarrow> 0x30 \<le> b \<and> b \<le> 0x39"

lemma digits_value_snoc [simp]:
  "digits_value (bs @ [b]) = digits_value bs * 10 + digit_value b"
  by (simp add: digits_value_def)

lemma digits_value_Nil [simp]: "digits_value [] = 0"
  by (simp add: digits_value_def)

lemma unat_of_nat_byte: "n < 256 \<Longrightarrow> unat (of_nat n :: byte) = n"
  by (simp add: unat_of_nat)

lemma unat_digit: "n < 10 \<Longrightarrow> unat (of_nat (48 + n) :: byte) = 48 + n"
  by (rule unat_of_nat_byte) simp

lemma digit_value_of_nat: "n < 10 \<Longrightarrow> digit_value (of_nat (48 + n)) = n"
  by (simp add: digit_value_def unat_digit del: of_nat_add)

lemma is_digit_of_nat: "n < 10 \<Longrightarrow> is_digit_byte (of_nat (48 + n))"
  unfolding is_digit_byte_def word_le_nat_alt
  by (simp add: unat_digit del: of_nat_add)

lemma decimal_digits: "\<forall>b \<in> set (decimal n). is_digit_byte b"
proof (induction n rule: decimal.induct)
  case (1 n)
  then show ?case
    using is_digit_of_nat [of n] is_digit_of_nat [of "n mod 10"]
    by (subst decimal.simps) (auto simp del: of_nat_add)
qed

lemma digits_value_decimal: "digits_value (decimal n) = n"
proof (induction n rule: decimal.induct)
  case (1 n)
  then show ?case
    using digit_value_of_nat [of n] digit_value_of_nat [of "n mod 10"]
      digits_value_snoc [of "[]"]
    by (subst decimal.simps) (auto simp del: of_nat_add)
qed

section \<open>Words\<close>

text \<open>The bit operations of the code read as arithmetic on the unsigned values.\<close>

lemma unat_and_mask: "unat (a AND mask n :: 'a::len word) = unat a mod 2 ^ n" 
  by (simp only: take_bit_eq_mask [symmetric] unsigned_take_bit_eq) (simp add: take_bit_eq_mod)
lemma unat_ucast_u32: "unat (ucast (a :: byte) :: u32) = unat a"
  using unsigned_less [of a, where 'a = nat]
  by (simp add: unsigned_ucast_eq take_bit_nat_eq_self)
lemma unat_drop_bit: "unat (drop_bit n (p::'a::len word)) = unat p div 2^n" 
  by (simp only: unat_drop_bit_eq) (simp add: drop_bit_eq_div)
lemma unat_push_bit: "unat (a::'a::len word) * 2^n < 2^LENGTH('a) \<Longrightarrow> unat (push_bit n a) = unat a * 2^n"
  by (simp only: unsigned_push_bit_eq) (simp add: push_bit_eq_mult take_bit_nat_eq_self)
lemma nat_push_or: 
  assumes "b < 2^n" shows "push_bit n a OR b = a * 2^n + (b::nat)"
proof -
  have "\<not> bit b m" if "n \<le> m" for m
    using assms that by (metis bit_take_bit_iff not_le take_bit_nat_eq_self)
  then have "push_bit n a + b = push_bit n a OR b"
    by (intro disjunctive_add) (auto simp: bit_push_bit_iff)
  then show ?thesis by (simp add: push_bit_eq_mult)
qed
lemma unat_push_or: 
  assumes "unat (b::'a::len word) < 2^n" "unat a * 2^n < 2^LENGTH('a)"
  shows "unat (push_bit n a OR b) = unat a * 2^n + unat b"
  using nat_push_or [OF assms(1), of "unat a"] unat_push_bit [OF assms(2)]
  by (simp only: unsigned_or_eq push_bit_eq_mult)
lemma unat_or_low:
  assumes "unat (b :: 'a::len word) < 2^n" "2^n dvd unat a" 
  shows "unat (a OR b) = unat a + unat b"
proof -
  obtain k where "unat a = k * 2^n" using assms(2) by (metis dvd_def mult.commute)
  then show ?thesis using nat_push_or [OF assms(1), of k] by (simp only: unsigned_or_eq push_bit_eq_mult)
qed

text \<open>A property of a byte holds when it holds of the 256 values.\<close>

lemma byte_all:
  assumes "\<forall>n \<in> set [0..<256]. P (of_nat n :: byte)"
  shows "P a"
proof -
  have "unat a < 256" using unsigned_less [of a, where 'a = nat] by simp
  with assms have "P (of_nat (unat a))" by (auto simp del: of_nat_unat)
  then show ?thesis by simp
qed

section \<open>Lists\<close>

lemma nth_append_here [simp]: "i = length xs \<Longrightarrow> (xs @ y # ys) ! i = y"
  by simp

lemma takeWhile_all_digits: "\<forall>b \<in> set bs. p b \<Longrightarrow> takeWhile p (bs @ cs) = bs @ takeWhile p cs"
  by (induction bs) auto

lemma drop_eq_Cons: "i < length xs \<Longrightarrow> drop i xs = xs ! i # drop (Suc i) xs"
  by (simp add: Cons_nth_drop_Suc)

end
