(* ===== verification/Types.thy ===== *)
theory Types
  imports Prelude
begin

text \<open>
  The types of the public header (\<^verbatim>\<open>include/maelys/json.h\<close>) and of \<^verbatim>\<open>src/internal.h\<close>:
  result codes, profiles, value types, limits, errors, the parent and sibling links shared by
  parser tokens and writer nodes, tokens, and documents.

  A pointer into a document's arena is its offset there (\<open>ttext\<close>, \<open>None\<close> for NULL). The token
  array and the arena are modelled by the part in use: \<open>token_count\<close> is the length of
  \<open>d_tokens\<close> and \<open>arena_used\<close> the length of \<open>arena\<close>; their capacities are fields of their own.
\<close>

section \<open>The public header\<close>

datatype result =
    OK
  | ERR_ARGUMENT
  | ERR_MEMORY
  | ERR_LIMIT
  | ERR_SYNTAX
  | ERR_UTF8
  | ERR_DUPLICATE_KEY
  | ERR_TYPE
  | ERR_RANGE
  | ERR_STATE
  | ERR_NOT_FOUND
  | ERR_NOT_INTEGER
  | ERR_IO

text \<open>\<open>INVALID_PROFILE n\<close> is a value of the C type that is none of its enumerators.\<close>

datatype profile = RFC8259 | CONTRACT_ASCII | RFC8259_LAST_WINS | INVALID_PROFILE nat

datatype json_type =
    TYPE_NONE
  | TYPE_OBJECT
  | TYPE_ARRAY
  | TYPE_STRING
  | TYPE_NUMBER
  | TYPE_BOOLEAN
  | TYPE_NULL

definition DEFAULT_MAXIMUM_BYTES :: nat where "DEFAULT_MAXIMUM_BYTES = 65535"
definition DEFAULT_MAXIMUM_DEPTH :: nat where "DEFAULT_MAXIMUM_DEPTH = 32"
definition DEFAULT_MAXIMUM_TOKENS :: nat where "DEFAULT_MAXIMUM_TOKENS = 8192"
definition MAXIMUM_DEPTH :: nat where "MAXIMUM_DEPTH = 256"
definition MAXIMUM_NUMBER_TEXT :: nat where "MAXIMUM_NUMBER_TEXT = 64"
definition VALUE_NONE :: nat where "VALUE_NONE = SIZE_MAX"

type_synonym json_value = nat

record limits =
  maximum_bytes :: nat
  maximum_depth :: nat
  maximum_tokens :: nat

record json_error =
  err_code :: result
  err_offset :: nat
  err_line :: nat
  err_column :: nat

text \<open>A view: borrowed bytes, here the bytes themselves.\<close>

type_synonym view = bytes

definition FLAG_FINAL_NEWLINE :: u32 where "FLAG_FINAL_NEWLINE = 1"
definition FLAG_INDENT :: u32 where "FLAG_INDENT = 2"
definition FLAG_ASCII :: u32 where "FLAG_ASCII = 4"

section \<open>Links\<close>

record links =
  l_parent :: nat
  first_child :: nat
  last_child :: nat
  next_sibling :: nat
  child_count :: nat

definition links_init :: "nat \<Rightarrow> links" where
  "links_init parent =
     \<lparr>l_parent = parent, first_child = VALUE_NONE, last_child = VALUE_NONE,
      next_sibling = VALUE_NONE, child_count = 0\<rparr>"

text \<open>
  \<open>maelys_json_links_append\<close> writes two structures: the links of the last child, when there is
  one, and those of the container. The first result is the container, the second the last child.
\<close>

definition links_append :: "links \<Rightarrow> links option \<Rightarrow> nat \<Rightarrow> links \<times> links option" where
  "links_append container prev index =
     (let container' =
        (case prev of
           Some _ \<Rightarrow> container
         | None \<Rightarrow> container\<lparr>first_child := index\<rparr>)
      in (container'\<lparr>last_child := index, child_count := child_count container + 1\<rparr>,
          map_option (\<lambda>l. l\<lparr>next_sibling := index\<rparr>) prev))"

section \<open>Tokens and documents\<close>

record token =
  links :: links
  ttype :: json_type
  tstart :: nat
  tend :: nat
  ttext :: "nat option"
  ttext_size :: nat
  children_offset :: nat
  object_key :: bool
  boolean_value :: bool
  superseded :: bool

record document =
  d_profile :: profile
  d_bytes :: bytes
  d_tokens :: "token list"
  token_capacity :: nat
  arena :: bytes
  arena_capacity :: nat
  children :: "nat list option"
  duplicate_count :: nat

text \<open>\<open>sizeof\<close> on the LP64 ABI (all sizes and pointers 8 bytes, enumerators and \<open>int\<close> 4).\<close>

definition SIZEOF_SIZE_T :: nat where "SIZEOF_SIZE_T = 8"
definition SIZEOF_TOKEN :: nat where "SIZEOF_TOKEN = 96"
definition SIZEOF_DOCUMENT :: nat where "SIZEOF_DOCUMENT = 88"

text \<open>The decoded text of a token: \<open>text_size\<close> bytes of the arena.\<close>

definition token_text :: "bytes \<Rightarrow> token \<Rightarrow> bytes" where
  "token_text ar t = (case ttext t of None \<Rightarrow> [] | Some off \<Rightarrow> take (ttext_size t) (drop off ar))"

text \<open>
  Linking the token \<open>index\<close> under \<open>parent\<close>, as \<open>add_token\<close> and \<open>compact_walk\<close> do after they
  wrote it: the container is \<open>tokens[parent]\<close>, the last child \<open>tokens[last_child]\<close>.
\<close>

definition link_under :: "token list \<Rightarrow> nat \<Rightarrow> nat \<Rightarrow> token list" where
  "link_under ts parent index =
     (if parent = VALUE_NONE then ts
      else
        let container = links (ts ! parent);
            prev = (if last_child container = VALUE_NONE then None
                    else Some (links (ts ! last_child container)));
            (container', prev') = links_append container prev index;
            ts1 = (case prev' of
                     None \<Rightarrow> ts
                   | Some l \<Rightarrow> ts[last_child container := (ts ! last_child container)\<lparr>links := l\<rparr>])
        in ts1[parent := (ts1 ! parent)\<lparr>links := container'\<rparr>])"

lemma length_link_under [simp]: "length (link_under ts parent index) = length ts"
  by (simp add: link_under_def Let_def split: prod.splits option.splits)

end
