(* ===== verification/Common.thy ===== *)
theory Common
  imports Types
begin

unbundle bit_operations_syntax

text \<open>
  \<^verbatim>\<open>src/common.c\<close>: the canonical spelling of a byte in a string literal, the profile and
  limit checks, error positions and their text, and the number syntax of RFC 8259.
  After the definitions: what \<open>limits_resolve\<close> guarantees to the arithmetic of the other
  components, the line and column an offset has, and \<open>number_syntax\<close> against the grammar.
\<close>

section \<open>Definitions\<close>

definition version_string :: bytes where
  "version_string = ascii ''0.4.0''"

definition hex_digit :: "nat \<Rightarrow> byte" where
  "hex_digit n = (ascii ''0123456789abcdef'') ! n"

definition canonical_escape :: "byte \<Rightarrow> bytes" where
  "canonical_escape b =
     (if b = QUOTE then [BACKSLASH, QUOTE]
      else if b = BACKSLASH then [BACKSLASH, BACKSLASH]
      else if b = BS then [BACKSLASH, 0x62]
      else if b = FF then [BACKSLASH, 0x66]
      else if b = LF then [BACKSLASH, 0x6e]
      else if b = CR then [BACKSLASH, 0x72]
      else if b = TAB then [BACKSLASH, 0x74]
      else if 0x20 \<le> b then [b]
      else [BACKSLASH, 0x75, 0x30, 0x30, hex_digit (unat (drop_bit 4 b AND 0xf)),
            hex_digit (unat (b AND 0xf))])"

fun profile_valid :: "profile \<Rightarrow> bool" where
  "profile_valid (INVALID_PROFILE _) = False"
| "profile_valid _ = True"

definition limits_or_default :: "limits option \<Rightarrow> limits" where
  "limits_or_default requested =
     (let defaults = \<lparr>maximum_bytes = DEFAULT_MAXIMUM_BYTES,
                      maximum_depth = DEFAULT_MAXIMUM_DEPTH,
                      maximum_tokens = DEFAULT_MAXIMUM_TOKENS\<rparr>
      in case requested of
           None \<Rightarrow> defaults
         | Some r \<Rightarrow>
             \<lparr>maximum_bytes = (if maximum_bytes r \<noteq> 0 then maximum_bytes r
                               else maximum_bytes defaults),
              maximum_depth = (if maximum_depth r \<noteq> 0 then maximum_depth r
                               else maximum_depth defaults),
              maximum_tokens = (if maximum_tokens r \<noteq> 0 then maximum_tokens r
                                else maximum_tokens defaults)\<rparr>)"

definition limits_resolve :: "limits option \<Rightarrow> (result, limits) outcome" where
  "limits_resolve requested =
     (let r = limits_or_default requested
      in if maximum_depth r > MAXIMUM_DEPTH \<or> maximum_bytes r \<ge> SIZE_MAX div 2 \<or>
            maximum_tokens r > SIZE_MAX div 256
         then Fail ERR_ARGUMENT else Ret r)"

definition error_advance :: "json_error \<Rightarrow> byte \<Rightarrow> json_error" where
  "error_advance e b =
     (if b = LF then e\<lparr>err_line := err_line e + 1, err_column := 1\<rparr>
      else e\<lparr>err_column := err_column e + 1\<rparr>)"

text \<open>\<open>None\<close> is the NULL error, respectively the NULL buffer.\<close>

definition error_set ::
  "json_error option \<Rightarrow> result \<Rightarrow> bytes option \<Rightarrow> nat \<Rightarrow> nat \<Rightarrow> json_error option" where
  "error_set err code src sz off =
     (case err of
        None \<Rightarrow> None
      | Some _ \<Rightarrow>
          let off' = (if off > sz then sz else off);
              e = \<lparr>err_code = code, err_offset = off', err_line = 1, err_column = 1\<rparr>
          in Some (case src of
               None \<Rightarrow> e
             | Some bs \<Rightarrow> foldl error_advance e (map ((!) bs) [0..<off'])))"

fun result_string :: "result \<Rightarrow> bytes" where
  "result_string OK = ascii ''ok''"
| "result_string ERR_ARGUMENT = ascii ''invalid argument''"
| "result_string ERR_MEMORY = ascii ''out of memory''"
| "result_string ERR_LIMIT = ascii ''configured limit exceeded''"
| "result_string ERR_SYNTAX = ascii ''invalid JSON syntax''"
| "result_string ERR_UTF8 = ascii ''invalid UTF-8''"
| "result_string ERR_DUPLICATE_KEY = ascii ''duplicate object key''"
| "result_string ERR_TYPE = ascii ''unexpected JSON type''"
| "result_string ERR_RANGE = ascii ''numeric value out of range''"
| "result_string ERR_STATE = ascii ''invalid writer state''"
| "result_string ERR_NOT_FOUND = ascii ''object member not found''"
| "result_string ERR_NOT_INTEGER = ascii ''number is not an integer''"
| "result_string ERR_IO = ascii ''input/output error''"

text \<open>
  \<open>snprintf(buffer, capacity, \<dots>)\<close> for a rendered text: what it stores in the buffer (nothing
  when the capacity is 0) and the length it returns.
\<close>

definition snprintf :: "nat \<Rightarrow> bytes \<Rightarrow> bytes \<times> nat" where
  "snprintf capacity txt =
     ((if capacity = 0 then [] else take (capacity - 1) txt @ [0]), length txt)"

definition error_text :: "json_error \<Rightarrow> bytes" where
  "error_text e =
     ascii ''line '' @ decimal (err_line e) @ ascii '', column '' @ decimal (err_column e) @
     ascii '' (offset '' @ decimal (err_offset e) @ ascii ''): '' @ result_string (err_code e)"

text \<open>\<open>buffer_given\<close> is whether the buffer is not NULL.\<close>

definition error_format :: "json_error option \<Rightarrow> bool \<Rightarrow> nat \<Rightarrow> bytes \<times> nat" where
  "error_format err buffer_given capacity =
     (case err of
        None \<Rightarrow> ([], 0)
      | Some e \<Rightarrow>
          if \<not> buffer_given \<and> capacity \<noteq> 0 then ([], 0)
          else snprintf capacity (error_text e))"

definition is_digit :: "byte \<Rightarrow> bool" where
  "is_digit b \<longleftrightarrow> 0x30 \<le> b \<and> b \<le> 0x39"

text \<open>
  \<open>maelys_json_number_syntax\<close> in its three parts. Each takes the offset and returns the offset
  after the part, \<open>None\<close> for the early \<open>return 0\<close>.
\<close>

definition number_integer :: "bytes \<Rightarrow> nat \<Rightarrow> nat option" where
  "number_integer bs off =
     (if off \<ge> length bs then None
      else if bs ! off = 0x30 then Some (off + 1)
      else if bs ! off < 0x31 \<or> bs ! off > 0x39 then None
      else Some (scan_while is_digit bs off))"

definition number_fraction :: "bytes \<Rightarrow> nat \<Rightarrow> nat option" where
  "number_fraction bs off =
     (if off < length bs \<and> bs ! off = DOT then
        let fraction = off + 1;
            off' = scan_while is_digit bs fraction
        in if off' = fraction then None else Some off'
      else Some off)"

definition number_exponent :: "bytes \<Rightarrow> nat \<Rightarrow> nat option" where
  "number_exponent bs off =
     (if off < length bs \<and> (bs ! off = 0x65 \<or> bs ! off = 0x45) then
        let off1 = off + 1;
            exponent = (if off1 < length bs \<and> (bs ! off1 = PLUS \<or> bs ! off1 = MINUS)
                        then off1 + 1 else off1);
            off' = scan_while is_digit bs exponent
        in if off' = exponent then None else Some off'
      else Some off)"

definition number_syntax :: "bytes \<Rightarrow> bool" where
  "number_syntax bs =
     (let off = (if 0 < length bs \<and> bs ! 0 = MINUS then 1 else 0)
      in case number_integer bs off of
           None \<Rightarrow> False
         | Some off1 \<Rightarrow>
             (case number_fraction bs off1 of
                None \<Rightarrow> False
              | Some off2 \<Rightarrow>
                  (case number_exponent bs off2 of
                     None \<Rightarrow> False
                   | Some off3 \<Rightarrow> off3 = length bs)))"

section \<open>Limits\<close>

lemma SIZE_MAX_div: "SIZE_MAX div 2 = 9223372036854775807" "SIZE_MAX div 256 = 72057594037927935"
  "SIZE_MAX div 4 = 4611686018427387903"
  by (simp_all add: SIZE_MAX_def)

lemma limits_resolve_Ret_iff:
  "limits_resolve requested = Ret l \<longleftrightarrow>
     l = limits_or_default requested \<and> maximum_depth l \<le> MAXIMUM_DEPTH \<and>
     maximum_bytes l < SIZE_MAX div 2 \<and> maximum_tokens l \<le> SIZE_MAX div 256"
  by (auto simp: limits_resolve_def Let_def)

lemma limits_resolve_positive:
  "limits_resolve requested = Ret l \<Longrightarrow>
     0 < maximum_bytes l \<and> 0 < maximum_depth l \<and> 0 < maximum_tokens l"
  by (auto simp: limits_resolve_Ret_iff limits_or_default_def Let_def DEFAULT_MAXIMUM_BYTES_def
      DEFAULT_MAXIMUM_DEPTH_def DEFAULT_MAXIMUM_TOKENS_def split: option.splits)

lemma limits_resolve_not_Stuck: "limits_resolve requested \<noteq> Stuck"
  by (simp add: limits_resolve_def Let_def)

lemma limits_resolve_Fail: "limits_resolve requested = Fail e \<Longrightarrow> e = ERR_ARGUMENT"
  by (auto simp: limits_resolve_def Let_def split: if_splits)

text \<open>Resolving resolved limits changes nothing: the parser passes them on.\<close>

lemma limits_resolve_idem:
  assumes "limits_resolve requested = Ret l"
  shows "limits_resolve (Some l) = Ret l"
proof -
  have "limits_or_default (Some l) = l"
    using limits_resolve_positive [OF assms] by (simp add: limits_or_default_def)
  with assms show ?thesis by (auto simp: limits_resolve_Ret_iff)
qed

section \<open>Error positions\<close>

text \<open>Line and column of the position after a prefix: the specification.\<close>

definition line_of :: "bytes \<Rightarrow> nat" where
  "line_of pre = 1 + length (filter (\<lambda>b. b = LF) pre)"

definition column_of :: "bytes \<Rightarrow> nat" where
  "column_of pre = 1 + length (takeWhile (\<lambda>b. b \<noteq> LF) (rev pre))"

lemma foldl_error_advance:
  "foldl error_advance \<lparr>err_code = c, err_offset = off, err_line = 1, err_column = 1\<rparr> pre =
     \<lparr>err_code = c, err_offset = off, err_line = line_of pre, err_column = column_of pre\<rparr>"
  by (induction pre rule: rev_induct)
    (auto simp: error_advance_def line_of_def column_of_def)

lemma map_nth_prefix: "n \<le> length bs \<Longrightarrow> map ((!) bs) [0..<n] = take n bs"
  by (simp add: take_map [symmetric] list_eq_iff_nth_eq)

lemma error_set_some:
  "error_set (Some e) code (Some bs) (length bs) off =
     Some \<lparr>err_code = code, err_offset = min off (length bs),
           err_line = line_of (take off bs), err_column = column_of (take off bs)\<rparr>"
  by (auto simp: error_set_def Let_def map_nth_prefix foldl_error_advance min_def
      simp del: One_nat_def)

lemma error_set_null [simp]: "error_set None code src sz off = None"
  by (simp add: error_set_def)

lemma error_set_is_None [simp]: "error_set err code src sz off = None \<longleftrightarrow> err = None"
  by (simp add: error_set_def Let_def split: option.splits)

lemma foldl_error_advance_frame:
  "err_code (foldl error_advance e pre) = err_code e"
  "err_offset (foldl error_advance e pre) = err_offset e"
  by (induction pre arbitrary: e) (auto simp: error_advance_def)

lemma error_set_code:
  "error_set err code src sz off = Some e \<Longrightarrow> err_code e = code \<and> err_offset e \<le> sz"
  by (auto simp: error_set_def Let_def foldl_error_advance_frame split: option.splits if_splits)

section \<open>Numbers\<close>

text \<open>The \<open>number\<close> production of RFC 8259, section 6.\<close>

definition digits1 :: "bytes \<Rightarrow> bool" where
  "digits1 ds \<longleftrightarrow> ds \<noteq> [] \<and> (\<forall>d \<in> set ds. is_digit d)"

definition number_int :: "bytes \<Rightarrow> bool" where
  "number_int i \<longleftrightarrow>
     i = [0x30] \<or> (i \<noteq> [] \<and> 0x31 \<le> hd i \<and> hd i \<le> 0x39 \<and> (\<forall>d \<in> set (tl i). is_digit d))"

definition number_frac :: "bytes \<Rightarrow> bool" where
  "number_frac f \<longleftrightarrow> f = [] \<or> (\<exists>ds. f = DOT # ds \<and> digits1 ds)"

definition number_exp :: "bytes \<Rightarrow> bool" where
  "number_exp e \<longleftrightarrow>
     e = [] \<or> (\<exists>c s ds. e = c # s @ ds \<and> (c = 0x65 \<or> c = 0x45) \<and>
                        (s = [] \<or> s = [PLUS] \<or> s = [MINUS]) \<and> digits1 ds)"

definition json_number :: "bytes \<Rightarrow> bool" where
  "json_number bs \<longleftrightarrow>
     (\<exists>s i f e. bs = s @ i @ f @ e \<and> (s = [] \<or> s = [MINUS]) \<and>
                number_int i \<and> number_frac f \<and> number_exp e)"

lemma scan_digits_split:
  assumes "off \<le> length bs"
  obtains ds rest where "drop off bs = ds @ rest" "\<forall>d \<in> set ds. is_digit d"
    "scan_while is_digit bs off = off + length ds"
    "rest = drop (scan_while is_digit bs off) bs"
proof
  let ?ds = "takeWhile is_digit (drop off bs)"
  show s: "scan_while is_digit bs off = off + length ?ds"
    using assms by (rule scan_while_takeWhile)
  show "drop off bs = ?ds @ dropWhile is_digit (drop off bs)" by simp
  show "\<forall>d \<in> set ?ds. is_digit d" by (auto dest: set_takeWhileD)
  show "dropWhile is_digit (drop off bs) = drop (scan_while is_digit bs off) bs"
    by (simp add: s dropWhile_eq_drop add.commute)
qed

lemma scan_digits_append:
  assumes "drop off bs = ds @ rest" "\<forall>d \<in> set ds. is_digit d" "off \<le> length bs"
    "rest = [] \<or> \<not> is_digit (hd rest)"
  shows "scan_while is_digit bs off = off + length ds"
proof -
  have "takeWhile is_digit (ds @ rest) = ds"
    using assms(2,4) by (cases rest) (auto simp: takeWhile_all_digits)
  then show ?thesis
    using assms(1,3) by (simp add: scan_while_takeWhile)
qed

lemma nth_drop_hd: "drop off bs = c # r \<Longrightarrow> off < length bs \<and> bs ! off = c \<and> drop (Suc off) bs = r"
  by (metis Cons_nth_drop_Suc drop_eq_Nil2 leI list.distinct(1) list.inject)

lemma number_integer_sound:
  assumes "number_integer bs off = Some off'"
  shows "\<exists>i. drop off bs = i @ drop off' bs \<and> number_int i \<and> off' = off + length i \<and> off' \<le> length bs"
proof (cases "bs ! off = 0x30")
  case True
  with assms have "off < length bs" "off' = Suc off"
    by (auto simp: number_integer_def split: if_splits)
  with True show ?thesis
    by (intro exI [of _ "[0x30]"]) (simp add: number_int_def drop_eq_Cons)
next
  case False
  with assms have lt: "off < length bs" and off': "off' = scan_while is_digit bs off"
    and first: "0x31 \<le> bs ! off" "bs ! off \<le> 0x39"
    by (auto simp: number_integer_def split: if_splits)
  obtain ds rest where d: "drop off bs = ds @ rest" "\<forall>d \<in> set ds. is_digit d"
    "off' = off + length ds" "rest = drop off' bs"
    using scan_digits_split [of off bs] lt off' by (metis less_imp_le)
  have "is_digit (bs ! off)"
    using first order_trans [of "0x30 :: byte" "0x31" "bs ! off"] by (simp add: is_digit_def)
  then have "scan_while is_digit bs off \<noteq> off"
    using lt scan_while_stop [of is_digit bs off] by auto
  with d(3) off' have "ds \<noteq> []" by auto
  with d(1) lt have "hd ds = bs ! off"
    by (metis hd_append2 hd_drop_conv_nth)
  with \<open>ds \<noteq> []\<close> first d(2) have "number_int ds"
    by (auto simp: number_int_def dest: list.set_sel(2))
  with d lt off' scan_while_le [of off bs is_digit] show ?thesis by auto
qed

lemma number_integer_complete:
  assumes "drop off bs = i @ rest" "number_int i" "rest = [] \<or> \<not> is_digit (hd rest)"
  shows "number_integer bs off = Some (off + length i)"
proof -
  obtain c r where i: "i = c # r" using assms(2) by (cases i) (auto simp: number_int_def)
  then have lt: "off < length bs" and c: "bs ! off = c"
    using nth_drop_hd [of off bs c "r @ rest"] assms(1) by auto
  show ?thesis
  proof (cases "i = [0x30]")
    case True
    with i c lt show ?thesis by (simp add: number_integer_def)
  next
    case False
    with assms(2) i have r: "0x31 \<le> c" "c \<le> 0x39" "\<forall>d \<in> set r. is_digit d"
      by (auto simp: number_int_def)
    then have "is_digit c"
      using order_trans [of "0x30 :: byte" "0x31" c] by (simp add: is_digit_def)
    with r i assms lt have "scan_while is_digit bs off = off + length i"
      by (intro scan_digits_append) auto
    moreover have "c \<noteq> 0x30" using r(1) by auto
    ultimately show ?thesis
      using r lt c by (simp add: number_integer_def not_less)
  qed
qed

lemma number_fraction_sound:
  assumes "number_fraction bs off = Some off'" "off \<le> length bs"
  shows "\<exists>f. drop off bs = f @ drop off' bs \<and> number_frac f \<and> off' = off + length f \<and> off' \<le> length bs"
proof (cases "off < length bs \<and> bs ! off = DOT")
  case True
  with assms have off': "off' = scan_while is_digit bs (Suc off)" "off' \<noteq> Suc off"
    by (auto simp: number_fraction_def Let_def split: if_splits)
  obtain ds rest where d: "drop (Suc off) bs = ds @ rest" "\<forall>d \<in> set ds. is_digit d"
    "off' = Suc off + length ds" "rest = drop off' bs"
    using scan_digits_split [of "Suc off" bs] True off' by (metis Suc_leI)
  with off' have "digits1 ds" by (auto simp: digits1_def)
  with d True off' scan_while_le [of "Suc off" bs is_digit] show ?thesis
    by (intro exI [of _ "DOT # ds"]) (auto simp: number_frac_def drop_eq_Cons)
next
  case False
  with assms show ?thesis
    by (auto simp: number_fraction_def number_frac_def split: if_splits)
qed

lemma number_fraction_complete:
  assumes "drop off bs = f @ rest" "number_frac f" "off \<le> length bs"
    "rest = [] \<or> (\<not> is_digit (hd rest) \<and> hd rest \<noteq> DOT)"
  shows "number_fraction bs off = Some (off + length f)"
proof (cases "f = []")
  case True
  with assms have "\<not> (off < length bs \<and> bs ! off = DOT)"
    by (auto simp: drop_eq_Cons)
  with True show ?thesis by (auto simp: number_fraction_def)
next
  case False
  with assms(2) obtain ds where f: "f = DOT # ds" "digits1 ds" by (auto simp: number_frac_def)
  then have d: "off < length bs" "bs ! off = DOT" "drop (Suc off) bs = ds @ rest"
    using nth_drop_hd [of off bs DOT "ds @ rest"] assms(1) by auto
  have "scan_while is_digit bs (Suc off) = Suc off + length ds"
    using d f assms(4) by (intro scan_digits_append) (auto simp: digits1_def)
  with d f show ?thesis by (simp add: number_fraction_def digits1_def)
qed

lemma number_exponent_sound:
  assumes "number_exponent bs off = Some off'" "off \<le> length bs"
  shows "\<exists>e. drop off bs = e @ drop off' bs \<and> number_exp e \<and> off' \<le> length bs"
proof (cases "off < length bs \<and> (bs ! off = 0x65 \<or> bs ! off = 0x45)")
  case True
  let ?signed = "Suc off < length bs \<and> (bs ! Suc off = PLUS \<or> bs ! Suc off = MINUS)"
  define ex where "ex = (if ?signed then Suc (Suc off) else Suc off)"
  define s where "s = (if ?signed then [bs ! Suc off] else [])"
  have ex_le: "ex \<le> length bs" and split: "drop (Suc off) bs = s @ drop ex bs"
    and sign: "s = [] \<or> s = [PLUS] \<or> s = [MINUS]"
    using True by (auto simp: ex_def s_def drop_eq_Cons)
  from assms True have off': "off' = scan_while is_digit bs ex" "off' \<noteq> ex"
    by (auto simp: number_exponent_def Let_def ex_def split: if_splits)
  obtain ds rest where d: "drop ex bs = ds @ rest" "\<forall>d \<in> set ds. is_digit d"
    "off' = ex + length ds" "rest = drop off' bs"
    using scan_digits_split [of ex bs] ex_le off' by metis
  with off' have "digits1 ds" by (auto simp: digits1_def)
  with True sign have "number_exp (bs ! off # s @ ds)" by (auto simp: number_exp_def)
  moreover have "drop off bs = (bs ! off # s @ ds) @ drop off' bs"
    using True split d(1,4) by (simp add: drop_eq_Cons)
  ultimately show ?thesis using off' ex_le scan_while_le [of ex bs is_digit] by blast
next
  case False
  with assms show ?thesis
    by (intro exI [of _ "[]"]) (auto simp: number_exponent_def number_exp_def split: if_splits)
qed

lemma not_digit_sign: "is_digit d \<Longrightarrow> d \<noteq> PLUS \<and> d \<noteq> MINUS \<and> d \<noteq> DOT \<and> d \<noteq> 0x65 \<and> d \<noteq> 0x45"
  by (auto simp: is_digit_def)

lemma number_exponent_complete:
  assumes "drop off bs = e" "number_exp e" "off \<le> length bs"
  shows "number_exponent bs off = Some (length bs)"
proof (cases "e = []")
  case True
  with assms show ?thesis by (auto simp: number_exponent_def)
next
  case False
  with assms(2) obtain c s ds where e: "e = c # s @ ds" "c = 0x65 \<or> c = 0x45"
    "s = [] \<or> s = [PLUS] \<or> s = [MINUS]" "digits1 ds"
    by (auto simp: number_exp_def)
  then have d: "off < length bs" "bs ! off = c" "drop (Suc off) bs = s @ ds"
    using nth_drop_hd [of off bs c "s @ ds"] assms(1) by auto
  have first: "ds \<noteq> []" "is_digit (hd ds)" using e(4) by (auto simp: digits1_def)
  define ex where "ex = Suc off + length s"
  have signed: "(Suc off < length bs \<and> (bs ! Suc off = PLUS \<or> bs ! Suc off = MINUS)) = (s \<noteq> [])"
    using e(3) d(3) first not_digit_sign [of "hd ds"]
    by (cases ds) (auto dest!: nth_drop_hd)
  have dr: "drop ex bs = ds"
    using d(3) by (metis append_eq_conv_conj drop_drop ex_def add.commute)
  have len: "ex + length ds = length bs" "ex \<le> length bs"
    using arg_cong [OF d(3), of length] first d(1) by (auto simp: ex_def)
  have "scan_while is_digit bs ex = ex + length ds"
    using scan_digits_append [of ex bs ds "[]"] dr e(4) len by (auto simp: digits1_def)
  moreover have "ex \<noteq> length bs" using len first by (cases ds) auto
  moreover have "(if Suc off < length bs \<and> (bs ! Suc off = PLUS \<or> bs ! Suc off = MINUS)
      then Suc off + 1 else Suc off) = ex"
    using e(3) by (auto simp: signed ex_def)
  ultimately show ?thesis
    using d(1,2) e(2) len by (simp add: number_exponent_def Let_def)
qed

lemma number_tail_start:
  assumes "number_frac f" "number_exp e"
  shows "f @ e = [] \<or> \<not> is_digit (hd (f @ e))" "e = [] \<or> (\<not> is_digit (hd e) \<and> hd e \<noteq> DOT)"
  using assms by (auto simp: number_frac_def number_exp_def is_digit_def)

lemma number_syntax_grammar: "number_syntax bs \<longleftrightarrow> json_number bs"
proof
  assume ok: "number_syntax bs"
  define off where "off = (if 0 < length bs \<and> bs ! 0 = MINUS then 1 else 0 :: nat)"
  define s where "s = take off bs"
  have s: "s = [] \<or> s = [MINUS]" "bs = s @ drop off bs"
    by (auto simp: s_def off_def take_Suc_conv_app_nth)
  from ok obtain off1 off2 where o: "number_integer bs off = Some off1"
    "number_fraction bs off1 = Some off2" "number_exponent bs off2 = Some (length bs)"
    by (auto simp: number_syntax_def off_def Let_def split: option.splits)
  obtain i where i: "drop off bs = i @ drop off1 bs" "number_int i" "off1 \<le> length bs"
    using number_integer_sound [OF o(1)] by auto
  obtain f where f: "drop off1 bs = f @ drop off2 bs" "number_frac f" "off2 \<le> length bs"
    using number_fraction_sound [OF o(2) i(3)] by auto
  obtain e where e: "drop off2 bs = e @ drop (length bs) bs" "number_exp e"
    using number_exponent_sound [OF o(3) f(3)] by auto
  show "json_number bs"
    unfolding json_number_def using s i(1,2) f(1,2) e by (metis append_Nil2 drop_all order_refl)
next
  assume "json_number bs"
  then obtain s i f e where n: "bs = s @ i @ f @ e" "s = [] \<or> s = [MINUS]"
    "number_int i" "number_frac f" "number_exp e"
    by (auto simp: json_number_def)
  have off: "(if 0 < length bs \<and> bs ! 0 = MINUS then 1 else 0) = length s"
    using n by (auto simp: number_int_def nth_append hd_conv_nth)
  have "number_integer bs (length s) = Some (length s + length i)"
    using n number_tail_start by (intro number_integer_complete [where rest = "f @ e"]) auto
  moreover have "number_fraction bs (length s + length i) = Some (length s + length i + length f)"
    using n number_tail_start by (intro number_fraction_complete [where rest = e]) auto
  moreover have "number_exponent bs (length s + length i + length f) = Some (length bs)"
    using n by (intro number_exponent_complete [where e = e]) auto
  ultimately show "number_syntax bs"
    unfolding number_syntax_def off Let_def by simp
qed

end
