(* ===== verification/Utf8.thy ===== *)
theory Utf8
  imports Common
begin

text \<open>
  \<^verbatim>\<open>src/utf8.c\<close>: UTF-8 validation, decoding and encoding of code points, the escapes of JSON
  string literals, and the comparison of keys by UTF-16 code units.

  The specification is on code points: \<open>utf8_enc\<close> is the encoding of RFC 3629 in arithmetic,
  \<open>string_content\<close> the relation between the content of a string literal and its decoded bytes,
  \<open>utf16_units\<close> the code units a key is sorted by.
\<close>

unbundle bit_operations_syntax

section \<open>Definitions\<close>

definition continuation :: "byte \<Rightarrow> bool" where
  "continuation b \<longleftrightarrow> b AND 0xc0 = 0x80"

text \<open>
  One turn of the loop of \<open>utf8_valid_prefix\<close> at \<open>i < size\<close>: \<open>Some n\<close> is \<open>i += n\<close>, \<open>None\<close> the
  \<open>return i\<close> of an invalid sequence.
\<close>

definition utf8_step :: "bytes \<Rightarrow> nat \<Rightarrow> nat option" where
  "utf8_step bs i =
     (let a = bs ! i in
      if a \<le> 0x7f then Some 1
      else if a \<ge> 0xc2 \<and> a \<le> 0xdf then
        (if i + 1 \<ge> length bs \<or> \<not> continuation (bs ! (i + 1)) then None else Some 2)
      else if a \<ge> 0xe0 \<and> a \<le> 0xef then
        (if i + 2 \<ge> length bs \<or> \<not> continuation (bs ! (i + 1)) \<or> \<not> continuation (bs ! (i + 2)) then None
         else if (a = 0xe0 \<and> bs ! (i + 1) < 0xa0) \<or> (a = 0xed \<and> bs ! (i + 1) \<ge> 0xa0) then None
         else Some 3)
      else if a \<ge> 0xf0 \<and> a \<le> 0xf4 then
        (if i + 3 \<ge> length bs \<or> \<not> continuation (bs ! (i + 1)) \<or> \<not> continuation (bs ! (i + 2)) \<or>
            \<not> continuation (bs ! (i + 3)) then None
         else if (a = 0xf0 \<and> bs ! (i + 1) < 0x90) \<or> (a = 0xf4 \<and> bs ! (i + 1) \<ge> 0x90) then None
         else Some 4)
      else None)"

lemma utf8_step_positive: "utf8_step bs i = Some n \<Longrightarrow> 0 < n"
  by (auto simp: utf8_step_def Let_def split: if_splits)

lemma utf8_step_bound: "utf8_step bs i = Some n \<Longrightarrow> i < length bs \<Longrightarrow> i + n \<le> length bs"
  by (auto simp: utf8_step_def Let_def split: if_splits)

function utf8_valid_from :: "bytes \<Rightarrow> nat \<Rightarrow> nat" where
  "utf8_valid_from bs i =
     (if i < length bs then
        (case utf8_step bs i of None \<Rightarrow> i | Some n \<Rightarrow> utf8_valid_from bs (i + n))
      else length bs)"
  by pat_completeness auto
termination
  by (relation "measure (\<lambda>(bs, i). length bs - i)") (auto dest: utf8_step_positive)

declare utf8_valid_from.simps [simp del]

definition utf8_valid_prefix :: "bytes \<Rightarrow> nat" where
  "utf8_valid_prefix bs = utf8_valid_from bs 0"

definition utf8_validate :: "bytes \<Rightarrow> bool" where
  "utf8_validate bs \<longleftrightarrow> utf8_valid_prefix bs = length bs"

text \<open>
  \<open>maelys_json_utf8_decode\<close>: the code point and its byte length; \<open>None\<close> when one of the
  assertions on the size fails.
\<close>

definition utf8_decode :: "bytes \<Rightarrow> (u32 \<times> nat) option" where
  "utf8_decode bs =
     (if length bs < 1 then None
      else let a = bs ! 0 in
      if a \<le> 0x7f then Some (ucast a, 1)
      else if a \<le> 0xdf then
        (if length bs < 2 then None
         else Some (push_bit 6 (ucast (a AND 0x1f)) OR ucast (bs ! 1 AND 0x3f), 2))
      else if a \<le> 0xef then
        (if length bs < 3 then None
         else Some (push_bit 12 (ucast (a AND 0x0f)) OR
                    push_bit 6 (ucast (bs ! 1 AND 0x3f)) OR ucast (bs ! 2 AND 0x3f), 3))
      else
        (if length bs < 4 then None
         else Some (push_bit 18 (ucast (a AND 0x07)) OR
                    push_bit 12 (ucast (bs ! 1 AND 0x3f)) OR
                    push_bit 6 (ucast (bs ! 2 AND 0x3f)) OR ucast (bs ! 3 AND 0x3f), 4)))"

definition hex_value :: "byte \<Rightarrow> int" where
  "hex_value b =
     (if b \<ge> 0x30 \<and> b \<le> 0x39 then uint b - 0x30
      else if b \<ge> 0x61 \<and> b \<le> 0x66 then uint b - 0x61 + 10
      else if b \<ge> 0x41 \<and> b \<le> 0x46 then uint b - 0x41 + 10
      else -1)"

text \<open>\<open>read_u16\<close> reads the four bytes at its pointer; \<open>None\<close> is its \<open>return 0\<close>.\<close>

fun read_u16_loop :: "bytes \<Rightarrow> nat \<Rightarrow> u32 \<Rightarrow> u32 option" where
  "read_u16_loop bs 0 v = Some v"
| "read_u16_loop bs (Suc n) v =
     (let digit = hex_value (bs ! (3 - n)) in
      if digit < 0 then None else read_u16_loop bs n (v * 16 + of_int digit))"

definition read_u16 :: "bytes \<Rightarrow> u32 option" where
  "read_u16 bs = read_u16_loop bs 4 0"

definition encode_utf8 :: "u32 \<Rightarrow> bytes" where
  "encode_utf8 point =
     (if point \<le> 0x7f then [ucast point]
      else if point \<le> 0x7ff then
        [ucast (0xc0 OR drop_bit 6 point), ucast (0x80 OR (point AND 0x3f))]
      else if point \<le> 0xffff then
        [ucast (0xe0 OR drop_bit 12 point), ucast (0x80 OR (drop_bit 6 point AND 0x3f)),
         ucast (0x80 OR (point AND 0x3f))]
      else
        [ucast (0xf0 OR drop_bit 18 point), ucast (0x80 OR (drop_bit 12 point AND 0x3f)),
         ucast (0x80 OR (drop_bit 6 point AND 0x3f)), ucast (0x80 OR (point AND 0x3f))])"

text \<open>
  \<open>read_escape_point\<close>: the decoded code point, 0 for a syntax error, and the input offset it
  left behind (the C function advances \<open>*input\<close> also when it fails late).
\<close>

definition read_escape_point :: "bytes \<Rightarrow> nat \<Rightarrow> u32 \<times> nat" where
  "read_escape_point bs input =
     (if input + 4 > length bs then (0, input)
      else case read_u16 (drop input bs) of
        None \<Rightarrow> (0, input)
      | Some point \<Rightarrow>
          let input = input + 4 in
          if point \<ge> 0xd800 \<and> point \<le> 0xdbff then
            (if input + 6 > length bs \<or> bs ! input \<noteq> BACKSLASH \<or> bs ! (input + 1) \<noteq> 0x75 then (0, input)
             else case read_u16 (drop (input + 2) bs) of
               None \<Rightarrow> (0, input)
             | Some low \<Rightarrow>
                 if low < 0xdc00 \<or> low > 0xdfff then (0, input)
                 else (0x10000 + push_bit 10 (point - 0xd800) + (low - 0xdc00), input + 6))
          else if point \<ge> 0xdc00 \<and> point \<le> 0xdfff then (0, input)
          else (point, input))"

definition simple_escape :: "byte \<Rightarrow> byte option" where
  "simple_escape e =
     (if e = QUOTE then Some QUOTE
      else if e = BACKSLASH then Some BACKSLASH
      else if e = SLASH then Some SLASH
      else if e = 0x62 then Some BS
      else if e = 0x66 then Some FF
      else if e = 0x6e then Some LF
      else if e = 0x72 then Some CR
      else if e = 0x74 then Some TAB
      else None)"

lemma read_escape_point_ge: "input \<le> snd (read_escape_point bs input)"
  by (auto simp: read_escape_point_def Let_def split: option.splits)

text \<open>
  One turn of the loop of \<open>maelys_json_decode_string\<close> at \<open>input < size\<close>: the new input offset
  and the bytes appended to the output, or the result and the bad offset of the failure.
\<close>

definition decode_step :: "bytes \<Rightarrow> profile \<Rightarrow> nat \<Rightarrow> (result \<times> nat, nat \<times> bytes) outcome" where
  "decode_step bs profile input =
     (let b = bs ! input in
      if profile = CONTRACT_ASCII then
        (if b < 0x20 \<or> b > 0x7e \<or> b = BACKSLASH then Fail (ERR_SYNTAX, input)
         else Ret (input + 1, [b]))
      else if b \<noteq> BACKSLASH then
        let stop = scan_while (\<lambda>c. c \<noteq> BACKSLASH) bs input;
            run = take (stop - input) (drop input bs);
            valid = utf8_valid_prefix run
        in if valid \<noteq> stop - input then Fail (ERR_UTF8, input + valid) else Ret (stop, run)
      else if input + 1 \<ge> length bs then Fail (ERR_SYNTAX, input)
      else
        let escape = bs ! (input + 1) in
        if escape = 0x75 then
          let (point, input') = read_escape_point bs (input + 2)
          in if point = 0 then Fail (ERR_SYNTAX, input) else Ret (input', encode_utf8 point)
        else (case simple_escape escape of
                None \<Rightarrow> Fail (ERR_SYNTAX, input)
              | Some c \<Rightarrow> Ret (input + 2, [c])))"

lemma decode_step_progress: "decode_step bs profile input = Ret (input', app) \<Longrightarrow> input < length bs \<Longrightarrow> input < input'"
proof -
  assume r: "decode_step bs profile input = Ret (input', app)" and lt: "input < length bs"
  have scan: "bs ! input \<noteq> BACKSLASH \<Longrightarrow> input < scan_while (\<lambda>c. c \<noteq> BACKSLASH) bs input"
    using lt scan_while_ge [of "Suc input" "\<lambda>c. c \<noteq> BACKSLASH" bs] by (subst scan_while.simps) simp
  show ?thesis
    using r scan read_escape_point_ge [of "input + 2" bs]
    by (auto simp: decode_step_def Let_def split: if_splits option.splits prod.splits)
qed

function decode_loop ::
  "bytes \<Rightarrow> profile \<Rightarrow> nat \<Rightarrow> bytes \<Rightarrow> (result \<times> nat, bytes) outcome" where
  "decode_loop bs profile input out =
     (if input < length bs then
        (case decode_step bs profile input of
           Ret (input', app) \<Rightarrow> decode_loop bs profile input' (out @ app)
         | Fail e \<Rightarrow> Fail e
         | Stuck \<Rightarrow> Stuck)
      else Ret out)"
  by pat_completeness auto
termination
  by (relation "measure (\<lambda>(bs, profile, input, out). length bs - input)")
    (auto dest: decode_step_progress)

declare decode_loop.simps [simp del]

definition decode_string :: "bytes \<Rightarrow> profile \<Rightarrow> (result \<times> nat, bytes) outcome" where
  "decode_string bs profile = decode_loop bs profile 0 []"

record utf16_cursor =
  uc_bytes :: bytes
  uc_offset :: nat
  pending_low_surrogate :: u32

text \<open>
  \<open>utf16_next\<close>: outer \<open>None\<close> for a failed assertion of the decoder; the unit is \<open>None\<close> at the end.
\<close>

definition utf16_next :: "utf16_cursor \<Rightarrow> (u32 option \<times> utf16_cursor) option" where
  "utf16_next c =
     (if pending_low_surrogate c \<noteq> 0 then
        Some (Some (pending_low_surrogate c), c\<lparr>pending_low_surrogate := 0\<rparr>)
      else if uc_offset c \<ge> length (uc_bytes c) then Some (None, c)
      else case utf8_decode (drop (uc_offset c) (uc_bytes c)) of
        None \<Rightarrow> None
      | Some (point, n) \<Rightarrow>
          let c' = c\<lparr>uc_offset := uc_offset c + n\<rparr> in
          if point \<ge> 0x10000 then
            let point = point - 0x10000
            in Some (Some (0xd800 + drop_bit 10 point),
                     c'\<lparr>pending_low_surrogate := 0xdc00 + (point AND 0x3ff)\<rparr>)
          else Some (Some point, c'))"

definition utf16_remaining :: "utf16_cursor \<Rightarrow> nat" where
  "utf16_remaining c =
     2 * (length (uc_bytes c) - uc_offset c) + (if pending_low_surrogate c \<noteq> 0 then 1 else 0)"

lemma utf8_decode_length: "utf8_decode bs = Some (p, n) \<Longrightarrow> 1 \<le> n \<and> n \<le> 4 \<and> n \<le> length bs"
  by (auto simp: utf8_decode_def Let_def Suc_le_eq split: if_splits)

lemma utf16_next_remaining:
  "utf16_next c = Some (Some u, c') \<Longrightarrow> utf16_remaining c' < utf16_remaining c"
  by (auto simp: utf16_next_def utf16_remaining_def Let_def split: if_splits option.splits
      dest!: utf8_decode_length)

function utf16_compare_loop :: "utf16_cursor \<Rightarrow> utf16_cursor \<Rightarrow> int option" where
  "utf16_compare_loop a b =
     (case (utf16_next a, utf16_next b) of
        (Some (Some unit_a, a'), Some (Some unit_b, b')) \<Rightarrow>
          if unit_a \<noteq> unit_b then Some (if unit_a < unit_b then -1 else 1)
          else utf16_compare_loop a' b'
      | (Some (Some _, _), Some (None, _)) \<Rightarrow> Some 1
      | (Some (None, _), Some (Some _, _)) \<Rightarrow> Some (-1)
      | (Some (None, _), Some (None, _)) \<Rightarrow> Some 0
      | _ \<Rightarrow> None)"
  by pat_completeness auto
termination
  by (relation "measure (\<lambda>(a, b). utf16_remaining a)") (auto dest: utf16_next_remaining sym)

declare utf16_compare_loop.simps [simp del]

definition utf16_compare :: "bytes \<Rightarrow> bytes \<Rightarrow> int option" where
  "utf16_compare left right =
     utf16_compare_loop
       \<lparr>uc_bytes = left, uc_offset = 0, pending_low_surrogate = 0\<rparr>
       \<lparr>uc_bytes = right, uc_offset = 0, pending_low_surrogate = 0\<rparr>"

end
