(* ===== verification/Utf8_Strings.thy ===== *)
theory Utf8_Strings
  imports Utf8_Correct
begin

text \<open>
  \<open>maelys_json_decode_string\<close> against its specification: the inductive relation
  \<open>string_content\<close> between the content of a string literal and the decoded bytes, built from
  encoded code points, the short escapes, and \<open>\uXXXX\<close> escapes with surrogate pairs.
\<close>

unbundle bit_operations_syntax

section \<open>Escapes\<close>

definition hex_nat :: "byte \<Rightarrow> nat option" where
  "hex_nat b =
     (if 0x30 \<le> unat b \<and> unat b \<le> 0x39 then Some (unat b - 0x30)
      else if 0x61 \<le> unat b \<and> unat b \<le> 0x66 then Some (unat b - 0x57)
      else if 0x41 \<le> unat b \<and> unat b \<le> 0x46 then Some (unat b - 0x37)
      else None)"

definition hex4 :: "bytes \<Rightarrow> nat \<Rightarrow> bool" where
  "hex4 hs v \<longleftrightarrow>
     (\<exists>a b c d w x y z. hs = [a, b, c, d] \<and> hex_nat a = Some w \<and> hex_nat b = Some x \<and>
        hex_nat c = Some y \<and> hex_nat d = Some z \<and> v = ((w * 16 + x) * 16 + y) * 16 + z)"

lemma hex_nat_less: "hex_nat b = Some v \<Longrightarrow> v < 16"
  by (auto simp: hex_nat_def split: if_splits)

lemma hex_value_nat:
  "hex_value b = (case hex_nat b of None \<Rightarrow> -1 | Some v \<Rightarrow> int v)"
proof -
  have u: "uint b = int (unat b)" by simp
  show ?thesis
    unfolding hex_value_def hex_nat_def word_le_nat_alt u by (simp add: of_nat_diff)
qed

lemma hex4_length: "hex4 hs v \<Longrightarrow> length hs = 4"
  by (auto simp: hex4_def)

lemma hex4_less: "hex4 hs v \<Longrightarrow> v < 65536"
proof -
  assume "hex4 hs v"
  then obtain a b c d w x y z where
    h: "hex_nat a = Some w" "hex_nat b = Some x" "hex_nat c = Some y" "hex_nat d = Some z"
       "v = ((w * 16 + x) * 16 + y) * 16 + z"
    by (auto simp: hex4_def)
  from h(5) have "v = 4096 * w + 256 * x + 16 * y + z" by (simp add: algebra_simps)
  with h(1-4) [THEN hex_nat_less] show ?thesis by linarith
qed

lemma take4: "4 \<le> length bs \<Longrightarrow> take 4 bs = [bs ! 0, bs ! 1, bs ! 2, bs ! 3]"
  by (cases bs; cases "tl bs"; cases "tl (tl bs)"; cases "tl (tl (tl bs))") (auto simp: eval_nat_numeral)

lemma read_u16_Some_iff:
  assumes "4 \<le> length bs"
  shows "read_u16 bs = Some w \<longleftrightarrow> (\<exists>v. hex4 (take 4 bs) v \<and> w = of_nat v)"
proof -
  have "read_u16 bs = read_u16_loop bs (Suc (Suc (Suc (Suc 0)))) 0"
    by (simp add: read_u16_def eval_nat_numeral)
  then show ?thesis
    unfolding take4 [OF assms] hex4_def
    by (simp add: hex_value_nat Let_def numeral_2_eq_2 numeral_3_eq_3 split: option.splits) metis
qed

lemma hex4_unique: "hex4 hs v \<Longrightarrow> hex4 hs v' \<Longrightarrow> v = v'"
  by (auto simp: hex4_def)

lemma unat_of_nat_u32: "n < 4294967296 \<Longrightarrow> unat (of_nat n :: u32) = n"
  by (simp add: unat_of_nat)

inductive unicode_escape :: "bytes \<Rightarrow> nat \<Rightarrow> bool" where
  single: "hex4 hs v \<Longrightarrow> v \<noteq> 0 \<Longrightarrow> v < 0xd800 \<or> 0xdfff < v \<Longrightarrow> unicode_escape hs v"
| surrogates: "hex4 hs hi \<Longrightarrow> 0xd800 \<le> hi \<Longrightarrow> hi \<le> 0xdbff \<Longrightarrow> hex4 ls lo \<Longrightarrow> 0xdc00 \<le> lo \<Longrightarrow> lo \<le> 0xdfff \<Longrightarrow>
    unicode_escape (hs @ [BACKSLASH, 0x75] @ ls) (0x10000 + (hi - 0xd800) * 1024 + (lo - 0xdc00))"

lemma unicode_escape_scalar: "unicode_escape es v \<Longrightarrow> scalar_value v \<and> v \<noteq> 0"
  by (induction rule: unicode_escape.induct) (auto simp: scalar_value_def dest: hex4_less)

lemma surrogate_point:
  assumes "0xd800 \<le> hi" "hi \<le> 0xdbff" "0xdc00 \<le> lo" "lo \<le> 0xdfff"
  shows "(0x10000 + push_bit 10 (of_nat hi - 0xd800) + (of_nat lo - 0xdc00) :: u32) =
    of_nat (0x10000 + (hi - 0xd800) * 1024 + (lo - 0xdc00))"
proof -
  have "of_nat hi - 0xd800 = (of_nat (hi - 0xd800) :: u32)" "of_nat lo - 0xdc00 = (of_nat (lo - 0xdc00) :: u32)"
    using assms by (simp_all add: of_nat_diff)
  then show ?thesis by (simp add: push_bit_eq_mult)
qed

lemma drop_take4: "i + 4 \<le> length bs \<Longrightarrow> drop i bs = take 4 (drop i bs) @ drop (i + 4) bs"
  by (metis add.commute append_take_drop_id drop_drop)

lemma read_u16_unat:
  assumes "read_u16 (drop i bs) = Some w" "i + 4 \<le> length bs"
  shows "hex4 (take 4 (drop i bs)) (unat w)"
proof -
  obtain v where "hex4 (take 4 (drop i bs)) v" "w = of_nat v"
    using assms read_u16_Some_iff [of "drop i bs" w] by auto
  then show ?thesis using hex4_less [of "take 4 (drop i bs)" v] by (simp add: unat_of_nat_u32)
qed

lemma read_escape_point_sound:
  assumes r: "read_escape_point bs i = (p, i')" and p: "p \<noteq> 0"
  shows "\<exists>es v. unicode_escape es v \<and> drop i bs = es @ drop i' bs \<and> p = of_nat v \<and> i' \<le> length bs"
proof -
  from assms have l: "i + 4 \<le> length bs" by (auto simp: read_escape_point_def split: if_splits)
  with assms obtain w where w: "read_u16 (drop i bs) = Some w"
    by (cases "read_u16 (drop i bs)") (auto simp: read_escape_point_def)
  note hw = read_u16_unat [OF w l]
  note d = drop_take4 [OF l]
  show ?thesis
  proof (cases "w \<ge> 0xd800 \<and> w \<le> 0xdbff")
    case False
    then have e: "read_escape_point bs i =
        (if w \<ge> 0xdc00 \<and> w \<le> 0xdfff then (0, i + 4) else (w, i + 4))"
      unfolding read_escape_point_def using l w by auto
    with r p have v: "p = w" "i' = i + 4" "\<not> (w \<ge> 0xdc00 \<and> w \<le> 0xdfff)" by (auto split: if_splits)
    with p False have "unat w \<noteq> 0" "unat w < 0xd800 \<or> 0xdfff < unat w"
      by (auto simp: byte_order)
    from single [OF hw this] d v l show ?thesis
      by (intro exI [of _ "take 4 (drop i bs)"] exI [of _ "unat w"]) simp
  next
    case True
    let ?j = "i + 4"
    let ?ok = "?j + 6 \<le> length bs \<and> bs ! ?j = BACKSLASH \<and> bs ! (?j + 1) = 0x75"
    have e: "read_escape_point bs i =
        (if \<not> ?ok then (0, ?j)
         else case read_u16 (drop (?j + 2) bs) of None \<Rightarrow> (0, ?j)
           | Some low \<Rightarrow> if low < 0xdc00 \<or> low > 0xdfff then (0, ?j)
               else (0x10000 + push_bit 10 (w - 0xd800) + (low - 0xdc00), ?j + 6))"
      unfolding read_escape_point_def Let_def using l w True by (simp add: not_le)
    with r p have c: ?ok by (metis fst_conv)
    with e r p obtain wl where wl: "read_u16 (drop (?j + 2) bs) = Some wl"
      by (cases "read_u16 (drop (?j + 2) bs)") auto
    with e r p c have v: "p = 0x10000 + push_bit 10 (w - 0xd800) + (wl - 0xdc00)" "i' = ?j + 6"
      "\<not> wl < 0xdc00" "\<not> wl > 0xdfff"
      by (auto split: if_splits)
    have l2: "?j + 2 + 4 \<le> length bs" using c by simp
    note hl = read_u16_unat [OF wl l2]
    have ranges: "0xd800 \<le> unat w" "unat w \<le> 0xdbff" "0xdc00 \<le> unat wl" "unat wl \<le> 0xdfff"
      using True v(3,4) by (simp_all add: byte_order)
    have "drop ?j bs = [BACKSLASH, 0x75] @ drop (?j + 2) bs"
      using c drop_take_nth [of ?j 2 bs] by (simp add: upt_bytes)
    with d drop_take4 [OF l2] v(2)
    have "drop i bs = (take 4 (drop i bs) @ [BACKSLASH, 0x75] @ take 4 (drop (?j + 2) bs)) @ drop i' bs"
      by simp
    moreover have "p = of_nat (0x10000 + (unat w - 0xd800) * 1024 + (unat wl - 0xdc00))"
      using surrogate_point [OF ranges] v(1) by simp
    moreover have "i' \<le> length bs" using c v(2) by simp
    ultimately show ?thesis using surrogates [OF hw ranges(1,2) hl ranges(3,4)] by blast
  qed
qed

lemma read_u16_complete: "drop i bs = hs @ rest \<Longrightarrow> hex4 hs v \<Longrightarrow> read_u16 (drop i bs) = Some (of_nat v)"
  using read_u16_Some_iff [of "drop i bs" "of_nat v"] hex4_length [of hs v] by auto

lemma read_escape_point_complete:
  assumes "unicode_escape es v" "drop i bs = es @ rest"
  shows "read_escape_point bs i = (of_nat v, i + length es)"
  using assms
proof (induction rule: unicode_escape.induct)
  case (single hs v)
  have l: "i + 4 \<le> length bs"
    using arg_cong [OF single.prems, of length] hex4_length [OF single.hyps(1)] by simp
  have "unat (of_nat v :: u32) = v" using hex4_less [OF single.hyps(1)] by (simp add: unat_of_nat_u32)
  with single.hyps(3) have "\<not> ((of_nat v :: u32) \<ge> 0xd800 \<and> (of_nat v :: u32) \<le> 0xdbff)"
    "\<not> ((of_nat v :: u32) \<ge> 0xdc00 \<and> (of_nat v :: u32) \<le> 0xdfff)"
    by (auto simp: byte_order)
  with l read_u16_complete [OF single.prems single.hyps(1)] hex4_length [OF single.hyps(1)]
  show ?case unfolding read_escape_point_def Let_def by (auto simp: not_le)
next
  case (surrogates hs hi ls lo)
  note n = hex4_length [OF surrogates.hyps(1)] hex4_length [OF surrogates.hyps(4)]
  have d1: "drop i bs = hs @ ([BACKSLASH, 0x75] @ ls @ rest)" using surrogates.prems by simp
  have l: "i + 10 \<le> length bs" using arg_cong [OF d1, of length] n by simp
  have d2: "drop (i + 4) bs = [BACKSLASH, 0x75] @ ls @ rest"
    using d1 n by (metis add.commute append_eq_conv_conj drop_drop)
  have d3: "drop (i + 6) bs = ls @ rest"
    using arg_cong [OF d2, of "drop 2"] by (simp add: add.commute)
  have b: "bs ! (i + 4) = BACKSLASH" "bs ! (i + 5) = 0x75"
    using drop_prefix_nth(2) [OF d2, of 0] drop_prefix_nth(2) [OF d2, of 1]
    by (simp_all add: add.commute)
  have u: "unat (of_nat hi :: u32) = hi" "unat (of_nat lo :: u32) = lo"
    using hex4_less [OF surrogates.hyps(1)] hex4_less [OF surrogates.hyps(4)]
    by (simp_all add: unat_of_nat_u32)
  have c: "((of_nat hi :: u32) \<ge> 0xd800 \<and> (of_nat hi :: u32) \<le> 0xdbff) = True"
    "((of_nat lo :: u32) < 0xdc00 \<or> (of_nat lo :: u32) > 0xdfff) = False"
    using surrogates.hyps by (simp_all add: byte_order u)
  have g: "(i + 4 > length bs) = False" "(i + 4 + 6 > length bs) = False"
    "(bs ! (i + 4) \<noteq> BACKSLASH) = False" "(bs ! (i + 4 + 1) \<noteq> 0x75) = False"
    "i + 4 + 2 = i + 6"
    using l b by (simp_all add: add.commute)
  have "read_escape_point bs i =
      (0x10000 + push_bit 10 (of_nat hi - 0xd800) + (of_nat lo - 0xdc00), i + 4 + 6)"
    unfolding read_escape_point_def Let_def g read_u16_complete [OF d1 surrogates.hyps(1)]
      option.case if_False if_True c read_u16_complete [OF d3 surrogates.hyps(4)] simp_thms ..
  with n show ?case by (simp only: surrogate_point [OF surrogates.hyps(2,3,5,6)]) simp
qed

section \<open>The content of a string literal\<close>

definition short_escapes :: "(byte \<times> byte) set" where
  "short_escapes =
     {(QUOTE, QUOTE), (BACKSLASH, BACKSLASH), (SLASH, SLASH), (0x62, BS), (0x66, FF),
      (0x6e, LF), (0x72, CR), (0x74, TAB)}"

inductive string_content :: "bytes \<Rightarrow> bytes \<Rightarrow> bool" where
  sc_end: "string_content [] []"
| sc_char: "scalar_value cp \<Longrightarrow> cp \<noteq> 0x5c \<Longrightarrow> string_content raw out \<Longrightarrow>
    string_content (utf8_enc cp @ raw) (utf8_enc cp @ out)"
| sc_short: "(e, c) \<in> short_escapes \<Longrightarrow> string_content raw out \<Longrightarrow>
    string_content (BACKSLASH # e # raw) (c # out)"
| sc_unicode: "unicode_escape es v \<Longrightarrow> string_content raw out \<Longrightarrow>
    string_content (BACKSLASH # 0x75 # es @ raw) (utf8_enc v @ out)"

lemma simple_escape_iff: "simple_escape e = Some c \<longleftrightarrow> (e, c) \<in> short_escapes"
  by (auto simp: simple_escape_def short_escapes_def)

lemma utf8_enc_ascii:
  assumes "scalar_value cp" "b \<in> set (utf8_enc cp)" "unat b < 0x80"
  shows "cp = unat b \<and> utf8_enc cp = [b]"
  using assms(1)
proof (cases rule: utf8_enc_cases)
  case one
  with assms show ?thesis by (auto simp: unat_of_nat_byte)
next
  case (two x y)
  then have "unat (of_nat (192 + x) :: byte) = 192 + x" "unat (of_nat (128 + y) :: byte) = 128 + y"
    by (simp_all add: unat_of_nat_byte del: of_nat_add)
  with two assms show ?thesis by (auto simp del: of_nat_add)
next
  case (three x y z)
  then have "unat (of_nat (224 + x) :: byte) = 224 + x" "unat (of_nat (128 + y) :: byte) = 128 + y"
    "unat (of_nat (128 + z) :: byte) = 128 + z"
    by (simp_all add: unat_of_nat_byte del: of_nat_add)
  with three assms show ?thesis by (auto simp del: of_nat_add)
next
  case (four x y z w)
  then have "unat (of_nat (240 + x) :: byte) = 240 + x" "unat (of_nat (128 + y) :: byte) = 128 + y"
    "unat (of_nat (128 + z) :: byte) = 128 + z" "unat (of_nat (128 + w) :: byte) = 128 + w"
    by (simp_all add: unat_of_nat_byte del: of_nat_add)
  with four assms show ?thesis by (auto simp del: of_nat_add)
qed

lemma utf8_enc_single: "cp < 0x80 \<Longrightarrow> utf8_enc cp = [of_nat cp]"
  by (simp add: utf8_enc_def)

lemma utf8_enc_no_backslash:
  "scalar_value cp \<Longrightarrow> cp \<noteq> 0x5c \<Longrightarrow> BACKSLASH \<notin> set (utf8_enc cp)"
  using utf8_enc_ascii [of cp BACKSLASH] by auto

lemma utf8_encode_no_backslash:
  "list_all scalar_value cps \<Longrightarrow> BACKSLASH \<notin> set (utf8_encode cps) \<longleftrightarrow> 0x5c \<notin> set cps"
  using utf8_enc_no_backslash utf8_enc_single [of "0x5c"] by (induction cps) auto

lemma string_content_run:
  assumes "list_all scalar_value cps" "0x5c \<notin> set cps" "string_content raw out"
  shows "string_content (utf8_encode cps @ raw) (utf8_encode cps @ out)"
  using assms by (induction cps) (auto intro: sc_char)

lemma string_content_split:
  assumes "string_content raw out"
  shows "\<exists>cps rest out'. raw = utf8_encode cps @ rest \<and> out = utf8_encode cps @ out' \<and>
    list_all scalar_value cps \<and> 0x5c \<notin> set cps \<and> (rest = [] \<or> hd rest = BACKSLASH) \<and>
    string_content rest out'"
  using assms
proof (induction rule: string_content.induct)
  case sc_end
  show ?case by (intro exI [of _ "[]"]) (auto intro: string_content.intros)
next
  case (sc_char cp raw out)
  then obtain cps rest out' where "raw = utf8_encode cps @ rest" "out = utf8_encode cps @ out'"
    "list_all scalar_value cps" "0x5c \<notin> set cps" "rest = [] \<or> hd rest = BACKSLASH"
    "string_content rest out'" by blast
  with sc_char.hyps show ?case by (intro exI [of _ "cp # cps"] exI [of _ rest] exI [of _ out']) auto
next
  case (sc_short e c raw out)
  then show ?case
    by (intro exI [of _ "[]"] exI [of _ "BACKSLASH # e # raw"] exI [of _ "c # out"])
      (simp add: string_content.sc_short)
next
  case (sc_unicode es v raw out)
  then show ?case
    by (intro exI [of _ "[]"] exI [of _ "BACKSLASH # 0x75 # es @ raw"] exI [of _ "utf8_enc v @ out"])
      (simp add: string_content.sc_unicode)
qed

inductive_cases string_content_NilE: "string_content [] out"

lemma string_content_Nil [simp]: "string_content [] out \<longleftrightarrow> out = []"
  by (auto elim: string_content_NilE intro: sc_end)

lemma string_content_escape:
  assumes "string_content (BACKSLASH # raw) out"
  obtains e c raw' out' where "raw = e # raw'" "(e, c) \<in> short_escapes" "out = c # out'"
      "string_content raw' out'"
  | es v raw' out' where "raw = 0x75 # es @ raw'" "unicode_escape es v" "out = utf8_enc v @ out'"
      "string_content raw' out'"
  using assms
proof (cases rule: string_content.cases)
  case (sc_char cp r out')
  then have "hd (utf8_enc cp) = BACKSLASH"
    using hd_append2 [OF utf8_enc_nonempty, of cp r] by (metis list.sel(1))
  then have "BACKSLASH \<in> set (utf8_enc cp)" by (metis hd_in_set utf8_enc_nonempty)
  with utf8_enc_no_backslash sc_char show ?thesis by blast
qed (use that in auto)

text \<open>One turn of the decoding loop against the relation, in both directions.\<close>

lemma takeWhile_run:
  assumes "drop i bs = run @ rest" "BACKSLASH \<notin> set run" "rest = [] \<or> hd rest = BACKSLASH" "i \<le> length bs"
  shows "scan_while (\<lambda>c. c \<noteq> BACKSLASH) bs i = i + length run"
proof -
  have "takeWhile (\<lambda>c. c \<noteq> BACKSLASH) (run @ rest) = run"
    using assms(2,3) by (cases rest) (auto simp: takeWhile_append)
  with assms(1,4) show ?thesis by (simp add: scan_while_takeWhile)
qed

lemma scan_run:
  assumes "i \<le> length bs" "stop = scan_while (\<lambda>c. c \<noteq> BACKSLASH) bs i" "run = take (stop - i) (drop i bs)"
  shows "drop i bs = run @ drop stop bs" "BACKSLASH \<notin> set run" "i \<le> stop" "stop \<le> length bs"
    "length run = stop - i"
proof -
  show le: "i \<le> stop" "stop \<le> length bs"
    unfolding assms(2) using scan_while_ge scan_while_le [OF assms(1)] by blast+
  have "drop (stop - i) (drop i bs) = drop stop bs" using le by simp
  then show "drop i bs = run @ drop stop bs"
    unfolding assms(3) by (metis append_take_drop_id)
  show "length run = stop - i" using assms(3) le by simp
  have "stop - i = length (takeWhile (\<lambda>c. c \<noteq> BACKSLASH) (drop i bs))"
    unfolding assms(2) using assms(1) by (simp add: scan_while_takeWhile)
  then have "run = takeWhile (\<lambda>c. c \<noteq> BACKSLASH) (drop i bs)"
    unfolding assms(3) by (simp add: takeWhile_eq_take [symmetric])
  then show "BACKSLASH \<notin> set run" by (auto dest: set_takeWhileD)
qed

lemma utf8_valid_prefix_full: "utf8_valid_prefix bs = length bs \<longleftrightarrow> utf8_text bs"
  using utf8_validate_iff by (simp add: utf8_validate_def)

lemma read_escape_point_le:
  "read_escape_point bs i = (p, j) \<Longrightarrow> p \<noteq> 0 \<Longrightarrow> j \<le> length bs"
  using read_escape_point_sound by blast

lemma decode_step_bound:
  assumes "decode_step bs profile i = Ret (j, app)" "i < length bs"
  shows "j \<le> length bs"
  using assms scan_while_le [of i bs "\<lambda>c. c \<noteq> BACKSLASH"]
  by (auto simp: decode_step_def Let_def dest: read_escape_point_le
      split: if_splits option.splits prod.splits)

lemma decode_step_sound:
  assumes r: "decode_step bs profile i = Ret (j, app)" and p: "profile \<noteq> CONTRACT_ASCII"
    and lt: "i < length bs" and rest: "string_content (drop j bs) out"
  shows "j \<le> length bs \<and> string_content (drop i bs) (app @ out)"
proof (cases "bs ! i = BACKSLASH")
  case False
  define stop where "stop = scan_while (\<lambda>c. c \<noteq> BACKSLASH) bs i"
  define run where "run = take (stop - i) (drop i bs)"
  note s = scan_run [OF less_imp_le [OF lt] stop_def run_def]
  from r p False have j: "j = stop" "app = run" "utf8_valid_prefix run = length run"
    using s(5) by (auto simp: decode_step_def Let_def stop_def run_def split: if_splits)
  then obtain cps where cps: "list_all scalar_value cps" "run = utf8_encode cps"
    by (auto simp: utf8_valid_prefix_full utf8_text_def)
  with s(2) have "0x5c \<notin> set cps" by (simp add: utf8_encode_no_backslash)
  from string_content_run [OF cps(1) this rest] cps(2) j s show ?thesis by simp
next
  case True
  then have d: "drop i bs = BACKSLASH # drop (i + 1) bs" using lt by (simp add: drop_eq_Cons)
  from r p True have l: "i + 1 < length bs" by (auto simp: decode_step_def Let_def split: if_splits)
  then have d2: "drop (i + 1) bs = bs ! (i + 1) # drop (i + 2) bs" by (simp add: drop_eq_Cons)
  show ?thesis
  proof (cases "bs ! (i + 1) = 0x75")
    case u: True
    obtain p' j' where e: "read_escape_point bs (i + 2) = (p', j')" by (cases "read_escape_point bs (i + 2)")
    from r p True l u e have v: "p' \<noteq> 0" "j = j'" "app = encode_utf8 p'"
      by (auto simp: decode_step_def Let_def split: if_splits)
    obtain es v where ev: "unicode_escape es v" "drop (i + 2) bs = es @ drop j bs" "p' = of_nat v" "j \<le> length bs"
      using read_escape_point_sound [OF e v(1)] v(2) by blast
    have "v < 0x110000" using unicode_escape_scalar [OF ev(1)] by (auto simp: scalar_value_def)
    then have "app = utf8_enc v" using v(3) ev(3) encode_utf8_enc [of p'] by (simp add: unat_of_nat_u32)
    with sc_unicode [OF ev(1) rest] d d2 u ev show ?thesis by simp
  next
    case False
    with r p True l obtain c where "simple_escape (bs ! (i + 1)) = Some c" "j = i + 2" "app = [c]"
      by (auto simp: decode_step_def Let_def split: if_splits option.splits)
    with sc_short [OF _ rest, of "bs ! (i + 1)" c] d d2 l show ?thesis
      by (simp add: simple_escape_iff)
  qed
qed

lemma decode_step_complete:
  assumes c: "string_content (drop i bs) out" and p: "profile \<noteq> CONTRACT_ASCII" and lt: "i < length bs"
  shows "\<exists>j app out'. decode_step bs profile i = Ret (j, app) \<and> out = app @ out' \<and> string_content (drop j bs) out'"
proof (cases "bs ! i = BACKSLASH")
  case False
  obtain cps rest out' where s: "drop i bs = utf8_encode cps @ rest" "out = utf8_encode cps @ out'"
    "list_all scalar_value cps" "0x5c \<notin> set cps" "rest = [] \<or> hd rest = BACKSLASH" "string_content rest out'"
    using string_content_split [OF c] by blast
  let ?run = "utf8_encode cps"
  have stop: "scan_while (\<lambda>c. c \<noteq> BACKSLASH) bs i = i + length ?run"
    using s lt by (intro takeWhile_run) (auto simp: utf8_encode_no_backslash)
  have "utf8_text ?run" using s(3) by (auto simp: utf8_text_def)
  then have "decode_step bs profile i = Ret (i + length ?run, ?run)"
    using p False stop s(1) by (simp add: decode_step_def Let_def utf8_valid_prefix_full [symmetric])
  moreover have "drop (i + length ?run) bs = rest"
    using s(1) by (metis add.commute append_eq_conv_conj drop_drop)
  ultimately show ?thesis using s(2,6) by auto
next
  case True
  then have d: "drop i bs = BACKSLASH # drop (i + 1) bs" using lt by (simp add: drop_eq_Cons)
  from c [unfolded d] show ?thesis
  proof (cases rule: string_content_escape)
    case (1 e c' raw' out')
    then have n: "i + 1 < length bs" "bs ! (i + 1) = e" "drop (i + 2) bs = raw'"
      using nth_drop_hd [of "i + 1" bs e raw'] by auto
    have "e \<noteq> 0x75" using 1(2) by (auto simp: short_escapes_def)
    with n True p 1(2) have "decode_step bs profile i = Ret (i + 2, [c'])"
      by (simp add: decode_step_def Let_def simple_escape_iff [symmetric])
    with 1 n show ?thesis by auto
  next
    case (2 es v raw' out')
    then have n: "i + 1 < length bs" "bs ! (i + 1) = 0x75" "drop (i + 2) bs = es @ raw'"
      using nth_drop_hd [of "i + 1" bs "0x75" "es @ raw'"] by auto
    note e = read_escape_point_complete [OF 2(2) n(3)]
    have v: "v < 0x110000" "v \<noteq> 0" using unicode_escape_scalar [OF 2(2)] by (auto simp: scalar_value_def)
    then have u: "unat (of_nat v :: u32) = v" by (simp add: unat_of_nat_u32)
    then have "(of_nat v :: u32) \<noteq> 0" using v by (metis unat_0)
    with n True p e v u have "decode_step bs profile i = Ret (i + 2 + length es, utf8_enc v)"
      by (simp add: decode_step_def Let_def encode_utf8_enc)
    moreover have "drop (i + 2 + length es) bs = raw'"
      using n(3) by (metis add.commute append_eq_conv_conj drop_drop)
    ultimately show ?thesis using 2 by auto
  qed
qed

lemma decode_loop_iff:
  assumes "profile \<noteq> CONTRACT_ASCII" "i \<le> length bs"
  shows "decode_loop bs profile i out = Ret res \<longleftrightarrow>
    (\<exists>app. res = out @ app \<and> string_content (drop i bs) app)"
  using assms
proof (induction bs profile i out rule: decode_loop.induct)
  case (1 bs profile i out)
  show ?case
  proof (cases "i < length bs")
    case False
    with "1.prems" show ?thesis by (subst decode_loop.simps) auto
  next
    case lt: True
    note complete = decode_step_complete [OF _ "1.prems"(1) lt]
    show ?thesis
    proof (cases "\<exists>j app. decode_step bs profile i = Ret (j, app)")
      case True
      then obtain j app where s: "decode_step bs profile i = Ret (j, app)" by blast
      note IH = "1.IH" [OF lt s refl "1.prems"(1) decode_step_bound [OF s lt]]
      have "decode_loop bs profile i out = decode_loop bs profile j (out @ app)"
        using lt s by (subst decode_loop.simps) simp
      moreover have "string_content (drop i bs) app' \<longleftrightarrow>
          (\<exists>o'. app' = app @ o' \<and> string_content (drop j bs) o')" for app'
        using decode_step_sound [OF s "1.prems"(1) lt] complete [of app'] s by auto
      ultimately show ?thesis using IH by auto
    next
      case False
      then have "decode_loop bs profile i out \<noteq> Ret res"
        using lt by (subst decode_loop.simps) (auto split: outcome.splits)
      moreover have "\<not> string_content (drop i bs) app" for app
        using complete [of app] False by blast
      ultimately show ?thesis by blast
    qed
  qed
qed

lemma decode_string_content:
  "profile \<noteq> CONTRACT_ASCII \<Longrightarrow> decode_string bs profile = Ret out \<longleftrightarrow> string_content bs out"
  by (simp add: decode_string_def decode_loop_iff)

lemma decode_loop_ascii:
  "i \<le> length bs \<Longrightarrow> decode_loop bs CONTRACT_ASCII i out = Ret res \<longleftrightarrow>
     (\<forall>b \<in> set (drop i bs). 0x20 \<le> b \<and> b \<le> 0x7e \<and> b \<noteq> BACKSLASH) \<and> res = out @ drop i bs"
proof (induction bs CONTRACT_ASCII i out rule: decode_loop.induct)
  case (1 bs i out)
  show ?case
  proof (cases "i < length bs")
    case False
    with "1.prems" show ?thesis by (subst decode_loop.simps) auto
  next
    case lt: True
    then have d: "drop i bs = bs ! i # drop (Suc i) bs" by (simp add: drop_eq_Cons)
    show ?thesis
    proof (cases "bs ! i < 0x20 \<or> bs ! i > 0x7e \<or> bs ! i = BACKSLASH")
      case True
      with lt have "decode_loop bs CONTRACT_ASCII i out = Fail (ERR_SYNTAX, i)"
        by (subst decode_loop.simps) (auto simp: decode_step_def Let_def)
      with True show ?thesis by (auto simp: d not_le)
    next
      case False
      then have s: "decode_step bs CONTRACT_ASCII i = Ret (i + 1, [bs ! i])"
        by (simp add: decode_step_def)
      have "decode_loop bs CONTRACT_ASCII i out = decode_loop bs CONTRACT_ASCII (i + 1) (out @ [bs ! i])"
        using lt s by (subst decode_loop.simps) simp
      with "1.hyps" [OF lt s refl] lt False show ?thesis by (simp add: d not_less)
    qed
  qed
qed

lemma decode_string_ascii:
  "decode_string bs CONTRACT_ASCII = Ret out \<longleftrightarrow>
     (\<forall>b \<in> set bs. 0x20 \<le> b \<and> b \<le> 0x7e \<and> b \<noteq> BACKSLASH) \<and> out = bs"
  by (simp add: decode_string_def decode_loop_ascii)

text \<open>What a failure reports: one of two codes, and an offset inside the content.\<close>

lemma decode_step_Fail:
  assumes "decode_step bs profile i = Fail (e, bad)" "i < length bs"
  shows "(e = ERR_SYNTAX \<or> e = ERR_UTF8) \<and> bad < length bs"
proof (cases "profile \<noteq> CONTRACT_ASCII \<and> bs ! i \<noteq> BACKSLASH")
  case False
  with assms show ?thesis
    by (auto simp: decode_step_def Let_def split: if_splits option.splits prod.splits)
next
  case True
  define stop where "stop = scan_while (\<lambda>c. c \<noteq> BACKSLASH) bs i"
  define run where "run = take (stop - i) (drop i bs)"
  note s = scan_run [OF less_imp_le [OF assms(2)] stop_def run_def]
  from assms True have "e = ERR_UTF8" "bad = i + utf8_valid_prefix run" "utf8_valid_prefix run \<noteq> length run"
    using s(5) by (auto simp: decode_step_def Let_def stop_def run_def split: if_splits)
  with utf8_valid_prefix_le [of run] s show ?thesis by auto
qed

lemma decode_step_not_Stuck: "decode_step bs profile i \<noteq> Stuck"
  by (auto simp: decode_step_def Let_def split: option.splits prod.splits)

lemma decode_loop_outcome:
  "decode_loop bs profile i out \<noteq> Stuck \<and>
   (decode_loop bs profile i out = Fail (e, bad) \<longrightarrow> (e = ERR_SYNTAX \<or> e = ERR_UTF8) \<and> bad < length bs)"
proof (induction bs profile i out rule: decode_loop.induct)
  case (1 bs profile i out)
  show ?case
  proof (cases "i < length bs")
    case False
    then show ?thesis by (subst (1 2) decode_loop.simps) simp
  next
    case True
    show ?thesis
      using True "1.IH" [OF True] decode_step_Fail [OF _ True, of profile e bad] decode_step_not_Stuck
      by (subst (1 2) decode_loop.simps) (auto split: outcome.splits)
  qed
qed

lemma decode_string_Fail:
  "decode_string bs profile = Fail (e, bad) \<Longrightarrow> (e = ERR_SYNTAX \<or> e = ERR_UTF8) \<and> bad < length bs"
  using decode_loop_outcome unfolding decode_string_def by blast

lemma decode_string_not_Stuck [simp]: "decode_string bs profile \<noteq> Stuck"
  using decode_loop_outcome unfolding decode_string_def by blast

section \<open>What the decoded bytes are\<close>

lemma utf8_text_append: "utf8_text xs \<Longrightarrow> utf8_text ys \<Longrightarrow> utf8_text (xs @ ys)"
  by (metis list_all_append utf8_encode_simps(3) utf8_text_def)

lemma utf8_text_enc: "scalar_value cp \<Longrightarrow> utf8_text (utf8_enc cp)"
  by (auto simp: utf8_text_def intro: exI [of _ "[cp]"])

lemma utf8_text_ascii: "(\<forall>b \<in> set bs. unat b < 0x80) \<Longrightarrow> utf8_text bs"
proof (induction bs)
  case Nil
  show ?case by (auto simp: utf8_text_def intro: exI [of _ "[]"])
next
  case (Cons b bs)
  have "utf8_text (utf8_enc (unat b))"
    using Cons.prems by (intro utf8_text_enc) (auto simp: scalar_value_def)
  then have "utf8_text [b]" using Cons.prems by (simp add: utf8_enc_single)
  then show ?case using Cons utf8_text_append [of "[b]" bs] by simp
qed

lemma short_escapes_ascii: "(e, c) \<in> short_escapes \<Longrightarrow> unat c < 0x80 \<and> c \<noteq> 0"
  by (auto simp: short_escapes_def)

lemma string_content_utf8: "string_content raw out \<Longrightarrow> utf8_text out"
proof (induction rule: string_content.induct)
  case sc_end
  show ?case using utf8_text_ascii [of "[]"] by simp
next
  case (sc_char cp raw out)
  then show ?case by (blast intro: utf8_text_append utf8_text_enc)
next
  case (sc_short e c raw out)
  then show ?case
    using utf8_text_append [OF utf8_text_ascii [of "[c]"]] short_escapes_ascii by force
next
  case (sc_unicode es v raw out)
  then show ?case using unicode_escape_scalar by (blast intro: utf8_text_append utf8_text_enc)
qed

lemma utf8_enc_no_NUL: "scalar_value cp \<Longrightarrow> cp \<noteq> 0 \<Longrightarrow> 0 \<notin> set (utf8_enc cp)"
  using utf8_enc_ascii [of cp 0] by auto

lemma string_content_no_NUL: "string_content raw out \<Longrightarrow> 0 \<notin> set raw \<Longrightarrow> 0 \<notin> set out"
  by (induction rule: string_content.induct)
    (auto dest: short_escapes_ascii unicode_escape_scalar utf8_enc_no_NUL)

lemma unicode_escape_length: "unicode_escape es v \<Longrightarrow> 4 \<le> length es"
  by (induction rule: unicode_escape.induct) (auto dest: hex4_length)

lemma string_content_length: "string_content raw out \<Longrightarrow> length out \<le> length raw"
proof (induction rule: string_content.induct)
  case (sc_unicode es v raw out)
  then show ?case using unicode_escape_length [OF sc_unicode.hyps(1)] utf8_enc_length [of v] by simp
qed auto

lemma decode_string_length: "decode_string bs profile = Ret out \<Longrightarrow> length out \<le> length bs"
  by (cases "profile = CONTRACT_ASCII")
    (auto simp: decode_string_content decode_string_ascii dest: string_content_length)

lemma decode_string_utf8: "decode_string bs profile = Ret out \<Longrightarrow> utf8_text out"
proof (cases "profile = CONTRACT_ASCII")
  case True
  assume "decode_string bs profile = Ret out"
  with True have "\<forall>b \<in> set out. b \<le> 0x7e" by (auto simp: decode_string_ascii)
  then show ?thesis by (intro utf8_text_ascii) (auto simp: word_le_nat_alt)
qed (auto simp: decode_string_content dest: string_content_utf8)

lemma decode_string_no_NUL: "decode_string bs profile = Ret out \<Longrightarrow> 0 \<notin> set bs \<Longrightarrow> 0 \<notin> set out"
  by (cases "profile = CONTRACT_ASCII")
    (auto simp: decode_string_content decode_string_ascii dest: string_content_no_NUL)

section \<open>The canonical spelling of a byte decodes to it\<close>

lemma canonical_escape_plain: "0x20 \<le> b \<Longrightarrow> b \<noteq> QUOTE \<Longrightarrow> b \<noteq> BACKSLASH \<Longrightarrow> canonical_escape b = [b]"
  by (auto simp: canonical_escape_def)

lemma hex_nat_digit: "n < 16 \<Longrightarrow> hex_nat (hex_digit n) = Some n"
proof -
  assume "n < 16"
  moreover have "\<forall>n \<in> set [0..<16]. hex_nat (hex_digit n) = Some n" by code_simp
  ultimately show ?thesis by simp
qed

lemma canonical_escape_control:
  assumes "b < 0x20" "b \<notin> {BS, FF, LF, CR, TAB}"
  shows "\<exists>es. canonical_escape b = BACKSLASH # 0x75 # es \<and> hex4 es (unat b)"
proof -
  have u: "unat b < 32" using assms(1) by (simp add: word_less_nat_alt)
  have d: "unat (drop_bit 4 b AND 0xf) = unat b div 16" "unat (b AND 0xf) = unat b mod 16"
    using u by (simp_all add: unat_and_low unat_drop_bit)
  have "hex_nat (hex_digit (unat b div 16)) = Some (unat b div 16)"
    "hex_nat (hex_digit (unat b mod 16)) = Some (unat b mod 16)"
    using u by (intro hex_nat_digit; simp)+
  moreover have "hex_nat 0x30 = Some 0" by (simp add: hex_nat_def)
  ultimately have "hex4 [0x30, 0x30, hex_digit (unat b div 16), hex_digit (unat b mod 16)] (unat b)"
    by (auto simp: hex4_def)
  with assms show ?thesis
    unfolding canonical_escape_def d by (auto simp: not_le word_less_nat_alt)
qed

lemma canonical_escape_short:
  "b \<in> {QUOTE, BACKSLASH, BS, FF, LF, CR, TAB} \<Longrightarrow>
    \<exists>e. (e, b) \<in> short_escapes \<and> canonical_escape b = [BACKSLASH, e]"
  by (elim insertE emptyE) (simp_all add: canonical_escape_def short_escapes_def)

lemma string_content_canonical_byte:
  assumes "string_content raw out" "unat b < 0x80" "b \<noteq> 0"
  shows "string_content (canonical_escape b @ raw) (b # out)"
proof -
  consider (short) e where "(e, b) \<in> short_escapes" "canonical_escape b = [BACKSLASH, e]"
    | (control) "b < 0x20" "b \<notin> {BS, FF, LF, CR, TAB}"
    | (plain) "0x20 \<le> b" "b \<noteq> QUOTE" "b \<noteq> BACKSLASH"
  proof (cases "b \<in> {QUOTE, BACKSLASH, BS, FF, LF, CR, TAB}")
    case True
    then show thesis using canonical_escape_short short by blast
  next
    case False
    then show thesis using control plain by (cases "b < 0x20") (simp_all add: not_less)
  qed
  then show ?thesis
  proof cases
    case short
    then show ?thesis using sc_short [OF short(1) assms(1)] by simp
  next
    case control
    then obtain es where es: "canonical_escape b = BACKSLASH # 0x75 # es" "hex4 es (unat b)"
      using canonical_escape_control by blast
    have "unat b < 32" "unat b \<noteq> 0"
      using control(1) assms(3) by (auto simp: word_less_nat_alt unat_eq_0)
    then have "unicode_escape es (unat b)" "utf8_enc (unat b) = [b]"
      using es(2) by (auto intro: unicode_escape.single simp: utf8_enc_single)
    then show ?thesis using sc_unicode [OF _ assms(1), of es "unat b"] es(1) by simp
  next
    case plain
    have "unat b \<noteq> 0x5c" using plain(3) by (simp add: word_unat_eq_iff)
    then show ?thesis
      using sc_char [of "unat b", OF _ _ assms(1)] assms(2) plain
      by (simp add: canonical_escape_plain utf8_enc_single scalar_value_def)
  qed
qed

lemma utf8_enc_high:
  assumes "scalar_value cp" "0x80 \<le> cp" "b \<in> set (utf8_enc cp)"
  shows "0x80 \<le> b"
  using utf8_enc_ascii [OF assms(1,3)] assms(2)
  by (cases "unat b < 0x80") (auto simp: word_le_nat_alt not_less)

lemma canonical_escape_high:
  assumes "0x80 \<le> b"
  shows "canonical_escape b = [b]"
proof (rule canonical_escape_plain)
  show "0x20 \<le> b" "b \<noteq> QUOTE" "b \<noteq> BACKSLASH" using assms by (auto simp: word_le_nat_alt)
qed

lemma concat_map_singleton: "(\<forall>b \<in> set bs. f b = [b]) \<Longrightarrow> concat (map f bs) = bs"
  by (induction bs) auto

definition canonical_text :: "bytes \<Rightarrow> bytes" where
  "canonical_text bs = concat (map canonical_escape bs)"

lemma string_content_canonical:
  assumes "list_all scalar_value cps" "0 \<notin> set cps"
  shows "string_content (canonical_text (utf8_encode cps)) (utf8_encode cps)"
  using assms
proof (induction cps)
  case Nil
  show ?case by (simp add: canonical_text_def)
next
  case (Cons cp cps)
  then have IH: "string_content (canonical_text (utf8_encode cps)) (utf8_encode cps)" by simp
  show ?case
  proof (cases "cp < 0x80")
    case True
    then have "unat (of_nat cp :: byte) = cp" by (simp add: unat_of_nat_byte)
    moreover from this have "(of_nat cp :: byte) \<noteq> 0" using Cons.prems(2) by auto
    ultimately show ?thesis
      using string_content_canonical_byte [OF IH, of "of_nat cp"] True
      by (simp add: canonical_text_def utf8_enc_single)
  next
    case False
    then have "concat (map canonical_escape (utf8_enc cp)) = utf8_enc cp"
      using Cons.prems(1) utf8_enc_high canonical_escape_high
      by (intro concat_map_singleton) auto
    then show ?thesis
      using sc_char [of cp, OF _ _ IH] Cons.prems(1) False by (simp add: canonical_text_def)
  qed
qed

lemma utf8_encode_no_NUL:
  "list_all scalar_value cps \<Longrightarrow> 0 \<notin> set (utf8_encode cps) \<Longrightarrow> 0 \<notin> set cps"
  by (induction cps) (fastforce simp: utf8_enc_single)+

lemma decode_canonical_text:
  assumes "utf8_text bs" "0 \<notin> set bs" "profile \<noteq> CONTRACT_ASCII"
  shows "decode_string (canonical_text bs) profile = Ret bs"
proof -
  obtain cps where "list_all scalar_value cps" "bs = utf8_encode cps"
    using assms(1) by (auto simp: utf8_text_def)
  with assms utf8_encode_no_NUL string_content_canonical show ?thesis
    by (auto simp: decode_string_content)
qed

end
