(* ===== verification/Utf16.thy ===== *)
theory Utf16
  imports Utf8_Correct "HOL-Library.List_Lexorder"
begin

text \<open>
  \<open>maelys_json_utf16_compare\<close>: the streaming comparison of two UTF-8 texts is the lexicographic
  order of their UTF-16 code units (RFC 8785, section 3.2.3), hence a total order on texts, whose
  ties are equal texts.
\<close>

unbundle bit_operations_syntax

section \<open>Code units\<close>

definition utf16_of_point :: "nat \<Rightarrow> nat list" where
  "utf16_of_point cp =
     (if cp < 0x10000 then [cp]
      else [0xd800 + (cp - 0x10000) div 1024, 0xdc00 + (cp - 0x10000) mod 1024])"

definition utf16_units :: "nat list \<Rightarrow> nat list" where
  "utf16_units cps = concat (map utf16_of_point cps)"

lemma utf16_units_simps [simp]:
  "utf16_units [] = []" "utf16_units (cp # cps) = utf16_of_point cp @ utf16_units cps"
  by (simp_all add: utf16_units_def)

text \<open>The sign of a lexicographic comparison.\<close>

definition lex_sign :: "nat list \<Rightarrow> nat list \<Rightarrow> int" where
  "lex_sign us vs = (if us < vs then -1 else if us = vs then 0 else 1)"

lemma lex_sign_simps [simp]:
  "lex_sign [] [] = 0" "lex_sign (u # us) [] = 1" "lex_sign [] (v # vs) = -1"
  "lex_sign (u # us) (v # vs) = (if u < v then -1 else if v < u then 1 else lex_sign us vs)"
  by (auto simp: lex_sign_def)

section \<open>Texts determine their code points\<close>

lemma utf8_encode_inj:
  assumes "list_all scalar_value cps" "list_all scalar_value cps'" "utf8_encode cps = utf8_encode cps'"
  shows "cps = cps'"
  using assms
proof (induction cps arbitrary: cps')
  case Nil
  then show ?case by (cases cps') (auto simp: utf8_enc_nonempty)
next
  case (Cons cp cps)
  then obtain cp' r where c: "cps' = cp' # r" by (cases cps') auto
  have s: "scalar_value cp" "scalar_value cp'" using Cons.prems(1,2) c by simp_all
  have same: "utf8_enc cp @ utf8_encode cps = utf8_enc cp' @ utf8_encode r" using Cons.prems(3) c by simp
  have "Some (of_nat cp :: u32, length (utf8_enc cp)) = Some (of_nat cp', length (utf8_enc cp'))"
    unfolding utf8_decode_enc [OF s(1), of "utf8_encode cps", symmetric]
      utf8_decode_enc [OF s(2), of "utf8_encode r", symmetric] same ..
  then have e: "unat (of_nat cp :: u32) = unat (of_nat cp' :: u32)" by simp
  have "cp < 4294967296" "cp' < 4294967296" using s by (auto simp: scalar_value_def)
  with e have eq: "cp = cp'" by (simp add: unat_of_nat)
  with same have "utf8_encode cps = utf8_encode r" by simp
  with Cons.IH [of r] Cons.prems(1,2) c eq show ?case by simp
qed

lemma utf16_of_point_shape:
  assumes "scalar_value cp"
  shows "cp < 0x10000 \<and> utf16_of_point cp = [cp] \<and> (cp < 0xd800 \<or> 0xdfff < cp) \<or>
    (\<exists>hi lo. 0x10000 \<le> cp \<and> utf16_of_point cp = [hi, lo] \<and> 0xd800 \<le> hi \<and> hi \<le> 0xdbff \<and>
       0xdc00 \<le> lo \<and> lo \<le> 0xdfff \<and> cp = 0x10000 + (hi - 0xd800) * 1024 + (lo - 0xdc00))"
proof (cases "cp < 0x10000")
  case True
  with assms show ?thesis by (auto simp: utf16_of_point_def scalar_value_def)
next
  case False
  then have "(cp - 0x10000) div 1024 < 1024"
    using assms by (auto simp: scalar_value_def)
  moreover have "(cp - 0x10000) mod 1024 < 1024" by simp
  moreover have "cp = 0x10000 + (cp - 0x10000) div 1024 * 1024 + (cp - 0x10000) mod 1024"
    using False by simp
  ultimately show ?thesis
    using False
    by (intro disjI2 exI [of _ "0xd800 + (cp - 0x10000) div 1024"]
        exI [of _ "0xdc00 + (cp - 0x10000) mod 1024"]) (auto simp: utf16_of_point_def)
qed

lemma utf16_of_point_nonempty: "utf16_of_point cp \<noteq> []"
  by (simp add: utf16_of_point_def)

lemma utf16_units_inj:
  assumes "list_all scalar_value cps" "list_all scalar_value cps'" "utf16_units cps = utf16_units cps'"
  shows "cps = cps'"
  using assms
proof (induction cps arbitrary: cps')
  case Nil
  then show ?case by (cases cps') (auto simp: utf16_of_point_nonempty)
next
  case (Cons cp cps)
  then obtain cp' r where c: "cps' = cp' # r" by (cases cps') (auto simp: utf16_of_point_nonempty)
  have s: "scalar_value cp" "scalar_value cp'" using Cons.prems c by auto
  have "cp = cp' \<and> utf16_units cps = utf16_units r"
    using utf16_of_point_shape [OF s(1)] utf16_of_point_shape [OF s(2)] Cons.prems(3)
    unfolding c by auto
  with Cons c show ?case by auto
qed

section \<open>The cursor\<close>

text \<open>The code units a cursor still has to deliver.\<close>

definition cursor_units :: "utf16_cursor \<Rightarrow> nat list \<Rightarrow> bool" where
  "cursor_units c us \<longleftrightarrow>
     (\<exists>cps. list_all scalar_value cps \<and> drop (uc_offset c) (uc_bytes c) = utf8_encode cps \<and>
        us = (if pending_low_surrogate c \<noteq> 0 then [unat (pending_low_surrogate c)] else []) @
          utf16_units cps)"

lemma surrogate_words:
  assumes "0x10000 \<le> cp" "cp < 0x110000"
  shows "unat (0xd800 + drop_bit 10 (of_nat cp - 0x10000) :: u32) = 0xd800 + (cp - 0x10000) div 1024"
    "unat (0xdc00 + (of_nat cp - 0x10000 AND 0x3ff) :: u32) = 0xdc00 + (cp - 0x10000) mod 1024"
proof -
  have "of_nat cp - 0x10000 = (of_nat (cp - 0x10000) :: u32)"
    using assms by (simp add: of_nat_diff)
  moreover have "unat (of_nat (cp - 0x10000) :: u32) = cp - 0x10000"
    using assms by (simp only: unat_of_nat) simp
  ultimately have p: "unat (of_nat cp - 0x10000 :: u32) = cp - 0x10000" by simp
  have "(cp - 0x10000) div 1024 < 1024" using assms by auto
  then show "unat (0xd800 + drop_bit 10 (of_nat cp - 0x10000) :: u32) = 0xd800 + (cp - 0x10000) div 1024"
    by (simp only: unat_word_ariths unat_drop_bit p) simp
  have "(cp - 0x10000) mod 1024 < 1024" by simp
  then show "unat (0xdc00 + (of_nat cp - 0x10000 AND 0x3ff) :: u32) = 0xdc00 + (cp - 0x10000) mod 1024"
    by (simp only: unat_word_ariths unat_and_low p) simp
qed

lemma utf16_next_end:
  assumes "cursor_units c []"
  shows "utf16_next c = Some (None, c)"
proof -
  from assms obtain cps where "pending_low_surrogate c = 0" "utf16_units cps = []"
    "drop (uc_offset c) (uc_bytes c) = utf8_encode cps"
    by (auto simp: cursor_units_def split: if_splits)
  then have "drop (uc_offset c) (uc_bytes c) = []"
    by (cases cps) (auto simp: utf16_of_point_nonempty)
  with \<open>pending_low_surrogate c = 0\<close> show ?thesis by (simp add: utf16_next_def)
qed

lemma utf16_next_unit:
  assumes "cursor_units c (u # us)"
  shows "\<exists>w c'. utf16_next c = Some (Some w, c') \<and> unat w = u \<and> cursor_units c' us"
proof (cases "pending_low_surrogate c = 0")
  case False
  with assms show ?thesis by (auto simp: utf16_next_def cursor_units_def)
next
  case True
  with assms obtain cps0 where c0: "list_all scalar_value cps0"
    "drop (uc_offset c) (uc_bytes c) = utf8_encode cps0" "u # us = utf16_units cps0"
    by (auto simp: cursor_units_def)
  then obtain cp cps where "cps0 = cp # cps" by (cases cps0) auto
  with c0 have c: "scalar_value cp" "list_all scalar_value cps"
    "drop (uc_offset c) (uc_bytes c) = utf8_enc cp @ utf8_encode cps"
    "u # us = utf16_of_point cp @ utf16_units cps"
    by simp_all
  let ?n = "length (utf8_enc cp)"
  have lt: "uc_offset c < length (uc_bytes c)"
    using c(3) drop_prefix_nth(1) [OF c(3), of 0] by simp
  have dr: "drop (uc_offset c + ?n) (uc_bytes c) = utf8_encode cps"
    using c(3) by (metis add.commute append_eq_conv_conj drop_drop)
  have dec: "utf8_decode (drop (uc_offset c) (uc_bytes c)) = Some (of_nat cp, ?n)"
    using c(1,3) by (simp add: utf8_decode_enc)
  have b: "cp < 0x110000" using c(1) by (auto simp: scalar_value_def)
  then have cp: "unat (of_nat cp :: u32) = cp" by (simp only: unat_of_nat) simp
  show ?thesis
  proof (cases "cp < 0x10000")
    case bmp: True
    with cp have "\<not> (of_nat cp :: u32) \<ge> 0x10000" by (simp add: byte_order)
    with True lt dec have "utf16_next c = Some (Some (of_nat cp), c\<lparr>uc_offset := uc_offset c + ?n\<rparr>)"
      by (simp add: utf16_next_def)
    with bmp c dr cp True show ?thesis by (auto simp: cursor_units_def utf16_of_point_def)
  next
    case False
    with cp have ge: "(of_nat cp :: u32) \<ge> 0x10000" by (simp add: byte_order)
    let ?hi = "0xd800 + drop_bit 10 (of_nat cp - 0x10000) :: u32"
    let ?lo = "0xdc00 + (of_nat cp - 0x10000 AND 0x3ff) :: u32"
    have n: "utf16_next c = Some (Some ?hi,
        c\<lparr>uc_offset := uc_offset c + ?n, pending_low_surrogate := ?lo\<rparr>)"
      using True lt dec ge by (simp add: utf16_next_def Let_def)
    note sw = surrogate_words [OF _ b]
    have "?lo \<noteq> 0" using sw(2) False by (metis add_is_0 not_le unat_0 zero_neq_numeral)
    with False c dr sw have "cursor_units (c\<lparr>uc_offset := uc_offset c + ?n, pending_low_surrogate := ?lo\<rparr>) us"
      by (auto simp: cursor_units_def utf16_of_point_def)
    with n sw(1) False c(4) show ?thesis by (auto simp: utf16_of_point_def)
  qed
qed

lemma utf16_compare_loop_units:
  "cursor_units a us \<Longrightarrow> cursor_units b vs \<Longrightarrow> utf16_compare_loop a b = Some (lex_sign us vs)"
proof (induction us arbitrary: vs a b)
  case Nil
  show ?case
  proof (cases vs)
    case Nil
    with Nil.prems show ?thesis
      by (subst utf16_compare_loop.simps) (simp add: utf16_next_end)
  next
    case (Cons v vs')
    with Nil.prems utf16_next_unit [of b v vs'] show ?thesis
      by (subst utf16_compare_loop.simps) (auto simp: utf16_next_end)
  qed
next
  case (Cons u us)
  obtain w a' where a: "utf16_next a = Some (Some w, a')" "unat w = u" "cursor_units a' us"
    using utf16_next_unit [OF Cons.prems(1)] by blast
  show ?case
  proof (cases vs)
    case Nil
    with Cons.prems a show ?thesis
      by (subst utf16_compare_loop.simps) (simp add: utf16_next_end)
  next
    case (Cons v vs')
    obtain x b' where b: "utf16_next b = Some (Some x, b')" "unat x = v" "cursor_units b' vs'"
      using utf16_next_unit [of b v vs'] Cons.prems(2) Cons by blast
    have "utf16_compare_loop a' b' = Some (lex_sign us vs')"
      using Cons.IH a(3) b(3) by blast
    with Cons a b show ?thesis
      by (subst utf16_compare_loop.simps) (auto simp: byte_order)
  qed
qed

lemma utf16_compare_units:
  assumes "list_all scalar_value l" "list_all scalar_value r"
  shows "utf16_compare (utf8_encode l) (utf8_encode r) = Some (lex_sign (utf16_units l) (utf16_units r))"
  unfolding utf16_compare_def
  using assms by (intro utf16_compare_loop_units) (auto simp: cursor_units_def)

section \<open>A total order on texts\<close>

definition key_le :: "bytes \<Rightarrow> bytes \<Rightarrow> bool" where
  "key_le a b \<longleftrightarrow> (case utf16_compare a b of Some r \<Rightarrow> r \<le> 0 | None \<Rightarrow> False)"

lemma key_le_units:
  "list_all scalar_value l \<Longrightarrow> list_all scalar_value r \<Longrightarrow>
    key_le (utf8_encode l) (utf8_encode r) \<longleftrightarrow> utf16_units l \<le> utf16_units r"
  by (auto simp: key_le_def utf16_compare_units lex_sign_def)

lemma key_le_total: "utf8_text a \<Longrightarrow> utf8_text b \<Longrightarrow> key_le a b \<or> key_le b a"
  by (auto simp: utf8_text_def key_le_units)

lemma key_le_trans:
  "utf8_text a \<Longrightarrow> utf8_text b \<Longrightarrow> utf8_text c \<Longrightarrow> key_le a b \<Longrightarrow> key_le b c \<Longrightarrow> key_le a c"
  by (auto simp: utf8_text_def key_le_units)

lemma key_le_antisym: "utf8_text a \<Longrightarrow> utf8_text b \<Longrightarrow> key_le a b \<Longrightarrow> key_le b a \<Longrightarrow> a = b"
  by (metis antisym key_le_units utf16_units_inj utf8_text_def)

lemma key_le_refl: "utf8_text a \<Longrightarrow> key_le a a"
  using key_le_total by blast

lemma utf16_compare_text:
  assumes "utf8_text a" "utf8_text b"
  shows "utf16_compare a b = Some (if a = b then 0 else if key_le a b then -1 else 1)"
proof -
  obtain l r where lr: "list_all scalar_value l" "a = utf8_encode l"
    "list_all scalar_value r" "b = utf8_encode r"
    using assms by (auto simp: utf8_text_def)
  then have "utf16_units l = utf16_units r \<longleftrightarrow> a = b" using utf16_units_inj utf8_encode_inj by metis
  with lr show ?thesis
    by (auto simp: utf16_compare_units key_le_units lex_sign_def)
qed

end
