(* ===== verification/Text_Props.thy ===== *)
theory Text_Props
  imports Utf8_Strings Utf16
begin

text \<open>
  The properties of the text layer: \<^verbatim>\<open>src/common.c\<close> and \<^verbatim>\<open>src/utf8.c\<close>, each with a witness
  that applies it to a concrete input.
\<close>

section \<open>String literals\<close>

text \<open>C29: decoding the canonical escapes of a text gives the text back. Every byte string that is
  valid UTF-8 without a NUL, written byte by byte with \<open>maelys_json_canonical_escape\<close> (the two-byte
  short escapes, \<open>\u00xx\<close> for the other controls, all else as it is), is decoded by
  \<open>maelys_json_decode_string\<close> under both RFC 8259 profiles to exactly that byte string.\<close>

theorem canonical_escape_roundtrip:
  assumes "utf8_validate bs" "0 \<notin> set bs" "profile \<in> {RFC8259, RFC8259_LAST_WINS}"
  shows "decode_string (concat (map canonical_escape bs)) profile = Ret bs"
  using assms decode_canonical_text [of bs profile]
  by (auto simp: utf8_validate_iff canonical_text_def)

theorem canonical_escape_roundtrip_witness:
  "decode_string (concat (map canonical_escape [0x61, 0x22, 0x0a, 0x1f, 0xc3, 0xa9])) RFC8259 =
     Ret [0x61, 0x22, 0x0a, 0x1f, 0xc3, 0xa9]"
  by (rule canonical_escape_roundtrip) (code_simp, simp, simp)

text \<open>C30: under the RFC 8259 profiles \<open>maelys_json_decode_string\<close> accepts exactly the string
  contents of the grammar and returns exactly their meaning: well-formed UTF-8 other than the
  backslash stands for itself, the eight short escapes for their character, \<open>\u\<close> with four hex
  digits of either case for the UTF-8 encoding of the code point (no lone surrogate, no U+0000),
  and a surrogate pair of two escapes for the supplementary code point.\<close>

theorem decode_string_grammar:
  assumes "profile \<in> {RFC8259, RFC8259_LAST_WINS}"
  shows "decode_string bs profile = Ret out \<longleftrightarrow> string_content bs out"
  using assms by (intro decode_string_content) auto

theorem decode_string_grammar_witness:
  "decode_string [0x5c, 0x75, 0x44, 0x38, 0x33, 0x64, 0x5c, 0x75, 0x64, 0x65, 0x30, 0x30] RFC8259 =
     Ret [0xf0, 0x9f, 0x98, 0x80] \<and>
   string_content [0x5c, 0x75, 0x44, 0x38, 0x33, 0x64, 0x5c, 0x75, 0x64, 0x65, 0x30, 0x30]
     [0xf0, 0x9f, 0x98, 0x80]"
proof -
  have "decode_string [0x5c, 0x75, 0x44, 0x38, 0x33, 0x64, 0x5c, 0x75, 0x64, 0x65, 0x30, 0x30] RFC8259 =
     Ret [0xf0, 0x9f, 0x98, 0x80]" by code_simp
  then show ?thesis using decode_string_grammar [of RFC8259] by blast
qed

text \<open>C31: \<open>maelys_json_decode_string\<close> always ends with a text or a failure, in every profile. A
  failure is SYNTAX or UTF8 at an offset inside the input. A text is valid UTF-8, no longer than
  the input (so it fits the arena with its NUL), and has no NUL when the input has none; under
  the contract profile it is the input itself, all printable ASCII without a backslash.\<close>

theorem decode_string_ends:
  "case decode_string bs profile of
     Ret out \<Rightarrow> utf8_validate out \<and> length out \<le> length bs \<and> (0 \<in> set out \<longrightarrow> 0 \<in> set bs) \<and>
       (profile = CONTRACT_ASCII \<longrightarrow>
          out = bs \<and> (\<forall>b \<in> set bs. 0x20 \<le> b \<and> b \<le> 0x7e \<and> b \<noteq> BACKSLASH))
   | Fail (code, bad) \<Rightarrow> (code = ERR_SYNTAX \<or> code = ERR_UTF8) \<and> bad < length bs
   | Stuck \<Rightarrow> False"
proof (cases "decode_string bs profile")
  case (Ret out)
  then show ?thesis
    using decode_string_utf8 [OF Ret] decode_string_length [OF Ret] decode_string_no_NUL [OF Ret]
      decode_string_ascii [of bs out]
    by (auto simp: utf8_validate_iff)
next
  case (Fail e)
  then show ?thesis using decode_string_Fail [of bs profile] by (cases e) auto
qed simp

theorem decode_string_ends_witness:
  "\<exists>bad. decode_string [0x61, 0x5c, 0x78] RFC8259 = Fail (ERR_SYNTAX, bad) \<and> bad < 3"
proof -
  have "decode_string [0x61, 0x5c, 0x78] RFC8259 = Fail (ERR_SYNTAX, 1)" by code_simp
  with decode_string_ends [of "[0x61, 0x5c, 0x78]" RFC8259] show ?thesis by simp
qed

section \<open>UTF-8 and UTF-16\<close>

text \<open>C32: \<open>maelys_json_utf8_validate\<close> accepts exactly the UTF-8 encodings of sequences of Unicode
  scalar values: overlong forms, surrogates, code points past U+10FFFF and truncated sequences are
  refused, and the offset \<open>utf8_valid_prefix\<close> reports is the longest valid prefix.\<close>

theorem utf8_validate_exact:
  "(utf8_validate bs \<longleftrightarrow> (\<exists>cps. list_all scalar_value cps \<and> bs = utf8_encode cps)) \<and>
   utf8_validate (take (utf8_valid_prefix bs) bs) \<and>
   (\<forall>n \<le> length bs. utf8_validate (take n bs) \<longrightarrow> n \<le> utf8_valid_prefix bs)"
  using utf8_valid_prefix_text utf8_valid_prefix_longest
  by (auto simp: utf8_validate_iff utf8_text_def)

theorem utf8_validate_exact_witness:
  "utf8_valid_prefix [0x41, 0xed, 0xa0, 0x80] = 1 \<and> utf8_validate (take 1 [0x41, 0xed, 0xa0, 0x80])"
proof -
  have "utf8_valid_prefix [0x41, 0xed, 0xa0, 0x80] = 1" by code_simp
  with utf8_validate_exact [of "[0x41, 0xed, 0xa0, 0x80]"] show ?thesis by metis
qed

text \<open>\<open>encode_utf8\<close> and \<open>maelys_json_utf8_decode\<close> are inverse on the scalar values: what
  follows the encoding is left alone, and the number of bytes consumed is the number written.\<close>

theorem utf8_code_point_roundtrip:
  assumes "scalar_value (unat p)"
  shows "utf8_decode (encode_utf8 p @ rest) = Some (p, length (encode_utf8 p))"
  using assms encode_utf8_enc [of p] utf8_decode_enc [OF assms, of rest]
  by (auto simp: scalar_value_def)

theorem utf8_code_point_roundtrip_witness:
  "utf8_decode (encode_utf8 0x1f600 @ [0x41]) = Some (0x1f600, length (encode_utf8 0x1f600))"
  by (rule utf8_code_point_roundtrip) (simp add: scalar_value_def)

text \<open>C33: \<open>maelys_json_utf16_compare\<close> orders keys as RFC 8785 section 3.2.3 asks: for two valid
  UTF-8 strings it returns -1, 0 or 1 as the UTF-16 code units of the first are lexicographically
  less than, equal to, or greater than those of the second; no decoder assertion fails.\<close>

theorem utf16_compare_order:
  assumes "list_all scalar_value l" "list_all scalar_value r"
  shows "utf16_compare (utf8_encode l) (utf8_encode r) =
    Some (if utf16_units l < utf16_units r then -1 else if utf16_units l = utf16_units r then 0 else 1)"
  using utf16_compare_units [OF assms] by (simp add: lex_sign_def)

theorem utf16_compare_order_witness:
  "utf16_compare (utf8_encode [0x1f600]) (utf8_encode [0xfb33]) = Some (-1)"
  by (subst utf16_compare_order)
    (simp_all add: scalar_value_def utf16_of_point_def)

section \<open>Numbers, limits and positions\<close>

text \<open>C34: \<open>maelys_json_number_syntax\<close> accepts exactly the number production of RFC 8259 section 6:
  an optional minus, an integer part without leading zeros, an optional fraction and an optional
  exponent, and nothing after it.\<close>

theorem number_syntax_exact: "number_syntax bs \<longleftrightarrow> json_number bs"
  by (rule number_syntax_grammar)

text \<open>\<open>maelys_json_limits_resolve\<close> replaces missing limits by the defaults and returns positive
  limits that keep the size arithmetic of the parser inside \<open>size_t\<close>: the nesting is at most 256,
  \<open>2 * bytes + 2\<close> does not wrap, and neither does \<open>tokens * 256\<close>. Everything else is refused with
  ARGUMENT, and resolving resolved limits changes nothing.\<close>

theorem limits_resolve_safe:
  "case limits_resolve requested of
     Ret l \<Rightarrow>
       l = limits_or_default requested \<and> 0 < maximum_bytes l \<and> 0 < maximum_tokens l \<and>
       0 < maximum_depth l \<and> maximum_depth l \<le> 256 \<and> 2 * maximum_bytes l + 2 \<le> SIZE_MAX \<and>
       maximum_tokens l * 256 \<le> SIZE_MAX \<and> limits_resolve (Some l) = Ret l
   | Fail code \<Rightarrow> code = ERR_ARGUMENT \<and>
       (let l = limits_or_default requested in
        256 < maximum_depth l \<or> SIZE_MAX < 2 * maximum_bytes l + 2 \<or> SIZE_MAX < maximum_tokens l * 256)
   | Stuck \<Rightarrow> False"
proof (cases "limits_resolve requested")
  case (Ret l)
  have "limits_or_default requested = l \<and> maximum_depth l \<le> MAXIMUM_DEPTH \<and>
      maximum_bytes l < SIZE_MAX div 2 \<and> maximum_tokens l \<le> SIZE_MAX div 256"
    using limits_resolve_Ret_iff [of requested l] Ret by blast
  then show ?thesis
    using limits_resolve_positive [OF Ret] limits_resolve_idem [OF Ret]
    by (simp only: Ret) (simp add: MAXIMUM_DEPTH_def SIZE_MAX_def)
next
  case (Fail e)
  then show ?thesis
    by (auto simp: limits_resolve_def Let_def MAXIMUM_DEPTH_def SIZE_MAX_def split: if_splits)
next
  case Stuck
  then show ?thesis using limits_resolve_not_Stuck by simp
qed

text \<open>\<open>maelys_json_error_set\<close> reports the position of an offset: the offset clamped to the
  size, one more than the number of line feeds before it, and one more than the number of bytes
  since the last of them.\<close>

theorem error_set_position:
  "error_set (Some e) code (Some bs) (length bs) off =
     Some \<lparr>err_code = code, err_offset = min off (length bs),
           err_line = 1 + length (filter (\<lambda>b. b = LF) (take off bs)),
           err_column = 1 + length (takeWhile (\<lambda>b. b \<noteq> LF) (rev (take off bs)))\<rparr>"
  using error_set_some [of e code bs off] by (simp add: line_of_def column_of_def)

end
