(* ===== verification/Keyset.thy ===== *)
theory Keyset
  imports Types
begin

text \<open>
  \<^verbatim>\<open>src/keyset.c\<close>: the set of (parent, key bytes) pairs behind the duplicate-key checks of the
  parser and of the writer, an open-addressing table of node indices.

  The owner's \<open>key_of\<close> callback and its context are one argument \<open>key_of\<close>: the keys of the
  owner's nodes at the time of the call. An unallocated table (\<open>slots == NULL\<close>) is the empty
  list. \<open>find_slot\<close> is a loop that ends only when it meets a free slot or the key; it is given
  as many turns as there are slots, after which it would cycle for ever (\<open>None\<close>).

  The table's invariant \<open>keyset_inv\<close> gives a free slot, distinct keys, and an unbroken probe
  path to every stored index. The lemmas show that lookup is exact, that insertion adds the key,
  reports a duplicate, or replaces the index, and that growing keeps the contents. The locale
  \<open>key_set\<close> is the contract the parser and the writer rely on, interpreted on the table.
\<close>

unbundle bit_operations_syntax

section \<open>Definitions\<close>

record keyset_key =
  k_parent :: nat
  k_bytes :: bytes

record keyset =
  slots :: "nat list"
  ks_capacity :: nat
  ks_count :: nat

definition KEYSET_MINIMUM_CAPACITY :: nat where
  "KEYSET_MINIMUM_CAPACITY = 8"

definition hash_key :: "keyset_key \<Rightarrow> u64" where
  "hash_key key =
     foldl (\<lambda>hash b. (hash XOR ucast b) * 1099511628211)
       (1469598103934665603 XOR of_nat (k_parent key)) (k_bytes key)"

definition keys_equal :: "keyset_key \<Rightarrow> keyset_key \<Rightarrow> bool" where
  "keys_equal a b \<longleftrightarrow>
     k_parent a = k_parent b \<and> length (k_bytes a) = length (k_bytes b) \<and>
     (length (k_bytes a) = 0 \<or> k_bytes a = k_bytes b)"

fun find_slot_loop ::
  "nat \<Rightarrow> (nat \<Rightarrow> keyset_key) \<Rightarrow> nat list \<Rightarrow> nat \<Rightarrow> keyset_key \<Rightarrow> nat \<Rightarrow> (nat \<times> bool) option" where
  "find_slot_loop 0 key_of tbl msk key slot = None"
| "find_slot_loop (Suc turns) key_of tbl msk key slot =
     (let stored = tbl ! slot in
      if stored = VALUE_NONE then Some (slot, False)
      else if keys_equal (key_of stored) key then Some (slot, True)
      else find_slot_loop turns key_of tbl msk key ((slot + 1) AND msk))"

definition find_slot ::
  "(nat \<Rightarrow> keyset_key) \<Rightarrow> nat list \<Rightarrow> nat \<Rightarrow> keyset_key \<Rightarrow> (nat \<times> bool) option" where
  "find_slot key_of tbl capacity key =
     (let msk = capacity - 1
      in find_slot_loop capacity key_of tbl msk key (unat (hash_key key AND of_nat msk)))"

definition allocate_slots :: "nat \<Rightarrow> heap \<Rightarrow> nat list option \<times> heap" where
  "allocate_slots capacity h =
     (case malloc (capacity * SIZEOF_SIZE_T) h of
        (True, h') \<Rightarrow> (Some (replicate capacity VALUE_NONE), h')
      | (False, h') \<Rightarrow> (None, h'))"

function keyset_capacity_loop :: "nat \<Rightarrow> nat \<Rightarrow> nat" where
  "keyset_capacity_loop expected capacity =
     (if capacity < expected * 2 \<and> 0 < capacity
      then keyset_capacity_loop expected (capacity * 2) else capacity)"
  by pat_completeness auto
termination
  by (relation "measure (\<lambda>(expected, capacity). expected * 2 - capacity)") auto

declare keyset_capacity_loop.simps [simp del]

definition keyset_capacity :: "nat \<Rightarrow> nat" where
  "keyset_capacity expected = keyset_capacity_loop expected KEYSET_MINIMUM_CAPACITY"

text \<open>The state of a failed \<open>keyset_init\<close> is returned too: its owner still releases it.\<close>

definition keyset_init :: "nat \<Rightarrow> heap \<Rightarrow> (result, unit) outcome \<times> keyset \<times> heap" where
  "keyset_init expected h =
     (let capacity = keyset_capacity expected;
          empty_set = \<lparr>slots = [], ks_capacity = capacity, ks_count = 0\<rparr>
      in if expected > SIZE_MAX div 4 then (Stuck, empty_set, h)
         else case allocate_slots capacity h of
             (Some tbl, h') \<Rightarrow> (Ret (), empty_set\<lparr>slots := tbl\<rparr>, h')
           | (None, h') \<Rightarrow> (Fail ERR_MEMORY, empty_set, h'))"

definition keyset_release :: "keyset \<Rightarrow> heap \<Rightarrow> keyset \<times> heap" where
  "keyset_release s h =
     (\<lparr>slots = [], ks_capacity = 0, ks_count = 0\<rparr>, mfree (length (slots s) * SIZEOF_SIZE_T) h)"

definition keyset_contains :: "(nat \<Rightarrow> keyset_key) \<Rightarrow> keyset \<Rightarrow> keyset_key \<Rightarrow> bool option" where
  "keyset_contains key_of s key =
     (if slots s = [] then None
      else map_option snd (find_slot key_of (slots s) (ks_capacity s) key))"

text \<open>One turn of the loop of \<open>grow\<close> that moves the stored indices to the new table.\<close>

definition rehash_step ::
  "(nat \<Rightarrow> keyset_key) \<Rightarrow> nat \<Rightarrow> nat \<Rightarrow> nat list option \<Rightarrow> nat list option" where
  "rehash_step key_of capacity stored tbl =
     (case tbl of
        None \<Rightarrow> None
      | Some t \<Rightarrow>
          if stored = VALUE_NONE then Some t
          else case find_slot key_of t capacity (key_of stored) of
              Some (slot, False) \<Rightarrow> Some (t[slot := stored])
            | _ \<Rightarrow> None)"

definition keyset_grow ::
  "(nat \<Rightarrow> keyset_key) \<Rightarrow> keyset \<times> heap \<Rightarrow> (result, unit) outcome \<times> keyset \<times> heap" where
  "keyset_grow key_of st =
     (let (s, h) = st in
      if ks_capacity s > SIZE_MAX div 2 div SIZEOF_SIZE_T then (Fail ERR_MEMORY, s, h)
      else
        let capacity = ks_capacity s * 2 in
        case allocate_slots capacity h of
          (None, h') \<Rightarrow> (Fail ERR_MEMORY, s, h')
        | (Some fresh, h') \<Rightarrow>
            (case fold (rehash_step key_of capacity) (take (ks_capacity s) (slots s)) (Some fresh) of
               None \<Rightarrow> (Stuck, s, h')
             | Some tbl \<Rightarrow>
                 (Ret (), s\<lparr>slots := tbl, ks_capacity := capacity\<rparr>,
                  mfree (length (slots s) * SIZEOF_SIZE_T) h')))"

text \<open>
  The static \<open>insert\<close>; \<open>replace\<close> is whether \<open>previous\<close> is not NULL. The value returned is what
  is stored there: the replaced index, or \<open>VALUE_NONE\<close> for a new key.
\<close>

definition keyset_insert_with ::
  "bool \<Rightarrow> (nat \<Rightarrow> keyset_key) \<Rightarrow> nat \<Rightarrow> keyset \<times> heap \<Rightarrow> (result, nat) outcome \<times> keyset \<times> heap" where
  "keyset_insert_with replace key_of index st =
     (let (s, h) = st; key = key_of index in
      if slots s = [] \<or> index = VALUE_NONE then (Stuck, s, h)
      else case find_slot key_of (slots s) (ks_capacity s) key of
        None \<Rightarrow> (Stuck, s, h)
      | Some (slot, found) \<Rightarrow>
          if found then
            (if replace then (Ret (slots s ! slot), s\<lparr>slots := (slots s)[slot := index]\<rparr>, h)
             else (Fail ERR_DUPLICATE_KEY, s, h))
          else if (ks_count s + 1) * 2 > ks_capacity s then
            andthen (keyset_grow key_of (s, h)) (\<lambda>_ (s, h).
              case find_slot key_of (slots s) (ks_capacity s) key of
                Some (slot, False) \<Rightarrow>
                  (Ret VALUE_NONE,
                   s\<lparr>slots := (slots s)[slot := index], ks_count := ks_count s + 1\<rparr>, h)
              | _ \<Rightarrow> (Stuck, s, h))
          else
            (Ret VALUE_NONE, s\<lparr>slots := (slots s)[slot := index], ks_count := ks_count s + 1\<rparr>, h))"

definition keyset_insert ::
  "(nat \<Rightarrow> keyset_key) \<Rightarrow> nat \<Rightarrow> keyset \<times> heap \<Rightarrow> (result, nat) outcome \<times> keyset \<times> heap" where
  "keyset_insert = keyset_insert_with False"

definition keyset_insert_last ::
  "(nat \<Rightarrow> keyset_key) \<Rightarrow> nat \<Rightarrow> keyset \<times> heap \<Rightarrow> (result, nat) outcome \<times> keyset \<times> heap" where
  "keyset_insert_last = keyset_insert_with True"

section \<open>Capacity\<close>

lemma keyset_capacity_loop_spec:
  assumes "0 < c"
  shows "\<exists>k. keyset_capacity_loop expected c = c * 2 ^ k \<and> expected * 2 \<le> c * 2 ^ k \<and>
    (k = 0 \<or> c * 2 ^ k < expected * 4)"
  using assms
proof (induction expected c rule: keyset_capacity_loop.induct)
  case (1 expected c)
  show ?case
  proof (cases "c < expected * 2")
    case False
    then show ?thesis by (intro exI [of _ 0]) (simp add: keyset_capacity_loop.simps)
  next
    case True
    with 1 obtain k where k: "keyset_capacity_loop expected (c * 2) = c * 2 * 2 ^ k"
      "expected * 2 \<le> c * 2 * 2 ^ k" "k = 0 \<or> c * 2 * 2 ^ k < expected * 4" by auto
    have "keyset_capacity_loop expected c = keyset_capacity_loop expected (c * 2)"
      using True 1 by (subst keyset_capacity_loop.simps) simp
    with k True show ?thesis by (intro exI [of _ "Suc k"]) auto
  qed
qed

lemma keyset_capacity_spec:
  "\<exists>k. keyset_capacity expected = 2 ^ k \<and> 3 \<le> k \<and> expected * 2 \<le> keyset_capacity expected \<and>
    (keyset_capacity expected = 8 \<or> keyset_capacity expected < expected * 4)"
proof -
  obtain k where "keyset_capacity expected = 8 * 2 ^ k" "expected * 2 \<le> 8 * 2 ^ k"
    "k = 0 \<or> 8 * 2 ^ k < expected * 4"
    using keyset_capacity_loop_spec [of 8 expected]
    by (auto simp: keyset_capacity_def KEYSET_MINIMUM_CAPACITY_def)
  then show ?thesis by (intro exI [of _ "k + 3"]) (auto simp: power_add)
qed

section \<open>Probing\<close>

lemma keys_equal_iff [simp]: "keys_equal a b \<longleftrightarrow> a = b"
  by (cases a; cases b) (auto simp: keys_equal_def)

lemma nat_and_mask: "x AND (2 ^ k - 1) = x mod (2 ^ k :: nat)"
  by (metis mask_eq_exp_minus_1 take_bit_eq_mask take_bit_eq_mod)

definition home :: "nat \<Rightarrow> keyset_key \<Rightarrow> nat" where
  "home capacity key = unat (hash_key key) mod capacity"

lemma home_mask:
  assumes "capacity = 2 ^ k" "k \<le> 64"
  shows "unat (hash_key key AND of_nat (capacity - 1)) = home capacity key"
proof -
  have "(of_nat (2 ^ k - 1) :: u64) = mask k"
    by (simp add: mask_eq_exp_minus_1 of_nat_diff)
  with assms show ?thesis by (simp add: unat_and_mask home_def)
qed

text \<open>Where the probe for \<open>key\<close> stops after \<open>n\<close> steps.\<close>

definition stops_at :: "(nat \<Rightarrow> keyset_key) \<Rightarrow> nat list \<Rightarrow> nat \<Rightarrow> keyset_key \<Rightarrow> nat \<Rightarrow> bool" where
  "stops_at key_of tbl capacity key n \<longleftrightarrow>
     (let stored = tbl ! ((home capacity key + n) mod capacity)
      in stored = VALUE_NONE \<or> key_of stored = key)"

lemma find_slot_loop_spec:
  assumes "capacity = 2 ^ k" "\<forall>m<n. \<not> stops_at key_of tbl capacity key m"
    "stops_at key_of tbl capacity key n0" "n \<le> n0" "n0 < n + turns"
  shows "\<exists>m \<le> n0. stops_at key_of tbl capacity key m \<and>
    (\<forall>j<m. \<not> stops_at key_of tbl capacity key j) \<and>
    find_slot_loop turns key_of tbl (capacity - 1) key ((home capacity key + n) mod capacity) =
      Some ((home capacity key + m) mod capacity,
            tbl ! ((home capacity key + m) mod capacity) \<noteq> VALUE_NONE)"
  using assms(2-)
proof (induction turns arbitrary: n)
  case 0
  then show ?case by simp
next
  case (Suc turns)
  let ?slot = "(home capacity key + n) mod capacity"
  show ?case
  proof (cases "stops_at key_of tbl capacity key n")
    case True
    with Suc.prems show ?thesis by (intro exI [of _ n]) (auto simp: stops_at_def Let_def)
  next
    case False
    have "(?slot + 1) AND (capacity - 1) = (?slot + 1) mod capacity"
      unfolding assms(1) by (rule nat_and_mask)
    also have "\<dots> = (home capacity key + Suc n) mod capacity"
      by (simp add: mod_Suc_eq)
    finally have next_slot: "(?slot + 1) AND (capacity - 1) = (home capacity key + Suc n) mod capacity" .
    have "n < n0" using False Suc.prems by (metis le_neq_implies_less)
    then have "\<exists>m \<le> n0. stops_at key_of tbl capacity key m \<and>
        (\<forall>j<m. \<not> stops_at key_of tbl capacity key j) \<and>
        find_slot_loop turns key_of tbl (capacity - 1) key ((home capacity key + Suc n) mod capacity) =
          Some ((home capacity key + m) mod capacity,
                tbl ! ((home capacity key + m) mod capacity) \<noteq> VALUE_NONE)"
      using Suc.prems False by (intro Suc.IH) (auto simp: less_Suc_eq)
    moreover have "find_slot_loop (Suc turns) key_of tbl (capacity - 1) key ?slot =
        find_slot_loop turns key_of tbl (capacity - 1) key ((home capacity key + Suc n) mod capacity)"
      using False next_slot by (simp add: stops_at_def Let_def)
    ultimately show ?thesis by simp
  qed
qed

section \<open>The invariant\<close>

text \<open>The indices a table stores, and the unbroken probe path to each.\<close>

definition stored_in :: "nat list \<Rightarrow> nat set" where
  "stored_in tbl = set tbl - {VALUE_NONE}"

definition used_slots :: "nat list \<Rightarrow> nat" where
  "used_slots tbl = length (filter (\<lambda>i. i \<noteq> VALUE_NONE) tbl)"

definition on_path :: "(nat \<Rightarrow> keyset_key) \<Rightarrow> nat list \<Rightarrow> nat \<Rightarrow> bool" where
  "on_path key_of tbl i \<longleftrightarrow>
     (\<exists>n < length tbl. i = (home (length tbl) (key_of (tbl ! i)) + n) mod length tbl \<and>
        (\<forall>m < n. tbl ! ((home (length tbl) (key_of (tbl ! i)) + m) mod length tbl) \<noteq> VALUE_NONE))"

definition reachable_slots :: "(nat \<Rightarrow> keyset_key) \<Rightarrow> nat list \<Rightarrow> bool" where
  "reachable_slots key_of tbl \<longleftrightarrow>
     (\<forall>i < length tbl. tbl ! i \<noteq> VALUE_NONE \<longrightarrow> on_path key_of tbl i)"

definition distinct_slots :: "(nat \<Rightarrow> keyset_key) \<Rightarrow> nat list \<Rightarrow> bool" where
  "distinct_slots key_of tbl \<longleftrightarrow>
     (\<forall>i < length tbl. \<forall>j < length tbl. tbl ! i \<noteq> VALUE_NONE \<longrightarrow> tbl ! j \<noteq> VALUE_NONE \<longrightarrow>
        key_of (tbl ! i) = key_of (tbl ! j) \<longrightarrow> i = j)"

definition table_inv :: "(nat \<Rightarrow> keyset_key) \<Rightarrow> nat list \<Rightarrow> bool" where
  "table_inv key_of tbl \<longleftrightarrow>
     (\<exists>k \<le> 64. length tbl = 2 ^ k) \<and> used_slots tbl < length tbl \<and>
     reachable_slots key_of tbl \<and> distinct_slots key_of tbl"

definition keyset_inv :: "(nat \<Rightarrow> keyset_key) \<Rightarrow> keyset \<Rightarrow> bool" where
  "keyset_inv key_of s \<longleftrightarrow>
     table_inv key_of (slots s) \<and> length (slots s) = ks_capacity s \<and>
     ks_count s = used_slots (slots s) \<and> ks_count s * 2 \<le> ks_capacity s \<and> 8 \<le> ks_capacity s"

definition keyset_entries :: "keyset \<Rightarrow> nat set" where
  "keyset_entries s = stored_in (slots s)"


lemma table_inv_positive: "table_inv key_of tbl \<Longrightarrow> 0 < length tbl"
  by (auto simp: table_inv_def)

lemma used_slots_free:
  "used_slots tbl < length tbl \<Longrightarrow> \<exists>i < length tbl. tbl ! i = VALUE_NONE"
proof (rule ccontr)
  assume less: "used_slots tbl < length tbl" and "\<not> (\<exists>i < length tbl. tbl ! i = VALUE_NONE)"
  then have "filter (\<lambda>i. i \<noteq> VALUE_NONE) tbl = tbl"
    by (intro filter_True) (auto simp: in_set_conv_nth)
  with less show False by (simp add: used_slots_def)
qed

lemma used_slots_update:
  "i < length tbl \<Longrightarrow> tbl ! i = VALUE_NONE \<Longrightarrow> x \<noteq> VALUE_NONE \<Longrightarrow>
     used_slots (tbl[i := x]) = Suc (used_slots tbl)"
proof (induction tbl arbitrary: i)
  case (Cons t tbl)
  then show ?case by (cases i) (auto simp: used_slots_def)
qed simp

lemma used_slots_replace:
  "i < length tbl \<Longrightarrow> tbl ! i \<noteq> VALUE_NONE \<Longrightarrow> x \<noteq> VALUE_NONE \<Longrightarrow>
     used_slots (tbl[i := x]) = used_slots tbl"
proof (induction tbl arbitrary: i)
  case (Cons t tbl)
  then show ?case by (cases i) (auto simp: used_slots_def)
qed simp

lemma probe_covers:
  assumes "i < c"
  shows "\<exists>n < c. (h + n) mod c = (i :: nat)"
proof -
  let ?n = "(i + (c - h mod c)) mod c"
  have "(h + ?n) mod c = (h mod c + (i + (c - h mod c))) mod c"
    by (simp add: mod_add_left_eq mod_add_right_eq)
  also have "\<dots> = (i + c) mod c"
    using assms mod_less_divisor [of c h] by (intro arg_cong [of _ _ "\<lambda>x. x mod c"]) linarith
  finally have "(h + ?n) mod c = i" using assms by simp
  moreover have "?n < c" using assms by simp
  ultimately show ?thesis by blast
qed

text \<open>What a probe of a well-formed table returns.\<close>

definition probe_at :: "(nat \<Rightarrow> keyset_key) \<Rightarrow> nat list \<Rightarrow> keyset_key \<Rightarrow> nat \<Rightarrow> nat \<Rightarrow> bool" where
  "probe_at key_of tbl key m slot \<longleftrightarrow>
     m < length tbl \<and> slot = (home (length tbl) key + m) mod length tbl \<and>
     (\<forall>j < m. \<not> stops_at key_of tbl (length tbl) key j) \<and> stops_at key_of tbl (length tbl) key m"

lemma find_slot_probe:
  assumes "table_inv key_of tbl"
  obtains m slot where "probe_at key_of tbl key m slot"
    "find_slot key_of tbl (length tbl) key = Some (slot, tbl ! slot \<noteq> VALUE_NONE)"
proof -
  let ?c = "length tbl"
  obtain k where k: "?c = 2 ^ k" "k \<le> 64" using assms by (auto simp: table_inv_def)
  obtain i where i: "i < ?c" "tbl ! i = VALUE_NONE"
    using assms used_slots_free by (auto simp: table_inv_def)
  obtain n0 where n0: "n0 < ?c" "(home ?c key + n0) mod ?c = i"
    using probe_covers [OF i(1)] by blast
  have "stops_at key_of tbl ?c key n0" using n0 i by (simp add: stops_at_def)
  from find_slot_loop_spec [OF k(1) _ this, of 0 ?c] n0
  obtain m where m: "m \<le> n0" "stops_at key_of tbl ?c key m"
    "\<forall>j<m. \<not> stops_at key_of tbl ?c key j"
    "find_slot_loop ?c key_of tbl (?c - 1) key (home ?c key mod ?c) =
      Some ((home ?c key + m) mod ?c, tbl ! ((home ?c key + m) mod ?c) \<noteq> VALUE_NONE)"
    by auto
  have "home ?c key mod ?c = home ?c key" by (simp add: home_def)
  with m home_mask [OF k] have "find_slot key_of tbl ?c key =
      Some ((home ?c key + m) mod ?c, tbl ! ((home ?c key + m) mod ?c) \<noteq> VALUE_NONE)"
    by (simp add: find_slot_def)
  with m n0 that [of m "(home ?c key + m) mod ?c"] show ?thesis
    by (auto simp: probe_at_def)
qed

lemma probe_at_slot: "probe_at key_of tbl key m slot \<Longrightarrow> slot < length tbl"
  unfolding probe_at_def by (metis mod_less_divisor not_less_zero gr0I)

lemma probe_at_found:
  "probe_at key_of tbl key m slot \<Longrightarrow> tbl ! slot \<noteq> VALUE_NONE \<Longrightarrow> key_of (tbl ! slot) = key"
  by (auto simp: probe_at_def stops_at_def Let_def)

lemma probe_at_free:
  assumes "table_inv key_of tbl" "probe_at key_of tbl key m slot" "tbl ! slot = VALUE_NONE"
  shows "key \<notin> key_of ` stored_in tbl"
proof
  assume "key \<in> key_of ` stored_in tbl"
  then obtain i where i: "i < length tbl" "tbl ! i \<noteq> VALUE_NONE" "key_of (tbl ! i) = key"
    unfolding stored_in_def in_set_conv_nth by (smt (verit) DiffE image_iff in_set_conv_nth singletonI)
  then obtain n where n: "i = (home (length tbl) key + n) mod length tbl"
    "\<forall>j < n. tbl ! ((home (length tbl) key + j) mod length tbl) \<noteq> VALUE_NONE"
    using assms(1) unfolding table_inv_def reachable_slots_def on_path_def by metis
  have "\<not> m < n" using n(2) assms(2,3) by (auto simp: probe_at_def)
  moreover have "\<not> n < m" using n(1) i assms(2) by (auto simp: probe_at_def stops_at_def Let_def)
  moreover have "n \<noteq> m" using n(1) i assms(2,3) by (auto simp: probe_at_def)
  ultimately show False by simp
qed

text \<open>Writing an index to the free slot of its own probe, or over an index of the same key.\<close>

lemma stored_in_update:
  assumes "i < length tbl" "tbl ! i = VALUE_NONE" "x \<noteq> VALUE_NONE"
  shows "stored_in (tbl[i := x]) = insert x (stored_in tbl)"
proof -
  have "y \<in> set (tbl[i := x])" if "y \<in> set tbl" "y \<noteq> VALUE_NONE" for y
    using that assms by (metis in_set_conv_nth length_list_update nth_list_update_neq)
  moreover have "x \<in> set (tbl[i := x])" using assms(1) by (rule set_update_memI)
  ultimately show ?thesis
    using set_update_subset_insert [of tbl i x] assms(3) by (auto simp: stored_in_def)
qed

lemma distinct_slots_add:
  assumes "distinct_slots key_of tbl" "key_of x \<notin> key_of ` stored_in tbl" "slot < length tbl"
  shows "distinct_slots key_of (tbl[slot := x])"
proof -
  have "key_of x \<noteq> key_of (tbl ! i)" if "i < length tbl" "tbl ! i \<noteq> VALUE_NONE" for i
    using assms(2) that by (metis DiffI image_eqI nth_mem singletonD stored_in_def)
  with assms show ?thesis
    unfolding distinct_slots_def length_list_update by (metis nth_list_update)
qed

lemma table_inv_add:
  assumes inv: "table_inv key_of tbl" and free: "Suc (used_slots tbl) < length tbl"
    and probe: "probe_at key_of tbl (key_of x) m slot" "tbl ! slot = VALUE_NONE"
    and x: "x \<noteq> VALUE_NONE"
  shows "table_inv key_of (tbl[slot := x])"
proof -
  let ?t = "tbl[slot := x]"
  have slot: "slot < length tbl" using probe(1) by (rule probe_at_slot)
  have keep: "?t ! i \<noteq> VALUE_NONE" if "tbl ! i \<noteq> VALUE_NONE" for i
    using that x slot by (cases "i = slot") auto
  have path: "\<forall>j < m. tbl ! ((home (length tbl) (key_of x) + j) mod length tbl) \<noteq> VALUE_NONE"
    "m < length tbl" "slot = (home (length tbl) (key_of x) + m) mod length tbl"
    using probe(1) by (auto simp: probe_at_def stops_at_def Let_def)
  have "on_path key_of ?t i" if i: "i < length tbl" "?t ! i \<noteq> VALUE_NONE" for i
  proof (cases "i = slot")
    case True
    then have "?t ! i = x" using slot by simp
    with path keep True show ?thesis unfolding on_path_def length_list_update by auto
  next
    case False
    then have "?t ! i = tbl ! i" by simp
    moreover have "on_path key_of tbl i"
      using inv i False by (simp add: table_inv_def reachable_slots_def)
    ultimately show ?thesis using keep unfolding on_path_def length_list_update by auto
  qed
  then have "reachable_slots key_of ?t" by (simp add: reachable_slots_def)
  moreover have "distinct_slots key_of ?t"
    using inv probe_at_free [OF inv probe] slot
    by (intro distinct_slots_add) (auto simp: table_inv_def)
  ultimately show ?thesis
    using inv free used_slots_update [OF slot probe(2) x] by (auto simp: table_inv_def)
qed

lemma stored_in_replace:
  assumes "distinct_slots key_of tbl" "i < length tbl" "tbl ! i \<noteq> VALUE_NONE" "x \<noteq> VALUE_NONE"
  shows "stored_in (tbl[i := x]) = insert x (stored_in tbl - {tbl ! i})"
proof (rule set_eqI)
  fix y
  have unique: "j = i" if "j < length tbl" "tbl ! j = tbl ! i" for j
    using assms that unfolding distinct_slots_def by metis
  show "y \<in> stored_in (tbl[i := x]) \<longleftrightarrow> y \<in> insert x (stored_in tbl - {tbl ! i})"
  proof
    assume "y \<in> stored_in (tbl[i := x])"
    then obtain j where "j < length tbl" "y = (tbl[i := x]) ! j" "y \<noteq> VALUE_NONE"
      by (auto simp: stored_in_def in_set_conv_nth)
    then show "y \<in> insert x (stored_in tbl - {tbl ! i})"
      using unique assms(2) by (cases "j = i") (auto simp: stored_in_def)
  next
    assume y: "y \<in> insert x (stored_in tbl - {tbl ! i})"
    show "y \<in> stored_in (tbl[i := x])"
    proof (cases "y = x")
      case True
      with assms show ?thesis by (simp add: stored_in_def set_update_memI)
    next
      case False
      with y obtain j where "j < length tbl" "y = tbl ! j" "y \<noteq> VALUE_NONE" "y \<noteq> tbl ! i"
        by (auto simp: stored_in_def in_set_conv_nth)
      then have "(tbl[i := x]) ! j = y" by (metis nth_list_update_neq)
      with \<open>j < length tbl\<close> \<open>y \<noteq> VALUE_NONE\<close> show ?thesis
        by (metis DiffI in_set_conv_nth length_list_update singletonD stored_in_def)
    qed
  qed
qed

lemma table_inv_replace:
  assumes inv: "table_inv key_of tbl" and slot: "slot < length tbl" "tbl ! slot \<noteq> VALUE_NONE"
    and x: "x \<noteq> VALUE_NONE" "key_of (tbl ! slot) = key_of x"
  shows "table_inv key_of (tbl[slot := x])"
proof -
  let ?t = "tbl[slot := x]"
  have key: "key_of (?t ! i) = key_of (tbl ! i)" for i
    using slot x by (cases "i = slot") auto
  have none: "?t ! i = VALUE_NONE \<longleftrightarrow> tbl ! i = VALUE_NONE" for i
    using slot x by (cases "i = slot") auto
  show ?thesis
    using inv used_slots_replace [OF slot x(1)]
    unfolding table_inv_def reachable_slots_def on_path_def distinct_slots_def key none length_list_update
    by simp
qed

section \<open>Growing\<close>

lemma table_inv_fresh:
  assumes "c = 2 ^ k" "k \<le> 64"
  shows "table_inv key_of (replicate c VALUE_NONE)" "stored_in (replicate c VALUE_NONE) = {}"
    "used_slots (replicate c VALUE_NONE) = 0"
  using assms
  by (auto simp: table_inv_def used_slots_def reachable_slots_def distinct_slots_def stored_in_def)

lemma distinct_slots_Cons:
  assumes "distinct_slots key_of (x # xs)"
  shows "distinct_slots key_of xs" "x \<noteq> VALUE_NONE \<Longrightarrow> key_of x \<notin> key_of ` stored_in xs"
proof -
  have *: "i = j" if "i < Suc (length xs)" "j < Suc (length xs)" "(x # xs) ! i \<noteq> VALUE_NONE"
    "(x # xs) ! j \<noteq> VALUE_NONE" "key_of ((x # xs) ! i) = key_of ((x # xs) ! j)" for i j
    using assms that unfolding distinct_slots_def by simp
  show "distinct_slots key_of xs"
    unfolding distinct_slots_def
  proof (intro allI impI)
    fix i j
    assume "i < length xs" "j < length xs" "xs ! i \<noteq> VALUE_NONE" "xs ! j \<noteq> VALUE_NONE"
      "key_of (xs ! i) = key_of (xs ! j)"
    with * [of "Suc i" "Suc j"] show "i = j" by simp
  qed
  show "key_of x \<notin> key_of ` stored_in xs" if "x \<noteq> VALUE_NONE"
  proof
    assume "key_of x \<in> key_of ` stored_in xs"
    then obtain y where "y \<in> set xs" "y \<noteq> VALUE_NONE" "key_of x = key_of y"
      by (auto simp: stored_in_def)
    then obtain j where "j < length xs" "xs ! j \<noteq> VALUE_NONE" "key_of x = key_of (xs ! j)"
      by (auto simp: in_set_conv_nth)
    with * [of 0 "Suc j"] that show False by simp
  qed
qed

lemma rehash_fold:
  assumes "table_inv key_of t" "distinct_slots key_of xs"
    "\<forall>x \<in> stored_in xs. key_of x \<notin> key_of ` stored_in t"
    "used_slots t + used_slots xs < length t"
  shows "\<exists>t'. fold (rehash_step key_of (length t)) xs (Some t) = Some t' \<and>
    length t' = length t \<and> table_inv key_of t' \<and> stored_in t' = stored_in t \<union> stored_in xs \<and>
    used_slots t' = used_slots t + used_slots xs"
  using assms
proof (induction xs arbitrary: t)
  case Nil
  then show ?case by (simp add: stored_in_def used_slots_def)
next
  case (Cons x xs)
  note tail = distinct_slots_Cons [OF Cons.prems(2)]
  show ?case
  proof (cases "x = VALUE_NONE")
    case True
    then have "stored_in (x # xs) = stored_in xs" "used_slots (x # xs) = used_slots xs"
      by (auto simp: stored_in_def used_slots_def)
    with True Cons.IH [of t] Cons.prems tail show ?thesis by (simp add: rehash_step_def)
  next
    case False
    then have more: "stored_in (x # xs) = insert x (stored_in xs)"
      "used_slots (x # xs) = Suc (used_slots xs)"
      by (auto simp: stored_in_def used_slots_def)
    obtain m slot where probe: "probe_at key_of t (key_of x) m slot"
      "find_slot key_of t (length t) (key_of x) = Some (slot, t ! slot \<noteq> VALUE_NONE)"
      using find_slot_probe [OF Cons.prems(1)] .
    have slot: "slot < length t" using probe(1) by (rule probe_at_slot)
    have free: "t ! slot = VALUE_NONE"
    proof (rule ccontr)
      assume used: "t ! slot \<noteq> VALUE_NONE"
      then have "key_of (t ! slot) = key_of x" using probe(1) by (intro probe_at_found)
      moreover have "t ! slot \<in> stored_in t" using used slot by (simp add: stored_in_def)
      ultimately show False using Cons.prems(3) more by (metis image_eqI insertI1)
    qed
    let ?t = "t[slot := x]"
    have "table_inv key_of ?t"
      using Cons.prems more by (intro table_inv_add [OF _ _ probe(1) free False]) auto
    moreover have stored: "stored_in ?t = insert x (stored_in t)"
      using slot free False by (rule stored_in_update)
    moreover have used: "used_slots ?t = Suc (used_slots t)"
      using slot free False by (rule used_slots_update)
    moreover have "\<forall>y \<in> stored_in xs. key_of y \<notin> key_of ` stored_in ?t"
      using Cons.prems(3) more stored tail(2) [OF False] by (auto simp: image_iff)
    ultimately obtain t' where "fold (rehash_step key_of (length t)) xs (Some ?t) = Some t'"
      "length t' = length t" "table_inv key_of t'" "stored_in t' = insert x (stored_in t) \<union> stored_in xs"
      "used_slots t' = Suc (used_slots t) + used_slots xs"
      using Cons.IH [of ?t] Cons.prems(4) tail(1) more by auto
    moreover have "rehash_step key_of (length t) x (Some t) = Some ?t"
      using False free probe(2) by (simp add: rehash_step_def)
    ultimately show ?thesis using more by auto
  qed
qed

text \<open>The bytes the set holds.\<close>

definition keyset_footprint :: "keyset \<Rightarrow> nat" where
  "keyset_footprint s = length (slots s) * SIZEOF_SIZE_T"

text \<open>Growing keeps the contents; when it fails the set is as it was.\<close>

lemma keyset_grow_cases:
  assumes inv: "keyset_inv key_of s"
  obtains (memory) h' where "keyset_grow key_of (s, h) = (Fail ERR_MEMORY, s, h')"
      "live h' = live h" "peak h' = peak h"
      "fates h = [] \<Longrightarrow> ks_capacity s > SIZE_MAX div 2 div SIZEOF_SIZE_T"
  | (grown) s' h' where "keyset_grow key_of (s, h) = (Ret (), s', h')"
      "keyset_inv key_of s'" "keyset_entries s' = keyset_entries s" "ks_count s' = ks_count s"
      "ks_capacity s' = 2 * ks_capacity s"
      "live h' = live h + keyset_footprint s' - keyset_footprint s"
proof -
  let ?c = "ks_capacity s * 2"
  have c: "length (slots s) = ks_capacity s" "ks_count s = used_slots (slots s)"
    "ks_count s * 2 \<le> ks_capacity s" "8 \<le> ks_capacity s" "table_inv key_of (slots s)"
    using inv by (simp_all add: keyset_inv_def)
  obtain k where k: "k \<le> 64" "ks_capacity s = 2 ^ k"
    using c by (auto simp: table_inv_def)
  consider (big) "ks_capacity s > SIZE_MAX div 2 div SIZEOF_SIZE_T"
    | (failed) h' where "malloc (?c * SIZEOF_SIZE_T) h = (False, h')"
        "\<not> ks_capacity s > SIZE_MAX div 2 div SIZEOF_SIZE_T"
    | (granted) h' where "malloc (?c * SIZEOF_SIZE_T) h = (True, h')"
        "\<not> ks_capacity s > SIZE_MAX div 2 div SIZEOF_SIZE_T"
    by (metis (full_types) surj_pair)
  then show thesis
  proof cases
    case big
    then show thesis by (intro memory [of h]) (simp_all add: keyset_grow_def)
  next
    case failed
    then show thesis
      using malloc_False_live [OF failed(1)] malloc_reliable [of h]
      by (intro memory [of h']) (auto simp: keyset_grow_def allocate_slots_def Let_def)
  next
    case granted
    have "2 ^ k < (2 :: nat) ^ 64" using k granted(2) by (simp add: SIZE_MAX_def SIZEOF_SIZE_T_def)
    then have "k < 64" using power_less_imp_less_exp [of "2::nat" k 64] by simp
    then have fresh: "?c = 2 ^ Suc k" "Suc k \<le> 64" using k by auto
    have distinct: "distinct_slots key_of (slots s)" using c(5) by (simp add: table_inv_def)
    note fresh_inv = table_inv_fresh(1) [OF fresh, of key_of] table_inv_fresh(2,3) [OF fresh]
    obtain t where t: "fold (rehash_step key_of ?c) (slots s) (Some (replicate ?c VALUE_NONE)) = Some t"
      "length t = ?c" "table_inv key_of t" "stored_in t = stored_in (slots s)"
      "used_slots t = used_slots (slots s)"
      using rehash_fold [OF fresh_inv(1), of "slots s"] fresh_inv(2,3) c distinct by auto
    let ?s = "s\<lparr>slots := t, ks_capacity := ?c\<rparr>"
    have "keyset_grow key_of (s, h) = (Ret (), ?s, mfree (length (slots s) * SIZEOF_SIZE_T) h')"
      using granted t(1) c(1) by (simp add: keyset_grow_def allocate_slots_def)
    from grown [OF this] show thesis
      using malloc_True_live [OF granted(1)] t c
      by (simp add: keyset_inv_def keyset_entries_def keyset_footprint_def)
  qed
qed

section \<open>Lookup and insertion\<close>

lemma keyset_init_cases:
  assumes "expected \<le> SIZE_MAX div 4"
  obtains (memory) s h' where "keyset_init expected h = (Fail ERR_MEMORY, s, h')" "live h' = live h"
      "peak h' = peak h" "keyset_footprint s = 0" "fates h \<noteq> []"
  | (ready) s h' where "keyset_init expected h = (Ret (), s, h')" "keyset_inv key_of s"
      "keyset_entries s = {}" "ks_count s = 0" "ks_capacity s = keyset_capacity expected"
      "h' = snd (malloc (keyset_footprint s) h)" "fst (malloc (keyset_footprint s) h)"
      "keyset_footprint s = keyset_capacity expected * SIZEOF_SIZE_T"
proof -
  obtain k where k: "keyset_capacity expected = 2 ^ k" "3 \<le> k"
    "keyset_capacity expected = 8 \<or> keyset_capacity expected < expected * 4"
    using keyset_capacity_spec by blast
  have "(2::nat) ^ k < 2 ^ 64" using k assms by (auto simp: SIZE_MAX_def)
  then have k64: "k \<le> 64" using power_less_imp_less_exp [of "2::nat" k 64] by simp
  have k8: "(2::nat) ^ 3 \<le> 2 ^ k" using k(2) by (intro power_increasing) auto
  obtain b h' where m: "malloc (keyset_capacity expected * SIZEOF_SIZE_T) h = (b, h')" by fastforce
  show thesis
  proof (cases b)
    case True
    let ?s = "\<lparr>slots = replicate (keyset_capacity expected) VALUE_NONE,
      ks_capacity = keyset_capacity expected, ks_count = 0\<rparr>"
    have "keyset_init expected h = (Ret (), ?s, h')"
      using assms m True by (simp add: keyset_init_def allocate_slots_def Let_def)
    then show thesis
      using table_inv_fresh(1) [OF k(1) k64, of key_of] table_inv_fresh(2,3) [OF k(1) k64] m True k8 k(1)
      by (intro ready)
        (auto simp: keyset_inv_def keyset_entries_def keyset_footprint_def)
  next
    case False
    then show thesis
      using assms m malloc_False_live [of _ h h'] malloc_reliable [of h]
      by (intro memory [of "\<lparr>slots = [], ks_capacity = keyset_capacity expected, ks_count = 0\<rparr>" h'])
        (auto simp: keyset_init_def allocate_slots_def Let_def keyset_footprint_def)
  qed
qed

lemma keyset_find:
  assumes "keyset_inv key_of s"
  obtains m slot where "probe_at key_of (slots s) key m slot"
    "find_slot key_of (slots s) (ks_capacity s) key = Some (slot, slots s ! slot \<noteq> VALUE_NONE)"
    "slots s ! slot \<noteq> VALUE_NONE \<longleftrightarrow> key \<in> key_of ` keyset_entries s"
proof -
  have inv: "table_inv key_of (slots s)" "length (slots s) = ks_capacity s"
    using assms by (auto simp: keyset_inv_def)
  obtain m slot where probe: "probe_at key_of (slots s) key m slot"
    "find_slot key_of (slots s) (ks_capacity s) key = Some (slot, slots s ! slot \<noteq> VALUE_NONE)"
    using find_slot_probe [OF inv(1)] inv(2) by metis
  have "key \<in> key_of ` keyset_entries s" if "slots s ! slot \<noteq> VALUE_NONE"
    using probe_at_found [OF probe(1) that] probe_at_slot [OF probe(1)] that
    by (auto simp: keyset_entries_def stored_in_def)
  with probe_at_free [OF inv(1) probe(1)] probe that show thesis
    by (auto simp: keyset_entries_def)
qed

lemma keyset_find_free:
  assumes "keyset_inv key_of s" "key \<notin> key_of ` keyset_entries s"
  obtains m slot where "probe_at key_of (slots s) key m slot"
    "find_slot key_of (slots s) (ks_capacity s) key = Some (slot, False)"
    "slots s ! slot = VALUE_NONE"
  using assms(2) by (rule_tac keyset_find [OF assms(1), of key]) auto

lemma keyset_find_found:
  assumes "keyset_inv key_of s" "key \<in> key_of ` keyset_entries s"
  obtains m slot where "probe_at key_of (slots s) key m slot"
    "find_slot key_of (slots s) (ks_capacity s) key = Some (slot, True)"
    "slots s ! slot \<noteq> VALUE_NONE"
  using assms(2) by (rule_tac keyset_find [OF assms(1), of key]) auto

lemma keyset_inv_slots [simp]: "keyset_inv key_of s \<Longrightarrow> slots s \<noteq> []"
  by (auto simp: keyset_inv_def)

lemma keyset_contains_iff:
  assumes "keyset_inv key_of s"
  shows "keyset_contains key_of s key = Some (key \<in> key_of ` keyset_entries s)"
  using keyset_find [OF assms, of key] assms by (auto simp: keyset_contains_def)

text \<open>Adding an index of a new key to a set with room.\<close>

lemma keyset_add:
  assumes inv: "keyset_inv key_of s" and room: "(ks_count s + 1) * 2 \<le> ks_capacity s"
    and x: "x \<noteq> VALUE_NONE" "key_of x \<notin> key_of ` keyset_entries s"
  obtains slot where
    "find_slot key_of (slots s) (ks_capacity s) (key_of x) = Some (slot, False)"
    "keyset_inv key_of (s\<lparr>slots := (slots s)[slot := x], ks_count := ks_count s + 1\<rparr>)"
    "keyset_entries (s\<lparr>slots := (slots s)[slot := x], ks_count := ks_count s + 1\<rparr>) =
       insert x (keyset_entries s)"
proof -
  obtain m slot where f: "probe_at key_of (slots s) (key_of x) m slot"
    "find_slot key_of (slots s) (ks_capacity s) (key_of x) = Some (slot, False)"
    "slots s ! slot = VALUE_NONE"
    using keyset_find_free [OF inv x(2)] .
  have slot: "slot < length (slots s)" using f(1) by (rule probe_at_slot)
  let ?s = "s\<lparr>slots := (slots s)[slot := x], ks_count := ks_count s + 1\<rparr>"
  have c: "length (slots s) = ks_capacity s" "ks_count s = used_slots (slots s)"
    "8 \<le> ks_capacity s" "table_inv key_of (slots s)"
    using inv by (simp_all add: keyset_inv_def)
  have "table_inv key_of ((slots s)[slot := x])"
    using c room by (intro table_inv_add [OF c(4) _ f(1) f(3) x(1)]) simp
  then have "keyset_inv key_of ?s"
    using c room used_slots_update [OF slot f(3) x(1)] by (simp add: keyset_inv_def)
  moreover have "keyset_entries ?s = insert x (keyset_entries s)"
    using stored_in_update [OF slot f(3) x(1)] by (simp add: keyset_entries_def)
  ultimately show thesis using that f(2) by blast
qed

text \<open>Every way an insertion can end.\<close>

lemma keyset_insert_cases:
  assumes inv: "keyset_inv key_of s" and x: "x \<noteq> VALUE_NONE"
  obtains
    (present) p s' where "p \<in> keyset_entries s" "key_of p = key_of x"
      "keyset_insert_with replace key_of x (s, h) =
        (if replace then (Ret p, s', h) else (Fail ERR_DUPLICATE_KEY, s, h))"
      "keyset_inv key_of s'" "keyset_entries s' = insert x (keyset_entries s - {p})"
      "ks_capacity s' = ks_capacity s" "ks_count s' = ks_count s"
  | (added) s' h' where "key_of x \<notin> key_of ` keyset_entries s"
      "keyset_insert_with replace key_of x (s, h) = (Ret VALUE_NONE, s', h')"
      "keyset_inv key_of s'" "keyset_entries s' = insert x (keyset_entries s)"
      "ks_count s' = ks_count s + 1"
      "live h' = live h + keyset_footprint s' - keyset_footprint s"
      "(ks_count s + 1) * 2 \<le> ks_capacity s \<Longrightarrow> h' = h \<and> ks_capacity s' = ks_capacity s"
  | (memory) h' where "key_of x \<notin> key_of ` keyset_entries s"
      "keyset_insert_with replace key_of x (s, h) = (Fail ERR_MEMORY, s, h')"
      "live h' = live h" "peak h' = peak h" "ks_capacity s < (ks_count s + 1) * 2"
      "fates h = [] \<Longrightarrow> ks_capacity s > SIZE_MAX div 2 div SIZEOF_SIZE_T"
proof (cases "key_of x \<in> key_of ` keyset_entries s")
  case True
  then obtain m slot where f: "probe_at key_of (slots s) (key_of x) m slot"
    "find_slot key_of (slots s) (ks_capacity s) (key_of x) = Some (slot, True)"
    "slots s ! slot \<noteq> VALUE_NONE"
    using keyset_find_found [OF inv] True by metis
  have slot: "slot < length (slots s)" using f(1) by (rule probe_at_slot)
  have key: "key_of (slots s ! slot) = key_of x" using f by (intro probe_at_found)
  have distinct: "distinct_slots key_of (slots s)"
    using inv by (auto simp: keyset_inv_def table_inv_def)
  let ?s = "s\<lparr>slots := (slots s)[slot := x]\<rparr>"
  have mem: "slots s ! slot \<in> keyset_entries s"
    using slot f(3) by (simp add: keyset_entries_def stored_in_def)
  have "table_inv key_of ((slots s)[slot := x])"
    using inv by (intro table_inv_replace [OF _ slot f(3) x key]) (simp add: keyset_inv_def)
  then have "keyset_inv key_of ?s"
    using inv used_slots_replace [OF slot f(3) x] by (simp add: keyset_inv_def)
  moreover have "keyset_entries ?s = insert x (keyset_entries s - {slots s ! slot})"
    using stored_in_replace [OF distinct slot f(3) x] by (simp add: keyset_entries_def)
  moreover have "keyset_insert_with replace key_of x (s, h) =
      (if replace then (Ret (slots s ! slot), ?s, h) else (Fail ERR_DUPLICATE_KEY, s, h))"
    using f(2) inv x by (simp add: keyset_insert_with_def)
  ultimately show thesis using present [OF mem key] by simp
next
  case absent: False
  obtain m slot where f: "find_slot key_of (slots s) (ks_capacity s) (key_of x) = Some (slot, False)"
    using keyset_find_free [OF inv absent] .
  have nonempty: "slots s \<noteq> []" using inv by simp
  show thesis
  proof (cases "(ks_count s + 1) * 2 > ks_capacity s")
    case False
    then obtain slot where "find_slot key_of (slots s) (ks_capacity s) (key_of x) = Some (slot, False)"
      "keyset_inv key_of (s\<lparr>slots := (slots s)[slot := x], ks_count := ks_count s + 1\<rparr>)"
      "keyset_entries (s\<lparr>slots := (slots s)[slot := x], ks_count := ks_count s + 1\<rparr>) =
         insert x (keyset_entries s)"
      using keyset_add [OF inv _ x absent] by force
    note slot = this
    have "keyset_insert_with replace key_of x (s, h) =
      (Ret VALUE_NONE, s\<lparr>slots := (slots s)[slot := x], ks_count := ks_count s + 1\<rparr>, h)"
      using slot(1) nonempty x False by (simp add: keyset_insert_with_def)
    from added [OF absent this slot(2,3)] show thesis by (simp add: keyset_footprint_def)
  next
    case True
    from inv show thesis
    proof (cases rule: keyset_grow_cases [where h = h])
      case failed: (memory h')
      have "keyset_insert_with replace key_of x (s, h) = (Fail ERR_MEMORY, s, h')"
        using failed(1) f nonempty x True by (simp add: keyset_insert_with_def)
      from memory [OF absent this] failed True show thesis by simp
    next
      case (grown g h')
      have room: "(ks_count g + 1) * 2 \<le> ks_capacity g"
        using grown inv by (auto simp: keyset_inv_def)
      have absent': "key_of x \<notin> key_of ` keyset_entries g" using grown absent by simp
      obtain slot' where
        g: "find_slot key_of (slots g) (ks_capacity g) (key_of x) = Some (slot', False)"
        "keyset_inv key_of (g\<lparr>slots := (slots g)[slot' := x], ks_count := ks_count g + 1\<rparr>)"
        "keyset_entries (g\<lparr>slots := (slots g)[slot' := x], ks_count := ks_count g + 1\<rparr>) =
           insert x (keyset_entries g)"
        using keyset_add [OF grown(2) room x absent'] by blast
      have eq: "keyset_insert_with replace key_of x (s, h) =
        (Ret VALUE_NONE, g\<lparr>slots := (slots g)[slot' := x], ks_count := ks_count g + 1\<rparr>, h')"
        using grown(1) f nonempty x True g(1) by (simp add: keyset_insert_with_def)
      show thesis
        using added [OF absent eq] g grown True by (auto simp: keyset_footprint_def)
    qed
  qed
qed

text \<open>The invariant speaks only of the keys of the stored indices.\<close>

lemma keyset_inv_cong:
  assumes "\<And>i. i \<in> keyset_entries s \<Longrightarrow> key_of i = key_of' i" "keyset_inv key_of s"
  shows "keyset_inv key_of' s"
proof -
  have key: "key_of (slots s ! i) = key_of' (slots s ! i)"
    if "i < length (slots s)" "slots s ! i \<noteq> VALUE_NONE" for i
    using assms(1) that by (auto simp: keyset_entries_def stored_in_def)
  have "reachable_slots key_of' (slots s)"
    using assms(2) key by (auto simp: keyset_inv_def table_inv_def reachable_slots_def on_path_def)
  moreover have "distinct_slots key_of' (slots s)"
    using assms(2) key unfolding keyset_inv_def table_inv_def distinct_slots_def by metis
  ultimately show ?thesis using assms(2) by (auto simp: keyset_inv_def table_inv_def)
qed

lemma keyset_entries_inj:
  assumes "keyset_inv key_of s"
  shows "inj_on key_of (keyset_entries s)"
proof (rule inj_onI)
  fix i j assume "i \<in> keyset_entries s" "j \<in> keyset_entries s" "key_of i = key_of j"
  then show "i = j"
    using assms unfolding keyset_inv_def table_inv_def distinct_slots_def keyset_entries_def
      stored_in_def by (metis DiffD1 DiffD2 in_set_conv_nth singletonI)
qed

lemma used_slots_card:
  assumes "distinct_slots key_of tbl"
  shows "card (stored_in tbl) = used_slots tbl"
  using assms
proof (induction tbl)
  case (Cons x tbl)
  note tail = distinct_slots_Cons [OF Cons.prems]
  show ?case
  proof (cases "x = VALUE_NONE")
    case True
    then have "stored_in (x # tbl) = stored_in tbl" by (auto simp: stored_in_def)
    with True Cons.IH tail show ?thesis by (simp add: used_slots_def)
  next
    case False
    then have "stored_in (x # tbl) = insert x (stored_in tbl)" by (auto simp: stored_in_def)
    moreover have "x \<notin> stored_in tbl" using tail(2) [OF False] by auto
    moreover have "finite (stored_in tbl)" by (simp add: stored_in_def)
    ultimately show ?thesis using False Cons.IH tail by (simp add: used_slots_def)
  qed
qed (simp add: stored_in_def used_slots_def)

lemma keyset_count: "keyset_inv key_of s \<Longrightarrow> ks_count s = card (keyset_entries s)"
  using used_slots_card [of key_of "slots s"]
  by (simp add: keyset_inv_def table_inv_def keyset_entries_def)

text \<open>The two ways an insertion into a set with room ends.\<close>

lemma keyset_replace_key:
  assumes "keyset_inv key_of s" "x \<noteq> VALUE_NONE" "p \<in> keyset_entries s" "key_of p = key_of x"
  shows "\<exists>s'. keyset_insert_last key_of x (s, h) = (Ret p, s', h) \<and> keyset_inv key_of s' \<and>
      ks_capacity s' div 2 = ks_capacity s div 2 \<and>
      keyset_entries s' = insert x (keyset_entries s - {p})"
  using assms(1,2)
proof (cases rule: keyset_insert_cases [where replace = True and h = h])
  case (present q s')
  have "q = p"
    using inj_onD [OF keyset_entries_inj [OF assms(1)], of q p] present(1,2) assms(3,4) by simp
  with present show ?thesis by (simp add: keyset_insert_last_def)
next
  case (added s' h')
  with assms(3,4) show ?thesis by (metis image_eqI)
next
  case (memory h')
  with assms(3,4) show ?thesis by (metis image_eqI)
qed

lemma keyset_new_key:
  assumes "keyset_inv key_of s" "x \<noteq> VALUE_NONE" "key_of x \<notin> key_of ` keyset_entries s"
    "card (keyset_entries s) < ks_capacity s div 2"
  shows "\<exists>s'. keyset_insert_last key_of x (s, h) = (Ret VALUE_NONE, s', h) \<and> keyset_inv key_of s' \<and>
      ks_capacity s' div 2 = ks_capacity s div 2 \<and>
      keyset_entries s' = insert x (keyset_entries s)"
proof -
  have room: "(ks_count s + 1) * 2 \<le> ks_capacity s"
    using assms(4) keyset_count [OF assms(1)] by simp
  show ?thesis
    using assms(1,2)
  proof (cases rule: keyset_insert_cases [where replace = True and h = h])
    case (present q s')
    with assms(3) show ?thesis by (metis image_eqI)
  next
    case (added s' h')
    with room show ?thesis by (simp add: keyset_insert_last_def)
  next
    case (memory h')
    with room show ?thesis by simp
  qed
qed

section \<open>The contract\<close>

text \<open>
  What the parser and the writer rely on. \<open>room\<close> is the number of keys the table takes without
  growing: the parser sizes it beforehand, so its insertions neither allocate nor fail.
\<close>

locale key_set =
  fixes invar :: "('i \<Rightarrow> 'k) \<Rightarrow> 's \<Rightarrow> bool"
    and entries :: "'s \<Rightarrow> 'i set"
    and room :: "'s \<Rightarrow> nat"
    and none :: 'i
    and contains :: "('i \<Rightarrow> 'k) \<Rightarrow> 's \<Rightarrow> 'k \<Rightarrow> bool option"
    and insert_last :: "('i \<Rightarrow> 'k) \<Rightarrow> 'i \<Rightarrow> 's \<times> heap \<Rightarrow> (result, 'i) outcome \<times> 's \<times> heap"
  assumes finite_entries: "invar key_of s \<Longrightarrow> finite (entries s)"
    and none_fresh: "none \<notin> entries s"
    and entries_inj: "invar key_of s \<Longrightarrow> inj_on key_of (entries s)"
    and invar_cong: "\<lbrakk>\<And>i. i \<in> entries s \<Longrightarrow> key_of i = key_of' i; invar key_of s\<rbrakk> \<Longrightarrow> invar key_of' s"
    and contains_iff: "invar key_of s \<Longrightarrow> contains key_of s key = Some (key \<in> key_of ` entries s)"
    and replace_key: "\<lbrakk>invar key_of s; x \<noteq> none; p \<in> entries s; key_of p = key_of x\<rbrakk> \<Longrightarrow>
      \<exists>s'. insert_last key_of x (s, h) = (Ret p, s', h) \<and> invar key_of s' \<and> room s' = room s \<and>
           entries s' = insert x (entries s - {p})"
    and new_key: "\<lbrakk>invar key_of s; x \<noteq> none; key_of x \<notin> key_of ` entries s; card (entries s) < room s\<rbrakk> \<Longrightarrow>
      \<exists>s'. insert_last key_of x (s, h) = (Ret none, s', h) \<and> invar key_of s' \<and> room s' = room s \<and>
           entries s' = insert x (entries s)"
begin

text \<open>The keys present after an insertion, whichever way it went.\<close>

lemma insert_last_ends:
  assumes "invar key_of s" "x \<noteq> none" "card (entries s) < room s"
  shows "\<exists>p s'. insert_last key_of x (s, h) = (Ret p, s', h) \<and> invar key_of s' \<and> room s' = room s \<and>
    key_of ` entries s' = insert (key_of x) (key_of ` entries s) \<and>
    entries s' = insert x (entries s - {p}) \<and> (p = none \<or> p \<in> entries s \<and> key_of p = key_of x) \<and>
    (p = none \<longleftrightarrow> key_of x \<notin> key_of ` entries s)"
proof (cases "key_of x \<in> key_of ` entries s")
  case True
  then obtain p where p: "p \<in> entries s" "key_of p = key_of x" by (auto simp: image_iff)
  have keys: "key_of ` insert x (entries s - {p}) = insert (key_of x) (key_of ` entries s)"
    using p by (auto simp: image_iff)
  have "p \<noteq> none" using p(1) none_fresh by auto
  with replace_key [OF assms(1,2) p, of h] p keys True show ?thesis by metis
next
  case False
  have "entries s - {none} = entries s" using none_fresh by auto
  with new_key [OF assms(1,2) False assms(3), of h] False show ?thesis by fastforce
qed

text \<open>At most one index of a key is present.\<close>

lemma entry_unique:
  "\<lbrakk>invar key_of s; i \<in> entries s; j \<in> entries s; key_of i = key_of j\<rbrakk> \<Longrightarrow> i = j"
  using entries_inj by (auto dest: inj_onD)

text \<open>Inserting one index after another: the last index of every key stays.\<close>

fun insert_each :: "('i \<Rightarrow> 'k) \<Rightarrow> 'i list \<Rightarrow> 's \<times> heap \<Rightarrow> 's \<times> heap" where
  "insert_each key_of [] st = st"
| "insert_each key_of (x # xs) st = insert_each key_of xs (snd (insert_last key_of x st))"

definition last_of_key :: "('i \<Rightarrow> 'k) \<Rightarrow> 'i list \<Rightarrow> 'i set" where
  "last_of_key key_of xs =
     {x. \<exists>ys zs. xs = ys @ x # zs \<and> key_of x \<notin> key_of ` set zs}"

lemma last_of_key_snoc:
  "last_of_key key_of (xs @ [x]) = insert x {y \<in> last_of_key key_of xs. key_of y \<noteq> key_of x}"
proof (rule set_eqI, rule iffI)
  fix y assume "y \<in> last_of_key key_of (xs @ [x])"
  then obtain ys zs where y: "xs @ [x] = ys @ y # zs" "key_of y \<notin> key_of ` set zs"
    by (auto simp: last_of_key_def)
  show "y \<in> insert x {y \<in> last_of_key key_of xs. key_of y \<noteq> key_of x}"
  proof (cases zs rule: rev_cases)
    case Nil
    with y show ?thesis by simp
  next
    case (snoc zs' z)
    with y have "xs = ys @ y # zs'" "z = x" by auto
    with snoc y show ?thesis by (auto simp: last_of_key_def)
  qed
next
  fix y assume y: "y \<in> insert x {y \<in> last_of_key key_of xs. key_of y \<noteq> key_of x}"
  show "y \<in> last_of_key key_of (xs @ [x])"
  proof (cases "y = x")
    case True
    then show ?thesis unfolding last_of_key_def by force
  next
    case False
    with y obtain ys zs where "xs = ys @ y # zs" "key_of y \<notin> key_of ` set zs" "key_of y \<noteq> key_of x"
      by (auto simp: last_of_key_def)
    then have "xs @ [x] = ys @ y # (zs @ [x])" "key_of y \<notin> key_of ` set (zs @ [x])" by auto
    then show ?thesis unfolding last_of_key_def by blast
  qed
qed

lemma insert_each_snoc:
  "insert_each key_of (xs @ [x]) st = snd (insert_last key_of x (insert_each key_of xs st))"
  by (induction xs arbitrary: st) simp_all

lemma insert_each_last:
  assumes "invar key_of s" "entries s = {}" "none \<notin> set xs" "length xs \<le> room s"
  shows "\<exists>s'. insert_each key_of xs (s, h) = (s', h) \<and> invar key_of s' \<and> room s' = room s \<and>
    entries s' = last_of_key key_of xs \<and> card (entries s') \<le> length xs"
  using assms(3,4)
proof (induction xs rule: rev_induct)
  case Nil
  then show ?case using assms(1,2) by (simp add: last_of_key_def)
next
  case (snoc x xs)
  then obtain s1 where s1: "insert_each key_of xs (s, h) = (s1, h)" "invar key_of s1"
    "room s1 = room s" "entries s1 = last_of_key key_of xs" "card (entries s1) \<le> length xs" by auto
  then obtain p s2 where s2: "insert_last key_of x (s1, h) = (Ret p, s2, h)" "invar key_of s2"
    "room s2 = room s1" "entries s2 = insert x (entries s1 - {p})"
    "p = none \<or> p \<in> entries s1 \<and> key_of p = key_of x"
    "p = none \<longleftrightarrow> key_of x \<notin> key_of ` entries s1"
    using insert_last_ends [OF s1(2), of x h] snoc.prems by auto
  have rest: "entries s1 - {p} = {y \<in> entries s1. key_of y \<noteq> key_of x}"
    using s2(5,6) none_fresh [of s1] entry_unique [OF s1(2)] by (auto simp: image_iff)
  have "card (entries s2) \<le> Suc (length xs)"
    using s2(4) s1(5) finite_entries [OF s1(2)] card_Diff1_le [of "entries s1" p]
    by (auto simp: card_insert_if)
  with s1 s2 rest show ?case by (simp add: insert_each_snoc last_of_key_snoc)
qed

end

interpretation key_table: key_set keyset_inv keyset_entries "\<lambda>s. ks_capacity s div 2" VALUE_NONE
  keyset_contains keyset_insert_last
proof
  fix key_of s key and x p :: nat and h :: heap and key_of' :: "nat \<Rightarrow> keyset_key"
  show "keyset_inv key_of s \<Longrightarrow> finite (keyset_entries s)"
    by (simp add: keyset_entries_def stored_in_def)
  show "VALUE_NONE \<notin> keyset_entries s"
    by (simp add: keyset_entries_def stored_in_def)
  show "keyset_inv key_of s \<Longrightarrow> inj_on key_of (keyset_entries s)" by (rule keyset_entries_inj)
  show "keyset_inv key_of' s"
    if "\<And>i. i \<in> keyset_entries s \<Longrightarrow> key_of i = key_of' i" "keyset_inv key_of s"
    using that by (rule keyset_inv_cong)
  show "keyset_inv key_of s \<Longrightarrow> keyset_contains key_of s key = Some (key \<in> key_of ` keyset_entries s)"
    by (rule keyset_contains_iff)
qed (rule keyset_replace_key keyset_new_key; assumption)+

end
