(* ===== verification/Keyset_Props.thy ===== *)
theory Keyset_Props
  imports Keyset
begin

text \<open>
  The properties of the key set (\<^verbatim>\<open>src/keyset.c\<close>), each with a witness on a concrete table.
\<close>

section \<open>Properties\<close>

text \<open>C38: a probe of a well-formed table ends within one turn around it and is exact:
  \<open>maelys_json_keyset_contains\<close> never loops, never reads outside the table, and is true exactly
  when the key of one of the stored indices is the key asked for, whatever its hash.\<close>

theorem keyset_contains_exact:
  assumes "keyset_inv key_of s"
  shows "keyset_contains key_of s key = Some (\<exists>i \<in> keyset_entries s. key_of i = key)"
  using key_table.contains_iff [OF assms] by (auto simp: image_iff)

definition sample_keys :: "nat \<Rightarrow> keyset_key" where
  "sample_keys i = \<lparr>k_parent = 0, k_bytes = [of_nat i]\<rparr>"

definition sample_heap :: heap where
  "sample_heap = \<lparr>fates = [], live = 0, peak = 0\<rparr>"

definition sample_set :: keyset where
  "sample_set =
     fst (snd (keyset_init 4 \<lparr>fates = [], live = 0, peak = 0\<rparr>))"

lemma sample_set_inv: "keyset_inv key_of sample_set" "keyset_entries sample_set = {}"
  "ks_capacity sample_set = 8"
proof -
  have "keyset_inv key_of sample_set \<and> keyset_entries sample_set = {} \<and> ks_capacity sample_set = 8"
  proof (rule keyset_init_cases [of 4 "\<lparr>fates = [], live = 0, peak = 0\<rparr>" _ key_of], goal_cases)
    case 3
    have "keyset_capacity 4 = 8" by code_simp
    with 3 show ?case by (simp add: sample_set_def)
  qed (simp_all add: SIZE_MAX_def)
  then show "keyset_inv key_of sample_set" "keyset_entries sample_set = {}"
    "ks_capacity sample_set = 8" by simp_all
qed

theorem keyset_contains_exact_witness:
  "keyset_contains sample_keys sample_set (sample_keys 3) = Some False"
  using keyset_contains_exact [OF sample_set_inv(1), of sample_keys "sample_keys 3"]
  by (simp add: sample_set_inv)

text \<open>C39: \<open>maelys_json_keyset_insert\<close> and \<open>_insert_last\<close> on a well-formed table never fail an
  assertion and end in one of three ways. When the key is stored already, the plain insertion
  reports DUPLICATE_KEY and changes nothing, and the last-wins one returns the index that was stored
  and puts the new one in its place. When it is not, the index is added and VALUE_NONE returned, or
  the table was half full and could not grow: then MEMORY is reported and the set is as it was.
  The invariant holds afterwards.\<close>

theorem keyset_insert_exact:
  assumes "keyset_inv key_of s" "x \<noteq> VALUE_NONE"
  shows "case keyset_insert_with replace key_of x (s, h) of
     (Ret previous, s', h') \<Rightarrow>
       keyset_inv key_of s' \<and>
       (if \<exists>i \<in> keyset_entries s. key_of i = key_of x
        then replace \<and> h' = h \<and> previous \<in> keyset_entries s \<and> key_of previous = key_of x \<and>
          keyset_entries s' = insert x (keyset_entries s - {previous})
        else previous = VALUE_NONE \<and> keyset_entries s' = insert x (keyset_entries s))
   | (Fail code, s', h') \<Rightarrow>
       s' = s \<and> live h' = live h \<and>
       (if \<exists>i \<in> keyset_entries s. key_of i = key_of x
        then code = ERR_DUPLICATE_KEY \<and> \<not> replace
        else code = ERR_MEMORY \<and> ks_capacity s < 2 * (card (keyset_entries s) + 1))
   | (Stuck, s', h') \<Rightarrow> False"
  using assms
proof (cases rule: keyset_insert_cases [where replace = replace and h = h])
  case (present p s')
  then have "\<exists>i \<in> keyset_entries s. key_of i = key_of x" by blast
  with present show ?thesis by (cases replace) auto
next
  case (added s' h')
  then have "\<not> (\<exists>i \<in> keyset_entries s. key_of i = key_of x)" by (metis image_eqI)
  with added show ?thesis by simp
next
  case (memory h')
  then have "\<not> (\<exists>i \<in> keyset_entries s. key_of i = key_of x)" by (metis image_eqI)
  with memory keyset_count [OF assms(1)] show ?thesis by simp
qed

theorem keyset_insert_exact_witness:
  "\<exists>s' h'. keyset_insert_with True sample_keys 5 (sample_set, sample_heap) = (Ret VALUE_NONE, s', h') \<and>
     keyset_entries s' = {5}"
proof -
  have "case keyset_insert_with True sample_keys 5 (sample_set, sample_heap) of
     (Ret previous, s', h') \<Rightarrow> previous = VALUE_NONE \<and> keyset_entries s' = {5}
   | (Fail code, s', h') \<Rightarrow> False
   | (Stuck, s', h') \<Rightarrow> False"
    using keyset_insert_exact [OF sample_set_inv(1), of 5 sample_keys True sample_heap]
    by (auto simp: sample_set_inv VALUE_NONE_def SIZE_MAX_def split: outcome.splits prod.splits if_splits)
  then show ?thesis
    by (cases "keyset_insert_with True sample_keys 5 (sample_set, sample_heap)"; cases "fst (keyset_insert_with True sample_keys 5 (sample_set, sample_heap))")
      auto
qed



end
