(* ===== verification/Parser.thy ===== *)
theory Parser
  imports Keyset Utf8
begin

text \<open>
  \<^verbatim>\<open>src/parser.c\<close>: the recursive-descent parser that fills the token array and the arena of a
  document, the compaction that drops superseded members under the last-wins profile, the
  child index, and the allocation bound.

  Every function of the C file is a definition of its name. A function that returns a
  \<open>maelys_json_result_t\<close> and advances the parser returns an outcome and the parser after it.
  \<open>parse_value\<close>, \<open>parse_object\<close> and \<open>parse_array\<close> are mutually recursive in C: here the last two
  take the value parser one level down as an argument, and \<open>parse_value\<close> recurses on the number
  of nesting levels it may still open, one more than the depth limit allows. The loops over
  members and elements get as many turns as the input has bytes, and one. \<open>Stuck\<close> is a failed
  assertion, an access outside an array, or a loop out of turns; none of them occurs.
\<close>

unbundle bit_operations_syntax

section \<open>The parser and its scanner\<close>

record parser =
  pdocument :: document
  pprofile :: profile
  plimits :: limits
  perror :: "json_error option"
  poffset :: nat
  pkeys :: keyset
  pheap :: heap

abbreviation pbytes :: "parser \<Rightarrow> bytes" where
  "pbytes p \<equiv> d_bytes (pdocument p)"

definition token_key :: "document \<Rightarrow> nat \<Rightarrow> keyset_key" where
  "token_key d index =
     (let t = d_tokens d ! index
      in \<lparr>k_parent = l_parent (links t), k_bytes = token_text (arena d) t\<rparr>)"

definition fail :: "parser \<Rightarrow> result \<Rightarrow> nat \<Rightarrow> (result, 'a) outcome \<times> parser" where
  "fail p code off =
     (Fail code, p\<lparr>perror := error_set (perror p) code (Some (pbytes p)) (length (pbytes p)) off\<rparr>)"

definition is_space :: "byte \<Rightarrow> bool" where
  "is_space b \<longleftrightarrow> b = SPACE \<or> b = TAB \<or> b = CR \<or> b = LF"

definition at_end :: "parser \<Rightarrow> bool" where
  "at_end p \<longleftrightarrow> poffset p \<ge> length (pbytes p)"

definition current :: "parser \<Rightarrow> byte" where
  "current p = pbytes p ! poffset p"

definition advance :: "parser \<Rightarrow> parser" where
  "advance p = p\<lparr>poffset := poffset p + 1\<rparr>"

definition skip_space :: "parser \<Rightarrow> parser" where
  "skip_space p = p\<lparr>poffset := scan_while is_space (pbytes p) (poffset p)\<rparr>"

text \<open>\<open>arena_claim\<close>: the offset handed out, \<open>None\<close> for its failed assertion.\<close>

definition arena_claim :: "document \<Rightarrow> nat \<Rightarrow> nat option" where
  "arena_claim d capacity =
     (if length (arena d) + capacity \<le> arena_capacity d then Some (length (arena d)) else None)"

definition fresh_token :: "json_type \<Rightarrow> nat \<Rightarrow> nat \<Rightarrow> bool \<Rightarrow> token" where
  "fresh_token type start parent key =
     \<lparr>links = links_init parent, ttype = type, tstart = start, tend = start, ttext = None,
      ttext_size = 0, children_offset = 0, object_key = key, boolean_value = False,
      superseded = False\<rparr>"

definition add_token ::
  "parser \<Rightarrow> json_type \<Rightarrow> nat \<Rightarrow> nat \<Rightarrow> bool \<Rightarrow> (result, nat) outcome \<times> parser" where
  "add_token p type start parent key =
     (let d = pdocument p in
      if length (d_tokens d) \<ge> token_capacity d then fail p ERR_LIMIT start
      else
        let index = length (d_tokens d);
            ts = d_tokens d @ [fresh_token type start parent key]
        in (Ret index, p\<lparr>pdocument := d\<lparr>d_tokens := link_under ts parent index\<rparr>\<rparr>))"

text \<open>
  \<open>scan_string_body\<close>: the offset of the closing quote, which is consumed. The two ends of its
  loop without a position return the bare \<open>SYNTAX\<close>; \<open>fail\<close> records one.
\<close>

function scan_string_body :: "parser \<Rightarrow> (result, nat) outcome \<times> parser" where
  "scan_string_body p =
     (if at_end p then (Fail ERR_SYNTAX, p)
      else
        let b = current p in
        if b = QUOTE then (Ret (poffset p), advance p)
        else if b < 0x20 then fail p ERR_SYNTAX (poffset p)
        else if pprofile p = CONTRACT_ASCII \<and> (b = BACKSLASH \<or> b > 0x7e) then
          fail p ERR_SYNTAX (poffset p)
        else if b = BACKSLASH then
          (if at_end (advance p) then (Fail ERR_SYNTAX, advance p)
           else scan_string_body (advance (advance p)))
        else scan_string_body (advance p))"
  by pat_completeness auto
termination
  by (relation "measure (\<lambda>p. length (pbytes p) - poffset p)")
    (auto simp: advance_def at_end_def)

declare scan_string_body.simps [simp del]

definition update_token :: "document \<Rightarrow> nat \<Rightarrow> (token \<Rightarrow> token) \<Rightarrow> document" where
  "update_token d index f = d\<lparr>d_tokens := (d_tokens d)[index := f (d_tokens d ! index)]\<rparr>"

text \<open>The arena after a text was stored with its NUL, and the token that points to it.\<close>

definition store_text :: "document \<Rightarrow> nat \<Rightarrow> nat \<Rightarrow> bytes \<Rightarrow> document" where
  "store_text d index off txt =
     update_token (d\<lparr>arena := arena d @ txt @ [0]\<rparr>) index
       (\<lambda>t. t\<lparr>ttext := Some off, ttext_size := length txt\<rparr>)"

text \<open>The keyset part of \<open>parse_string\<close>, for a token that is an object key.\<close>

definition register_key :: "parser \<Rightarrow> nat \<Rightarrow> (result, unit) outcome \<times> parser" where
  "register_key p index =
     (let d = pdocument p in
      if pprofile p = RFC8259_LAST_WINS then
        case keyset_insert_last (token_key d) index (pkeys p, pheap p) of
          (Ret previous, keys, h) \<Rightarrow>
            let d' = (if previous \<noteq> VALUE_NONE
                      then (update_token d previous (\<lambda>t. t\<lparr>superseded := True\<rparr>))
                             \<lparr>duplicate_count := duplicate_count d + 1\<rparr>
                      else d)
            in (Ret (), p\<lparr>pdocument := d', pkeys := keys, pheap := h\<rparr>)
        | (Fail e, keys, h) \<Rightarrow> (Fail e, p\<lparr>pkeys := keys, pheap := h\<rparr>)
        | (Stuck, keys, h) \<Rightarrow> (Stuck, p\<lparr>pkeys := keys, pheap := h\<rparr>)
      else
        case keyset_insert (token_key d) index (pkeys p, pheap p) of
          (Ret _, keys, h) \<Rightarrow> (Ret (), p\<lparr>pkeys := keys, pheap := h\<rparr>)
        | (Fail e, keys, h) \<Rightarrow> (Fail e, p\<lparr>pkeys := keys, pheap := h\<rparr>)
        | (Stuck, keys, h) \<Rightarrow> (Stuck, p\<lparr>pkeys := keys, pheap := h\<rparr>))"

text \<open>\<open>parse_string\<close> from the claim of the arena on: decode, store, register the key.\<close>

definition finish_string ::
  "parser \<Rightarrow> nat \<Rightarrow> nat \<Rightarrow> nat \<Rightarrow> nat \<Rightarrow> bool \<Rightarrow> (result, nat) outcome \<times> parser" where
  "finish_string p index opening start stop key =
     (let d = update_token (pdocument p) index (\<lambda>t. t\<lparr>tend := stop\<rparr>);
          p = p\<lparr>pdocument := d\<rparr>
      in case arena_claim d (stop - start + 1) of
           None \<Rightarrow> (Stuck, p)
         | Some off \<Rightarrow>
             (case decode_string (take (stop - start) (drop start (d_bytes d))) (pprofile p) of
                Stuck \<Rightarrow> (Stuck, p)
              | Fail (code, bad) \<Rightarrow> fail p code (start + bad)
              | Ret txt \<Rightarrow>
                  let p = p\<lparr>pdocument := store_text d index off txt\<rparr>
                  in if key then
                       (case register_key p index of
                          (Ret _, p) \<Rightarrow> (Ret index, p)
                        | (Fail code, p) \<Rightarrow> fail p code opening
                        | (Stuck, p) \<Rightarrow> (Stuck, p))
                     else (Ret index, p)))"

definition parse_string :: "parser \<Rightarrow> nat \<Rightarrow> bool \<Rightarrow> (result, nat) outcome \<times> parser" where
  "parse_string p parent key =
     (let opening = poffset p in
      if at_end p \<or> current p \<noteq> QUOTE then fail p ERR_SYNTAX opening
      else
        let p = advance p; start = poffset p in
        case scan_string_body p of
          (Stuck, p) \<Rightarrow> (Stuck, p)
        | (Fail code, p) \<Rightarrow>
            (case perror p of
               Some e \<Rightarrow> if err_code e \<noteq> OK then (Fail code, p) else fail p ERR_SYNTAX opening
             | None \<Rightarrow> fail p ERR_SYNTAX opening)
        | (Ret stop, p) \<Rightarrow>
            andthen (add_token p TYPE_STRING start parent key) (\<lambda>index p.
              finish_string p index opening start stop key))"

text \<open>\<open>container_delimiter\<close>: true when the container is closed, false to continue.\<close>

definition container_delimiter :: "parser \<Rightarrow> byte \<Rightarrow> (result, bool) outcome \<times> parser" where
  "container_delimiter p closing =
     (let p = skip_space p in
      if at_end p then fail p ERR_SYNTAX (poffset p)
      else
        let at = poffset p; p = advance p; delimiter = pbytes p ! at in
        if delimiter = closing then (Ret True, p)
        else if delimiter \<noteq> COMMA then fail p ERR_SYNTAX at
        else (Ret False, skip_space p))"

definition is_delimiter :: "byte \<Rightarrow> bool" where
  "is_delimiter b \<longleftrightarrow> b = COMMA \<or> b = RBRACE \<or> b = RBRACKET \<or> is_space b"

text \<open>The type and the boolean value of a lexeme; \<open>None\<close> for the syntax error.\<close>

definition classify_primitive :: "bytes \<Rightarrow> (json_type \<times> bool) option" where
  "classify_primitive lexeme =
     (if lexeme = ascii ''true'' then Some (TYPE_BOOLEAN, True)
      else if lexeme = ascii ''false'' then Some (TYPE_BOOLEAN, False)
      else if lexeme = ascii ''null'' then Some (TYPE_NULL, False)
      else if number_syntax lexeme then Some (TYPE_NUMBER, False)
      else None)"

definition parse_primitive :: "parser \<Rightarrow> nat \<Rightarrow> (result, nat) outcome \<times> parser" where
  "parse_primitive p parent =
     (let start = poffset p;
          p = p\<lparr>poffset := scan_while (\<lambda>b. \<not> is_delimiter b) (pbytes p) start\<rparr>;
          lexeme = take (poffset p - start) (drop start (pbytes p))
      in case classify_primitive lexeme of
           None \<Rightarrow> fail p ERR_SYNTAX start
         | Some (type, truth) \<Rightarrow>
             andthen (add_token p type start parent False) (\<lambda>index p.
               let d = update_token (pdocument p) index
                         (\<lambda>t. t\<lparr>tend := poffset p, boolean_value := truth\<rparr>)
               in if type = TYPE_NUMBER then
                    (case arena_claim d (length lexeme + 1) of
                       None \<Rightarrow> (Stuck, p\<lparr>pdocument := d\<rparr>)
                     | Some off \<Rightarrow> (Ret index, p\<lparr>pdocument := store_text d index off lexeme\<rparr>))
                  else (Ret index, p\<lparr>pdocument := d\<rparr>)))"

section \<open>Values\<close>

text \<open>The end of \<open>parse_object\<close> and of \<open>parse_array\<close>.\<close>

definition close_container :: "parser \<Rightarrow> nat \<Rightarrow> (result, nat) outcome \<times> parser" where
  "close_container p index =
     (Ret index, p\<lparr>pdocument := update_token (pdocument p) index (\<lambda>t. t\<lparr>tend := poffset p\<rparr>)\<rparr>)"

type_synonym value_parser = "parser \<Rightarrow> nat \<Rightarrow> nat \<Rightarrow> (result, nat) outcome \<times> parser"

text \<open>The \<open>for (;;)\<close> loops of \<open>parse_object\<close> and of \<open>parse_array\<close>.\<close>

fun parse_members ::
  "value_parser \<Rightarrow> nat \<Rightarrow> parser \<Rightarrow> nat \<Rightarrow> nat \<Rightarrow> (result, unit) outcome \<times> parser" where
  "parse_members value 0 p object depth = (Stuck, p)"
| "parse_members value (Suc turns) p object depth =
     andthen (parse_string p object True) (\<lambda>key p.
       let p = skip_space p in
       if at_end p \<or> current p \<noteq> COLON then fail p ERR_SYNTAX (poffset p)
       else andthen (value (advance p) object (depth + 1)) (\<lambda>v p.
         andthen (container_delimiter p RBRACE) (\<lambda>closed p.
           if closed then (Ret (), p) else parse_members value turns p object depth)))"

fun parse_elements ::
  "value_parser \<Rightarrow> nat \<Rightarrow> parser \<Rightarrow> nat \<Rightarrow> nat \<Rightarrow> (result, unit) outcome \<times> parser" where
  "parse_elements value 0 p array depth = (Stuck, p)"
| "parse_elements value (Suc turns) p array depth =
     andthen (value p array (depth + 1)) (\<lambda>v p.
       andthen (container_delimiter p RBRACKET) (\<lambda>closed p.
         if closed then (Ret (), p) else parse_elements value turns p array depth))"

definition parse_object :: "value_parser \<Rightarrow> value_parser" where
  "parse_object value p parent depth =
     (if depth \<ge> maximum_depth (plimits p) then fail p ERR_LIMIT (poffset p)
      else andthen (add_token p TYPE_OBJECT (poffset p) parent False) (\<lambda>object p.
        let p = skip_space (advance p) in
        if \<not> at_end p \<and> current p = RBRACE then close_container (advance p) object
        else andthen (parse_members value (length (pbytes p) + 1) p object depth)
               (\<lambda>_ p. close_container p object)))"

definition parse_array :: "value_parser \<Rightarrow> value_parser" where
  "parse_array value p parent depth =
     (if depth \<ge> maximum_depth (plimits p) then fail p ERR_LIMIT (poffset p)
      else andthen (add_token p TYPE_ARRAY (poffset p) parent False) (\<lambda>array p.
        let p = skip_space (advance p) in
        if \<not> at_end p \<and> current p = RBRACKET then close_container (advance p) array
        else andthen (parse_elements value (length (pbytes p) + 1) p array depth)
               (\<lambda>_ p. close_container p array)))"

fun parse_value :: "nat \<Rightarrow> value_parser" where
  "parse_value 0 p parent depth = (Stuck, p)"
| "parse_value (Suc levels) p parent depth =
     (let p = skip_space p in
      if at_end p then fail p ERR_SYNTAX (poffset p)
      else if current p = LBRACE then parse_object (parse_value levels) p parent depth
      else if current p = LBRACKET then parse_array (parse_value levels) p parent depth
      else if current p = QUOTE then parse_string p parent False
      else parse_primitive p parent)"

section \<open>The child index\<close>

text \<open>The chain of siblings from \<open>child\<close> on; \<open>None\<close> for one longer than the turns given.\<close>

fun child_chain :: "nat \<Rightarrow> token list \<Rightarrow> nat \<Rightarrow> nat list option" where
  "child_chain turns ts child =
     (if child = VALUE_NONE then Some []
      else case turns of
        0 \<Rightarrow> None
      | Suc n \<Rightarrow>
          if child < length ts then
            map_option ((#) child) (child_chain n ts (next_sibling (links (ts ! child))))
          else None)"

declare child_chain.simps [simp del]

text \<open>One turn of the loop of \<open>build_children\<close>: \<open>cursor\<close> is the length of the list filled so far.\<close>

definition index_container ::
  "nat \<Rightarrow> (token list \<times> nat list) option \<Rightarrow> (token list \<times> nat list) option" where
  "index_container i acc =
     (case acc of
        None \<Rightarrow> None
      | Some (ts, filled) \<Rightarrow>
          if ttype (ts ! i) \<noteq> TYPE_OBJECT \<and> ttype (ts ! i) \<noteq> TYPE_ARRAY then Some (ts, filled)
          else
            let ts' = ts[i := (ts ! i)\<lparr>children_offset := length filled\<rparr>]
            in case child_chain (length ts) ts' (first_child (links (ts' ! i))) of
                 None \<Rightarrow> None
               | Some cs \<Rightarrow> Some (ts', filled @ cs))"

definition build_children :: "document \<Rightarrow> heap \<Rightarrow> (result, document) outcome \<times> heap" where
  "build_children d h =
     (case malloc (length (d_tokens d) * SIZEOF_SIZE_T) h of
        (False, h) \<Rightarrow> (Fail ERR_MEMORY, h)
      | (True, h) \<Rightarrow>
          (case fold index_container [0..<length (d_tokens d)] (Some (d_tokens d, [])) of
             None \<Rightarrow> (Stuck, h)
           | Some (ts, filled) \<Rightarrow>
               if length filled + 1 = length ts
               then (Ret (d\<lparr>d_tokens := ts, children := Some filled\<rparr>), h) else (Stuck, h)))"

section \<open>Compaction\<close>

text \<open>
  The target of \<open>compact_walk\<close>: \<open>pk_tokens\<close> is \<open>None\<close> while \<open>target->tokens\<close> is NULL (the sizing
  pass). The C target is a document; its counters are needed apart from the arrays here.
\<close>

record packed =
  pk_tokens :: "token list option"
  pk_token_count :: nat
  pk_token_capacity :: nat
  pk_arena :: bytes
  pk_arena_used :: nat
  pk_arena_capacity :: nat

text \<open>The writes of \<open>compact_walk\<close> for one token; \<open>None\<close> when one would leave its array.\<close>

definition pack_token :: "document \<Rightarrow> token \<Rightarrow> packed \<Rightarrow> nat \<Rightarrow> packed option" where
  "pack_token source old target parent =
     (let fresh = pk_token_count target;
          more = (if ttext old = None then 0 else ttext_size old + 1);
          counted = target\<lparr>pk_token_count := fresh + 1, pk_arena_used := pk_arena_used target + more\<rparr>
      in case pk_tokens target of
           None \<Rightarrow> Some counted
         | Some ts \<Rightarrow>
             if fresh \<ge> pk_token_capacity target \<or>
                pk_arena_used target + more > pk_arena_capacity target then None
             else
               let copy = old\<lparr>links := links_init parent\<rparr>;
                   ts1 = link_under (ts @ [copy]) parent fresh
               in (case ttext old of
                     None \<Rightarrow> Some (counted\<lparr>pk_tokens := Some ts1\<rparr>)
                   | Some off \<Rightarrow>
                       Some (counted\<lparr>pk_tokens :=
                                 Some (ts1[fresh := (ts1 ! fresh)\<lparr>ttext := Some (pk_arena_used target)\<rparr>]),
                               pk_arena := pk_arena target @ take (ttext_size old + 1) (drop off (arena source))\<rparr>)))"

fun compact_walk :: "nat \<Rightarrow> document \<Rightarrow> nat \<Rightarrow> packed \<Rightarrow> nat \<Rightarrow> packed option"
and compact_children :: "nat \<Rightarrow> document \<Rightarrow> nat \<Rightarrow> packed \<Rightarrow> nat \<Rightarrow> packed option"
where
  "compact_walk 0 source index target parent = None"
| "compact_walk (Suc fuel) source index target parent =
     (if index \<ge> length (d_tokens source) then None
      else
        let old = d_tokens source ! index; fresh = pk_token_count target
        in case pack_token source old target parent of
             None \<Rightarrow> None
           | Some target \<Rightarrow> compact_children fuel source (first_child (links old)) target fresh)"
| "compact_children 0 source child target fresh = None"
| "compact_children (Suc fuel) source child target fresh =
     (if child = VALUE_NONE then Some target
      else if child \<ge> length (d_tokens source) then None
      else
        let entry = d_tokens source ! child in
        if object_key entry \<and> superseded entry then
          let v = next_sibling (links entry) in
          if v = VALUE_NONE \<or> v \<ge> length (d_tokens source) then None
          else compact_children fuel source (next_sibling (links (d_tokens source ! v))) target fresh
        else
          case compact_walk fuel source child target fresh of
            None \<Rightarrow> None
          | Some target \<Rightarrow>
              compact_children fuel source (next_sibling (links entry)) target fresh)"

definition compact_fuel :: "document \<Rightarrow> nat" where
  "compact_fuel d = 2 * length (d_tokens d) + 2"

definition compact_document :: "document \<Rightarrow> heap \<Rightarrow> (result, document) outcome \<times> heap" where
  "compact_document d h =
     (let target = \<lparr>pk_tokens = None, pk_token_count = 0, pk_token_capacity = 0, pk_arena = [],
                    pk_arena_used = 0, pk_arena_capacity = 0\<rparr>
      in case compact_walk (compact_fuel d) d 0 target VALUE_NONE of
        None \<Rightarrow> (Stuck, h)
      | Some sized \<Rightarrow>
          let tokens = pk_token_count sized;
              room = (if pk_arena_used sized \<noteq> 0 then pk_arena_used sized else 1);
              (tokens_ok, h) = malloc (tokens * SIZEOF_TOKEN) h;
              (arena_ok, h) = malloc room h
          in if \<not> tokens_ok \<or> \<not> arena_ok then
               let h = (if tokens_ok then mfree (tokens * SIZEOF_TOKEN) h else h);
                   h = (if arena_ok then mfree room h else h)
               in (Fail ERR_MEMORY, h)
             else
               case compact_walk (compact_fuel d) d 0
                      \<lparr>pk_tokens = Some [], pk_token_count = 0, pk_token_capacity = tokens, pk_arena = [],
                       pk_arena_used = 0, pk_arena_capacity = room\<rparr> VALUE_NONE of
                 None \<Rightarrow> (Stuck, h)
               | Some full \<Rightarrow>
                   let h = mfree (token_capacity d * SIZEOF_TOKEN) h;
                       h = mfree (arena_capacity d) h
                   in (Ret (d\<lparr>d_tokens := the (pk_tokens full), token_capacity := tokens,
                              arena := pk_arena full, arena_capacity := room\<rparr>), h))"

section \<open>Documents\<close>

text \<open>
  \<open>parse_allocation_bound\<close>: the sizes in the order of the array, those of the tokens and the
  arena taken \<open>copies\<close> times; the guarded sum fails instead of wrapping.
\<close>

fun bounded_sum :: "nat list \<Rightarrow> nat \<Rightarrow> (result, nat) outcome" where
  "bounded_sum [] acc = Ret acc"
| "bounded_sum (s # ss) acc =
     (if s > SIZE_MAX - acc then Fail ERR_LIMIT else bounded_sum ss (acc + s))"

definition document_token_capacity :: "nat \<Rightarrow> limits \<Rightarrow> nat" where
  "document_token_capacity sz l =
     (let tokens = (if sz < maximum_tokens l then sz else maximum_tokens l)
      in if tokens = 0 then 1 else tokens)"

definition parse_allocation_bound ::
  "nat \<Rightarrow> profile \<Rightarrow> limits option \<Rightarrow> bool \<Rightarrow> (result, nat) outcome" where
  "parse_allocation_bound sz profile requested out_given =
     (if \<not> out_given \<or> sz = SIZE_MAX \<or> \<not> profile_valid profile then Fail ERR_ARGUMENT
      else case limits_resolve requested of
        Ret limits \<Rightarrow>
          if sz > maximum_bytes limits then Fail ERR_LIMIT
          else
            let tokens = document_token_capacity sz limits;
                slots = keyset_capacity (tokens div 2 + 1);
                copies = (if profile = RFC8259_LAST_WINS then 2 else 1)
            in bounded_sum
                 ([SIZEOF_DOCUMENT, sz + 1] @ replicate copies (tokens * SIZEOF_TOKEN) @
                  replicate copies (sz + tokens + 1) @ [slots * SIZEOF_SIZE_T, tokens * SIZEOF_SIZE_T]) 0
      | _ \<Rightarrow> Fail ERR_ARGUMENT)"

text \<open>\<open>maelys_json_document_release\<close> (\<^verbatim>\<open>src/document.c\<close>) of a complete document.\<close>

definition children_size :: "document \<Rightarrow> nat" where
  "children_size d =
     (case children d of None \<Rightarrow> 0 | Some _ \<Rightarrow> length (d_tokens d) * SIZEOF_SIZE_T)"

definition document_release :: "document \<Rightarrow> heap \<Rightarrow> heap" where
  "document_release d h =
     (let h = mfree (children_size d) h;
          h = mfree (arena_capacity d) h;
          h = mfree (token_capacity d * SIZEOF_TOKEN) h;
          h = mfree (length (d_bytes d) + 1) h
      in mfree SIZEOF_DOCUMENT h)"

text \<open>
  \<open>allocate_document\<close>: three allocations after the document, all of them tried; when one failed
  the release frees the ones that did not.
\<close>

definition allocate_document :: "bytes \<Rightarrow> limits \<Rightarrow> heap \<Rightarrow> (result, document) outcome \<times> heap" where
  "allocate_document bs l h =
     (case malloc SIZEOF_DOCUMENT h of
        (False, h) \<Rightarrow> (Fail ERR_MEMORY, h)
      | (True, h) \<Rightarrow>
          let tokens = document_token_capacity (length bs) l;
              room = length bs + tokens + 1;
              (bytes_ok, h) = malloc (length bs + 1) h;
              (tokens_ok, h) = malloc (tokens * SIZEOF_TOKEN) h;
              (arena_ok, h) = malloc room h
          in if \<not> bytes_ok \<or> \<not> tokens_ok \<or> \<not> arena_ok then
               let h = (if arena_ok then mfree room h else h);
                   h = (if tokens_ok then mfree (tokens * SIZEOF_TOKEN) h else h);
                   h = (if bytes_ok then mfree (length bs + 1) h else h)
               in (Fail ERR_MEMORY, mfree SIZEOF_DOCUMENT h)
             else
               (Ret \<lparr>d_profile = RFC8259, d_bytes = bs, d_tokens = [], token_capacity = tokens,
                     arena = [], arena_capacity = room, children = None, duplicate_count = 0\<rparr>, h))"

text \<open>
  \<open>maelys_json_document_parse\<close> from the initialisation of the parser to the release of its key
  set: the parser after it, and the result.
\<close>

definition parse_levels :: "limits \<Rightarrow> nat" where
  "parse_levels l = maximum_depth l + 1"

definition parse_root :: "parser \<Rightarrow> (result, unit) outcome \<times> parser" where
  "parse_root p =
     (case parse_value (parse_levels (plimits p)) p VALUE_NONE 0 of
        (Stuck, p) \<Rightarrow> (Stuck, p)
      | (Fail code, p) \<Rightarrow> (Fail code, skip_space p)
      | (Ret root, p) \<Rightarrow>
          let p = skip_space p in
          if poffset p \<noteq> length (pbytes p) then fail p ERR_SYNTAX (poffset p)
          else if root \<noteq> 0 then (Stuck, p)
          else (Ret (), p))"

definition run_parser :: "parser \<Rightarrow> (result, unit) outcome \<times> parser" where
  "run_parser p =
     (let (r, keys, h) = keyset_init (token_capacity (pdocument p) div 2 + 1) (pheap p);
          p = p\<lparr>pkeys := keys, pheap := h\<rparr>;
          (r, p) = (case r of Ret _ \<Rightarrow> parse_root p | Fail e \<Rightarrow> (Fail e, p) | Stuck \<Rightarrow> (Stuck, p));
          (keys, h) = keyset_release (pkeys p) (pheap p)
      in (r, p\<lparr>pkeys := keys, pheap := h\<rparr>))"

text \<open>The rest of \<open>maelys_json_document_parse\<close>: compaction and the child index.\<close>

definition finish_document :: "document \<Rightarrow> heap \<Rightarrow> (result, document) outcome \<times> document \<times> heap" where
  "finish_document d h =
     (case (if duplicate_count d \<noteq> 0 then compact_document d h else (Ret d, h)) of
        (Ret d, h) \<Rightarrow>
          (case build_children d h of
             (Ret d', h) \<Rightarrow> (Ret d', d', h)
           | (Fail e, h) \<Rightarrow> (Fail e, d, h)
           | (Stuck, h) \<Rightarrow> (Stuck, d, h))
      | (Fail e, h) \<Rightarrow> (Fail e, d, h)
      | (Stuck, h) \<Rightarrow> (Stuck, d, h))"

text \<open>
  \<open>maelys_json_document_parse\<close>. The buffer is \<open>src\<close> (\<open>None\<close> for NULL) of \<open>sz\<close> bytes; the error
  is \<open>None\<close> when \<open>out_error\<close> is NULL. \<open>*out_document\<close> is the document returned.
\<close>

definition no_error :: json_error where
  "no_error = \<lparr>err_code = OK, err_offset = 0, err_line = 0, err_column = 0\<rparr>"

definition initial_parser ::
  "document \<Rightarrow> profile \<Rightarrow> limits \<Rightarrow> json_error option \<Rightarrow> heap \<Rightarrow> parser" where
  "initial_parser d prof l err h =
     \<lparr>pdocument = d\<lparr>d_profile := prof\<rparr>, pprofile = prof, plimits = l, perror = err, poffset = 0,
      pkeys = \<lparr>slots = [], ks_capacity = 0, ks_count = 0\<rparr>, pheap = h\<rparr>"

definition parse_document ::
  "bytes \<Rightarrow> profile \<Rightarrow> limits \<Rightarrow> json_error option \<Rightarrow> heap \<Rightarrow>
   (result, document) outcome \<times> json_error option \<times> heap" where
  "parse_document bs prof l err h =
     (let report = (\<lambda>code err. error_set err code (Some bs) (length bs) 0) in
      case allocate_document bs l h of
        (Stuck, h) \<Rightarrow> (Stuck, err, h)
      | (Fail code, h) \<Rightarrow> (Fail code, report code err, h)
      | (Ret d, h) \<Rightarrow>
          let (r, p) = run_parser (initial_parser d prof l err h);
              err = perror p;
              (r, d, h) =
                (case r of
                   Ret _ \<Rightarrow> finish_document (pdocument p) (pheap p)
                 | Fail code \<Rightarrow> (Fail code, pdocument p, pheap p)
                 | Stuck \<Rightarrow> (Stuck, pdocument p, pheap p))
          in case r of
               Ret d \<Rightarrow> (Ret d, err, h)
             | Fail code \<Rightarrow>
                 (Fail code,
                  (case err of
                     Some e \<Rightarrow> if err_code e = OK then report code err else err
                   | None \<Rightarrow> None),
                  document_release d h)
             | Stuck \<Rightarrow> (Stuck, err, h))"

definition document_parse ::
  "bytes option \<Rightarrow> nat \<Rightarrow> profile \<Rightarrow> limits option \<Rightarrow> bool \<Rightarrow> json_error option \<Rightarrow> heap \<Rightarrow>
   (result, document) outcome \<times> json_error option \<times> heap" where
  "document_parse src sz prof requested out_given out_error h =
     (let err = map_option (\<lambda>_. no_error) out_error;
          bs = (case src of None \<Rightarrow> [] | Some b \<Rightarrow> take sz b);
          rejected = (Fail ERR_ARGUMENT, error_set err ERR_ARGUMENT None 0 0, h)
      in if \<not> out_given \<or> (src = None \<and> sz \<noteq> 0) \<or> sz = SIZE_MAX \<or> \<not> profile_valid prof
         then rejected
         else case limits_resolve requested of
           Ret l \<Rightarrow>
             if sz > maximum_bytes l then
               (Fail ERR_LIMIT, error_set err ERR_LIMIT src sz 0, h)
             else
               (case parse_allocation_bound sz prof (Some l) True of
                  Fail code \<Rightarrow> (Fail code, error_set err code src sz 0, h)
                | Stuck \<Rightarrow> (Stuck, err, h)
                | Ret _ \<Rightarrow> parse_document bs prof l err h)
         | _ \<Rightarrow> rejected)"

end
