(* ===== verification/Document.thy ===== *)
theory Document
  imports Parser
begin

text \<open>
  \<^verbatim>\<open>src/document.c\<close> and \<^verbatim>\<open>src/helpers.c\<close>: reading a parsed document through handles, which are
  token indices.

  A call returns \<open>Ret\<close> of what it stores through its output pointer, or \<open>Fail\<close> with its code and
  stores nothing. A document or key pointer that may be NULL is an option, an output pointer is
  whether it was given. \<open>Stuck\<close> is a failed assertion or an access outside the token array or the
  child index. A view is the bytes it borrows. The 64-bit arithmetic of the integer readers is on
  words, so a sum that wrapped would show.
\<close>

unbundle bit_operations_syntax

section \<open>Outcomes without a state\<close>

fun bind_outcome :: "('e, 'a) outcome \<Rightarrow> ('a \<Rightarrow> ('e, 'b) outcome) \<Rightarrow> ('e, 'b) outcome" where
  "bind_outcome (Ret x) k = k x"
| "bind_outcome (Fail e) k = Fail e"
| "bind_outcome Stuck k = Stuck"

lemma bind_outcome_iff [outcome_iff]:
  "bind_outcome m k = Ret y \<longleftrightarrow> (\<exists>x. m = Ret x \<and> k x = Ret y)"
  "bind_outcome m k = Fail e \<longleftrightarrow> m = Fail e \<or> (\<exists>x. m = Ret x \<and> k x = Fail e)"
  "bind_outcome m k = Stuck \<longleftrightarrow> m = Stuck \<or> (\<exists>x. m = Ret x \<and> k x = Stuck)"
  by (cases m; auto)+

text \<open>An assertion, or an access that must be inside its array.\<close>

fun require :: "'a option \<Rightarrow> ('e, 'a) outcome" where
  "require (Some x) = Ret x"
| "require None = Stuck"

text \<open>A C string ends at its first NUL; the NUL after the last byte of the list is implicit.\<close>

definition c_string :: "bytes \<Rightarrow> bytes" where
  "c_string s = takeWhile (\<lambda>b. b \<noteq> 0) s"

section \<open>Handles\<close>

definition document_duplicate_count :: "document option \<Rightarrow> bool \<Rightarrow> (result, nat) outcome" where
  "document_duplicate_count document out_given =
     (case document of
        None \<Rightarrow> Fail ERR_ARGUMENT
      | Some d \<Rightarrow> if \<not> out_given then Fail ERR_ARGUMENT else Ret (duplicate_count d))"

definition document_root :: "document option \<Rightarrow> json_value" where
  "document_root document =
     (case document of
        None \<Rightarrow> VALUE_NONE
      | Some d \<Rightarrow> if length (d_tokens d) \<noteq> 0 then 0 else VALUE_NONE)"

definition value_type :: "document option \<Rightarrow> json_value \<Rightarrow> json_type" where
  "value_type document value =
     (case document of
        None \<Rightarrow> TYPE_NONE
      | Some d \<Rightarrow> if value < length (d_tokens d) then ttype (d_tokens d ! value) else TYPE_NONE)"

text \<open>The token, and the document the handle is one of.\<close>

definition token_of ::
  "document option \<Rightarrow> json_value \<Rightarrow> json_type \<Rightarrow> (result, document \<times> token) outcome" where
  "token_of document value expected =
     (case document of
        None \<Rightarrow> Fail ERR_ARGUMENT
      | Some d \<Rightarrow>
          if value \<ge> length (d_tokens d) then Fail ERR_ARGUMENT
          else
            let t = d_tokens d ! value
            in if ttype t \<noteq> expected then Fail ERR_TYPE else Ret (d, t))"

definition child_at :: "document \<Rightarrow> token \<Rightarrow> nat \<Rightarrow> (result, nat) outcome" where
  "child_at d t position =
     (if position \<ge> child_count (links t) then Stuck
      else case children d of
        None \<Rightarrow> Stuck
      | Some cs \<Rightarrow>
          if children_offset t + position < length cs then Ret (cs ! (children_offset t + position))
          else Stuck)"

text \<open>The key token at an even position of an object's children, after its assertion.\<close>

definition key_at :: "document \<Rightarrow> token \<Rightarrow> nat \<Rightarrow> (result, token) outcome" where
  "key_at d container position =
     bind_outcome (child_at d container position) (\<lambda>k.
       if k < length (d_tokens d) \<and> object_key (d_tokens d ! k) then Ret (d_tokens d ! k) else Stuck)"

section \<open>Objects and arrays\<close>

text \<open>The loop of \<open>maelys_json_object_get_sized\<close>; the number of turns is that of the members left.\<close>

fun find_member ::
  "document \<Rightarrow> token \<Rightarrow> bytes option \<Rightarrow> nat \<Rightarrow> nat \<Rightarrow> nat \<Rightarrow> (result, json_value) outcome" where
  "find_member d container key key_size i 0 = Fail ERR_NOT_FOUND"
| "find_member d container key key_size i (Suc remaining) =
     bind_outcome (key_at d container (2 * i)) (\<lambda>key_token.
       if ttext_size key_token = key_size \<and>
          (key_size = 0 \<or> Some (token_text (arena d) key_token) = map_option (take key_size) key)
       then child_at d container (2 * i + 1)
       else find_member d container key key_size (i + 1) remaining)"

definition object_get_sized ::
  "document option \<Rightarrow> json_value \<Rightarrow> bytes option \<Rightarrow> nat \<Rightarrow> bool \<Rightarrow> (result, json_value) outcome" where
  "object_get_sized document object key key_size out_given =
     (if (key = None \<and> key_size \<noteq> 0) \<or> \<not> out_given then Fail ERR_ARGUMENT
      else bind_outcome (token_of document object TYPE_OBJECT) (\<lambda>(d, container).
        find_member d container key key_size 0 (child_count (links container) div 2)))"

definition object_get ::
  "document option \<Rightarrow> json_value \<Rightarrow> bytes option \<Rightarrow> bool \<Rightarrow> (result, json_value) outcome" where
  "object_get document object key out_given =
     (case key of
        None \<Rightarrow> Fail ERR_ARGUMENT
      | Some k \<Rightarrow> object_get_sized document object key (length (c_string k)) out_given)"

definition object_size :: "document option \<Rightarrow> json_value \<Rightarrow> bool \<Rightarrow> (result, nat) outcome" where
  "object_size document object out_given =
     (if \<not> out_given then Fail ERR_ARGUMENT
      else bind_outcome (token_of document object TYPE_OBJECT) (\<lambda>(d, container).
        if child_count (links container) mod 2 = 0 then Ret (child_count (links container) div 2)
        else Stuck))"

text \<open>The key is returned too; the C function stores it only when \<open>out_key\<close> is not NULL.\<close>

definition object_member_at ::
  "document option \<Rightarrow> json_value \<Rightarrow> nat \<Rightarrow> bool \<Rightarrow> (result, view \<times> json_value) outcome" where
  "object_member_at document object index out_given =
     (if \<not> out_given then Fail ERR_ARGUMENT
      else bind_outcome (token_of document object TYPE_OBJECT) (\<lambda>(d, container).
        if index \<ge> child_count (links container) div 2 then Fail ERR_RANGE
        else bind_outcome (key_at d container (2 * index)) (\<lambda>key_token.
          bind_outcome (child_at d container (2 * index + 1)) (\<lambda>v.
            Ret (token_text (arena d) key_token, v)))))"

definition array_size :: "document option \<Rightarrow> json_value \<Rightarrow> bool \<Rightarrow> (result, nat) outcome" where
  "array_size document array out_given =
     (if \<not> out_given then Fail ERR_ARGUMENT
      else bind_outcome (token_of document array TYPE_ARRAY) (\<lambda>(d, container).
        Ret (child_count (links container))))"

definition array_get :: "document option \<Rightarrow> json_value \<Rightarrow> nat \<Rightarrow> bool \<Rightarrow> (result, json_value) outcome" where
  "array_get document array index out_given =
     (if \<not> out_given then Fail ERR_ARGUMENT
      else bind_outcome (token_of document array TYPE_ARRAY) (\<lambda>(d, container).
        if index \<ge> child_count (links container) then Fail ERR_RANGE
        else child_at d container index))"

section \<open>Scalars\<close>

definition text_view :: "document option \<Rightarrow> json_value \<Rightarrow> json_type \<Rightarrow> bool \<Rightarrow> (result, view) outcome" where
  "text_view document value expected out_given =
     (if \<not> out_given then Fail ERR_ARGUMENT
      else bind_outcome (token_of document value expected) (\<lambda>(d, t). Ret (token_text (arena d) t)))"

definition value_string :: "document option \<Rightarrow> json_value \<Rightarrow> bool \<Rightarrow> (result, view) outcome" where
  "value_string document value out_given = text_view document value TYPE_STRING out_given"

definition value_number_text :: "document option \<Rightarrow> json_value \<Rightarrow> bool \<Rightarrow> (result, view) outcome" where
  "value_number_text document value out_given = text_view document value TYPE_NUMBER out_given"

text \<open>The digit loop of \<open>read_magnitude\<close> over the bytes from \<open>offset\<close> on.\<close>

fun magnitude_loop :: "u64 \<Rightarrow> bytes \<Rightarrow> u64 \<Rightarrow> (result, u64) outcome" where
  "magnitude_loop maximum [] magnitude = Ret magnitude"
| "magnitude_loop maximum (b # bs) magnitude =
     (if b < 0x30 \<or> b > 0x39 then Fail ERR_NOT_INTEGER
      else
        let digit = ucast (b - 0x30) :: u64
        in if magnitude > (maximum - digit) div 10 then Fail ERR_RANGE
           else magnitude_loop maximum bs (magnitude * 10 + digit))"

definition lexeme_magnitude :: "bytes \<Rightarrow> u64 \<Rightarrow> (result, u64 \<times> bool) outcome" where
  "lexeme_magnitude bs maximum =
     (let negative = (bs \<noteq> [] \<and> bs ! 0 = MINUS);
          offset = (if negative then 1 else 0)
      in bind_outcome (magnitude_loop maximum (drop offset bs) 0) (\<lambda>m. Ret (m, negative)))"

definition read_magnitude ::
  "document option \<Rightarrow> json_value \<Rightarrow> u64 \<Rightarrow> (result, u64 \<times> bool) outcome" where
  "read_magnitude document value maximum =
     bind_outcome (token_of document value TYPE_NUMBER) (\<lambda>(d, t).
       lexeme_magnitude (token_text (arena d) t) maximum)"

definition UINT64_MAX :: u64 where "UINT64_MAX = 18446744073709551615"

definition value_u64 :: "document option \<Rightarrow> json_value \<Rightarrow> bool \<Rightarrow> (result, u64) outcome" where
  "value_u64 document value out_given =
     (if \<not> out_given then Fail ERR_ARGUMENT
      else bind_outcome (read_magnitude document value UINT64_MAX) (\<lambda>(magnitude, negative).
        if negative \<and> magnitude \<noteq> 0 then Fail ERR_RANGE else Ret magnitude))"

text \<open>
  A signed result is its 64-bit word in two's complement. The minimum is a case of its own in the
  code, which negates every other magnitude.
\<close>

definition minimum_magnitude :: u64 where "minimum_magnitude = 9223372036854775808"
definition INT64_MAX :: u64 where "INT64_MAX = 9223372036854775807"

definition value_i64 :: "document option \<Rightarrow> json_value \<Rightarrow> bool \<Rightarrow> (result, u64) outcome" where
  "value_i64 document value out_given =
     (if \<not> out_given then Fail ERR_ARGUMENT
      else bind_outcome (read_magnitude document value minimum_magnitude) (\<lambda>(magnitude, negative).
        if \<not> negative \<and> magnitude > INT64_MAX then Fail ERR_RANGE
        else if negative \<and> magnitude = minimum_magnitude then Ret minimum_magnitude
        else Ret (if negative then - magnitude else magnitude)))"

definition value_boolean :: "document option \<Rightarrow> json_value \<Rightarrow> bool \<Rightarrow> (result, bool) outcome" where
  "value_boolean document value out_given =
     (if \<not> out_given then Fail ERR_ARGUMENT
      else bind_outcome (token_of document value TYPE_BOOLEAN) (\<lambda>(d, t). Ret (boolean_value t)))"

definition value_is_null :: "document option \<Rightarrow> json_value \<Rightarrow> bool" where
  "value_is_null document value =
     (case document of
        None \<Rightarrow> False
      | Some d \<Rightarrow> value < length (d_tokens d) \<and> ttype (d_tokens d ! value) = TYPE_NULL)"

section \<open>Typed member helpers\<close>

definition object_get_string ::
  "document option \<Rightarrow> json_value \<Rightarrow> bytes option \<Rightarrow> bool \<Rightarrow> (result, view) outcome" where
  "object_get_string document object key out_given =
     bind_outcome (object_get document object key True) (\<lambda>v. value_string document v out_given)"

definition object_get_u64 ::
  "document option \<Rightarrow> json_value \<Rightarrow> bytes option \<Rightarrow> bool \<Rightarrow> (result, u64) outcome" where
  "object_get_u64 document object key out_given =
     bind_outcome (object_get document object key True) (\<lambda>v. value_u64 document v out_given)"

definition object_get_i64 ::
  "document option \<Rightarrow> json_value \<Rightarrow> bytes option \<Rightarrow> bool \<Rightarrow> (result, u64) outcome" where
  "object_get_i64 document object key out_given =
     bind_outcome (object_get document object key True) (\<lambda>v. value_i64 document v out_given)"

definition object_get_boolean ::
  "document option \<Rightarrow> json_value \<Rightarrow> bytes option \<Rightarrow> bool \<Rightarrow> (result, bool) outcome" where
  "object_get_boolean document object key out_given =
     bind_outcome (object_get document object key True) (\<lambda>v. value_boolean document v out_given)"

end
