(* ===== verification/Json_Spec.thy ===== *)
theory Json_Spec
  imports Utf8_Strings
begin

text \<open>
  What a JSON text is and means, independent of the code: the values, the grammar of RFC 8259
  with the strings of each profile, and the layout of a value as a sequence of cells, which is
  what the token array of a document is an implementation of.

  A cell is what a token says apart from its links: its parent, type, text, truth value, and
  whether it is an object key. A value is laid out in preorder; an object lists a key cell
  before the cells of each of its values.
\<close>

unbundle bit_operations_syntax

section \<open>Values\<close>

datatype json =
    JNull
  | JBool bool
  | JNum bytes
  | JStr bytes
  | JArr "json list"
  | JObj "(bytes \<times> json) list"

text \<open>The number of cells of a value, and how deeply its containers nest.\<close>

fun json_cells :: "json \<Rightarrow> nat" where
  "json_cells (JArr vs) = 1 + sum_list (map json_cells vs)"
| "json_cells (JObj ms) = 1 + sum_list (map (\<lambda>(k, v). 1 + json_cells v) ms)"
| "json_cells _ = 1"

fun json_height :: "json \<Rightarrow> nat" where
  "json_height (JArr vs) = 1 + fold max (map json_height vs) 0"
| "json_height (JObj ms) = 1 + fold max (map (\<lambda>(k, v). json_height v) ms) 0"
| "json_height _ = 0"

lemma json_cells_positive [simp]: "0 < json_cells v"
  by (cases v) auto

text \<open>No object, at any depth, has a key twice.\<close>

fun unique_keys :: "json \<Rightarrow> bool" where
  "unique_keys (JArr vs) \<longleftrightarrow> (\<forall>v \<in> set vs. unique_keys v)"
| "unique_keys (JObj ms) \<longleftrightarrow> distinct (map fst ms) \<and> (\<forall>(k, v) \<in> set ms. unique_keys v)"
| "unique_keys _ \<longleftrightarrow> True"

text \<open>Every object without the members that a later member of the same key supersedes.\<close>

fun last_members :: "(bytes \<times> json) list \<Rightarrow> (bytes \<times> json) list" where
  "last_members [] = []"
| "last_members ((k, v) # ms) =
     (if k \<in> set (map fst ms) then last_members ms else (k, v) # last_members ms)"

fun last_wins :: "json \<Rightarrow> json" where
  "last_wins (JArr vs) = JArr (map last_wins vs)"
| "last_wins (JObj ms) = JObj (last_members (map (\<lambda>(k, v). (k, last_wins v)) ms))"
| "last_wins v = v"

section \<open>Grammar\<close>

definition json_ws :: "bytes \<Rightarrow> bool" where
  "json_ws bs \<longleftrightarrow> (\<forall>b \<in> set bs. b = SPACE \<or> b = TAB \<or> b = CR \<or> b = LF)"

text \<open>The characters between the quotes, and the bytes they stand for (section 7).\<close>

inductive string_chars :: "bytes \<Rightarrow> bytes \<Rightarrow> bool" where
  chars_end: "string_chars [] []"
| chars_plain: "scalar_value cp \<Longrightarrow> 0x20 \<le> cp \<Longrightarrow> cp \<noteq> 0x22 \<Longrightarrow> cp \<noteq> 0x5c \<Longrightarrow> string_chars raw out \<Longrightarrow>
    string_chars (utf8_enc cp @ raw) (utf8_enc cp @ out)"
| chars_short: "(e, c) \<in> short_escapes \<Longrightarrow> string_chars raw out \<Longrightarrow>
    string_chars (BACKSLASH # e # raw) (c # out)"
| chars_unicode: "unicode_escape es v \<Longrightarrow> string_chars raw out \<Longrightarrow>
    string_chars (BACKSLASH # 0x75 # es @ raw) (utf8_enc v @ out)"

definition json_string :: "profile \<Rightarrow> bytes \<Rightarrow> bytes \<Rightarrow> bool" where
  "json_string profile raw out \<longleftrightarrow>
     (if profile = CONTRACT_ASCII
      then out = raw \<and> (\<forall>b \<in> set raw. 0x20 \<le> b \<and> b \<le> 0x7e \<and> b \<noteq> QUOTE \<and> b \<noteq> BACKSLASH)
      else string_chars raw out)"

inductive json_text :: "profile \<Rightarrow> bytes \<Rightarrow> json \<Rightarrow> bool"
  and json_elements :: "profile \<Rightarrow> bytes \<Rightarrow> json list \<Rightarrow> bool"
  and json_members :: "profile \<Rightarrow> bytes \<Rightarrow> (bytes \<times> json) list \<Rightarrow> bool"
  for profile
where
  text_null: "json_text profile (ascii ''null'') JNull"
| text_true: "json_text profile (ascii ''true'') (JBool True)"
| text_false: "json_text profile (ascii ''false'') (JBool False)"
| text_number: "json_number n \<Longrightarrow> json_text profile n (JNum n)"
| text_string: "json_string profile raw s \<Longrightarrow> json_text profile (QUOTE # raw @ [QUOTE]) (JStr s)"
| text_empty_array: "json_ws w \<Longrightarrow> json_text profile (LBRACKET # w @ [RBRACKET]) (JArr [])"
| text_array: "json_elements profile bs vs \<Longrightarrow>
    json_text profile (LBRACKET # bs @ [RBRACKET]) (JArr vs)"
| text_empty_object: "json_ws w \<Longrightarrow> json_text profile (LBRACE # w @ [RBRACE]) (JObj [])"
| text_object: "json_members profile bs ms \<Longrightarrow>
    json_text profile (LBRACE # bs @ [RBRACE]) (JObj ms)"
| elements_one: "json_ws w1 \<Longrightarrow> json_text profile t v \<Longrightarrow> json_ws w2 \<Longrightarrow>
    json_elements profile (w1 @ t @ w2) [v]"
| elements_more: "json_ws w1 \<Longrightarrow> json_text profile t v \<Longrightarrow> json_ws w2 \<Longrightarrow> json_elements profile bs vs \<Longrightarrow>
    json_elements profile (w1 @ t @ w2 @ COMMA # bs) (v # vs)"
| members_one: "json_ws w1 \<Longrightarrow> json_string profile raw k \<Longrightarrow> json_ws w2 \<Longrightarrow> json_ws w3 \<Longrightarrow>
    json_text profile t v \<Longrightarrow> json_ws w4 \<Longrightarrow>
    json_members profile (w1 @ QUOTE # raw @ QUOTE # w2 @ COLON # w3 @ t @ w4) [(k, v)]"
| members_more: "json_ws w1 \<Longrightarrow> json_string profile raw k \<Longrightarrow> json_ws w2 \<Longrightarrow> json_ws w3 \<Longrightarrow>
    json_text profile t v \<Longrightarrow> json_ws w4 \<Longrightarrow> json_members profile bs ms \<Longrightarrow>
    json_members profile (w1 @ QUOTE # raw @ QUOTE # w2 @ COLON # w3 @ t @ w4 @ COMMA # bs) ((k, v) # ms)"

definition json_document :: "profile \<Rightarrow> bytes \<Rightarrow> json \<Rightarrow> bool" where
  "json_document profile bs v \<longleftrightarrow>
     (\<exists>w1 t w2. bs = w1 @ t @ w2 \<and> json_ws w1 \<and> json_text profile t v \<and> json_ws w2)"

section \<open>Layout\<close>

record cell =
  c_parent :: nat
  c_type :: json_type
  c_text :: "bytes option"
  c_truth :: bool
  c_key :: bool

fun layout :: "nat \<Rightarrow> nat \<Rightarrow> json \<Rightarrow> cell list"
and layout_elements :: "nat \<Rightarrow> nat \<Rightarrow> json list \<Rightarrow> cell list"
and layout_members :: "nat \<Rightarrow> nat \<Rightarrow> (bytes \<times> json) list \<Rightarrow> cell list"
where
  "layout up i JNull = [\<lparr>c_parent = up, c_type = TYPE_NULL, c_text = None, c_truth = False, c_key = False\<rparr>]"
| "layout up i (JBool b) =
     [\<lparr>c_parent = up, c_type = TYPE_BOOLEAN, c_text = None, c_truth = b, c_key = False\<rparr>]"
| "layout up i (JNum n) =
     [\<lparr>c_parent = up, c_type = TYPE_NUMBER, c_text = Some n, c_truth = False, c_key = False\<rparr>]"
| "layout up i (JStr s) =
     [\<lparr>c_parent = up, c_type = TYPE_STRING, c_text = Some s, c_truth = False, c_key = False\<rparr>]"
| "layout up i (JArr vs) =
     \<lparr>c_parent = up, c_type = TYPE_ARRAY, c_text = None, c_truth = False, c_key = False\<rparr> #
       layout_elements i (i + 1) vs"
| "layout up i (JObj ms) =
     \<lparr>c_parent = up, c_type = TYPE_OBJECT, c_text = None, c_truth = False, c_key = False\<rparr> #
       layout_members i (i + 1) ms"
| "layout_elements up i [] = []"
| "layout_elements up i (v # vs) = layout up i v @ layout_elements up (i + json_cells v) vs"
| "layout_members up i [] = []"
| "layout_members up i ((k, v) # ms) =
     \<lparr>c_parent = up, c_type = TYPE_STRING, c_text = Some k, c_truth = False, c_key = True\<rparr> #
       layout up (i + 1) v @ layout_members up (i + 1 + json_cells v) ms"

lemma layout_length [simp]:
  "length (layout up i v) = json_cells v"
  "length (layout_elements up i vs) = sum_list (map json_cells vs)"
  "length (layout_members up i ms) = sum_list (map (\<lambda>(k, v). 1 + json_cells v) ms)"
  by (induction up i v and up i vs and up i ms rule: layout_layout_elements_layout_members.induct)
    auto

lemma layout_elements_append:
  "layout_elements up i (vs @ us) =
     layout_elements up i vs @ layout_elements up (i + sum_list (map json_cells vs)) us"
  by (induction vs arbitrary: i) (simp_all add: add.assoc)

lemma layout_members_append:
  "layout_members up i (ms @ ns) =
     layout_members up i ms @
       layout_members up (i + sum_list (map (\<lambda>(k, v). 1 + json_cells v) ms)) ns"
  by (induction ms arbitrary: i) (auto simp: add.assoc)

text \<open>Where the children of a container stand.\<close>

fun element_handles :: "nat \<Rightarrow> json list \<Rightarrow> nat list" where
  "element_handles i [] = []"
| "element_handles i (v # vs) = i # element_handles (i + json_cells v) vs"

fun member_handles :: "nat \<Rightarrow> (bytes \<times> json) list \<Rightarrow> nat list" where
  "member_handles i [] = []"
| "member_handles i ((k, v) # ms) = i # (i + 1) # member_handles (i + 1 + json_cells v) ms"

end
