(* ===== verification/Token_Tree.thy ===== *)
theory Token_Tree
  imports Types
begin

text \<open>
  The links of a token array are a function of the parents alone: \<open>kids ts i\<close> are the tokens
  whose parent is \<open>i\<close>, and \<open>linked ts\<close> says that the first and last child, the sibling and the
  count of every token are the ones that list gives. Appending a token with \<open>link_under\<close> (what
  \<open>add_token\<close> and \<open>compact_walk\<close> do) keeps \<open>linked\<close>.
\<close>

section \<open>Definitions\<close>

abbreviation parent_of :: "token \<Rightarrow> nat" where
  "parent_of t \<equiv> l_parent (links t)"

definition kids :: "token list \<Rightarrow> nat \<Rightarrow> nat list" where
  "kids ts i = filter (\<lambda>j. parent_of (ts ! j) = i) [0..<length ts]"

definition first_of :: "nat list \<Rightarrow> nat" where
  "first_of xs = (case xs of [] \<Rightarrow> VALUE_NONE | x # _ \<Rightarrow> x)"

definition last_of :: "nat list \<Rightarrow> nat" where
  "last_of xs = (if xs = [] then VALUE_NONE else last xs)"

definition after :: "nat list \<Rightarrow> nat \<Rightarrow> nat" where
  "after xs i = first_of (filter (\<lambda>j. i < j) xs)"

definition linked_at :: "token list \<Rightarrow> nat \<Rightarrow> bool" where
  "linked_at ts i \<longleftrightarrow>
     (let l = links (ts ! i) in
      first_child l = first_of (kids ts i) \<and> last_child l = last_of (kids ts i) \<and>
      child_count l = length (kids ts i) \<and>
      next_sibling l = (if l_parent l = VALUE_NONE then VALUE_NONE else after (kids ts (l_parent l)) i))"

definition parents_before :: "token list \<Rightarrow> bool" where
  "parents_before ts \<longleftrightarrow>
     (\<forall>i < length ts. parent_of (ts ! i) = VALUE_NONE \<or> parent_of (ts ! i) < i)"

definition linked :: "token list \<Rightarrow> bool" where
  "linked ts \<longleftrightarrow> length ts \<le> VALUE_NONE \<and> parents_before ts \<and> (\<forall>i < length ts. linked_at ts i)"

section \<open>Kids\<close>

lemma kids_cong:
  assumes "map parent_of ts = map parent_of us"
  shows "kids ts i = kids us i"
proof -
  have len: "length ts = length us" using assms by (metis length_map)
  have "parent_of (ts ! j) = parent_of (us ! j)" if "j < length us" for j
    using assms that len by (metis nth_map)
  then show ?thesis by (auto simp: kids_def len intro: filter_cong)
qed

lemma kids_snoc: "kids (ts @ [t :: token]) i = kids ts i @ (if parent_of t = i then [length ts] else [])"
proof -
  have "filter (\<lambda>j. parent_of ((ts @ [t]) ! j) = i) [0..<length ts] = kids ts i"
    unfolding kids_def by (rule filter_cong) (auto simp: nth_append)
  then show ?thesis by (simp add: kids_def)
qed

lemma set_kids: "set (kids ts i) = {j. j < length ts \<and> parent_of (ts ! j) = i}"
  by (auto simp: kids_def)

lemma sorted_kids [simp]: "sorted (kids ts i)" "distinct (kids ts i)"
  by (simp_all add: kids_def sorted_wrt_filter)

lemma kids_none:
  assumes "parents_before ts" "length ts \<le> i" "i < VALUE_NONE"
  shows "kids ts i = []"
  using assms by (auto simp: kids_def parents_before_def filter_empty_conv)

lemma kids_bound: "j \<in> set (kids ts i) \<Longrightarrow> j < length ts"
  by (simp add: set_kids)

lemma last_of_member: "xs \<noteq> [] \<Longrightarrow> last_of xs \<in> set xs"
  by (simp add: last_of_def)

lemma last_of_snoc [simp]: "last_of (xs @ [x]) = x"
  by (simp add: last_of_def)

lemma first_of_snoc: "first_of (xs @ [x]) = (if xs = [] then x else first_of xs)"
  by (cases xs) (simp_all add: first_of_def)

lemma sorted_le_last: "sorted xs \<Longrightarrow> x \<in> set xs \<Longrightarrow> x \<le> last xs"
  by (induction xs rule: rev_induct) (auto simp: sorted_append)

lemma after_snoc_old:
  assumes "sorted xs" "i \<in> set xs" "i \<noteq> last xs" "\<forall>x \<in> set xs. x < n"
  shows "after (xs @ [n]) i = after xs i"
proof -
  have "i < last xs"
    using assms(1-3) sorted_le_last le_neq_implies_less by blast
  moreover have "last xs \<in> set xs" using assms(2) by (cases xs) auto
  ultimately have "filter (\<lambda>j. i < j) xs \<noteq> []" by (auto simp: filter_empty_conv)
  then show ?thesis
    by (cases "filter (\<lambda>j. i < j) xs") (auto simp: after_def first_of_def)
qed

lemma after_snoc_last:
  assumes "sorted xs" "xs \<noteq> []" "\<forall>x \<in> set xs. x < n"
  shows "after (xs @ [n]) (last xs) = n"
proof -
  have "filter (\<lambda>j. last xs < j) xs = []"
    using sorted_le_last [OF assms(1)] by (auto simp: filter_empty_conv not_less)
  moreover have "last xs < n" using assms(2,3) by simp
  ultimately show ?thesis by (simp add: after_def first_of_def)
qed

lemma after_none: "\<forall>x \<in> set xs. x \<le> n \<Longrightarrow> after xs n = VALUE_NONE"
  by (auto simp: after_def first_of_def filter_empty_conv not_less split: list.splits)

section \<open>Linking\<close>

lemma link_under_none [simp]: "link_under ts VALUE_NONE index = ts"
  by (simp add: link_under_def)

text \<open>What \<open>link_under\<close> writes, given that the container's last child is another token.\<close>

lemma link_under_links:
  assumes "up \<noteq> VALUE_NONE" "up < length ts"
    "last_child (links (ts ! up)) \<noteq> VALUE_NONE \<Longrightarrow>
       last_child (links (ts ! up)) < length ts \<and> last_child (links (ts ! up)) \<noteq> up"
  shows "links (link_under ts up n ! i) =
    (if i = up then
       (links (ts ! up))\<lparr>first_child := (if last_child (links (ts ! up)) = VALUE_NONE then n
                                     else first_child (links (ts ! up))),
         last_child := n, child_count := child_count (links (ts ! up)) + 1\<rparr>
     else if i = last_child (links (ts ! up)) \<and> i \<noteq> VALUE_NONE
       then (links (ts ! i))\<lparr>next_sibling := n\<rparr>
     else links (ts ! i))"
proof (cases "last_child (links (ts ! up)) = VALUE_NONE")
  case True
  have "links (link_under ts up n ! i) = links (ts ! i)" if "i \<noteq> up"
    using that True assms(1) by (simp add: link_under_def links_append_def Let_def)
  with True assms(1,2) show ?thesis
    by (auto simp: link_under_def links_append_def Let_def)
next
  case False
  let ?l = "last_child (links (ts ! up))"
  have l: "?l < length ts" "?l \<noteq> up" using assms(3) False by auto
  have eq: "link_under ts up n =
      ts[?l := (ts ! ?l)\<lparr>links := (links (ts ! ?l))\<lparr>next_sibling := n\<rparr>\<rparr>,
         up := (ts ! up)\<lparr>links := (links (ts ! up))\<lparr>last_child := n,
           child_count := child_count (links (ts ! up)) + 1\<rparr>\<rparr>]"
    using False assms(1) l by (simp add: link_under_def links_append_def Let_def)
  show ?thesis
    unfolding eq using l assms(1,2) False by (cases "i = up"; cases "i = ?l") simp_all
qed

lemma link_under_rest:
  assumes "up < length ts" "last_child (links (ts ! up)) \<noteq> VALUE_NONE \<Longrightarrow> last_child (links (ts ! up)) < length ts"
  shows "(link_under ts up n ! i)\<lparr>links := x\<rparr> = (ts ! i)\<lparr>links := x\<rparr>"
  using assms
  by (cases "i = up"; cases "i = last_child (links (ts ! up))")
    (auto simp: link_under_def links_append_def Let_def)

lemma linked_last_child:
  assumes "linked ts" "up < length ts" "last_child (links (ts ! up)) \<noteq> VALUE_NONE"
  shows "last_child (links (ts ! up)) \<in> set (kids ts up)" "last_child (links (ts ! up)) < length ts"
    "last_child (links (ts ! up)) \<noteq> up"
proof -
  have "last_child (links (ts ! up)) = last_of (kids ts up)"
    using assms by (auto simp: linked_def linked_at_def Let_def)
  moreover have "kids ts up \<noteq> []" using calculation assms(3) by (auto simp: last_of_def)
  ultimately show mem: "last_child (links (ts ! up)) \<in> set (kids ts up)"
    by (metis last_of_member)
  then show lt: "last_child (links (ts ! up)) < length ts" by (rule kids_bound)
  have "parent_of (ts ! up) \<noteq> up"
    using assms(1,2) by (auto simp: linked_def parents_before_def)
  with mem show "last_child (links (ts ! up)) \<noteq> up" by (auto simp: set_kids)
qed

text \<open>Appending a token under \<open>up\<close>.\<close>

definition append_token :: "token list \<Rightarrow> token \<Rightarrow> nat \<Rightarrow> token list" where
  "append_token ts t up = link_under (ts @ [t]) up (length ts)"

lemma length_append_token [simp]: "length (append_token ts t up) = Suc (length ts)"
  by (simp add: append_token_def)

definition can_append :: "token list \<Rightarrow> token \<Rightarrow> nat \<Rightarrow> bool" where
  "can_append ts t up \<longleftrightarrow>
     linked ts \<and> (up = VALUE_NONE \<or> up < length ts) \<and> links t = links_init up"

lemma can_appendD:
  assumes "can_append ts t up"
  shows "linked ts" "up = VALUE_NONE \<or> up < length ts" "links t = links_init up"
  using assms by (auto simp: can_append_def)

lemma append_up:
  assumes "can_append ts t up" "up \<noteq> VALUE_NONE"
  shows "up < length (ts @ [t])" "(ts @ [t]) ! up = ts ! up"
    "last_child (links ((ts @ [t]) ! up)) \<noteq> VALUE_NONE \<Longrightarrow>
       last_child (links ((ts @ [t]) ! up)) < length (ts @ [t]) \<and>
       last_child (links ((ts @ [t]) ! up)) \<noteq> up"
  using assms linked_last_child [of ts up] by (auto simp: can_append_def nth_append)

lemma append_token_rest:
  assumes "can_append ts t up"
  shows "(append_token ts t up ! i)\<lparr>links := x\<rparr> = ((ts @ [t]) ! i)\<lparr>links := x\<rparr>"
proof (cases "up = VALUE_NONE")
  case False
  then show ?thesis
    unfolding append_token_def using append_up [OF assms] by (intro link_under_rest) auto
qed (simp add: append_token_def)

lemma append_token_links:
  assumes can: "can_append ts t up"
  shows "links (append_token ts t up ! i) =
    (if up = VALUE_NONE then links ((ts @ [t]) ! i)
     else if i = up then
       (links (ts ! up))\<lparr>first_child := first_of (kids ts up @ [length ts]),
         last_child := length ts, child_count := length (kids ts up) + 1\<rparr>
     else if kids ts up \<noteq> [] \<and> i = last (kids ts up)
       then (links (ts ! i))\<lparr>next_sibling := length ts\<rparr>
     else links ((ts @ [t]) ! i))"
proof (cases "up = VALUE_NONE")
  case False
  note linked = can_appendD(1) [OF can] and up = can_appendD(2) [OF can] and t = can_appendD(3) [OF can]
  note u = append_up [OF can False]
  have "linked_at ts up" using linked up False by (auto simp: linked_def)
  then have fields: "first_child (links (ts ! up)) = first_of (kids ts up)"
    "last_child (links (ts ! up)) = last_of (kids ts up)"
    "child_count (links (ts ! up)) = length (kids ts up)"
    by (auto simp: linked_at_def Let_def)
  have lt: "kids ts up \<noteq> [] \<Longrightarrow> last (kids ts up) < length ts"
    by (meson kids_bound last_in_set)
  have none: "kids ts up \<noteq> [] \<Longrightarrow> last (kids ts up) \<noteq> VALUE_NONE"
    using lt linked by (auto simp: linked_def)
  have init: "first_of (kids ts up @ [length ts]) = (if kids ts up = [] then length ts else first_of (kids ts up))"
    by (simp add: first_of_snoc)
  have "links (append_token ts t up ! i) =
    (if i = up then
       (links (ts ! up))\<lparr>first_child := (if last_of (kids ts up) = VALUE_NONE then length ts
                                     else first_of (kids ts up)),
         last_child := length ts, child_count := length (kids ts up) + 1\<rparr>
     else if i = last_of (kids ts up) \<and> i \<noteq> VALUE_NONE
       then (links ((ts @ [t]) ! i))\<lparr>next_sibling := length ts\<rparr>
     else links ((ts @ [t]) ! i))"
    unfolding append_token_def using link_under_links [of up "ts @ [t]" "length ts" i] False u
    by (simp add: fields)
  moreover have "last_of (kids ts up) = VALUE_NONE \<longleftrightarrow> kids ts up = []"
    using none by (auto simp: last_of_def)
  moreover have "kids ts up \<noteq> [] \<Longrightarrow> (ts @ [t]) ! last (kids ts up) = ts ! last (kids ts up)"
    using lt by (simp add: nth_append)
  ultimately show ?thesis
    using False none by (simp add: first_of_snoc last_of_def)
qed (simp add: append_token_def)

lemma append_token_parents:
  assumes can: "can_append ts t up"
  shows "map parent_of (append_token ts t up) = map parent_of (ts @ [t])"
proof (rule nth_equalityI)
  note up = can_appendD(2) [OF can]
  fix i assume "i < length (map parent_of (append_token ts t up))"
  then have i: "i < Suc (length ts)" by simp
  have "up \<noteq> VALUE_NONE \<Longrightarrow> up < length ts" using up by blast
  moreover have "kids ts up \<noteq> [] \<Longrightarrow> last (kids ts up) < length ts"
    by (meson kids_bound last_in_set)
  ultimately show "map parent_of (append_token ts t up) ! i = map parent_of (ts @ [t]) ! i"
    using i by (auto simp: append_token_links [OF can] nth_append simp del: map_append)
qed simp

lemma append_token_kids:
  assumes can: "can_append ts t up"
  shows "kids (append_token ts t up) i = kids ts i @ (if up = i then [length ts] else [])"
  using kids_cong [OF append_token_parents [OF can]] can_appendD(3) [OF can]
  by (simp add: kids_snoc links_init_def)

lemma append_token_parents_before:
  assumes can: "can_append ts t up"
  shows "parents_before (append_token ts t up)"
proof -
  have "parent_of (append_token ts t up ! i) = parent_of ((ts @ [t]) ! i)" if "i < Suc (length ts)" for i
    using append_token_parents [OF can] that by (metis length_append_token length_append_singleton nth_map)
  with can_appendD [OF can] show ?thesis
    by (auto simp: linked_def parents_before_def nth_append links_init_def less_Suc_eq)
qed

lemma append_token_linked_new:
  assumes can: "can_append ts t up" and n: "length ts < VALUE_NONE"
  shows "linked_at (append_token ts t up) (length ts)"
proof -
  note linked = can_appendD(1) [OF can] and up = can_appendD(2) [OF can] and t = can_appendD(3) [OF can]
  have "parents_before ts" using linked by (simp add: linked_def)
  then have none: "kids ts (length ts) = []" using kids_none n by simp
  have other: "up \<noteq> length ts" using up n by auto
  have le: "\<forall>x \<in> set (kids ts up @ [length ts]). x \<le> length ts"
    by (auto simp: set_kids)
  have last: "length ts \<noteq> last (kids ts up)" if "kids ts up \<noteq> []"
    using kids_bound [OF last_in_set [OF that]] by simp
  have "links (append_token ts t up ! length ts) = links_init up"
    using other t last by (subst append_token_links [OF can]) auto
  moreover have "kids (append_token ts t up) (length ts) = []"
    using none other by (simp add: append_token_kids [OF can])
  moreover have "after (kids (append_token ts t up) up) (length ts) = VALUE_NONE"
    using after_none [OF le] by (simp add: append_token_kids [OF can])
  ultimately show ?thesis
    by (simp add: linked_at_def Let_def links_init_def first_of_def last_of_def)
qed

lemma append_token_linked_old:
  assumes can: "can_append ts t up" and n: "length ts < VALUE_NONE" and lt: "i < length ts"
  shows "linked_at (append_token ts t up) i"
proof -
  note linked = can_appendD(1) [OF can] and up = can_appendD(2) [OF can]
  note kids = append_token_kids [OF can] and new_links = append_token_links [OF can]
  let ?q = "parent_of (ts ! i)"
  have o: "first_child (links (ts ! i)) = first_of (kids ts i)"
    "last_child (links (ts ! i)) = last_of (kids ts i)"
    "child_count (links (ts ! i)) = length (kids ts i)"
    "next_sibling (links (ts ! i)) = (if ?q = VALUE_NONE then VALUE_NONE else after (kids ts ?q) i)"
    using linked lt by (auto simp: linked_def linked_at_def Let_def)
  have q: "?q = VALUE_NONE \<or> ?q < i" using linked lt by (simp add: linked_def parents_before_def)
  have bound: "\<forall>x \<in> set (kids ts j). x < length ts" for j by (simp add: set_kids)
  have mem: "i \<in> set (kids ts ?q)" using lt by (simp add: set_kids)
  have iu: "?q \<noteq> i" using q lt n by auto
  consider (root) "up = VALUE_NONE" | (parent) "up \<noteq> VALUE_NONE" "i = up"
    | (sibling) "up \<noteq> VALUE_NONE" "i \<noteq> up" "kids ts up \<noteq> []" "i = last (kids ts up)"
    | (other) "up \<noteq> VALUE_NONE" "i \<noteq> up" "kids ts up \<noteq> [] \<longrightarrow> i \<noteq> last (kids ts up)" by blast
  then show ?thesis
  proof cases
    case root
    have "links (append_token ts t up ! i) = links (ts ! i)"
      using root lt by (subst new_links) (simp add: nth_append)
    moreover have "kids (append_token ts t up) j = kids ts j" if "j \<noteq> VALUE_NONE" for j
      using that root by (subst kids) simp
    moreover have "i \<noteq> VALUE_NONE" using lt n by simp
    ultimately show ?thesis using o by (simp add: linked_at_def Let_def)
  next
    case parent
    then have "?q \<noteq> up" using iu by simp
    with parent o show ?thesis by (simp add: linked_at_def Let_def kids new_links)
  next
    case sibling
    then have "?q = up" using last_in_set [of "kids ts up"] by (auto simp: set_kids)
    moreover have "after (kids ts up @ [length ts]) i = length ts"
      using sibling bound after_snoc_last [of "kids ts up" "length ts"] by simp
    ultimately show ?thesis using sibling o by (simp add: linked_at_def Let_def kids new_links)
  next
    case other
    have "links (append_token ts t up ! i) = links (ts ! i)"
      using other lt by (subst new_links) (auto simp: nth_append)
    moreover have "after (kids ts up @ [length ts]) i = after (kids ts up) i" if "?q = up"
    proof (rule after_snoc_old)
      show "i \<in> set (kids ts up)" using mem that by simp
      then show "i \<noteq> last (kids ts up)" using other(3) by auto
    qed (use bound in auto)
    ultimately show ?thesis using other o
      by (cases "?q = up") (simp_all add: linked_at_def Let_def kids)
  qed
qed

lemma append_token_linked:
  assumes can: "can_append ts t up" and n: "length ts < VALUE_NONE"
  shows "linked (append_token ts t up)"
  using append_token_linked_new [OF can n] append_token_linked_old [OF can n]
    append_token_parents_before [OF can] n
  by (auto simp: linked_def less_Suc_eq)

text \<open>Updates that leave the links alone leave \<open>linked\<close> alone.\<close>

lemma kids_links_cong: "map links ts = map links us \<Longrightarrow> kids ts i = kids us i"
  by (rule kids_cong) (simp add: list_eq_iff_nth_eq)

lemma linked_cong:
  assumes "map links ts = map links us"
  shows "linked ts \<longleftrightarrow> linked us"
proof -
  have len: "length ts = length us" using assms by (metis length_map)
  have nth: "links (ts ! i) = links (us ! i)" if "i < length us" for i
    using assms that len by (metis nth_map)
  have "linked_at ts i \<longleftrightarrow> linked_at us i" if "i < length us" for i
    using nth [OF that] by (simp add: linked_at_def Let_def kids_links_cong [OF assms])
  then show ?thesis using len nth by (auto simp: linked_def parents_before_def)
qed

section \<open>Following the siblings\<close>

lemma first_of_Cons [simp]: "first_of (x # xs) = x"
  by (simp add: first_of_def)

lemma first_of_Nil [simp]: "first_of [] = VALUE_NONE"
  by (simp add: first_of_def)

lemma after_nth:
  assumes "sorted xs" "distinct xs" "k < length xs"
  shows "after xs (xs ! k) = first_of (drop (Suc k) xs)"
proof -
  have "filter (\<lambda>j. xs ! k < j) xs =
      filter (\<lambda>j. xs ! k < j) (take (Suc k) xs) @ filter (\<lambda>j. xs ! k < j) (drop (Suc k) xs)"
    by (metis append_take_drop_id filter_append)
  moreover have "filter (\<lambda>j. xs ! k < j) (take (Suc k) xs) = []"
    using assms by (auto simp: filter_empty_conv in_set_conv_nth not_less less_Suc_eq_le
        intro!: sorted_nth_mono)
  moreover have "filter (\<lambda>j. xs ! k < j) (drop (Suc k) xs) = drop (Suc k) xs"
    using assms by (auto simp: filter_id_conv in_set_conv_nth nth_eq_iff_index_eq
        intro!: le_neq_implies_less sorted_nth_mono)
  ultimately show ?thesis by (simp add: after_def)
qed

lemma next_sibling_kid:
  assumes "linked ts" "up < length ts" "k < length (kids ts up)"
  shows "next_sibling (links (ts ! (kids ts up ! k))) = first_of (drop (Suc k) (kids ts up))"
proof -
  let ?j = "kids ts up ! k"
  have j: "?j < length ts" "parent_of (ts ! ?j) = up"
    using nth_mem [OF assms(3)] by (simp_all add: set_kids)
  have "up \<noteq> VALUE_NONE" using assms(1,2) by (auto simp: linked_def)
  then have "next_sibling (links (ts ! ?j)) = after (kids ts up) ?j"
    using assms(1) j by (auto simp: linked_def linked_at_def Let_def)
  with assms(3) show ?thesis by (simp add: after_nth)
qed

lemma first_child_kid:
  "linked ts \<Longrightarrow> up < length ts \<Longrightarrow> first_child (links (ts ! up)) = first_of (kids ts up)"
  by (auto simp: linked_def linked_at_def Let_def)

lemma kid_not_none: "linked ts \<Longrightarrow> j \<in> set (kids ts up) \<Longrightarrow> j \<noteq> VALUE_NONE \<and> j < length ts"
  by (auto simp: linked_def set_kids)

end
