(* ===== verification/Parser_Inv.thy ===== *)
theory Parser_Inv
  imports Parser Json_Spec Token_Tree
begin

text \<open>
  The invariant of the parser, and the parts of it each basic operation needs.

  \<open>cells d\<close> is the abstraction of a document under construction: its tokens without links,
  offsets and arena positions. \<open>doc_inv\<close> says the links are those of the parents, every text lies
  in the arena before its NUL, and the arrays have the sizes the parser allocated. \<open>keys_inv\<close> ties
  the key set to the tokens: it holds the keys not superseded, and a key is superseded exactly
  when a later token of the same parent has the same text. \<open>ends p m Q\<close> is the contract of a
  parsing function: it returns with \<open>Q\<close>, or it fails with a recorded position, and never gets
  stuck; buffers, limits, the heap and the size of the key table stay as they were.
\<close>

unbundle bit_operations_syntax

section \<open>Cells\<close>

definition cell_of :: "bytes \<Rightarrow> token \<Rightarrow> cell" where
  "cell_of ar t =
     \<lparr>c_parent = parent_of t, c_type = ttype t, c_text = map_option (\<lambda>_. token_text ar t) (ttext t),
      c_truth = boolean_value t, c_key = object_key t\<rparr>"

definition cells :: "document \<Rightarrow> cell list" where
  "cells d = map (cell_of (arena d)) (d_tokens d)"

lemma length_cells [simp]: "length (cells d) = length (d_tokens d)"
  by (simp add: cells_def)

text \<open>A text lies in the arena and a NUL follows it.\<close>

definition text_ok :: "bytes \<Rightarrow> token \<Rightarrow> bool" where
  "text_ok ar t \<longleftrightarrow>
     (case ttext t of
        None \<Rightarrow> True
      | Some off \<Rightarrow> off + ttext_size t < length ar \<and> ar ! (off + ttext_size t) = 0)"

lemma text_ok_append: "text_ok ar t \<Longrightarrow> text_ok (ar @ ext) t"
  by (auto simp: text_ok_def nth_append split: option.splits)

lemma token_text_append: "text_ok ar t \<Longrightarrow> token_text (ar @ ext) t = token_text ar t"
  by (auto simp: text_ok_def token_text_def split: option.splits)

lemma cell_of_append: "text_ok ar t \<Longrightarrow> cell_of (ar @ ext) t = cell_of ar t"
  by (simp add: cell_of_def token_text_append)

text \<open>What a token says apart from its links.\<close>

lemma token_rest_eq:
  assumes "s\<lparr>links := x\<rparr> = t\<lparr>links := x\<rparr>"
  shows "ttype s = ttype t" "ttext s = ttext t" "ttext_size s = ttext_size t"
    "object_key s = object_key t" "boolean_value s = boolean_value t" "superseded s = superseded t"
    "tstart s = tstart t" "tend s = tend t" "children_offset s = children_offset t"
  using assms by (cases s; cases t; simp)+

lemma append_token_cell:
  assumes "can_append ts t up" "i < Suc (length ts)"
  shows "cell_of ar (append_token ts t up ! i) = cell_of ar ((ts @ [t]) ! i)"
proof -
  have "parent_of (append_token ts t up ! i) = parent_of ((ts @ [t]) ! i)"
    using append_token_parents [OF assms(1)] assms(2)
    by (metis length_append_token length_append_singleton nth_map)
  then show ?thesis
    using token_rest_eq [OF append_token_rest [OF assms(1)]]
    by (simp add: cell_of_def token_text_def cong: option.case_cong)
qed

lemma append_token_cells:
  assumes "can_append ts t up"
  shows "map (cell_of ar) (append_token ts t up) = map (cell_of ar) ts @ [cell_of ar t]"
  by (rule nth_equalityI) (auto simp: append_token_cell [OF assms] nth_append less_Suc_eq)

section \<open>Invariants\<close>

definition doc_inv :: "document \<Rightarrow> bool" where
  "doc_inv d \<longleftrightarrow>
     linked (d_tokens d) \<and> (\<forall>t \<in> set (d_tokens d). text_ok (arena d) t) \<and>
     length (d_tokens d) \<le> token_capacity d \<and> token_capacity d < VALUE_NONE \<and>
     arena_capacity d = length (d_bytes d) + token_capacity d + 1"

text \<open>The token \<open>j\<close> is a key of the same object and with the same text as \<open>i\<close>.\<close>

definition same_key :: "document \<Rightarrow> nat \<Rightarrow> nat \<Rightarrow> bool" where
  "same_key d i j \<longleftrightarrow>
     object_key (d_tokens d ! i) \<and> object_key (d_tokens d ! j) \<and> token_key d i = token_key d j"

definition live_keys :: "document \<Rightarrow> nat set" where
  "live_keys d =
     {i. i < length (d_tokens d) \<and> object_key (d_tokens d ! i) \<and> \<not> superseded (d_tokens d ! i)}"

definition superseded_set :: "document \<Rightarrow> nat set" where
  "superseded_set d = {i. i < length (d_tokens d) \<and> superseded (d_tokens d ! i)}"

definition keys_inv :: "profile \<Rightarrow> document \<Rightarrow> keyset \<Rightarrow> bool" where
  "keys_inv prof d keys \<longleftrightarrow>
     keyset_inv (token_key d) keys \<and> keyset_entries keys = live_keys d \<and>
     token_capacity d div 2 + 1 \<le> ks_capacity keys div 2 \<and>
     (\<forall>i < length (d_tokens d). superseded (d_tokens d ! i) \<longleftrightarrow>
        (\<exists>j < length (d_tokens d). i < j \<and> same_key d i j)) \<and>
     duplicate_count d = card (superseded_set d) \<and>
     (prof \<noteq> RFC8259_LAST_WINS \<longrightarrow> superseded_set d = {})"

definition key_count :: "cell list \<Rightarrow> nat" where
  "key_count cs = length (filter c_key cs)"

lemma key_count_append [simp]: "key_count (xs @ ys) = key_count xs + key_count ys"
  by (simp add: key_count_def)

definition pinv :: "nat \<Rightarrow> parser \<Rightarrow> bool" where
  "pinv slack p \<longleftrightarrow>
     (let d = pdocument p in
      doc_inv d \<and> keys_inv (pprofile p) d (pkeys p) \<and> poffset p \<le> length (pbytes p) \<and>
      length (arena d) \<le> poffset p + length (d_tokens d) \<and>
      2 * key_count (cells d) \<le> length (d_tokens d) + slack \<and>
      (\<forall>e. perror p = Some e \<longrightarrow> err_code e = OK))"

text \<open>What no parsing function changes.\<close>

definition static :: "parser \<Rightarrow>
    (bytes \<times> profile \<times> limits) \<times> (nat \<times> nat \<times> profile \<times> nat list option) \<times> heap \<times> nat" where
  "static p =
     (let d = pdocument p in
      ((pbytes p, pprofile p, plimits p),
       (token_capacity d, arena_capacity d, d_profile d, children d), pheap p, length (slots (pkeys p))))"

lemma staticD:
  assumes "static p' = static p"
  shows "pbytes p' = pbytes p" "pprofile p' = pprofile p" "plimits p' = plimits p"
    "token_capacity (pdocument p') = token_capacity (pdocument p)"
    "arena_capacity (pdocument p') = arena_capacity (pdocument p)" "pheap p' = pheap p"
  using assms by (auto simp: static_def Let_def)

section \<open>Outcomes\<close>

text \<open>A failure has one of four codes and records a position in the input.\<close>

definition failed :: "parser \<Rightarrow> result \<Rightarrow> parser \<Rightarrow> bool" where
  "failed p code p' \<longleftrightarrow>
     code \<in> {ERR_SYNTAX, ERR_UTF8, ERR_LIMIT, ERR_DUPLICATE_KEY} \<and>
     (\<exists>off \<le> length (pbytes p).
        perror p' = error_set (perror p) code (Some (pbytes p)) (length (pbytes p)) off)"

definition ends ::
  "parser \<Rightarrow> (result, 'a) outcome \<times> parser \<Rightarrow> ('a \<Rightarrow> parser \<Rightarrow> bool) \<Rightarrow> bool" where
  "ends p m Q \<longleftrightarrow>
     static (snd m) = static p \<and>
     (case fst m of
        Ret x \<Rightarrow> perror (snd m) = perror p \<and> poffset p \<le> poffset (snd m) \<and> Q x (snd m)
      | Fail code \<Rightarrow> failed p code (snd m)
      | Stuck \<Rightarrow> False)"

lemma ends_Ret [simp]:
  "ends p (Ret x, p') Q \<longleftrightarrow>
     static p' = static p \<and> perror p' = perror p \<and> poffset p \<le> poffset p' \<and> Q x p'"
  by (auto simp: ends_def)

lemma ends_fail [simp]:
  assumes "static p' = static p" "perror p' = perror p"
    "code \<in> {ERR_SYNTAX, ERR_UTF8, ERR_LIMIT, ERR_DUPLICATE_KEY}" "off \<le> length (pbytes p)"
  shows "ends p (fail p' code off) Q"
  using assms staticD(1) [OF assms(1)]
  by (auto simp: ends_def fail_def failed_def static_def Let_def)

lemma ends_weaken: "ends p m Q \<Longrightarrow> (\<And>x p'. static p' = static p \<Longrightarrow> Q x p' \<Longrightarrow> R x p') \<Longrightarrow> ends p m R"
  by (auto simp: ends_def split: outcome.splits)

lemma ends_andthen:
  assumes "ends p m R"
    and "\<And>x p'. m = (Ret x, p') \<Longrightarrow> static p' = static p \<Longrightarrow> perror p' = perror p \<Longrightarrow> poffset p \<le> poffset p' \<Longrightarrow>
      R x p' \<Longrightarrow> ends p' (k x p') Q"
  shows "ends p (andthen m k) Q"
proof -
  obtain r p' where m: "m = (r, p')" by fastforce
  show ?thesis
  proof (cases r)
    case (Ret x)
    with assms(1) m have *: "static p' = static p" "perror p' = perror p" "poffset p \<le> poffset p'" "R x p'"
      by (auto simp: ends_def)
    with assms(2) m Ret have "ends p' (k x p') Q" by simp
    then show ?thesis
      using * m Ret staticD(1) [OF *(1)]
      by (auto simp: ends_def failed_def split: outcome.splits)
  qed (use assms m in \<open>auto simp: ends_def\<close>)
qed

text \<open>Moving the offset first.\<close>

lemma ends_moved:
  assumes "ends p' m Q" "static p' = static p" "perror p' = perror p" "poffset p \<le> poffset p'"
  shows "ends p m Q"
  using assms staticD(1) [OF assms(2)] by (auto simp: ends_def failed_def split: outcome.splits)

lemma static_offset [simp]: "static (p\<lparr>poffset := i\<rparr>) = static p"
  by (simp add: static_def Let_def)

lemma perror_offset [simp]: "perror (p\<lparr>poffset := i\<rparr>) = perror p"
  by simp

lemma advance_simps [simp]:
  "static (advance p) = static p" "perror (advance p) = perror p" "poffset (advance p) = Suc (poffset p)"
  "pdocument (advance p) = pdocument p" "pkeys (advance p) = pkeys p" "pprofile (advance p) = pprofile p"
  "plimits (advance p) = plimits p"
  by (simp_all add: advance_def)

lemma skip_space_simps [simp]:
  "static (skip_space p) = static p" "perror (skip_space p) = perror p"
  "pdocument (skip_space p) = pdocument p" "pkeys (skip_space p) = pkeys p"
  "pprofile (skip_space p) = pprofile p" "plimits (skip_space p) = plimits p"
  by (simp_all add: skip_space_def)

lemma pinv_offset:
  "pinv s p \<Longrightarrow> poffset p \<le> i \<Longrightarrow> i \<le> length (pbytes p) \<Longrightarrow> pinv s (p\<lparr>poffset := i\<rparr>)"
  by (auto simp: pinv_def Let_def)

lemma pinv_advance: "pinv s p \<Longrightarrow> \<not> at_end p \<Longrightarrow> pinv s (advance p)"
  using pinv_offset [of s p "poffset p + 1"] by (simp add: advance_def at_end_def)

lemma is_space_ws: "json_ws bs \<longleftrightarrow> (\<forall>b \<in> set bs. is_space b)"
  by (simp add: json_ws_def is_space_def)

lemma skip_space_facts:
  assumes "poffset p \<le> length (pbytes p)"
  obtains w where "drop (poffset p) (pbytes p) = w @ drop (poffset (skip_space p)) (pbytes p)" "json_ws w"
    "poffset p \<le> poffset (skip_space p)" "poffset (skip_space p) \<le> length (pbytes p)"
    "poffset (skip_space p) = poffset p + length w"
proof
  let ?w = "takeWhile is_space (drop (poffset p) (pbytes p))"
  have s: "poffset (skip_space p) = poffset p + length ?w"
    using scan_while_takeWhile [OF assms] by (simp add: skip_space_def)
  then show "poffset (skip_space p) = poffset p + length ?w" .
  show "drop (poffset p) (pbytes p) = ?w @ drop (poffset (skip_space p)) (pbytes p)"
    unfolding s by (metis drop_drop dropWhile_eq_drop takeWhile_dropWhile_id add.commute)
  show "json_ws ?w" unfolding is_space_ws by (auto dest: set_takeWhileD)
  show "poffset p \<le> poffset (skip_space p)" using s by simp
  show "poffset (skip_space p) \<le> length (pbytes p)"
    using scan_while_le [OF assms] by (simp add: skip_space_def)
qed

lemma pinv_skip_space:
  assumes "pinv s p"
  shows "pinv s (skip_space p)"
proof -
  have "poffset p \<le> length (pbytes p)" using assms by (simp add: pinv_def Let_def)
  then show ?thesis
    using pinv_offset [OF assms] scan_while_ge scan_while_le by (simp add: skip_space_def)
qed

lemma pinv_weaken: "pinv s p \<Longrightarrow> s \<le> s' \<Longrightarrow> pinv s' p"
  by (auto simp: pinv_def Let_def)

end
