(* ===== verification/Parser_Strings.thy ===== *)
theory Parser_Strings
  imports Parser_Inv
begin

text \<open>
  The two passes over a string literal: \<open>scan_string_body\<close> finds the closing quote and
  \<open>decode_string\<close> reads what is before it. \<open>string_body\<close> is the language of the first pass; the
  grammar's strings are exactly the bodies that the second pass accepts.
\<close>

unbundle bit_operations_syntax

section \<open>Bodies\<close>

definition plain_byte :: "profile \<Rightarrow> byte \<Rightarrow> bool" where
  "plain_byte prof b \<longleftrightarrow>
     0x20 \<le> b \<and> b \<noteq> QUOTE \<and> b \<noteq> BACKSLASH \<and> (prof = CONTRACT_ASCII \<longrightarrow> b \<le> 0x7e)"

fun string_body :: "profile \<Rightarrow> bytes \<Rightarrow> bool" where
  "string_body prof [] \<longleftrightarrow> True"
| "string_body prof [b] \<longleftrightarrow> plain_byte prof b"
| "string_body prof (b # c # bs) \<longleftrightarrow>
     (if b = BACKSLASH then prof \<noteq> CONTRACT_ASCII \<and> string_body prof bs
      else plain_byte prof b \<and> string_body prof (c # bs))"

lemma string_body_plain:
  "b \<noteq> BACKSLASH \<Longrightarrow> string_body prof (b # bs) \<longleftrightarrow> plain_byte prof b \<and> string_body prof bs"
  by (cases bs) (auto simp: plain_byte_def)

lemma string_body_escape:
  "string_body prof (BACKSLASH # c # bs) \<longleftrightarrow> prof \<noteq> CONTRACT_ASCII \<and> string_body prof bs"
  by simp

lemma string_body_append:
  "BACKSLASH \<notin> set xs \<Longrightarrow>
     string_body prof (xs @ bs) \<longleftrightarrow> (\<forall>b \<in> set xs. plain_byte prof b) \<and> string_body prof bs"
  by (induction xs) (auto simp: string_body_plain)

lemma hex4_plain:
  assumes "hex4 hs v" "prof \<noteq> CONTRACT_ASCII"
  shows "BACKSLASH \<notin> set hs" "\<forall>b \<in> set hs. plain_byte prof b"
proof -
  have digit: "0x30 \<le> unat b" "unat b \<noteq> 0x5c" if "hex_nat b = Some w" for b w
    using that by (auto simp: hex_nat_def split: if_splits)
  have plain: "b \<noteq> BACKSLASH \<and> plain_byte prof b" if "hex_nat b = Some w" for b w
    using digit [OF that] assms(2) by (auto simp: plain_byte_def byte_order)
  from assms(1) plain show "BACKSLASH \<notin> set hs" "\<forall>b \<in> set hs. plain_byte prof b"
    by (auto simp: hex4_def)
qed

lemma unicode_escape_body:
  assumes "unicode_escape es v" "prof \<noteq> CONTRACT_ASCII"
  shows "string_body prof (es @ bs) \<longleftrightarrow> string_body prof bs"
  using assms(1)
proof cases
  case single
  then show ?thesis using hex4_plain [OF single(1) assms(2)] by (simp add: string_body_append)
next
  case (surrogates hs hi ls lo)
  then show ?thesis
    using hex4_plain [OF surrogates(3) assms(2)] hex4_plain [OF surrogates(6) assms(2)] assms(2)
    by (simp add: string_body_append)
qed

lemma utf8_enc_plain:
  assumes "scalar_value cp" "cp \<noteq> 0x5c" "prof \<noteq> CONTRACT_ASCII"
  shows "(\<forall>b \<in> set (utf8_enc cp). plain_byte prof b) \<longleftrightarrow> 0x20 \<le> cp \<and> cp \<noteq> 0x22"
proof (cases "cp < 0x80")
  case True
  then have "unat (of_nat cp :: byte) = cp" by (simp add: unat_of_nat_byte)
  then show ?thesis
    using assms utf8_enc_single [OF True] by (auto simp: plain_byte_def byte_order)
next
  case False
  have "0x80 \<le> unat b" if "b \<in> set (utf8_enc cp)" for b
    using utf8_enc_high [OF assms(1) _ that] False by (simp add: word_le_nat_alt)
  then show ?thesis
    using False assms(3) by (force simp: plain_byte_def byte_order)
qed

lemma string_chars_iff:
  assumes "prof \<noteq> CONTRACT_ASCII"
  shows "string_chars raw out \<longleftrightarrow> string_body prof raw \<and> string_content raw out"
proof
  assume "string_chars raw out"
  then show "string_body prof raw \<and> string_content raw out"
  proof induction
    case (chars_plain cp raw out)
    then show ?case
      using utf8_enc_plain [OF chars_plain(1) _ assms] utf8_enc_no_backslash [OF chars_plain(1)]
      by (simp add: string_body_append sc_char)
  next
    case (chars_unicode es v raw out)
    then show ?case using unicode_escape_body [OF chars_unicode(1) assms] assms by (simp add: sc_unicode)
  qed (use assms in \<open>auto intro: string_content.intros\<close>)
next
  assume "string_body prof raw \<and> string_content raw out"
  then have "string_content raw out" "string_body prof raw" by simp_all
  then show "string_chars raw out"
  proof induction
    case (sc_char cp raw out)
    then show ?case
      using utf8_enc_plain [OF sc_char(1,2) assms] utf8_enc_no_backslash [OF sc_char(1,2)]
      by (simp add: string_body_append chars_plain)
  next
    case (sc_unicode es v raw out)
    then show ?case using unicode_escape_body [OF sc_unicode(1) assms] by (simp add: chars_unicode)
  qed (auto intro: string_chars.intros)
qed

lemma string_body_ascii:
  "string_body CONTRACT_ASCII raw \<longleftrightarrow> (\<forall>b \<in> set raw. plain_byte CONTRACT_ASCII b)"
  by (induction raw rule: string_body.induct [of "\<lambda>_. _", case_names nil one more])
    (auto simp: plain_byte_def)

text \<open>A string of the grammar is a body that decodes.\<close>

lemma json_string_iff:
  "json_string prof raw out \<longleftrightarrow> string_body prof raw \<and> decode_string raw prof = Ret out"
proof (cases "prof = CONTRACT_ASCII")
  case True
  then show ?thesis
    by (auto simp: json_string_def string_body_ascii decode_string_ascii plain_byte_def)
next
  case False
  then show ?thesis
    using string_chars_iff [OF False] decode_string_content [OF False] by (simp add: json_string_def)
qed

section \<open>The scan\<close>

lemma scan_step_plain:
  assumes "\<not> at_end p" "plain_byte (pprofile p) (current p)"
  shows "scan_string_body p = scan_string_body (advance p)"
proof -
  have "\<not> current p < 0x20" "pprofile p = CONTRACT_ASCII \<Longrightarrow> \<not> current p > 0x7e"
    using assms(2) by (auto simp: plain_byte_def not_less)
  then show ?thesis
    using assms by (subst scan_string_body.simps) (auto simp: plain_byte_def Let_def)
qed

lemma scan_step_quote:
  "\<not> at_end p \<Longrightarrow> current p = QUOTE \<Longrightarrow> scan_string_body p = (Ret (poffset p), advance p)"
  by (subst scan_string_body.simps) simp

lemma scan_step_escape:
  "\<not> at_end p \<Longrightarrow> current p = BACKSLASH \<Longrightarrow> pprofile p \<noteq> CONTRACT_ASCII \<Longrightarrow> \<not> at_end (advance p) \<Longrightarrow>
     scan_string_body p = scan_string_body (advance (advance p))"
  by (subst scan_string_body.simps) simp

lemma at_head:
  assumes "drop (poffset p) (pbytes p) = b # bs"
  shows "\<not> at_end p" "current p = b" "drop (poffset (advance p)) (pbytes (advance p)) = bs"
  using nth_drop_hd [OF assms] by (auto simp: at_end_def current_def)

lemma offset_advance: "i = Suc (poffset p) \<Longrightarrow> p\<lparr>poffset := i\<rparr> = advance p"
  by (simp add: advance_def)

lemma scan_string_body_complete:
  assumes "drop (poffset p) (pbytes p) = raw @ QUOTE # rest" "string_body (pprofile p) raw"
  shows "scan_string_body p =
    (Ret (poffset p + length raw), p\<lparr>poffset := poffset p + length raw + 1\<rparr>)"
  using assms
proof (induction "pprofile p" raw arbitrary: p rule: string_body.induct)
  case 1
  then have "drop (poffset p) (pbytes p) = QUOTE # rest" by simp
  from at_head [OF this] show ?case by (simp add: scan_step_quote advance_def)
next
  case (2 b)
  then have d: "drop (poffset p) (pbytes p) = b # QUOTE # rest" by simp
  note here = at_head [OF d] and there = at_head [OF at_head(3) [OF d]]
  have "scan_string_body p = scan_string_body (advance p)"
    using here 2 by (intro scan_step_plain) auto
  also have "\<dots> = (Ret (Suc (poffset p)), advance (advance p))"
    using there scan_step_quote by simp
  finally show ?case by (simp add: advance_def)
next
  case (3 b c bs)
  then have d: "drop (poffset p) (pbytes p) = b # c # bs @ QUOTE # rest" by simp
  note here = at_head [OF d] and there = at_head [OF at_head(3) [OF d]]
  show ?case
  proof (cases "b = BACKSLASH")
    case True
    then have "scan_string_body p = scan_string_body (advance (advance p))"
      using here there 3(4) by (intro scan_step_escape) auto
    also have "\<dots> = (Ret (poffset p + 2 + length bs), p\<lparr>poffset := poffset p + 2 + length bs + 1\<rparr>)"
      using 3(1) [of "advance (advance p)"] True 3(4) there(3) by (simp add: advance_def)
    finally show ?thesis by simp
  next
    case False
    then have "scan_string_body p = scan_string_body (advance p)"
      using here 3(4) by (intro scan_step_plain) auto
    also have "\<dots> = (Ret (poffset p + 1 + length (c # bs)), p\<lparr>poffset := poffset p + 1 + length (c # bs) + 1\<rparr>)"
      using 3(2) [of "advance p"] False 3(4) here(3) by (simp add: advance_def)
    finally show ?thesis by simp
  qed
qed

text \<open>Every way the scan ends. The failures that record no position leave \<open>perror\<close> alone.\<close>

definition scan_post :: "parser \<Rightarrow> (result, nat) outcome \<times> parser \<Rightarrow> bool" where
  "scan_post p m \<longleftrightarrow>
     (\<exists>off err. snd m = p\<lparr>poffset := off, perror := err\<rparr> \<and> poffset p \<le> off \<and> off \<le> length (pbytes p) \<and>
       (case fst m of
          Ret stop \<Rightarrow> err = perror p \<and> off = Suc stop \<and>
            (\<exists>raw rest. drop (poffset p) (pbytes p) = raw @ QUOTE # rest \<and>
               string_body (pprofile p) raw \<and> stop = poffset p + length raw)
        | Fail code \<Rightarrow> code = ERR_SYNTAX \<and> (err = perror p \<or>
            (\<exists>bad \<le> length (pbytes p).
               err = error_set (perror p) code (Some (pbytes p)) (length (pbytes p)) bad))
        | Stuck \<Rightarrow> False))"

lemma scan_post_here:
  assumes "poffset p \<le> off" "off \<le> length (pbytes p)"
  shows "scan_post p (Fail ERR_SYNTAX, p\<lparr>poffset := off\<rparr>)"
  unfolding scan_post_def using assms by (intro exI [of _ off] exI [of _ "perror p"]) simp

lemma scan_post_fail:
  assumes "poffset p \<le> length (pbytes p)"
  shows "scan_post p (fail p ERR_SYNTAX (poffset p))"
  unfolding scan_post_def fail_def using assms
  by (intro exI [of _ "poffset p"]
      exI [of _ "error_set (perror p) ERR_SYNTAX (Some (pbytes p)) (length (pbytes p)) (poffset p)"])
    (auto intro: exI [of _ "poffset p"])

lemma scan_post_quote:
  assumes "drop (poffset p) (pbytes p) = QUOTE # rest"
  shows "scan_post p (Ret (poffset p), advance p)"
  unfolding scan_post_def advance_def using nth_drop_hd [OF assms] assms
  by (intro exI [of _ "Suc (poffset p)"] exI [of _ "perror p"]) (auto intro!: exI [of _ "[]"])

lemma scan_post_skip:
  assumes "scan_post (p\<lparr>poffset := poffset p + length xs\<rparr>) m" "drop (poffset p) (pbytes p) = xs @ ys"
    "\<And>raw. string_body (pprofile p) raw \<Longrightarrow> string_body (pprofile p) (xs @ raw)"
  shows "scan_post p m"
proof -
  obtain off err where m: "snd m = p\<lparr>poffset := off, perror := err\<rparr>" "poffset p + length xs \<le> off"
    "off \<le> length (pbytes p)"
    "case fst m of
       Ret stop \<Rightarrow> err = perror p \<and> off = Suc stop \<and>
         (\<exists>raw rest. drop (poffset p + length xs) (pbytes p) = raw @ QUOTE # rest \<and>
            string_body (pprofile p) raw \<and> stop = poffset p + length xs + length raw)
     | Fail code \<Rightarrow> code = ERR_SYNTAX \<and> (err = perror p \<or>
         (\<exists>bad \<le> length (pbytes p).
            err = error_set (perror p) code (Some (pbytes p)) (length (pbytes p)) bad))
     | Stuck \<Rightarrow> False"
    using assms(1) unfolding scan_post_def by (auto cong: outcome.case_cong)
  have ys: "drop (poffset p + length xs) (pbytes p) = ys"
    using arg_cong [OF assms(2), of "drop (length xs)"] by (simp add: add.commute)
  show ?thesis
  proof (cases "fst m")
    case (Ret stop)
    with m(4) ys obtain raw rest where r: "err = perror p" "off = Suc stop" "ys = raw @ QUOTE # rest"
      "string_body (pprofile p) raw" "stop = poffset p + length (xs @ raw)" by auto
    have "\<exists>raw rest. drop (poffset p) (pbytes p) = raw @ QUOTE # rest \<and>
        string_body (pprofile p) raw \<and> stop = poffset p + length raw"
      using r assms(2,3) by (intro exI [of _ "xs @ raw"] exI [of _ rest]) simp
    then show ?thesis
      unfolding scan_post_def using Ret m(1-3) r by (intro exI [of _ off] exI [of _ err]) simp
  next
    case (Fail code)
    with m show ?thesis
      unfolding scan_post_def by (intro exI [of _ off] exI [of _ err]) auto
  qed (use m in simp)
qed

lemma scan_string_body_post:
  assumes "poffset p \<le> length (pbytes p)"
  shows "scan_post p (scan_string_body p)"
  using assms
proof (induction p rule: scan_string_body.induct)
  case (1 p)
  show ?case
  proof (cases "at_end p")
    case True
    then show ?thesis
      using scan_post_here [of p "poffset p"] 1 by (subst scan_string_body.simps) simp
  next
    case False
    then have lt: "poffset p < length (pbytes p)" by (simp add: at_end_def)
    have d: "drop (poffset p) (pbytes p) = current p # drop (Suc (poffset p)) (pbytes p)"
      using lt by (simp add: current_def drop_eq_Cons)
    consider (quote) "current p = QUOTE"
      | (bad) "current p \<noteq> QUOTE" "current p < 0x20 \<or>
            pprofile p = CONTRACT_ASCII \<and> (current p = BACKSLASH \<or> current p > 0x7e)"
      | (escape) "current p = BACKSLASH" "pprofile p \<noteq> CONTRACT_ASCII"
      | (plain) "plain_byte (pprofile p) (current p)"
      unfolding plain_byte_def not_less [symmetric] by blast
    then show ?thesis
    proof cases
      case quote
      then show ?thesis using False d scan_post_quote [of p] by (simp add: scan_step_quote)
    next
      case bad
      then have "scan_string_body p = fail p ERR_SYNTAX (poffset p)"
        using False by (subst scan_string_body.simps) (auto simp: Let_def)
      then show ?thesis using scan_post_fail lt by simp
    next
      case escape
      show ?thesis
      proof (cases "at_end (advance p)")
        case True
        then have "scan_string_body p = (Fail ERR_SYNTAX, advance p)"
          using escape False by (subst scan_string_body.simps) simp
        then show ?thesis
          using lt scan_post_here [of p "Suc (poffset p)"] by (simp add: advance_def)
      next
        case inside: False
        then have d2: "drop (poffset p) (pbytes p) = [BACKSLASH, current (advance p)] @
            drop (Suc (Suc (poffset p))) (pbytes p)"
          using d escape by (simp add: current_def at_end_def drop_eq_Cons)
        have "scan_string_body p = scan_string_body (advance (advance p))"
          using escape False inside by (intro scan_step_escape)
        moreover have "scan_post (advance (advance p)) (scan_string_body (advance (advance p)))"
          using "1.IH"(1) [OF False refl] escape inside by (simp add: at_end_def)
        ultimately show ?thesis
          using scan_post_skip [OF _ d2] escape by (simp add: advance_def)
      qed
    next
      case plain
      have d1: "drop (poffset p) (pbytes p) = [current p] @ drop (Suc (poffset p)) (pbytes p)"
        using d by simp
      have "scan_string_body p = scan_string_body (advance p)"
        using plain False by (intro scan_step_plain)
      moreover have "\<not> current p < 0x20" "current p \<noteq> QUOTE" "current p \<noteq> BACKSLASH"
        "\<not> (pprofile p = CONTRACT_ASCII \<and> (current p = BACKSLASH \<or> 0x7e < current p))"
        using plain by (auto simp: plain_byte_def not_less)
      moreover from this have "scan_post (advance p) (scan_string_body (advance p))"
        using "1.IH"(2) [OF False refl] lt by simp
      ultimately show ?thesis
        using scan_post_skip [OF _ d1] plain by (simp add: advance_def string_body_plain)
    qed
  qed
qed

end
