(* ===== verification/Parser_Steps.thy ===== *)
theory Parser_Steps
  imports Parser_Strings
begin

text \<open>
  The operations that add one token keep the invariant and say which cell they add:
  \<open>add_token\<close>, the storing of a text, the registration of a key, and with them
  \<open>parse_string\<close>, \<open>parse_primitive\<close> and \<open>container_delimiter\<close>. Each has a lemma for every way
  it ends (\<open>ends\<close>) and one for the input it accepts.
\<close>

unbundle bit_operations_syntax

section \<open>Documents\<close>

text \<open>\<open>d'\<close> is \<open>d\<close> with one more token, of cell \<open>c\<close>.\<close>

definition extends :: "document \<Rightarrow> document \<Rightarrow> cell \<Rightarrow> bool" where
  "extends d d' c \<longleftrightarrow>
     cells d' = cells d @ [c] \<and>
     map superseded (d_tokens d') = map superseded (d_tokens d) @ [False] \<and>
     linked (d_tokens d') \<and> (\<forall>t \<in> set (d_tokens d'). text_ok (arena d') t) \<and>
     length (arena d') = length (arena d) + (case c_text c of None \<Rightarrow> 0 | Some x \<Rightarrow> length x + 1) \<and>
     d_bytes d' = d_bytes d \<and> token_capacity d' = token_capacity d \<and>
     arena_capacity d' = arena_capacity d \<and> d_profile d' = d_profile d \<and> children d' = children d \<and>
     duplicate_count d' = duplicate_count d"

lemma append_token_last:
  assumes "can_append ts t up" "length ts < VALUE_NONE"
  shows "append_token ts t up ! length ts = t"
proof -
  have "up \<noteq> length ts" using assms by (auto simp: can_append_def)
  moreover have "kids ts up \<noteq> [] \<Longrightarrow> length ts \<noteq> last (kids ts up)"
    using kids_bound [OF last_in_set] by (metis less_irrefl)
  ultimately have "links (append_token ts t up ! length ts) = links t"
    using append_token_links [OF assms(1), of "length ts"] by (auto split: if_splits)
  moreover have "(append_token ts t up ! length ts)\<lparr>links := links t\<rparr> = t\<lparr>links := links t\<rparr>"
    using append_token_rest [OF assms(1)] by simp
  ultimately show ?thesis by (metis token.surjective token.update_convs(1))
qed

text \<open>Keys and flags, read off the cells.\<close>

definition cell_key :: "cell \<Rightarrow> keyset_key" where
  "cell_key c = \<lparr>k_parent = c_parent c, k_bytes = (case c_text c of None \<Rightarrow> [] | Some x \<Rightarrow> x)\<rparr>"

lemma token_key_cell: "i < length (d_tokens d) \<Longrightarrow> token_key d i = cell_key (cells d ! i)"
  by (simp add: token_key_def cell_key_def cells_def cell_of_def token_text_def Let_def split: option.splits)

lemma object_key_cell: "i < length (d_tokens d) \<Longrightarrow> object_key (d_tokens d ! i) = c_key (cells d ! i)"
  by (simp add: cells_def cell_of_def)

lemma extends_length: "extends d d' c \<Longrightarrow> length (d_tokens d') = Suc (length (d_tokens d))"
  unfolding extends_def by (metis length_append_singleton length_cells)

lemma extends_old:
  assumes "extends d d' c" "i < length (d_tokens d)"
  shows "token_key d' i = token_key d i" "object_key (d_tokens d' ! i) = object_key (d_tokens d ! i)"
    "superseded (d_tokens d' ! i) = superseded (d_tokens d ! i)"
proof -
  have i: "i < length (d_tokens d')" using extends_length [OF assms(1)] assms(2) by simp
  have "cells d' ! i = cells d ! i" using assms by (simp add: extends_def nth_append)
  then show "token_key d' i = token_key d i" "object_key (d_tokens d' ! i) = object_key (d_tokens d ! i)"
    using i assms(2) by (simp_all add: token_key_cell object_key_cell)
  have "map superseded (d_tokens d') ! i = (map superseded (d_tokens d) @ [False]) ! i"
    using assms(1) by (simp add: extends_def)
  then show "superseded (d_tokens d' ! i) = superseded (d_tokens d ! i)"
    using i assms(2) by (simp add: nth_append)
qed

lemma extends_new:
  assumes "extends d d' c"
  shows "token_key d' (length (d_tokens d)) = cell_key c"
    "object_key (d_tokens d' ! length (d_tokens d)) = c_key c"
    "\<not> superseded (d_tokens d' ! length (d_tokens d))"
proof -
  let ?n = "length (d_tokens d)"
  have n: "?n < length (d_tokens d')" using extends_length [OF assms] by simp
  have "cells d' ! ?n = c" using assms by (simp add: extends_def nth_append)
  then show "token_key d' ?n = cell_key c" "object_key (d_tokens d' ! ?n) = c_key c"
    using n by (simp_all add: token_key_cell object_key_cell)
  have "map superseded (d_tokens d') ! ?n = (map superseded (d_tokens d) @ [False]) ! ?n"
    using assms by (simp add: extends_def)
  then show "\<not> superseded (d_tokens d' ! ?n)"
    using n by (simp add: nth_append)
qed

lemma append_token_fields:
  assumes "can_append ts t up" "i < Suc (length ts)"
  shows "superseded (append_token ts t up ! i) = superseded ((ts @ [t]) ! i)"
    "text_ok ar (append_token ts t up ! i) = text_ok ar ((ts @ [t]) ! i)"
  using token_rest_eq [OF append_token_rest [OF assms(1)], of i]
  by (simp_all add: text_ok_def cong: option.case_cong)

lemma append_token_superseded:
  assumes "can_append ts t up"
  shows "map superseded (append_token ts t up) = map superseded ts @ [superseded t]"
  by (rule nth_equalityI) (auto simp: append_token_fields(1) [OF assms] nth_append less_Suc_eq)

lemma doc_invD:
  assumes "doc_inv d"
  shows "linked (d_tokens d)" "\<forall>t \<in> set (d_tokens d). text_ok (arena d) t"
    "length (d_tokens d) \<le> token_capacity d" "token_capacity d < VALUE_NONE"
    "arena_capacity d = length (d_bytes d) + token_capacity d + 1"
  using assms by (simp_all add: doc_inv_def)

text \<open>The token \<open>f\<close> is appended, then overwritten by \<open>g\<close> in every field but the links.\<close>

lemma extends_append:
  assumes d: "doc_inv d" and can: "can_append (d_tokens d) f up"
    and room: "length (d_tokens d) < token_capacity d"
    and g: "links g = links_init up" "\<not> superseded g" "text_ok (arena d @ ext) g"
      "length ext = (case ttext g of None \<Rightarrow> 0 | Some _ \<Rightarrow> length (token_text (arena d @ ext) g) + 1)"
  shows "extends d (d\<lparr>arena := arena d @ ext,
      d_tokens := (append_token (d_tokens d) f up)[length (d_tokens d) := g]\<rparr>)
    (cell_of (arena d @ ext) g)"
proof -
  let ?ts = "d_tokens d" let ?ar = "arena d @ ext" let ?n = "length ?ts"
  let ?us = "(append_token ?ts f up)[?n := g]"
  have n: "?n < VALUE_NONE" using doc_invD [OF d] room by simp
  have last: "append_token ?ts f up ! ?n = f" by (rule append_token_last [OF can n])
  have "map links ?us = map links (append_token ?ts f up)"
    using last g(1) can_appendD(3) [OF can] by (simp add: map_update list_update_same_conv)
  then have linked: "linked ?us"
    using append_token_linked [OF can n] linked_cong by blast
  have "map (cell_of ?ar) ?ts = map (cell_of (arena d)) ?ts"
    using doc_invD(2) [OF d] by (auto intro: cell_of_append)
  then have "map (cell_of ?ar) ?us = map (cell_of (arena d)) ?ts @ [cell_of ?ar g]"
    by (simp add: map_update append_token_cells [OF can] list_update_append)
  moreover have "map superseded ?us = map superseded ?ts @ [False]"
    using g(2) by (simp add: map_update append_token_superseded [OF can] list_update_append)
  moreover have "\<forall>t \<in> set ?us. text_ok ?ar t"
  proof
    fix t assume "t \<in> set ?us"
    then obtain i where i: "i < Suc ?n" "t = ?us ! i" by (auto simp: in_set_conv_nth)
    show "text_ok ?ar t"
    proof (cases "i = ?n")
      case True
      with i g(3) show ?thesis by simp
    next
      case False
      with i have "i < ?n" by simp
      then show ?thesis
        using i append_token_fields(2) [OF can i(1), of ?ar] doc_invD(2) [OF d] text_ok_append
        by (simp add: nth_append)
    qed
  qed
  ultimately show ?thesis
    using linked g(4) by (auto simp: extends_def cells_def cell_of_def split: option.splits)
qed

lemma extends_doc_inv:
  "doc_inv d \<Longrightarrow> extends d d' c \<Longrightarrow> length (d_tokens d) < token_capacity d \<Longrightarrow> doc_inv d'"
  using extends_length [of d d' c] by (simp add: doc_inv_def extends_def)

section \<open>The key set\<close>

lemma keys_invD:
  assumes "keys_inv prof d keys"
  shows "keyset_inv (token_key d) keys" "keyset_entries keys = live_keys d"
    "token_capacity d div 2 + 1 \<le> ks_capacity keys div 2"
    "\<And>i. i < length (d_tokens d) \<Longrightarrow> superseded (d_tokens d ! i) \<longleftrightarrow>
        (\<exists>j < length (d_tokens d). i < j \<and> same_key d i j)"
    "duplicate_count d = card (superseded_set d)"
    "prof \<noteq> RFC8259_LAST_WINS \<Longrightarrow> superseded_set d = {}"
  using assms by (auto simp: keys_inv_def)

lemma live_keys_bound: "i \<in> live_keys d \<Longrightarrow> i < length (d_tokens d)"
  by (simp add: live_keys_def)

lemma card_live_keys: "card (live_keys d) \<le> key_count (cells d)"
proof -
  have "key_count (cells d) = card {i. i < length (cells d) \<and> c_key (cells d ! i)}"
    by (simp add: key_count_def length_filter_conv_card)
  moreover have "live_keys d \<subseteq> {i. i < length (cells d) \<and> c_key (cells d ! i)}"
    by (auto simp: live_keys_def object_key_cell)
  ultimately show ?thesis by (simp add: card_mono)
qed

lemma keyset_inv_extends:
  assumes "keys_inv prof d keys" "extends d d' c"
  shows "keyset_inv (token_key d') keys"
proof (rule key_table.invar_cong)
  show "keyset_inv (token_key d) keys" using keys_invD(1) [OF assms(1)] .
  fix i assume "i \<in> keyset_entries keys"
  then have "i < length (d_tokens d)" using keys_invD(2) [OF assms(1)] live_keys_bound by simp
  then show "token_key d i = token_key d' i" using extends_old(1) [OF assms(2)] by simp
qed

lemma same_key_extends:
  assumes "extends d d' c" "i < length (d_tokens d)" "j < length (d_tokens d)"
  shows "same_key d' i j \<longleftrightarrow> same_key d i j"
  using extends_old [OF assms(1,2)] extends_old [OF assms(1,3)] by (simp add: same_key_def)

lemma superseded_set_extends:
  assumes "extends d d' c"
  shows "superseded_set d' = superseded_set d"
  using extends_old(3) [OF assms] extends_new(3) [OF assms]
  by (auto simp: superseded_set_def extends_length [OF assms] less_Suc_eq)

lemma live_keys_extends:
  assumes "extends d d' c"
  shows "live_keys d' = (if c_key c then insert (length (d_tokens d)) (live_keys d) else live_keys d)"
  using extends_old(2,3) [OF assms] extends_new(2,3) [OF assms]
  by (auto simp: live_keys_def extends_length [OF assms] less_Suc_eq)

text \<open>A token that is no key, or one whose key is new.\<close>

lemma keys_inv_extends:
  assumes keys: "keys_inv prof d keys" and ext: "extends d d' c" and inv: "keyset_inv (token_key d') keys'"
    and entries: "keyset_entries keys' = live_keys d'" and cap: "ks_capacity keys' div 2 = ks_capacity keys div 2"
    and fresh: "c_key c \<Longrightarrow> cell_key c \<notin> token_key d ` live_keys d"
  shows "keys_inv prof d' keys'"
proof -
  let ?n = "length (d_tokens d)"
  have new: "\<not> same_key d' i ?n" if i: "i < ?n" for i
  proof
    assume same: "same_key d' i ?n"
    then have key: "c_key c" "token_key d i = cell_key c" "object_key (d_tokens d ! i)"
      using extends_new [OF ext] extends_old [OF ext i] by (auto simp: same_key_def)
    show False
    proof (cases "superseded (d_tokens d ! i)")
      case False
      then have "i \<in> live_keys d" using key i by (simp add: live_keys_def)
      then show ?thesis using fresh key(1,2) by (metis image_eqI)
    next
      case True
      define m where "m = Max {j. j < ?n \<and> same_key d i j}"
      let ?S = "{j. j < ?n \<and> same_key d i j}"
      have ne: "finite ?S" "?S \<noteq> {}" using key i by (auto simp: same_key_def)
      then have m: "m < ?n" "same_key d i m" using Max_in [OF ne] by (auto simp: m_def)
      have "\<not> same_key d m j" if "j < ?n" "m < j" for j
      proof
        assume "same_key d m j"
        then have "j \<in> ?S" using m(2) that by (auto simp: same_key_def)
        then have "j \<le> m" unfolding m_def using ne(1) by (rule Max_ge [rotated])
        with that show False by simp
      qed
      then have "m \<in> live_keys d"
        using m keys_invD(4) [OF keys, of m] by (auto simp: live_keys_def same_key_def)
      moreover have "token_key d m = cell_key c" using m(2) key(2) by (simp add: same_key_def)
      ultimately show ?thesis using fresh key(1) by (metis image_eqI)
    qed
  qed
  have spec: "superseded (d_tokens d' ! i) \<longleftrightarrow> (\<exists>j < Suc ?n. i < j \<and> same_key d' i j)" if "i < Suc ?n" for i
  proof (cases "i = ?n")
    case True
    then show ?thesis using extends_new(3) [OF ext] by auto
  next
    case False
    then have i: "i < ?n" using that by simp
    show ?thesis
      using extends_old(3) [OF ext i] keys_invD(4) [OF keys i] new [OF i] same_key_extends [OF ext i]
      by (auto simp: less_Suc_eq)
  qed
  show ?thesis
    unfolding keys_inv_def
    using inv entries cap keys_invD [OF keys] spec superseded_set_extends [OF ext] ext
    by (auto simp: extends_length [OF ext] extends_def)
qed

text \<open>A key that supersedes the one at \<open>i\<close>.\<close>

definition supersede :: "document \<Rightarrow> nat \<Rightarrow> document" where
  "supersede d i =
     (update_token d i (\<lambda>t. t\<lparr>superseded := True\<rparr>))\<lparr>duplicate_count := duplicate_count d + 1\<rparr>"

lemma supersede_fields [simp]:
  "length (d_tokens (supersede d i)) = length (d_tokens d)" "arena (supersede d i) = arena d"
  "d_bytes (supersede d i) = d_bytes d" "token_capacity (supersede d i) = token_capacity d"
  "arena_capacity (supersede d i) = arena_capacity d" "d_profile (supersede d i) = d_profile d"
  "children (supersede d i) = children d" "duplicate_count (supersede d i) = duplicate_count d + 1"
  by (simp_all add: supersede_def update_token_def)

lemma supersede_nth:
  "d_tokens (supersede d i) ! j =
     (if j = i \<and> i < length (d_tokens d) then (d_tokens d ! j)\<lparr>superseded := True\<rparr> else d_tokens d ! j)"
  by (cases "i < length (d_tokens d)"; cases "j = i")
    (simp_all add: supersede_def update_token_def list_update_beyond)

lemma supersede_token:
  "links (d_tokens (supersede d i) ! j) = links (d_tokens d ! j)"
  "object_key (d_tokens (supersede d i) ! j) = object_key (d_tokens d ! j)"
  "i < length (d_tokens d) \<Longrightarrow>
     superseded (d_tokens (supersede d i) ! j) \<longleftrightarrow> j = i \<or> superseded (d_tokens d ! j)"
  "cell_of ar (d_tokens (supersede d i) ! j) = cell_of ar (d_tokens d ! j)"
  "text_ok ar (d_tokens (supersede d i) ! j) = text_ok ar (d_tokens d ! j)"
  by (simp_all add: supersede_nth cell_of_def text_ok_def token_text_def cong: option.case_cong)

lemma supersede_cells: "cells (supersede d i) = cells d"
  unfolding cells_def by (rule nth_equalityI) (simp_all add: supersede_token)

lemma supersede_links: "map links (d_tokens (supersede d i)) = map links (d_tokens d)"
  by (rule nth_equalityI) (simp_all add: supersede_token)

lemma supersede_doc_inv: "doc_inv (supersede d i) \<longleftrightarrow> doc_inv d"
  using linked_cong [OF supersede_links, of d i]
  by (auto simp: doc_inv_def in_set_conv_nth supersede_token all_set_conv_all_nth)

lemma supersede_token_key: "j < length (d_tokens d) \<Longrightarrow> token_key (supersede d i) j = token_key d j"
  using token_key_cell [of j "supersede d i"] token_key_cell [of j d] by (simp add: supersede_cells)

lemma keys_inv_supersede:
  assumes keys: "keys_inv prof d keys" and ext: "extends d d' c" and c: "c_key c"
    and inv: "keyset_inv (token_key d') keys'"
    and entries: "keyset_entries keys' = insert (length (d_tokens d)) (live_keys d - {p})"
    and p: "p \<in> live_keys d" "token_key d p = cell_key c"
    and cap: "ks_capacity keys' div 2 = ks_capacity keys div 2" and prof: "prof = RFC8259_LAST_WINS"
  shows "keys_inv prof (supersede d' p) keys'"
proof -
  let ?n = "length (d_tokens d)" let ?d = "supersede d' p"
  have pn: "p < ?n" using live_keys_bound [OF p(1)] .
  have pn': "p < length (d_tokens d')" using pn extends_length [OF ext] by simp
  have key: "token_key ?d i = token_key d' i" if "i < Suc ?n" for i
    using that extends_length [OF ext] by (intro supersede_token_key) simp
  have same: "same_key ?d i j = same_key d' i j" if "i < Suc ?n" "j < Suc ?n" for i j
    using key that by (simp add: same_key_def supersede_token)
  have newkey: "same_key d' i ?n \<longleftrightarrow> object_key (d_tokens d ! i) \<and> token_key d i = token_key d p" if "i < ?n" for i
    using extends_new [OF ext] extends_old [OF ext that] c p(2) by (auto simp: same_key_def)
  have unique: "i = p" if "i \<in> live_keys d" "token_key d i = token_key d p" for i
    using keyset_entries_inj [OF keys_invD(1) [OF keys]] keys_invD(2) [OF keys] that p(1)
    by (auto dest: inj_onD)
  have spec: "superseded (d_tokens ?d ! i) \<longleftrightarrow> (\<exists>j < Suc ?n. i < j \<and> same_key ?d i j)" if i': "i < Suc ?n" for i
  proof (cases "i = ?n")
    case True
    then show ?thesis using extends_new(3) [OF ext] pn by (auto simp: supersede_token(3) [OF pn'])
  next
    case False
    then have i: "i < ?n" using i' by simp
    have "superseded (d_tokens ?d ! i) \<longleftrightarrow> i = p \<or> superseded (d_tokens d ! i)"
      using supersede_token(3) [OF pn'] extends_old(3) [OF ext i] by simp
    also have "\<dots> \<longleftrightarrow> superseded (d_tokens d ! i) \<or> object_key (d_tokens d ! i) \<and> token_key d i = token_key d p"
      using p(1) unique [of i] i by (auto simp: live_keys_def)
    also have "\<dots> \<longleftrightarrow> (\<exists>j < Suc ?n. i < j \<and> same_key d' i j)"
      using keys_invD(4) [OF keys i] newkey [OF i] same_key_extends [OF ext i] i by (auto simp: less_Suc_eq)
    also have "\<dots> \<longleftrightarrow> (\<exists>j < Suc ?n. i < j \<and> same_key ?d i j)" using same i' by auto
    finally show ?thesis .
  qed
  have live: "live_keys ?d = insert ?n (live_keys d - {p})"
    using live_keys_extends [OF ext] c pn
    by (auto simp: live_keys_def supersede_token(1,2) supersede_token(3) [OF pn'])
  have set: "superseded_set ?d = insert p (superseded_set d)"
    using superseded_set_extends [OF ext] pn'
    by (auto simp: superseded_set_def supersede_token(3) [OF pn'])
  have "p \<notin> superseded_set d" "finite (superseded_set d)"
    using p(1) by (auto simp: live_keys_def superseded_set_def)
  then have count: "duplicate_count ?d = card (superseded_set ?d)"
    using set keys_invD(5) [OF keys] ext by (simp add: extends_def)
  have "keyset_inv (token_key ?d) keys'"
  proof (rule key_table.invar_cong [OF _ inv])
    fix i assume "i \<in> keyset_entries keys'"
    then have "i < Suc ?n" using entries by (auto dest: live_keys_bound)
    then show "token_key d' i = token_key ?d i" using key by simp
  qed
  then show ?thesis
    unfolding keys_inv_def
    using entries live cap keys_invD(3) [OF keys] spec count prof ext
    by (auto simp: extends_length [OF ext] extends_def)
qed

text \<open>Plain insertion into a set with room.\<close>

lemma keyset_insert_room:
  assumes "keyset_inv key_of s" "x \<noteq> VALUE_NONE" "card (keyset_entries s) < ks_capacity s div 2"
  shows "if key_of x \<in> key_of ` keyset_entries s
    then keyset_insert key_of x (s, h) = (Fail ERR_DUPLICATE_KEY, s, h)
    else \<exists>s'. keyset_insert key_of x (s, h) = (Ret VALUE_NONE, s', h) \<and> keyset_inv key_of s' \<and>
      ks_capacity s' = ks_capacity s \<and> keyset_entries s' = insert x (keyset_entries s)"
  using assms(1,2)
proof (cases rule: keyset_insert_cases [where replace = False and h = h])
  case (present p s')
  then have "key_of x \<in> key_of ` keyset_entries s" by (metis image_eqI)
  with present show ?thesis by (simp add: keyset_insert_def)
next
  case (added s' h')
  have "(ks_count s + 1) * 2 \<le> ks_capacity s" using assms(3) keyset_count [OF assms(1)] by simp
  with added show ?thesis by (simp add: keyset_insert_def)
next
  case (memory h')
  with assms(3) keyset_count [OF assms(1)] show ?thesis by simp
qed

lemma keyset_slots_length:
  assumes "keyset_inv key_of s"
  shows "length (slots s) = 2 * (ks_capacity s div 2)"
proof -
  obtain k where k: "ks_capacity s = 2 ^ k" "length (slots s) = ks_capacity s" "8 \<le> ks_capacity s"
    using assms by (auto simp: keyset_inv_def table_inv_def)
  then have "k \<noteq> 0" by (cases k) auto
  with k show ?thesis by (cases k) auto
qed

section \<open>Registering a key\<close>

text \<open>The parser after a key token was added to the document \<open>d\<close>.\<close>

lemma register_key_ends:
  assumes p: "pdocument p = d'" and keys: "keys_inv (pprofile p) d (pkeys p)" and ext: "extends d d' c"
    and c: "c_key c" and inv: "doc_inv d'" and room: "card (live_keys d) < ks_capacity (pkeys p) div 2"
  shows "if pprofile p \<noteq> RFC8259_LAST_WINS \<and> cell_key c \<in> token_key d ` live_keys d
    then register_key p (length (d_tokens d)) = (Fail ERR_DUPLICATE_KEY, p)
    else \<exists>d'' keys'. register_key p (length (d_tokens d)) =
        (Ret (), p\<lparr>pdocument := d'', pkeys := keys'\<rparr>) \<and>
      keys_inv (pprofile p) d'' keys' \<and> doc_inv d'' \<and> cells d'' = cells d' \<and> arena d'' = arena d' \<and>
      static (p\<lparr>pdocument := d'', pkeys := keys'\<rparr>) = static p"
proof -
  let ?n = "length (d_tokens d)" let ?k = "token_key d'" let ?h = "pheap p"
  have kinv: "keyset_inv ?k (pkeys p)" by (rule keyset_inv_extends [OF keys ext])
  have entries: "keyset_entries (pkeys p) = live_keys d" by (rule keys_invD(2) [OF keys])
  have n: "?n \<noteq> VALUE_NONE"
    using doc_invD(3,4) [OF inv] extends_length [OF ext] by simp
  have kn: "?k ?n = cell_key c" by (rule extends_new(1) [OF ext])
  have old: "?k ` live_keys d = token_key d ` live_keys d"
    using extends_old(1) [OF ext] live_keys_bound by (auto simp: image_iff)
  have room': "card (keyset_entries (pkeys p)) < ks_capacity (pkeys p) div 2" using room entries by simp
  have static: "static (p\<lparr>pdocument := d'', pkeys := ks\<rparr>) = static p"
    if "ks_capacity ks div 2 = ks_capacity (pkeys p) div 2" "keyset_inv k ks" "d_bytes d'' = d_bytes d'"
      "token_capacity d'' = token_capacity d'" "arena_capacity d'' = arena_capacity d'"
      "d_profile d'' = d_profile d'" "children d'' = children d'" for ks k d''
    using that p keyset_slots_length [OF that(2)] keyset_slots_length [OF kinv] by (simp add: static_def Let_def)
  have finished: ?thesis
    if "register_key p ?n = (Ret (), p\<lparr>pdocument := d'', pkeys := ks\<rparr>)"
      "keys_inv (pprofile p) d'' ks" "doc_inv d''" "cells d'' = cells d'" "arena d'' = arena d'"
      "static (p\<lparr>pdocument := d'', pkeys := ks\<rparr>) = static p"
      "\<not> (pprofile p \<noteq> RFC8259_LAST_WINS \<and> cell_key c \<in> token_key d ` live_keys d)" for d'' ks
    unfolding if_not_P [OF that(7)] using that(1-6) by (intro exI conjI)
  show ?thesis
  proof (cases "pprofile p = RFC8259_LAST_WINS")
    case lw: True
    then have ok: "\<not> (pprofile p \<noteq> RFC8259_LAST_WINS \<and> cell_key c \<in> token_key d ` live_keys d)" by simp
    obtain q ks where q: "keyset_insert_last ?k ?n (pkeys p, ?h) = (Ret q, ks, ?h)" "keyset_inv ?k ks"
      "ks_capacity ks div 2 = ks_capacity (pkeys p) div 2"
      "keyset_entries ks = insert ?n (live_keys d - {q})"
      "q = VALUE_NONE \<or> q \<in> live_keys d \<and> ?k q = cell_key c"
      "q = VALUE_NONE \<longleftrightarrow> cell_key c \<notin> token_key d ` live_keys d"
      using key_table.insert_last_ends [OF kinv n room', of ?h] unfolding entries kn old by blast
    show ?thesis
    proof (cases "q = VALUE_NONE")
      case True
      have reg: "register_key p ?n = (Ret (), p\<lparr>pdocument := d', pkeys := ks\<rparr>)"
        using q(1) True lw p by (simp add: register_key_def)
      have "VALUE_NONE \<notin> live_keys d" using key_table.none_fresh [of "pkeys p"] entries by simp
      then have live: "keyset_entries ks = live_keys d'"
        using q(4) True c by (simp add: live_keys_extends [OF ext])
      have "keys_inv (pprofile p) d' ks"
        using q(6) True by (intro keys_inv_extends [OF keys ext q(2) live q(3)]) simp
      then show ?thesis by (rule finished [OF reg _ inv refl refl static [OF q(3,2)] ok]) simp_all
    next
      case False
      then have qd: "q \<in> live_keys d" "?k q = cell_key c" using q(5) by auto
      then have qk: "token_key d q = cell_key c" using extends_old(1) [OF ext live_keys_bound] by simp
      have ki: "keys_inv (pprofile p) (supersede d' q) ks"
        by (rule keys_inv_supersede [OF keys ext c q(2,4) qd(1) qk q(3) lw])
      have reg: "register_key p ?n = (Ret (), p\<lparr>pdocument := supersede d' q, pkeys := ks\<rparr>)"
        using q(1) False lw p by (simp add: register_key_def supersede_def)
      have "doc_inv (supersede d' q)" using inv supersede_doc_inv by simp
      then show ?thesis
        by (rule finished [OF reg ki _ supersede_cells _ static [OF q(3,2)] ok]) simp_all
    qed
  next
    case False
    show ?thesis
    proof (cases "cell_key c \<in> token_key d ` live_keys d")
      case True
      then have "keyset_insert ?k ?n (pkeys p, ?h) = (Fail ERR_DUPLICATE_KEY, pkeys p, ?h)"
        using keyset_insert_room [OF kinv n room', of ?h] unfolding entries kn old by simp
      then show ?thesis using False True p by (simp add: register_key_def)
    next
      case absent: False
      then obtain ks where ks: "keyset_insert ?k ?n (pkeys p, ?h) = (Ret VALUE_NONE, ks, ?h)"
        "keyset_inv ?k ks" "ks_capacity ks = ks_capacity (pkeys p)" "keyset_entries ks = insert ?n (live_keys d)"
        using keyset_insert_room [OF kinv n room', of ?h] unfolding entries kn old by auto
      have reg: "register_key p ?n = (Ret (), p\<lparr>pdocument := d', pkeys := ks\<rparr>)"
        using ks(1) False p by (simp add: register_key_def)
      have live: "keyset_entries ks = live_keys d'"
        using ks(4) c by (simp add: live_keys_extends [OF ext])
      have cap: "ks_capacity ks div 2 = ks_capacity (pkeys p) div 2" using ks(3) by simp
      have "keys_inv (pprofile p) d' ks"
        using absent by (intro keys_inv_extends [OF keys ext ks(2) live cap]) simp
      then show ?thesis
        using absent by (intro finished [OF reg _ inv refl refl static [OF cap ks(2)]]) simp_all
    qed
  qed
qed

end
