(* ===== verification/Parser_Leaves.thy ===== *)
theory Parser_Leaves
  imports Parser_Steps
begin

text \<open>
  The functions of the parser that add one token, \<open>parse_string\<close> and \<open>parse_primitive\<close>, and
  \<open>container_delimiter\<close>: how each can end, and that it accepts what the grammar allows.
\<close>

unbundle bit_operations_syntax

section \<open>Adding a token\<close>

lemma add_token_eq:
  assumes "length (d_tokens (pdocument p)) < token_capacity (pdocument p)"
  shows "add_token p type start up key =
    (Ret (length (d_tokens (pdocument p))),
     p\<lparr>pdocument := (pdocument p)\<lparr>d_tokens :=
       append_token (d_tokens (pdocument p)) (fresh_token type start up key) up\<rparr>\<rparr>)"
  using assms by (simp add: add_token_def append_token_def Let_def)

lemma add_token_full:
  "\<not> length (d_tokens (pdocument p)) < token_capacity (pdocument p) \<Longrightarrow>
     add_token p type start up key = fail p ERR_LIMIT start"
  by (simp add: add_token_def Let_def)

lemma links_fresh_token [simp]: "links (fresh_token type start up key) = links_init up"
  by (simp add: fresh_token_def)

lemma parent_init [simp]: "l_parent (links_init up) = up"
  by (simp add: links_init_def)

text \<open>A token may be put under \<open>up\<close>.\<close>

definition up_ok :: "parser \<Rightarrow> nat \<Rightarrow> bool" where
  "up_ok p up \<longleftrightarrow> up = VALUE_NONE \<or> up < length (d_tokens (pdocument p))"

lemma pinvD:
  assumes "pinv s p"
  shows "doc_inv (pdocument p)" "keys_inv (pprofile p) (pdocument p) (pkeys p)"
    "poffset p \<le> length (pbytes p)"
    "length (arena (pdocument p)) \<le> poffset p + length (d_tokens (pdocument p))"
    "2 * key_count (cells (pdocument p)) \<le> length (d_tokens (pdocument p)) + s"
    "\<And>e. perror p = Some e \<Longrightarrow> err_code e = OK"
  using assms by (auto simp: pinv_def Let_def)

lemma can_append_fresh:
  "pinv s p \<Longrightarrow> up_ok p up \<Longrightarrow> can_append (d_tokens (pdocument p)) (fresh_token type start up key) up"
  using doc_invD(1) [OF pinvD(1)] by (auto simp: can_append_def up_ok_def)

lemma arena_claim_room:
  assumes "pinv s p" "length (d_tokens (pdocument p)) < token_capacity (pdocument p)"
    "poffset p + n \<le> length (pbytes p)" "arena_capacity d = arena_capacity (pdocument p)"
    "arena d = arena (pdocument p)"
  shows "arena_claim d (n + 1) = Some (length (arena (pdocument p)))"
  using assms pinvD(4) [OF assms(1)] doc_invD(5) [OF pinvD(1) [OF assms(1)]]
  by (simp add: arena_claim_def)

text \<open>The invariant after a token that is no key.\<close>

lemma pinv_extends:
  assumes p: "pinv 1 p" and ext: "extends (pdocument p) (pdocument p') c" and c: "\<not> c_key c"
    and room: "length (d_tokens (pdocument p)) < token_capacity (pdocument p)"
    and same: "pkeys p' = pkeys p" "pprofile p' = pprofile p" "perror p' = perror p" "pheap p' = pheap p"
      "plimits p' = plimits p"
    and off: "poffset p + (case c_text c of None \<Rightarrow> 0 | Some x \<Rightarrow> length x) \<le> poffset p'"
      "poffset p' \<le> length (pbytes p)"
  shows "pinv 0 p' \<and> static p' = static p"
proof -
  have "keys_inv (pprofile p) (pdocument p') (pkeys p)"
    using keyset_inv_extends [OF pinvD(2) [OF p] ext] keys_invD(2) [OF pinvD(2) [OF p]] c
    by (intro keys_inv_extends [OF pinvD(2) [OF p] ext]) (auto simp: live_keys_extends [OF ext])
  moreover have "key_count (cells (pdocument p')) = key_count (cells (pdocument p))"
    using ext c by (simp add: extends_def key_count_def)
  moreover have "length (arena (pdocument p')) \<le> poffset p' + length (d_tokens (pdocument p'))"
    using ext off(1) pinvD(4) [OF p] extends_length [OF ext]
    by (auto simp: extends_def split: option.splits)
  moreover have "d_bytes (pdocument p') = pbytes p" using ext by (simp add: extends_def)
  ultimately have "pinv 0 p'"
    using extends_doc_inv [OF pinvD(1) [OF p] ext room] off(2) same pinvD(5,6) [OF p] extends_length [OF ext]
    by (simp add: pinv_def Let_def)
  moreover have "static p' = static p"
    using ext same by (simp add: static_def extends_def Let_def)
  ultimately show ?thesis by simp
qed

section \<open>Strings\<close>

abbreviation string_cell :: "nat \<Rightarrow> bytes \<Rightarrow> bool \<Rightarrow> cell" where
  "string_cell up s key \<equiv>
     \<lparr>c_parent = up, c_type = TYPE_STRING, c_text = Some s, c_truth = False, c_key = key\<rparr>"

definition string_document :: "document \<Rightarrow> nat \<Rightarrow> bool \<Rightarrow> nat \<Rightarrow> nat \<Rightarrow> bytes \<Rightarrow> document" where
  "string_document d up key start stop s =
     d\<lparr>arena := arena d @ s @ [0],
       d_tokens := (append_token (d_tokens d) (fresh_token TYPE_STRING start up key) up)
         [length (d_tokens d) := (fresh_token TYPE_STRING start up key)
            \<lparr>tend := stop, ttext := Some (length (arena d)), ttext_size := length s\<rparr>]\<rparr>"

lemma string_document_extends:
  assumes "doc_inv d" "can_append (d_tokens d) (fresh_token TYPE_STRING start up key) up"
    "length (d_tokens d) < token_capacity d"
  shows "extends d (string_document d up key start stop s) (string_cell up s key)"
proof -
  let ?g = "(fresh_token TYPE_STRING start up key)
    \<lparr>tend := stop, ttext := Some (length (arena d)), ttext_size := length s\<rparr>"
  have content: "token_text (arena d @ s @ [0]) ?g = s" by (simp add: token_text_def)
  then have cell: "cell_of (arena d @ s @ [0]) ?g = string_cell up s key"
    by (simp add: cell_of_def fresh_token_def)
  have "extends d (string_document d up key start stop s) (cell_of (arena d @ s @ [0]) ?g)"
    unfolding string_document_def using content
    by (intro extends_append [OF assms])
      (simp_all add: fresh_token_def text_ok_def nth_append)
  with cell show ?thesis by simp
qed

lemma finish_string_eval:
  fixes p raw
  defines "d \<equiv> pdocument p" and "off \<equiv> poffset p"
  defines "n \<equiv> length (d_tokens d)"
  assumes p: "pinv (if key then 0 else 1) p" and up: "up_ok p up" and room: "n < token_capacity d"
    and raw: "drop off (pbytes p) = QUOTE # raw @ QUOTE # rest"
    and p1: "p1 = p\<lparr>pdocument := d\<lparr>d_tokens := append_token (d_tokens d)
                (fresh_token TYPE_STRING (off + 1) up key) up\<rparr>, poffset := off + length raw + 2\<rparr>"
  shows "case decode_string raw (pprofile p) of
      Fail (code, bad) \<Rightarrow>
        (\<exists>p2. finish_string p1 n off (off + 1) (off + 1 + length raw) key = fail p2 code (off + 1 + bad) \<and>
          static p2 = static p \<and> perror p2 = perror p)
    | Ret s \<Rightarrow>
        (if key \<and> pprofile p \<noteq> RFC8259_LAST_WINS \<and> \<lparr>k_parent = up, k_bytes = s\<rparr> \<in> token_key d ` live_keys d
         then \<exists>p2. finish_string p1 n off (off + 1) (off + 1 + length raw) key = fail p2 ERR_DUPLICATE_KEY off \<and>
           static p2 = static p \<and> perror p2 = perror p
         else \<exists>p'. finish_string p1 n off (off + 1) (off + 1 + length raw) key = (Ret n, p') \<and>
           static p' = static p \<and> perror p' = perror p \<and> pinv (if key then 1 else 0) p' \<and>
           poffset p' = off + length raw + 2 \<and> cells (pdocument p') = cells d @ [string_cell up s key])
    | Stuck \<Rightarrow> False"
proof -
  let ?f = "fresh_token TYPE_STRING (off + 1) up key"
  have can: "can_append (d_tokens d) ?f up"
    using can_append_fresh [OF p up] by (simp add: d_def)
  have nn: "n < VALUE_NONE" using room doc_invD(4) [OF pinvD(1) [OF p]] by (simp add: d_def)
  have last: "append_token (d_tokens d) ?f up ! n = ?f"
    unfolding n_def by (rule append_token_last [OF can]) (use nn n_def in simp)
  have len: "off + length raw + 2 \<le> length (pbytes p)"
    using arg_cong [OF raw, of length] by (simp split: nat_diff_split)
  have slice: "take (length raw) (drop (off + 1) (pbytes p)) = raw"
    using arg_cong [OF raw, of "drop 1"] by simp
  let ?d1 = "update_token (pdocument p1) n (\<lambda>t. t\<lparr>tend := off + 1 + length raw\<rparr>)"
  have claim: "arena_claim ?d1 (off + 1 + length raw - (off + 1) + 1) = Some (length (arena d))"
    using arena_claim_room [OF p, of "length raw" ?d1] room len
    by (simp add: p1 update_token_def d_def n_def off_def)
  have bytes1: "d_bytes ?d1 = pbytes p" by (simp add: p1 update_token_def d_def)
  have stored: "store_text ?d1 n (length (arena d)) s = string_document d up key (off + 1) (off + 1 + length raw) s"
    for s
    using last by (simp add: store_text_def update_token_def p1 string_document_def n_def)
  have prof1: "pprofile p1 = pprofile p" by (simp add: p1)
  have fs: "finish_string p1 n off (off + 1) (off + 1 + length raw) key =
    (case decode_string raw (pprofile p) of
       Stuck \<Rightarrow> (Stuck, p1\<lparr>pdocument := ?d1\<rparr>)
     | Fail (code, bad) \<Rightarrow> fail (p1\<lparr>pdocument := ?d1\<rparr>) code (off + 1 + bad)
     | Ret s \<Rightarrow>
         let p3 = p1\<lparr>pdocument := ?d1\<rparr>\<lparr>pdocument := store_text ?d1 n (length (arena d)) s\<rparr>
         in if key then
              (case register_key p3 n of
                 (Ret _, p) \<Rightarrow> (Ret n, p)
               | (Fail code, p) \<Rightarrow> fail p code off
               | (Stuck, p) \<Rightarrow> (Stuck, p))
            else (Ret n, p3))"
    unfolding finish_string_def Let_def claim option.case bytes1
    using slice prof1 by (cases "decode_string raw (pprofile p)") (simp_all split: prod.splits)
  show ?thesis
  proof (cases "decode_string raw (pprofile p)")
    case (Fail e)
    obtain code bad where e: "e = (code, bad)" by fastforce
    have "static (p1\<lparr>pdocument := ?d1\<rparr>) = static p" "perror (p1\<lparr>pdocument := ?d1\<rparr>) = perror p"
      by (simp_all add: static_def p1 update_token_def d_def Let_def)
    then show ?thesis unfolding fs using Fail e by auto
  next
    case (Ret s)
    let ?d = "string_document d up key (off + 1) (off + 1 + length raw) s"
    let ?p3 = "p1\<lparr>pdocument := ?d\<rparr>"
    have ext: "extends d ?d (string_cell up s key)"
      using string_document_extends [OF pinvD(1) [OF p]] can room by (simp add: d_def n_def)
    have p3: "pdocument ?p3 = ?d" "pkeys ?p3 = pkeys p" "pprofile ?p3 = pprofile p" "perror ?p3 = perror p"
      "pheap ?p3 = pheap p" "plimits ?p3 = plimits p" "poffset ?p3 = off + length raw + 2"
      by (simp_all add: p1)
    have slen: "length s \<le> length raw" by (rule decode_string_length [OF Ret])
    show ?thesis
    proof (cases key)
      case False
      have "pinv 0 ?p3 \<and> static ?p3 = static p"
        using p False ext room slen len p3
        by (intro pinv_extends [where c = "string_cell up s key"]) (simp_all add: d_def n_def off_def)
      then show ?thesis
        unfolding fs stored using Ret False ext p3 by (auto simp: extends_def Let_def)
    next
      case key: True
      have p0: "pinv 0 p" using p key by simp
      note keys = pinvD(2) [OF p0, folded d_def]
      have st3: "static ?p3 = static p"
        using ext p3 by (simp add: static_def extends_def Let_def d_def)
      have "doc_inv ?d" using extends_doc_inv [OF pinvD(1) [OF p0]] ext room by (simp add: d_def n_def)
      moreover have "card (live_keys d) < ks_capacity (pkeys p) div 2"
        using card_live_keys [of d] pinvD(5) [OF p0] keys_invD(3) [OF keys] room by (simp add: d_def n_def)
      moreover have kc: "c_key (string_cell up s key)" using key by simp
      moreover have "keys_inv (pprofile ?p3) d (pkeys ?p3)" unfolding p3 by (rule keys)
      ultimately have reg: "if pprofile ?p3 \<noteq> RFC8259_LAST_WINS \<and> cell_key (string_cell up s key) \<in> token_key d ` live_keys d
        then register_key ?p3 n = (Fail ERR_DUPLICATE_KEY, ?p3)
        else \<exists>d'' keys'. register_key ?p3 n = (Ret (), ?p3\<lparr>pdocument := d'', pkeys := keys'\<rparr>) \<and>
          keys_inv (pprofile ?p3) d'' keys' \<and> doc_inv d'' \<and> cells d'' = cells ?d \<and> arena d'' = arena ?d \<and>
          static (?p3\<lparr>pdocument := d'', pkeys := keys'\<rparr>) = static ?p3"
        unfolding n_def by (intro register_key_ends [OF p3(1) _ ext]) (simp_all only: p3 kc)
      have ck: "cell_key (string_cell up s key) = \<lparr>k_parent = up, k_bytes = s\<rparr>" by (simp add: cell_key_def)
      show ?thesis
      proof (cases "pprofile p \<noteq> RFC8259_LAST_WINS \<and> \<lparr>k_parent = up, k_bytes = s\<rparr> \<in> token_key d ` live_keys d")
        case True
        then have "register_key ?p3 n = (Fail ERR_DUPLICATE_KEY, ?p3)" using reg unfolding ck p3(3) by simp
        then have "finish_string p1 n off (off + 1) (off + 1 + length raw) key = fail ?p3 ERR_DUPLICATE_KEY off"
          unfolding fs stored using Ret key by simp
        then show ?thesis using Ret key True st3 p3(4) by auto
      next
        case False
        then obtain d'' keys' where r: "register_key ?p3 n = (Ret (), ?p3\<lparr>pdocument := d'', pkeys := keys'\<rparr>)"
          "keys_inv (pprofile p) d'' keys'" "doc_inv d''" "cells d'' = cells ?d" "arena d'' = arena ?d"
          "static (?p3\<lparr>pdocument := d'', pkeys := keys'\<rparr>) = static ?p3"
          using reg unfolding ck p3(3) if_not_P [OF False] by blast
        let ?q = "?p3\<lparr>pdocument := d'', pkeys := keys'\<rparr>"
        have fin: "finish_string p1 n off (off + 1) (off + 1 + length raw) key = (Ret n, ?q)"
          unfolding fs stored using Ret key r(1) by simp
        have cells: "cells d'' = cells d @ [string_cell up s key]" using r(4) ext by (simp add: extends_def)
        have toks: "length (d_tokens d'') = Suc n"
          using arg_cong [OF cells, of length] by (simp add: n_def)
        have ar: "length (arena d'') = length (arena d) + length s + 1"
          using r(5) by (simp add: string_document_def)
        have bytes: "d_bytes d'' = pbytes p" using staticD(1) [OF r(6)] staticD(1) [OF st3] by simp
        have "pinv 1 ?q"
          using r(2,3) p3 cells toks ar bytes len slen pinvD(4-6) [OF p0]
          by (simp add: pinv_def Let_def key_count_def d_def n_def off_def)
        then have "static ?q = static p \<and> perror ?q = perror p \<and> pinv 1 ?q \<and>
            poffset ?q = off + length raw + 2 \<and> cells (pdocument ?q) = cells d @ [string_cell up s key]"
          using r(6) st3 p3 cells by simp
        with Ret key False fin show ?thesis by auto
      qed
    qed
  qed simp
qed

lemma offset_document_commute: "p\<lparr>pdocument := d, poffset := i\<rparr> = p\<lparr>poffset := i, pdocument := d\<rparr>"
  by (cases p) simp

text \<open>\<open>parse_string\<close> after a scan that found the closing quote.\<close>

lemma parse_string_scanned:
  assumes p: "pinv (if key then 0 else 1) p" and raw: "drop (poffset p) (pbytes p) = QUOTE # raw @ QUOTE # rest"
    and body: "string_body (pprofile p) raw"
  shows "parse_string p up key =
    (if length (d_tokens (pdocument p)) < token_capacity (pdocument p)
     then finish_string
       (p\<lparr>pdocument := (pdocument p)\<lparr>d_tokens := append_token (d_tokens (pdocument p))
            (fresh_token TYPE_STRING (poffset p + 1) up key) up\<rparr>, poffset := poffset p + length raw + 2\<rparr>)
       (length (d_tokens (pdocument p))) (poffset p) (poffset p + 1) (poffset p + 1 + length raw) key
     else fail (p\<lparr>poffset := poffset p + length raw + 2\<rparr>) ERR_LIMIT (poffset p + 1))"
proof -
  note here = at_head [OF raw]
  let ?q = "p\<lparr>poffset := poffset p + length raw + 2\<rparr>"
  have "scan_string_body (advance p) = (Ret (poffset p + 1 + length raw), ?q)"
    using scan_string_body_complete [OF here(3)] body by (simp add: advance_def)
  then have "parse_string p up key = andthen (add_token ?q TYPE_STRING (poffset p + 1) up key)
      (\<lambda>index p'. finish_string p' index (poffset p) (poffset p + 1) (poffset p + 1 + length raw) key)"
    using here(1,2) by (simp add: parse_string_def Let_def)
  then show ?thesis
    using add_token_eq [of ?q TYPE_STRING "poffset p + 1" up key]
      add_token_full [of ?q TYPE_STRING "poffset p + 1" up key]
    by (auto simp: fail_def offset_document_commute)
qed

lemma None_error_set [simp]: "None = error_set err code src sz off \<longleftrightarrow> err = None"
  using error_set_is_None [of err code src sz off] by (simp only: eq_commute [of None])

definition string_ends :: "parser \<Rightarrow> nat \<Rightarrow> bool \<Rightarrow> nat \<Rightarrow> parser \<Rightarrow> bool" where
  "string_ends p up key i p' \<longleftrightarrow>
     pinv (if key then 1 else 0) p' \<and> i = length (d_tokens (pdocument p)) \<and>
     (\<exists>raw s. drop (poffset p) (pbytes p) = QUOTE # raw @ QUOTE # drop (poffset p') (pbytes p) \<and>
        poffset p' = poffset p + length raw + 2 \<and> json_string (pprofile p) raw s \<and>
        cells (pdocument p') = cells (pdocument p) @ [string_cell up s key])"

lemma raw_rest:
  assumes "drop i bs = QUOTE # raw @ QUOTE # rest"
  shows "rest = drop (i + length raw + 2) bs" "i + length raw + 2 \<le> length bs"
proof -
  have "drop (length raw + 2) (drop i bs) = rest" by (simp add: assms)
  then show "rest = drop (i + length raw + 2) bs" by (simp add: add.commute add.left_commute)
  show "i + length raw + 2 \<le> length bs"
    using arg_cong [OF assms, of length] by (simp split: nat_diff_split)
qed

lemma parse_string_ends:
  assumes p: "pinv (if key then 0 else 1) p" and up: "up_ok p up"
  shows "ends p (parse_string p up key) (string_ends p up key)"
proof (cases "at_end p \<or> current p \<noteq> QUOTE")
  case True
  then have "parse_string p up key = fail p ERR_SYNTAX (poffset p)"
    by (simp add: parse_string_def)
  then show ?thesis using pinvD(3) [OF p] by simp
next
  case False
  then have lt: "poffset p < length (pbytes p)" by (simp add: at_end_def)
  then have head: "drop (poffset p) (pbytes p) = QUOTE # drop (Suc (poffset p)) (pbytes p)"
    using False by (simp add: current_def drop_eq_Cons)
  obtain r off err where scan: "scan_string_body (advance p) = (r, (advance p)\<lparr>poffset := off, perror := err\<rparr>)"
    "Suc (poffset p) \<le> off" "off \<le> length (pbytes p)"
    "case r of
       Ret stop \<Rightarrow> err = perror p \<and> off = Suc stop \<and>
         (\<exists>raw rest. drop (Suc (poffset p)) (pbytes p) = raw @ QUOTE # rest \<and>
            string_body (pprofile p) raw \<and> stop = Suc (poffset p) + length raw)
     | Fail code \<Rightarrow> code = ERR_SYNTAX \<and> (err = perror p \<or>
         (\<exists>bad \<le> length (pbytes p).
            err = error_set (perror p) code (Some (pbytes p)) (length (pbytes p)) bad))
     | Stuck \<Rightarrow> False"
    using scan_string_body_post [of "advance p"] lt unfolding scan_post_def
    by (cases "scan_string_body (advance p)") (auto cong: outcome.case_cong)
  show ?thesis
  proof (cases r)
    case (Fail code)
    let ?q = "(advance p)\<lparr>poffset := off, perror := err\<rparr>"
    have q: "static ?q = static p" "pbytes ?q = pbytes p" by (simp_all add: static_def Let_def advance_def)
    have eq: "parse_string p up key = (case err of
        Some e \<Rightarrow> if err_code e \<noteq> OK then (Fail ERR_SYNTAX, ?q) else fail ?q ERR_SYNTAX (poffset p)
      | None \<Rightarrow> fail ?q ERR_SYNTAX (poffset p))"
      using False scan(1,4) Fail by (simp add: parse_string_def Let_def split: option.splits)
    consider (same) "err = perror p" | (none) "perror p = None" "err = None"
      | (set) bad e where "bad \<le> length (pbytes p)" "err = Some e" "err_code e = ERR_SYNTAX"
        "err = error_set (perror p) ERR_SYNTAX (Some (pbytes p)) (length (pbytes p)) bad"
      using scan(4) Fail error_set_code
      by (cases "perror p"; cases err) (auto simp: error_set_null)
    then show ?thesis
    proof cases
      case same
      then have "parse_string p up key = fail ?q ERR_SYNTAX (poffset p)"
        using eq pinvD(6) [OF p] by (auto split: option.splits)
      then show ?thesis using same q lt by simp
    next
      case none
      then show ?thesis using eq q lt by simp
    next
      case set
      then show ?thesis using eq q by (auto simp: ends_def failed_def)
    qed
  next
    case (Ret stop)
    then obtain raw rest where raw: "drop (Suc (poffset p)) (pbytes p) = raw @ QUOTE # rest"
      "string_body (pprofile p) raw" using scan(4) by auto
    then have d: "drop (poffset p) (pbytes p) = QUOTE # raw @ QUOTE # rest" using head by simp
    note eq = parse_string_scanned [OF p d raw(2), of up]
    show ?thesis
    proof (cases "length (d_tokens (pdocument p)) < token_capacity (pdocument p)")
      case False
      then show ?thesis using eq lt by simp
    next
      case True
      let ?d = "pdocument p"
      define p1 where "p1 = p\<lparr>pdocument := ?d\<lparr>d_tokens := append_token (d_tokens ?d)
            (fresh_token TYPE_STRING (poffset p + 1) up key) up\<rparr>, poffset := poffset p + length raw + 2\<rparr>"
      note fs = finish_string_eval [OF p up True d p1_def]
      have eq': "parse_string p up key = finish_string p1 (length (d_tokens ?d)) (poffset p) (poffset p + 1)
          (poffset p + 1 + length raw) key"
        using eq True by (simp add: p1_def)
      show ?thesis
      proof (cases "decode_string raw (pprofile p)")
        case (Fail e)
        obtain code bad where e: "e = (code, bad)" by fastforce
        have "code \<in> {ERR_SYNTAX, ERR_UTF8}" "bad < length raw" using decode_string_Fail Fail e by auto
        then show ?thesis using fs Fail e eq' raw_rest(2) [OF d] by auto
      next
        case (Ret s)
        have str: "json_string (pprofile p) raw s" using Ret raw(2) by (simp add: json_string_iff)
        show ?thesis
        proof (cases "key \<and> pprofile p \<noteq> RFC8259_LAST_WINS \<and> \<lparr>k_parent = up, k_bytes = s\<rparr> \<in> token_key ?d ` live_keys ?d")
          case True
          then obtain p2 where "parse_string p up key = fail p2 ERR_DUPLICATE_KEY (poffset p)"
            "static p2 = static p" "perror p2 = perror p"
            using fs Ret eq' by auto
          then show ?thesis using lt by simp
        next
          case False
          then obtain p' where p': "parse_string p up key = (Ret (length (d_tokens ?d)), p')"
            "static p' = static p" "perror p' = perror p" "pinv (if key then 1 else 0) p'"
            "poffset p' = poffset p + length raw + 2" "cells (pdocument p') = cells ?d @ [string_cell up s key]"
            using fs Ret eq' unfolding if_not_P [OF False] by auto
          have "string_ends p up key (length (d_tokens ?d)) p'"
            unfolding string_ends_def using p'(4-6) str d raw_rest(1) [OF d] by auto
          then show ?thesis using p' by simp
        qed
      qed (use fs in simp)
    qed
  qed (use scan(4) in simp)
qed

text \<open>A string of the grammar is accepted.\<close>

lemma parse_string_complete:
  assumes p: "pinv (if key then 0 else 1) p" and up: "up_ok p up"
    and raw: "drop (poffset p) (pbytes p) = QUOTE # raw @ QUOTE # rest" and str: "json_string (pprofile p) raw s"
    and room: "length (d_tokens (pdocument p)) < token_capacity (pdocument p)"
    and fresh: "key \<Longrightarrow> pprofile p \<noteq> RFC8259_LAST_WINS \<Longrightarrow>
      \<lparr>k_parent = up, k_bytes = s\<rparr> \<notin> token_key (pdocument p) ` live_keys (pdocument p)"
  shows "\<exists>p'. parse_string p up key = (Ret (length (d_tokens (pdocument p))), p') \<and>
    static p' = static p \<and> pinv (if key then 1 else 0) p' \<and> poffset p' = poffset p + length raw + 2 \<and>
    cells (pdocument p') = cells (pdocument p) @ [string_cell up s key]"
proof -
  have body: "string_body (pprofile p) raw" "decode_string raw (pprofile p) = Ret s"
    using str by (simp_all add: json_string_iff)
  have nd: "\<not> (key \<and> pprofile p \<noteq> RFC8259_LAST_WINS \<and>
      \<lparr>k_parent = up, k_bytes = s\<rparr> \<in> token_key (pdocument p) ` live_keys (pdocument p))"
    using fresh by blast
  show ?thesis
    using finish_string_eval [OF p up room raw refl] parse_string_scanned [OF p raw body(1), of up] room
    unfolding body(2) outcome.case if_not_P [OF nd] by auto
qed

section \<open>Primitives\<close>

definition value_ends :: "parser \<Rightarrow> nat \<Rightarrow> nat \<Rightarrow> nat \<Rightarrow> parser \<Rightarrow> bool" where
  "value_ends p up depth i p' \<longleftrightarrow>
     pinv 0 p' \<and> i = length (d_tokens (pdocument p)) \<and>
     (\<exists>w t v. drop (poffset p) (pbytes p) = w @ t @ drop (poffset p') (pbytes p) \<and> json_ws w \<and>
        json_text (pprofile p) t v \<and> depth + json_height v \<le> maximum_depth (plimits p) \<and>
        cells (pdocument p') = cells (pdocument p) @ layout up i v)"

lemma classify_primitive_sound:
  assumes "classify_primitive lx = Some (ty, truth)"
  obtains v where "json_text prof lx v" "json_height v = 0"
    "layout up i v = [\<lparr>c_parent = up, c_type = ty, c_text = (if ty = TYPE_NUMBER then Some lx else None),
       c_truth = truth, c_key = False\<rparr>]"
  using assms that [of "JBool True"] that [of "JBool False"] that [of JNull] that [of "JNum lx"]
    text_true [of prof] text_false [of prof] text_null [of prof] text_number [of lx prof]
    number_syntax_grammar [of lx]
  by (auto simp: classify_primitive_def split: if_splits)

definition primitive_document :: "document \<Rightarrow> nat \<Rightarrow> json_type \<Rightarrow> bool \<Rightarrow> nat \<Rightarrow> nat \<Rightarrow> bytes \<Rightarrow> document" where
  "primitive_document d up ty truth start stop lx =
     (let f = fresh_token ty start up False; n = length (d_tokens d) in
      if ty = TYPE_NUMBER then
        d\<lparr>arena := arena d @ lx @ [0],
          d_tokens := (append_token (d_tokens d) f up)[n := f\<lparr>tend := stop, boolean_value := truth,
             ttext := Some (length (arena d)), ttext_size := length lx\<rparr>]\<rparr>
      else
        d\<lparr>arena := arena d @ [],
          d_tokens := (append_token (d_tokens d) f up)[n := f\<lparr>tend := stop, boolean_value := truth\<rparr>]\<rparr>)"

lemma primitive_document_extends:
  assumes "doc_inv d" "can_append (d_tokens d) (fresh_token ty start up False) up"
    "length (d_tokens d) < token_capacity d"
  shows "extends d (primitive_document d up ty truth start stop lx)
    \<lparr>c_parent = up, c_type = ty, c_text = (if ty = TYPE_NUMBER then Some lx else None),
     c_truth = truth, c_key = False\<rparr>"
proof (cases "ty = TYPE_NUMBER")
  case True
  let ?f = "fresh_token ty start up False"
  let ?g = "?f\<lparr>tend := stop, boolean_value := truth, ttext := Some (length (arena d)), ttext_size := length lx\<rparr>"
  have content: "token_text (arena d @ lx @ [0]) ?g = lx" by (simp add: token_text_def)
  have "extends d (primitive_document d up ty truth start stop lx) (cell_of (arena d @ lx @ [0]) ?g)"
    unfolding primitive_document_def Let_def if_P [OF True] using content
    by (intro extends_append [OF assms]) (simp_all add: fresh_token_def text_ok_def nth_append)
  moreover have "cell_of (arena d @ lx @ [0]) ?g = \<lparr>c_parent = up, c_type = ty, c_text = Some lx,
      c_truth = truth, c_key = False\<rparr>"
    using content by (simp add: cell_of_def fresh_token_def)
  ultimately show ?thesis using True by simp
next
  case False
  let ?f = "fresh_token ty start up False"
  let ?g = "?f\<lparr>tend := stop, boolean_value := truth\<rparr>"
  have "extends d (primitive_document d up ty truth start stop lx) (cell_of (arena d @ []) ?g)"
    unfolding primitive_document_def Let_def if_not_P [OF False]
    by (intro extends_append [OF assms]) (simp_all add: fresh_token_def text_ok_def)
  moreover have "cell_of (arena d @ []) ?g = \<lparr>c_parent = up, c_type = ty, c_text = None,
      c_truth = truth, c_key = False\<rparr>"
    by (simp add: cell_of_def fresh_token_def)
  ultimately show ?thesis using False by simp
qed

text \<open>\<open>parse_primitive\<close> once the lexeme is known to be one of the four kinds.\<close>

lemma parse_primitive_eval:
  assumes p: "pinv 1 p" and up: "up_ok p up"
    and lx: "drop (poffset p) (pbytes p) = lx @ rest" "\<forall>b \<in> set lx. \<not> is_delimiter b"
      "rest = [] \<or> is_delimiter (hd rest)"
    and ty: "classify_primitive lx = Some (ty, truth)"
  shows "if length (d_tokens (pdocument p)) < token_capacity (pdocument p)
    then \<exists>p'. parse_primitive p up = (Ret (length (d_tokens (pdocument p))), p') \<and> static p' = static p \<and>
      perror p' = perror p \<and> pinv 0 p' \<and> poffset p' = poffset p + length lx \<and>
      cells (pdocument p') = cells (pdocument p) @
        [\<lparr>c_parent = up, c_type = ty, c_text = (if ty = TYPE_NUMBER then Some lx else None),
          c_truth = truth, c_key = False\<rparr>]
    else parse_primitive p up = fail (p\<lparr>poffset := poffset p + length lx\<rparr>) ERR_LIMIT (poffset p)"
proof -
  let ?d = "pdocument p" let ?n = "length (d_tokens ?d)" let ?off = "poffset p"
  have "takeWhile (\<lambda>b. \<not> is_delimiter b) (lx @ rest) = lx"
    using lx(2,3) by (cases rest) (auto simp: takeWhile_all_digits)
  then have scan: "scan_while (\<lambda>b. \<not> is_delimiter b) (pbytes p) ?off = ?off + length lx"
    using scan_while_takeWhile [OF pinvD(3) [OF p], of "\<lambda>b. \<not> is_delimiter b"] lx(1) by simp
  have len: "?off + length lx \<le> length (pbytes p)"
    using arg_cong [OF lx(1), of length] pinvD(3) [OF p] by simp
  let ?q = "p\<lparr>poffset := ?off + length lx\<rparr>"
  have tk: "take (poffset ?q - ?off) (drop ?off (pbytes ?q)) = lx" using lx(1) by simp
  have eval: "parse_primitive p up = andthen (add_token ?q ty ?off up False) (\<lambda>index p'.
      let d = update_token (pdocument p') index (\<lambda>t. t\<lparr>tend := poffset p', boolean_value := truth\<rparr>)
      in if ty = TYPE_NUMBER then
           (case arena_claim d (length lx + 1) of
              None \<Rightarrow> (Stuck, p'\<lparr>pdocument := d\<rparr>)
            | Some off \<Rightarrow> (Ret index, p'\<lparr>pdocument := store_text d index off lx\<rparr>))
         else (Ret index, p'\<lparr>pdocument := d\<rparr>))"
    unfolding parse_primitive_def Let_def scan tk ty by simp
  show ?thesis
  proof (cases "?n < token_capacity ?d")
    case False
    then show ?thesis using eval add_token_full [of ?q ty ?off up False] by (simp add: fail_def)
  next
    case True
    let ?f = "fresh_token ty ?off up False"
    have can: "can_append (d_tokens ?d) ?f up" by (rule can_append_fresh [OF p up])
    have last: "append_token (d_tokens ?d) ?f up ! ?n = ?f"
      using append_token_last [OF can] True doc_invD(4) [OF pinvD(1) [OF p]] by simp
    let ?d' = "primitive_document ?d up ty truth ?off (?off + length lx) lx"
    have claim: "arena_claim (update_token (?d\<lparr>d_tokens := append_token (d_tokens ?d) ?f up\<rparr>) ?n
        (\<lambda>t. t\<lparr>tend := ?off + length lx, boolean_value := truth\<rparr>)) (length lx + 1) = Some (length (arena ?d))"
      by (rule arena_claim_room [OF p True len]) (simp_all add: update_token_def)
    have res: "parse_primitive p up = (Ret ?n, ?q\<lparr>pdocument := ?d'\<rparr>)"
      unfolding eval using add_token_eq [of ?q ty ?off up False] True claim last
      by (cases "ty = TYPE_NUMBER")
        (simp_all add: primitive_document_def store_text_def update_token_def Let_def)
    have ext: "extends ?d ?d' \<lparr>c_parent = up, c_type = ty,
        c_text = (if ty = TYPE_NUMBER then Some lx else None), c_truth = truth, c_key = False\<rparr>"
      by (rule primitive_document_extends [OF pinvD(1) [OF p] can True])
    have "pinv 0 (?q\<lparr>pdocument := ?d'\<rparr>) \<and> static (?q\<lparr>pdocument := ?d'\<rparr>) = static p"
      by (rule pinv_extends [OF p _ _ True])
        (use ext len in \<open>auto split: if_splits\<close>)
    then show ?thesis using True res ext by (auto simp: extends_def)
  qed
qed

lemma is_delimiter_scan:
  assumes "i \<le> length bs"
  obtains lx rest where "drop i bs = lx @ rest" "\<forall>b \<in> set lx. \<not> is_delimiter b"
    "rest = [] \<or> is_delimiter (hd rest)" "scan_while (\<lambda>b. \<not> is_delimiter b) bs i = i + length lx"
proof
  let ?lx = "takeWhile (\<lambda>b. \<not> is_delimiter b) (drop i bs)"
  let ?rest = "dropWhile (\<lambda>b. \<not> is_delimiter b) (drop i bs)"
  show "drop i bs = ?lx @ ?rest" by simp
  show "\<forall>b \<in> set ?lx. \<not> is_delimiter b" by (auto dest: set_takeWhileD)
  show "?rest = [] \<or> is_delimiter (hd ?rest)" using hd_dropWhile by blast
  show "scan_while (\<lambda>b. \<not> is_delimiter b) bs i = i + length ?lx" using assms by (rule scan_while_takeWhile)
qed

lemma parse_primitive_ends:
  assumes p: "pinv 1 p" and up: "up_ok p up" and depth: "depth \<le> maximum_depth (plimits p)"
  shows "ends p (parse_primitive p up) (value_ends p up depth)"
proof -
  obtain lx rest where lx: "drop (poffset p) (pbytes p) = lx @ rest" "\<forall>b \<in> set lx. \<not> is_delimiter b"
    "rest = [] \<or> is_delimiter (hd rest)"
    "scan_while (\<lambda>b. \<not> is_delimiter b) (pbytes p) (poffset p) = poffset p + length lx"
    using is_delimiter_scan [OF pinvD(3) [OF p]] .
  show ?thesis
  proof (cases "classify_primitive lx")
    case None
    then have "parse_primitive p up = fail (p\<lparr>poffset := poffset p + length lx\<rparr>) ERR_SYNTAX (poffset p)"
      using lx by (simp add: parse_primitive_def Let_def)
    then show ?thesis using pinvD(3) [OF p] by simp
  next
    case (Some r)
    obtain ty truth where r: "r = (ty, truth)" by fastforce
    note eval = parse_primitive_eval [OF p up lx(1-3) Some [unfolded r]]
    show ?thesis
    proof (cases "length (d_tokens (pdocument p)) < token_capacity (pdocument p)")
      case False
      then show ?thesis using eval pinvD(3) [OF p] by simp
    next
      case True
      obtain v where v: "json_text (pprofile p) lx v" "json_height v = 0"
        "layout up (length (d_tokens (pdocument p))) v =
          [\<lparr>c_parent = up, c_type = ty, c_text = (if ty = TYPE_NUMBER then Some lx else None),
            c_truth = truth, c_key = False\<rparr>]"
        using classify_primitive_sound [OF Some [unfolded r]] by blast
      obtain p' where p': "parse_primitive p up = (Ret (length (d_tokens (pdocument p))), p')"
        "static p' = static p" "perror p' = perror p" "pinv 0 p'" "poffset p' = poffset p + length lx"
        "cells (pdocument p') = cells (pdocument p) @ layout up (length (d_tokens (pdocument p))) v"
        using eval True v(3) by auto
      have "rest = drop (poffset p') (pbytes p)"
        using arg_cong [OF lx(1), of "drop (length lx)"] p'(5) by (simp add: add.commute)
      then have "value_ends p up depth (length (d_tokens (pdocument p))) p'"
        unfolding value_ends_def using p'(4,6) v(1,2) lx(1) depth
        by (intro conjI exI [of _ "[]"] exI [of _ lx] exI [of _ v]) (auto simp: json_ws_def)
      then show ?thesis using p' by simp
    qed
  qed
qed

section \<open>Delimiters\<close>

lemma container_delimiter_ends:
  assumes p: "pinv s p"
  shows "ends p (container_delimiter p closing) (\<lambda>closed p'.
    pinv s p' \<and> pdocument p' = pdocument p \<and>
    (\<exists>w1 w2. json_ws w1 \<and> json_ws w2 \<and>
       (if closed then drop (poffset p) (pbytes p) = w1 @ closing # drop (poffset p') (pbytes p) \<and>
          poffset p' = poffset p + length w1 + 1
        else drop (poffset p) (pbytes p) = w1 @ COMMA # w2 @ drop (poffset p') (pbytes p) \<and>
          poffset p < poffset p')))"
proof -
  let ?q = "skip_space p"
  obtain w1 where w1: "drop (poffset p) (pbytes p) = w1 @ drop (poffset ?q) (pbytes p)" "json_ws w1"
    "poffset p \<le> poffset ?q" "poffset ?q \<le> length (pbytes p)" "poffset ?q = poffset p + length w1"
    using skip_space_facts [OF pinvD(3) [OF p]] by blast
  have q: "pinv s ?q" by (rule pinv_skip_space [OF p])
  show ?thesis
  proof (cases "at_end ?q")
    case True
    then show ?thesis using w1 by (simp add: container_delimiter_def Let_def)
  next
    case False
    let ?r = "advance ?q"
    have r: "pinv s ?r" by (rule pinv_advance [OF q False])
    have lt: "poffset ?q < length (pbytes p)" using False by (simp add: at_end_def)
    have d: "drop (poffset ?q) (pbytes p) = pbytes p ! poffset ?q # drop (Suc (poffset ?q)) (pbytes p)"
      using lt by (simp add: drop_eq_Cons)
    have eq: "container_delimiter p closing =
      (if pbytes p ! poffset ?q = closing then (Ret True, ?r)
       else if pbytes p ! poffset ?q \<noteq> COMMA then fail ?r ERR_SYNTAX (poffset ?q)
       else (Ret False, skip_space ?r))"
      using False by (simp add: container_delimiter_def Let_def)
    obtain w2 where w2: "drop (Suc (poffset ?q)) (pbytes p) = w2 @ drop (poffset (skip_space ?r)) (pbytes p)"
      "json_ws w2" "Suc (poffset ?q) \<le> poffset (skip_space ?r)"
      using skip_space_facts [OF pinvD(3) [OF r]] unfolding advance_simps skip_space_simps by metis
    consider (close) "pbytes p ! poffset ?q = closing" | (bad) "pbytes p ! poffset ?q \<noteq> closing" "pbytes p ! poffset ?q \<noteq> COMMA"
      | (comma) "pbytes p ! poffset ?q \<noteq> closing" "pbytes p ! poffset ?q = COMMA" by blast
    then show ?thesis
    proof cases
      case close
      have "drop (poffset p) (pbytes p) = w1 @ closing # drop (poffset ?r) (pbytes p)"
        using w1(1) d close by simp
      then show ?thesis
        unfolding eq if_P [OF close] ends_Ret using r w1(2,5)
        by (intro conjI exI [of _ w1] exI [of _ "[]"]) (simp_all add: json_ws_def)
    next
      case bad
      with lt show ?thesis unfolding eq by simp
    next
      case comma
      have "drop (poffset p) (pbytes p) = w1 @ COMMA # w2 @ drop (poffset (skip_space ?r)) (pbytes p)"
        using w1(1) d comma(2) w2(1) by simp
      moreover have "poffset p < poffset (skip_space ?r)" using w1(3) w2(3) by simp
      moreover have "container_delimiter p closing = (Ret False, skip_space ?r)"
        unfolding eq using comma by simp
      ultimately show ?thesis
        using w1(2) w2(2) pinv_skip_space [OF r] by simp blast
    qed
  qed
qed

lemma skip_space_complete:
  assumes "drop (poffset p) (pbytes p) = w @ rest" "json_ws w" "rest = [] \<or> \<not> is_space (hd rest)"
    "poffset p \<le> length (pbytes p)"
  shows "skip_space p = p\<lparr>poffset := poffset p + length w\<rparr>"
proof -
  have "takeWhile is_space (w @ rest) = w"
    using assms(2,3) unfolding is_space_ws by (cases rest) (auto simp: takeWhile_all_digits)
  then show ?thesis using scan_while_takeWhile [OF assms(4), of is_space] assms(1) by (simp add: skip_space_def)
qed

end
