(* ===== verification/Parser_Sound.thy ===== *)
theory Parser_Sound
  imports Parser_Leaves
begin

text \<open>
  Every parsing function ends: it returns with the cells of a value whose text it has consumed,
  or fails with a recorded position. The loops are proved against the contract of the value
  parser they are given (the locale \<open>value_contract\<close>), which \<open>parse_value\<close> meets at every
  number of levels that reaches past the depth limit.
\<close>

unbundle bit_operations_syntax

section \<open>White space in the grammar\<close>

lemma json_ws_append [simp]: "json_ws (xs @ ys) \<longleftrightarrow> json_ws xs \<and> json_ws ys"
  by (auto simp: json_ws_def)

lemma json_ws_Nil [simp]: "json_ws []"
  by (simp add: json_ws_def)

lemma json_elements_ws:
  assumes "json_elements prof bs vs" "json_ws w"
  shows "json_elements prof (w @ bs) vs"
  using assms(1)
proof cases
  case (elements_one w1 t v w2)
  then show ?thesis
    using json_text_json_elements_json_members.elements_one [of "w @ w1" prof t v w2] assms(2) by simp
next
  case (elements_more w1 t v w2 bs' vs')
  then show ?thesis
    using json_text_json_elements_json_members.elements_more [of "w @ w1" prof t v w2 bs' vs'] assms(2) by simp
qed

lemma json_members_ws:
  assumes "json_members prof bs ms" "json_ws w"
  shows "json_members prof (w @ bs) ms"
  using assms(1)
proof cases
  case (members_one w1 raw k w2 w3 t v w4)
  then show ?thesis
    using json_text_json_elements_json_members.members_one [of "w @ w1" prof raw k w2 w3 t v w4] assms(2) by simp
next
  case (members_more w1 raw k w2 w3 t v w4 bs' ms')
  then show ?thesis
    using json_text_json_elements_json_members.members_more [of "w @ w1" prof raw k w2 w3 t v w4 bs' ms'] assms(2) by simp
qed

lemma fold_max_le: "fold max xs a \<le> (m :: nat) \<longleftrightarrow> a \<le> m \<and> (\<forall>x \<in> set xs. x \<le> m)"
  by (induction xs arbitrary: a) auto

lemma fold_max_bound:
  "depth + (1 + fold max (map f xs) 0) \<le> (m :: nat) \<longleftrightarrow> depth < m \<and> (\<forall>x \<in> set xs. depth + 1 + f x \<le> m)"
proof -
  have "depth + (1 + fold max (map f xs) 0) \<le> m \<longleftrightarrow> depth < m \<and> fold max (map f xs) 0 \<le> m - (depth + 1)"
    by arith
  also have "\<dots> \<longleftrightarrow> depth < m \<and> (\<forall>x \<in> set xs. f x \<le> m - (depth + 1))"
    by (simp add: fold_max_le)
  also have "\<dots> \<longleftrightarrow> depth < m \<and> (\<forall>x \<in> set xs. depth + 1 + f x \<le> m)"
    by (auto simp: le_diff_conv2)
  finally show ?thesis .
qed

lemma json_height_le:
  "depth + json_height (JArr vs) \<le> m \<longleftrightarrow> depth < m \<and> (\<forall>v \<in> set vs. depth + 1 + json_height v \<le> m)"
  "depth + json_height (JObj ms) \<le> m \<longleftrightarrow> depth < m \<and> (\<forall>(k, v) \<in> set ms. depth + 1 + json_height v \<le> m)"
  unfolding json_height.simps fold_max_bound by auto

section \<open>Closing a container\<close>

definition set_end :: "document \<Rightarrow> nat \<Rightarrow> nat \<Rightarrow> document" where
  "set_end d i stop = update_token d i (\<lambda>t. t\<lparr>tend := stop\<rparr>)"

lemma set_end_nth:
  "d_tokens (set_end d i stop) ! j =
     (if j = i \<and> i < length (d_tokens d) then (d_tokens d ! j)\<lparr>tend := stop\<rparr> else d_tokens d ! j)"
  by (cases "i < length (d_tokens d)"; cases "j = i")
    (simp_all add: set_end_def update_token_def list_update_beyond)

lemma set_end_fields [simp]:
  "length (d_tokens (set_end d i stop)) = length (d_tokens d)" "arena (set_end d i stop) = arena d"
  "d_bytes (set_end d i stop) = d_bytes d" "token_capacity (set_end d i stop) = token_capacity d"
  "arena_capacity (set_end d i stop) = arena_capacity d" "d_profile (set_end d i stop) = d_profile d"
  "children (set_end d i stop) = children d" "duplicate_count (set_end d i stop) = duplicate_count d"
  by (simp_all add: set_end_def update_token_def)

lemma set_end_token:
  "links (d_tokens (set_end d i stop) ! j) = links (d_tokens d ! j)"
  "object_key (d_tokens (set_end d i stop) ! j) = object_key (d_tokens d ! j)"
  "superseded (d_tokens (set_end d i stop) ! j) = superseded (d_tokens d ! j)"
  "cell_of ar (d_tokens (set_end d i stop) ! j) = cell_of ar (d_tokens d ! j)"
  "text_ok ar (d_tokens (set_end d i stop) ! j) = text_ok ar (d_tokens d ! j)"
  by (simp_all add: set_end_nth cell_of_def text_ok_def token_text_def cong: option.case_cong)

lemma set_end_cells [simp]: "cells (set_end d i stop) = cells d"
  unfolding cells_def by (rule nth_equalityI) (simp_all add: set_end_token)

lemma set_end_doc_inv [simp]: "doc_inv (set_end d i stop) \<longleftrightarrow> doc_inv d"
proof -
  have "map links (d_tokens (set_end d i stop)) = map links (d_tokens d)"
    by (rule nth_equalityI) (simp_all add: set_end_token)
  from linked_cong [OF this] show ?thesis
    by (auto simp: doc_inv_def all_set_conv_all_nth set_end_token)
qed

lemma set_end_keys_inv:
  assumes "keys_inv prof d keys"
  shows "keys_inv prof (set_end d i stop) keys"
proof -
  have key: "token_key (set_end d i stop) j = token_key d j" if "j < length (d_tokens d)" for j
    using token_key_cell [of j "set_end d i stop"] token_key_cell [OF that] that by simp
  have live: "live_keys (set_end d i stop) = live_keys d"
    and sup: "superseded_set (set_end d i stop) = superseded_set d"
    by (simp_all add: live_keys_def superseded_set_def set_end_token)
  have same: "same_key (set_end d i stop) j k = same_key d j k"
    if "j < length (d_tokens d)" "k < length (d_tokens d)" for j k
    using key that by (simp add: same_key_def set_end_token)
  have "keyset_inv (token_key (set_end d i stop)) keys"
  proof (rule key_table.invar_cong [OF _ keys_invD(1) [OF assms]])
    fix j assume "j \<in> keyset_entries keys"
    then show "token_key d j = token_key (set_end d i stop) j"
      using keys_invD(2) [OF assms] live_keys_bound key by simp
  qed
  then show ?thesis
    using keys_invD [OF assms] same by (auto simp: keys_inv_def live sup set_end_token)
qed

lemma close_container_ends:
  assumes "pinv 0 p"
  shows "ends p (close_container p i) (\<lambda>j p'. j = i \<and> pinv 0 p' \<and>
    cells (pdocument p') = cells (pdocument p) \<and> poffset p' = poffset p)"
proof -
  let ?q = "p\<lparr>pdocument := set_end (pdocument p) i (poffset p)\<rparr>"
  have "close_container p i = (Ret i, ?q)" by (simp add: close_container_def set_end_def)
  moreover have "pinv 0 ?q"
    using assms set_end_keys_inv pinvD [OF assms] by (simp add: pinv_def Let_def)
  moreover have "static ?q = static p" by (simp add: static_def Let_def)
  ultimately show ?thesis by simp
qed

section \<open>Containers\<close>

lemma container_token:
  assumes p: "pinv 1 p" and up: "up_ok p up" and lt: "poffset p < length (pbytes p)" and ty: "ty \<noteq> TYPE_NUMBER"
  shows "ends p (add_token p ty (poffset p) up False) (\<lambda>i p'. pinv 0 p' \<and> i = length (d_tokens (pdocument p)) \<and>
    poffset p' = poffset p \<and> cells (pdocument p') = cells (pdocument p) @
      [\<lparr>c_parent = up, c_type = ty, c_text = None, c_truth = False, c_key = False\<rparr>])"
proof (cases "length (d_tokens (pdocument p)) < token_capacity (pdocument p)")
  case False
  then show ?thesis using add_token_full lt by simp
next
  case True
  let ?d = "pdocument p" let ?f = "fresh_token ty (poffset p) up False"
  have can: "can_append (d_tokens ?d) ?f up" by (rule can_append_fresh [OF p up])
  have last: "append_token (d_tokens ?d) ?f up ! length (d_tokens ?d) = ?f"
    using append_token_last [OF can] True doc_invD(4) [OF pinvD(1) [OF p]] by simp
  have "extends ?d (?d\<lparr>arena := arena ?d @ [], d_tokens := (append_token (d_tokens ?d) ?f up)
      [length (d_tokens ?d) := ?f]\<rparr>) (cell_of (arena ?d @ []) ?f)"
    by (rule extends_append [OF pinvD(1) [OF p] can True]) (simp_all add: fresh_token_def text_ok_def)
  moreover have "(append_token (d_tokens ?d) ?f up)[length (d_tokens ?d) := ?f] = append_token (d_tokens ?d) ?f up"
    using last list_update_id by metis
  moreover have "cell_of (arena ?d @ []) ?f =
      \<lparr>c_parent = up, c_type = ty, c_text = None, c_truth = False, c_key = False\<rparr>"
    by (simp add: cell_of_def fresh_token_def)
  ultimately have ext: "extends ?d (?d\<lparr>d_tokens := append_token (d_tokens ?d) ?f up\<rparr>)
      \<lparr>c_parent = up, c_type = ty, c_text = None, c_truth = False, c_key = False\<rparr>"
    by simp
  let ?q = "p\<lparr>pdocument := ?d\<lparr>d_tokens := append_token (d_tokens ?d) ?f up\<rparr>\<rparr>"
  have "pinv 0 ?q \<and> static ?q = static p"
    by (rule pinv_extends [OF p _ _ True]) (use ext pinvD(3) [OF p] in auto)
  then show ?thesis using add_token_eq [OF True, of ty "poffset p" up False] ext by (simp add: extends_def)
qed

locale value_contract =
  fixes val :: value_parser and levels :: nat
  assumes value_ends: "\<lbrakk>pinv 1 p; up_ok p up; depth \<le> maximum_depth (plimits p);
      maximum_depth (plimits p) \<le> depth + levels\<rbrakk> \<Longrightarrow> ends p (val p up depth) (value_ends p up depth)"
begin

definition elements_end :: "parser \<Rightarrow> nat \<Rightarrow> nat \<Rightarrow> unit \<Rightarrow> parser \<Rightarrow> bool" where
  "elements_end p array depth u p' \<longleftrightarrow>
     pinv 0 p' \<and>
     (\<exists>bs vs. drop (poffset p) (pbytes p) = bs @ RBRACKET # drop (poffset p') (pbytes p) \<and>
        json_elements (pprofile p) bs vs \<and> (\<forall>v \<in> set vs. depth + 1 + json_height v \<le> maximum_depth (plimits p)) \<and>
        cells (pdocument p') = cells (pdocument p) @ layout_elements array (length (d_tokens (pdocument p))) vs)"

lemma parse_elements_ends:
  assumes "pinv 1 p" "array < length (d_tokens (pdocument p))" "depth < maximum_depth (plimits p)"
    "maximum_depth (plimits p) \<le> depth + 1 + levels" "length (pbytes p) - poffset p < turns"
  shows "ends p (parse_elements val turns p array depth) (elements_end p array depth)"
  using assms
proof (induction turns arbitrary: p)
  case 0
  then show ?case by simp
next
  case (Suc turns)
  have "up_ok p array" using Suc.prems(2) by (simp add: up_ok_def)
  then have "ends p (val p array (depth + 1)) (value_ends p array (depth + 1))"
    using Suc.prems by (intro value_ends) simp_all
  then show ?case
    unfolding parse_elements.simps
  proof (rule ends_andthen)
    fix i p1
    assume p1: "static p1 = static p" "perror p1 = perror p" "poffset p \<le> poffset p1"
      and v1: "value_ends p array (depth + 1) i p1"
    note st1 = staticD [OF p1(1)]
    obtain w t v where v: "drop (poffset p) (pbytes p) = w @ t @ drop (poffset p1) (pbytes p)" "json_ws w"
      "json_text (pprofile p) t v" "depth + 1 + json_height v \<le> maximum_depth (plimits p)"
      "cells (pdocument p1) = cells (pdocument p) @ layout array (length (d_tokens (pdocument p))) v"
      and inv1: "pinv 0 p1"
      using v1 by (auto simp: value_ends_def)
    have len1: "length (d_tokens (pdocument p1)) = length (d_tokens (pdocument p)) + json_cells v"
      using arg_cong [OF v(5), of length] by simp
    show "ends p1 (andthen (container_delimiter p1 RBRACKET)
        (\<lambda>closed p. if closed then (Ret (), p) else parse_elements val turns p array depth))
        (elements_end p array depth)"
    proof (rule ends_andthen [OF container_delimiter_ends [OF inv1]], elim conjE exE)
      fix closed p2 w1 w2
      assume p2: "static p2 = static p1" "perror p2 = perror p1" "poffset p1 \<le> poffset p2"
        and inv2: "pinv 0 p2" and d2: "pdocument p2 = pdocument p1"
        and ws: "json_ws w1" "json_ws w2"
        and del: "if closed then drop (poffset p1) (pbytes p1) = w1 @ RBRACKET # drop (poffset p2) (pbytes p1) \<and>
            poffset p2 = poffset p1 + length w1 + 1
          else drop (poffset p1) (pbytes p1) = w1 @ COMMA # w2 @ drop (poffset p2) (pbytes p1) \<and>
            poffset p1 < poffset p2"
      note st2 = staticD [OF p2(1)]
      show "ends p2 (if closed then (Ret (), p2) else parse_elements val turns p2 array depth)
        (elements_end p array depth)"
      proof (cases closed)
        case True
        have "elements_end p array depth () p2"
          unfolding elements_end_def
          using inv2 v True del ws d2 st1 elements_one [OF v(2,3) ws(1)]
          by (intro conjI exI [of _ "w @ t @ w1"] exI [of _ "[v]"]) simp_all
        with True show ?thesis by simp
      next
        case False
        have "ends p2 (parse_elements val turns p2 array depth) (elements_end p2 array depth)"
        proof (rule Suc.IH)
          show "pinv 1 p2" using inv2 by (rule pinv_weaken) simp
          show "array < length (d_tokens (pdocument p2))" using Suc.prems(2) len1 d2 by simp
          show "length (pbytes p2) - poffset p2 < turns"
            using Suc.prems(5) False del st1 st2 p1(3) pinvD(3) [OF inv2] by auto
        qed (use Suc.prems st1 st2 in simp_all)
        then have "ends p2 (parse_elements val turns p2 array depth) (elements_end p array depth)"
        proof (rule ends_weaken)
          fix u p3 assume p3: "static p3 = static p2" and e: "elements_end p2 array depth u p3"
          then obtain bs vs where e': "drop (poffset p2) (pbytes p2) = bs @ RBRACKET # drop (poffset p3) (pbytes p2)"
            "json_elements (pprofile p2) bs vs"
            "\<forall>v \<in> set vs. depth + 1 + json_height v \<le> maximum_depth (plimits p2)"
            "cells (pdocument p3) = cells (pdocument p2) @ layout_elements array (length (d_tokens (pdocument p2))) vs"
            "pinv 0 p3" by (auto simp: elements_end_def)
          have el: "json_elements (pprofile p) (w2 @ bs) vs"
            using json_elements_ws [OF e'(2) ws(2)] st1 st2 by simp
          have "drop (poffset p) (pbytes p) =
              (w @ t @ w1 @ COMMA # w2 @ bs) @ RBRACKET # drop (poffset p3) (pbytes p)"
            using v(1) del False e'(1) st1(1) st2(1) by simp
          moreover have "cells (pdocument p3) = cells (pdocument p) @
              layout_elements array (length (d_tokens (pdocument p))) (v # vs)"
            using e'(4) v(5) d2 len1 by simp
          ultimately show "elements_end p array depth u p3"
            unfolding elements_end_def
            using elements_more [OF v(2,3) ws(1) el] e'(3,5) v(4) st1 st2
            by (intro conjI exI [of _ "w @ t @ w1 @ COMMA # w2 @ bs"] exI [of _ "v # vs"]) simp_all
        qed
        with False show ?thesis by simp
      qed
    qed
  qed
qed

definition members_end :: "parser \<Rightarrow> nat \<Rightarrow> nat \<Rightarrow> unit \<Rightarrow> parser \<Rightarrow> bool" where
  "members_end p object depth u p' \<longleftrightarrow>
     pinv 0 p' \<and>
     (\<exists>bs ms. drop (poffset p) (pbytes p) = bs @ RBRACE # drop (poffset p') (pbytes p) \<and>
        json_members (pprofile p) bs ms \<and>
        (\<forall>(k, v) \<in> set ms. depth + 1 + json_height v \<le> maximum_depth (plimits p)) \<and>
        cells (pdocument p') = cells (pdocument p) @ layout_members object (length (d_tokens (pdocument p))) ms)"

text \<open>One member: a key, a colon and a value.\<close>

definition member_end :: "parser \<Rightarrow> nat \<Rightarrow> nat \<Rightarrow> parser \<Rightarrow> bool" where
  "member_end p object depth p' \<longleftrightarrow>
     pinv 0 p' \<and>
     (\<exists>raw k w2 w3 t v. drop (poffset p) (pbytes p) =
          QUOTE # raw @ QUOTE # w2 @ COLON # w3 @ t @ drop (poffset p') (pbytes p) \<and>
        json_string (pprofile p) raw k \<and> json_ws w2 \<and> json_ws w3 \<and> json_text (pprofile p) t v \<and>
        depth + 1 + json_height v \<le> maximum_depth (plimits p) \<and>
        cells (pdocument p') = cells (pdocument p) @ layout_members object (length (d_tokens (pdocument p))) [(k, v)])"

lemma parse_member_ends:
  assumes p: "pinv 0 p" "object < length (d_tokens (pdocument p))" "depth < maximum_depth (plimits p)"
    "maximum_depth (plimits p) \<le> depth + 1 + levels"
    and rest: "\<And>p'. static p' = static p \<Longrightarrow> perror p' = perror p \<Longrightarrow> poffset p < poffset p' \<Longrightarrow>
      member_end p object depth p' \<Longrightarrow> ends p' (k p') Q"
  shows "ends p (andthen (parse_string p object True) (\<lambda>key p.
       let p = skip_space p in
       if at_end p \<or> current p \<noteq> COLON then fail p ERR_SYNTAX (poffset p)
       else andthen (val (advance p) object (depth + 1)) (\<lambda>v p. k p))) Q"
proof (rule ends_andthen)
  show "ends p (parse_string p object True) (string_ends p object True)"
    using p by (intro parse_string_ends) (simp_all add: up_ok_def)
  fix i p1
  assume p1: "static p1 = static p" "perror p1 = perror p" "poffset p \<le> poffset p1"
    and s1: "string_ends p object True i p1"
  note st1 = staticD [OF p1(1)]
  obtain raw key where raw: "drop (poffset p) (pbytes p) = QUOTE # raw @ QUOTE # drop (poffset p1) (pbytes p)"
    "poffset p1 = poffset p + length raw + 2" "json_string (pprofile p) raw key"
    "cells (pdocument p1) = cells (pdocument p) @ [string_cell object key True]" "pinv 1 p1"
    using s1 by (auto simp: string_ends_def)
  have len1: "length (d_tokens (pdocument p1)) = Suc (length (d_tokens (pdocument p)))"
    using arg_cong [OF raw(4), of length] by simp
  let ?q = "skip_space p1"
  obtain w2 where w2: "drop (poffset p1) (pbytes p1) = w2 @ drop (poffset ?q) (pbytes p1)" "json_ws w2"
    "poffset p1 \<le> poffset ?q" "poffset ?q \<le> length (pbytes p1)"
    using skip_space_facts [OF pinvD(3) [OF raw(5)]] by metis
  have inv2: "pinv 1 ?q" by (rule pinv_skip_space [OF raw(5)])
  have "ends ?q (if at_end ?q \<or> current ?q \<noteq> COLON then fail ?q ERR_SYNTAX (poffset ?q)
      else andthen (val (advance ?q) object (depth + 1)) (\<lambda>v p. k p)) Q"
  proof (cases "at_end ?q \<or> current ?q \<noteq> COLON")
    case True
    then show ?thesis using w2(4) by simp
  next
    case False
    let ?r = "advance ?q"
    have lt: "poffset ?q < length (pbytes p1)" using False by (simp add: at_end_def)
    have d: "drop (poffset ?q) (pbytes p1) = COLON # drop (poffset ?r) (pbytes p1)"
      using lt False by (simp add: current_def drop_eq_Cons)
    have inv3: "pinv 1 ?r" using pinv_advance [OF inv2] False by simp
    have "ends ?r (andthen (val ?r object (depth + 1)) (\<lambda>v p. k p)) Q"
    proof (rule ends_andthen)
      show "ends ?r (val ?r object (depth + 1)) (value_ends ?r object (depth + 1))"
        using inv3 p(2-4) len1 st1 by (intro value_ends) (simp_all add: up_ok_def)
      fix j p4
      assume p4: "static p4 = static ?r" "perror p4 = perror ?r" "poffset ?r \<le> poffset p4"
        and v4: "value_ends ?r object (depth + 1) j p4"
      obtain w3 t v where v: "drop (poffset ?r) (pbytes p1) = w3 @ t @ drop (poffset p4) (pbytes p1)" "json_ws w3"
        "json_text (pprofile p1) t v" "depth + 1 + json_height v \<le> maximum_depth (plimits p1)"
        "cells (pdocument p4) = cells (pdocument p1) @ layout object (length (d_tokens (pdocument p1))) v"
        "pinv 0 p4"
        using v4 by (auto simp: value_ends_def)
      have "drop (poffset p) (pbytes p) =
          QUOTE # raw @ QUOTE # w2 @ COLON # w3 @ t @ drop (poffset p4) (pbytes p)"
        using raw(1) w2(1) d v(1) st1(1) by simp
      moreover have "cells (pdocument p4) = cells (pdocument p) @
          layout_members object (length (d_tokens (pdocument p))) [(key, v)]"
        using v(5) raw(4) len1 by simp
      ultimately have "member_end p object depth p4"
        unfolding member_end_def using raw(3) w2(2) v(2-4,6) st1
        by (intro conjI exI [of _ raw] exI [of _ key] exI [of _ w2] exI [of _ w3] exI [of _ t] exI [of _ v])
          simp_all
      then show "ends p4 (k p4) Q"
        using p4 p1 w2(3) raw(2) by (intro rest) auto
    qed
    with False show ?thesis by (auto intro: ends_moved)
  qed
  then show "ends p1 (let p = skip_space p1 in
       if at_end p \<or> current p \<noteq> COLON then fail p ERR_SYNTAX (poffset p)
       else andthen (val (advance p) object (depth + 1)) (\<lambda>v p. k p)) Q"
    unfolding Let_def using w2(3) by (auto intro: ends_moved)
qed

lemma parse_members_ends:
  assumes "pinv 0 p" "object < length (d_tokens (pdocument p))" "depth < maximum_depth (plimits p)"
    "maximum_depth (plimits p) \<le> depth + 1 + levels" "length (pbytes p) - poffset p < turns"
  shows "ends p (parse_members val turns p object depth) (members_end p object depth)"
  using assms
proof (induction turns arbitrary: p)
  case 0
  then show ?case by simp
next
  case (Suc turns)
  show ?case
    unfolding parse_members.simps
  proof (rule parse_member_ends [OF Suc.prems(1-4)])
    fix p1
    assume p1: "static p1 = static p" "perror p1 = perror p" "poffset p < poffset p1"
      and m1: "member_end p object depth p1"
    note st1 = staticD [OF p1(1)]
    obtain raw k w2 w3 t v where m: "drop (poffset p) (pbytes p) =
          QUOTE # raw @ QUOTE # w2 @ COLON # w3 @ t @ drop (poffset p1) (pbytes p)"
      "json_string (pprofile p) raw k" "json_ws w2" "json_ws w3" "json_text (pprofile p) t v"
      "depth + 1 + json_height v \<le> maximum_depth (plimits p)"
      "cells (pdocument p1) = cells (pdocument p) @ layout_members object (length (d_tokens (pdocument p))) [(k, v)]"
      and inv1: "pinv 0 p1"
      using m1 by (auto simp: member_end_def)
    have len1: "length (d_tokens (pdocument p1)) = length (d_tokens (pdocument p)) + 1 + json_cells v"
      using arg_cong [OF m(7), of length] by simp
    show "ends p1 (andthen (container_delimiter p1 RBRACE)
        (\<lambda>closed p. if closed then (Ret (), p) else parse_members val turns p object depth))
        (members_end p object depth)"
    proof (rule ends_andthen [OF container_delimiter_ends [OF inv1]], elim conjE exE)
      fix closed p2 w4 w5
      assume p2: "static p2 = static p1" "perror p2 = perror p1" "poffset p1 \<le> poffset p2"
        and inv2: "pinv 0 p2" and d2: "pdocument p2 = pdocument p1"
        and ws: "json_ws w4" "json_ws w5"
        and del: "if closed then drop (poffset p1) (pbytes p1) = w4 @ RBRACE # drop (poffset p2) (pbytes p1) \<and>
            poffset p2 = poffset p1 + length w4 + 1
          else drop (poffset p1) (pbytes p1) = w4 @ COMMA # w5 @ drop (poffset p2) (pbytes p1) \<and>
            poffset p1 < poffset p2"
      note st2 = staticD [OF p2(1)]
      have none: "json_ws []" by simp
      show "ends p2 (if closed then (Ret (), p2) else parse_members val turns p2 object depth)
        (members_end p object depth)"
      proof (cases closed)
        case True
        have "members_end p object depth () p2"
          unfolding members_end_def
          using inv2 m(1,6,7) True del d2 st1 members_one [OF none m(2,3,4,5) ws(1)]
          by (intro conjI exI [of _ "QUOTE # raw @ QUOTE # w2 @ COLON # w3 @ t @ w4"] exI [of _ "[(k, v)]"])
            simp_all
        with True show ?thesis by simp
      next
        case False
        have "ends p2 (parse_members val turns p2 object depth) (members_end p2 object depth)"
        proof (rule Suc.IH)
          show "object < length (d_tokens (pdocument p2))" using Suc.prems(2) len1 d2 by simp
          show "length (pbytes p2) - poffset p2 < turns"
            using Suc.prems(5) False del st1 st2 p1(3) pinvD(3) [OF inv2] by auto
        qed (use Suc.prems st1 st2 inv2 in simp_all)
        then have "ends p2 (parse_members val turns p2 object depth) (members_end p object depth)"
        proof (rule ends_weaken)
          fix u p3 assume p3: "static p3 = static p2" and e: "members_end p2 object depth u p3"
          then obtain bs ms where e': "drop (poffset p2) (pbytes p2) = bs @ RBRACE # drop (poffset p3) (pbytes p2)"
            "json_members (pprofile p2) bs ms"
            "\<forall>(k, v) \<in> set ms. depth + 1 + json_height v \<le> maximum_depth (plimits p2)"
            "cells (pdocument p3) = cells (pdocument p2) @ layout_members object (length (d_tokens (pdocument p2))) ms"
            "pinv 0 p3" by (auto simp: members_end_def)
          have el: "json_members (pprofile p) (w5 @ bs) ms"
            using json_members_ws [OF e'(2) ws(2)] st1 st2 by simp
          have "drop (poffset p) (pbytes p) =
              (QUOTE # raw @ QUOTE # w2 @ COLON # w3 @ t @ w4 @ COMMA # w5 @ bs) @ RBRACE # drop (poffset p3) (pbytes p)"
            using m(1) del False e'(1) st1(1) st2(1) by simp
          moreover have "cells (pdocument p3) = cells (pdocument p) @
              layout_members object (length (d_tokens (pdocument p))) ((k, v) # ms)"
            using e'(4) m(7) d2 len1 by simp
          ultimately show "members_end p object depth u p3"
            unfolding members_end_def
            using members_more [OF none m(2-5) ws(1) el] e'(3,5) m(6) st1 st2
            by (intro conjI exI [of _ "QUOTE # raw @ QUOTE # w2 @ COLON # w3 @ t @ w4 @ COMMA # w5 @ bs"]
                exI [of _ "(k, v) # ms"]) simp_all
        qed
        with False show ?thesis by simp
      qed
    qed
  qed
qed

end

section \<open>Objects and arrays\<close>

abbreviation container_cell :: "nat \<Rightarrow> json_type \<Rightarrow> cell" where
  "container_cell up ty \<equiv> \<lparr>c_parent = up, c_type = ty, c_text = None, c_truth = False, c_key = False\<rparr>"

text \<open>The parser \<open>q\<close> right after the opening bracket of \<open>p\<close> and white space.\<close>

definition opened :: "parser \<Rightarrow> nat \<Rightarrow> json_type \<Rightarrow> byte \<Rightarrow> parser \<Rightarrow> bytes \<Rightarrow> bool" where
  "opened p up ty opening q w \<longleftrightarrow>
     pinv 0 q \<and> static q = static p \<and> perror q = perror p \<and> poffset p < poffset q \<and> json_ws w \<and>
     drop (poffset p) (pbytes p) = opening # w @ drop (poffset q) (pbytes p) \<and>
     cells (pdocument q) = cells (pdocument p) @ [container_cell up ty]"

lemma openedD:
  assumes "opened p up ty opening q w"
  shows "pinv 0 q" "static q = static p" "perror q = perror p" "poffset p < poffset q" "json_ws w"
    "drop (poffset p) (pbytes p) = opening # w @ drop (poffset q) (pbytes p)"
    "cells (pdocument q) = cells (pdocument p) @ [container_cell up ty]"
    "length (d_tokens (pdocument q)) = Suc (length (d_tokens (pdocument p)))"
    "pbytes q = pbytes p" "pprofile q = pprofile p" "plimits q = plimits p"
proof -
  show "pinv 0 q" "static q = static p" "perror q = perror p" "poffset p < poffset q" "json_ws w"
    "drop (poffset p) (pbytes p) = opening # w @ drop (poffset q) (pbytes p)"
    and c: "cells (pdocument q) = cells (pdocument p) @ [container_cell up ty]"
    using assms by (simp_all add: opened_def)
  show "length (d_tokens (pdocument q)) = Suc (length (d_tokens (pdocument p)))"
    using arg_cong [OF c, of length] by simp
  show "pbytes q = pbytes p" "pprofile q = pprofile p" "plimits q = plimits p"
    using assms staticD [of q p] by (simp_all add: opened_def)
qed

lemma container_opened:
  assumes p: "pinv 1 p" "up_ok p up" and here: "\<not> at_end p" "current p = opening" and ty: "ty \<noteq> TYPE_NUMBER"
    and rest: "\<And>q w. opened p up ty opening q w \<Longrightarrow> ends q (rest (length (d_tokens (pdocument p))) q) Q"
  shows "ends p (andthen (add_token p ty (poffset p) up False) (\<lambda>i p. rest i (skip_space (advance p)))) Q"
proof (rule ends_andthen)
  have lt: "poffset p < length (pbytes p)" using here by (simp add: at_end_def)
  let ?n = "length (d_tokens (pdocument p))"
  show "ends p (add_token p ty (poffset p) up False) (\<lambda>i p'. pinv 0 p' \<and> i = ?n \<and>
    poffset p' = poffset p \<and> cells (pdocument p') = cells (pdocument p) @ [container_cell up ty])"
    by (rule container_token [OF p lt ty])
  fix i p1
  assume p1: "static p1 = static p" "perror p1 = perror p" "poffset p \<le> poffset p1"
    and c1: "pinv 0 p1 \<and> i = ?n \<and> poffset p1 = poffset p \<and>
      cells (pdocument p1) = cells (pdocument p) @ [container_cell up ty]"
  note st1 = staticD [OF p1(1)]
  have "\<not> at_end p1" using here(1) c1 st1(1) by (simp add: at_end_def)
  then have inv2: "pinv 0 (advance p1)" using pinv_advance c1 by blast
  let ?q = "skip_space (advance p1)"
  obtain w where w: "drop (poffset (advance p1)) (pbytes (advance p1)) = w @ drop (poffset ?q) (pbytes (advance p1))"
    "json_ws w" "poffset (advance p1) \<le> poffset ?q"
    using skip_space_facts [OF pinvD(3) [OF inv2]] by blast
  have "opened p up ty opening ?q w"
    unfolding opened_def using c1 p1 w pinv_skip_space [OF inv2] lt here st1(1)
    by (simp add: current_def drop_eq_Cons)
  then have "ends ?q (rest i ?q) Q" using rest c1 by blast
  then show "ends p1 (rest i ?q) Q"
    by (rule ends_moved) (use w(3) in simp_all)
qed

lemma container_closed:
  assumes o: "opened p up ty opening q w" and r: "pinv 0 r" "static r = static q"
    and d: "drop (poffset q) (pbytes q) = bs @ closing # drop (poffset r) (pbytes q)"
    and t: "json_text (pprofile p) (opening # w @ bs @ [closing]) v"
      "depth + json_height v \<le> maximum_depth (plimits p)"
    and c: "cells (pdocument r) = cells (pdocument p) @ layout up (length (d_tokens (pdocument p))) v"
  shows "ends r (close_container r (length (d_tokens (pdocument p)))) (value_ends p up depth)"
proof (rule ends_weaken [OF close_container_ends [OF r(1)]], elim conjE)
  fix j p5
  assume p5: "j = length (d_tokens (pdocument p))" "pinv 0 p5" "cells (pdocument p5) = cells (pdocument r)"
    "poffset p5 = poffset r"
  have "drop (poffset p) (pbytes p) = [] @ (opening # w @ bs @ [closing]) @ drop (poffset p5) (pbytes p)"
    using openedD(6,9) [OF o] d p5(4) by simp
  moreover have "json_ws []" by simp
  ultimately show "value_ends p up depth j p5"
    unfolding value_ends_def using p5 t c by metis
qed

context value_contract
begin

lemma parse_array_ends:
  assumes p: "pinv 1 p" "up_ok p up" and here: "\<not> at_end p" "current p = LBRACKET"
    and depth: "maximum_depth (plimits p) \<le> depth + 1 + levels"
  shows "ends p (parse_array val p up depth) (value_ends p up depth)"
proof (cases "depth \<ge> maximum_depth (plimits p)")
  case True
  then show ?thesis using here by (simp add: parse_array_def at_end_def)
next
  case False
  let ?n = "length (d_tokens (pdocument p))"
  have "ends p (andthen (add_token p TYPE_ARRAY (poffset p) up False) (\<lambda>array p.
        (\<lambda>array p. if \<not> at_end p \<and> current p = RBRACKET then close_container (advance p) array
        else andthen (parse_elements val (length (pbytes p) + 1) p array depth)
               (\<lambda>_ p. close_container p array)) array (skip_space (advance p)))) (value_ends p up depth)"
  proof (rule container_opened [OF p here])
    fix q w assume o: "opened p up TYPE_ARRAY LBRACKET q w"
    note q = openedD [OF o]
    show "ends q (if \<not> at_end q \<and> current q = RBRACKET then close_container (advance q) ?n
        else andthen (parse_elements val (length (pbytes q) + 1) q ?n depth) (\<lambda>_ p. close_container p ?n))
      (value_ends p up depth)"
    proof (cases "\<not> at_end q \<and> current q = RBRACKET")
      case True
      have "drop (poffset q) (pbytes q) = [] @ RBRACKET # drop (poffset (advance q)) (pbytes q)"
        using True by (simp add: at_end_def current_def drop_eq_Cons)
      then have "ends (advance q) (close_container (advance q) ?n) (value_ends p up depth)"
        using text_empty_array [OF q(5), of "pprofile p"] False pinv_advance [OF q(1)] True q(7)
        by (intro container_closed [OF o, where v = "JArr []" and bs = "[]"]) simp_all
      then show ?thesis using True by (auto intro: ends_moved)
    next
      case nonempty: False
      have "ends q (andthen (parse_elements val (length (pbytes q) + 1) q ?n depth)
          (\<lambda>_ p. close_container p ?n)) (value_ends p up depth)"
      proof (rule ends_andthen [OF parse_elements_ends])
        show "pinv 1 q" using q(1) by (rule pinv_weaken) simp
        fix u r assume r: "static r = static q" and e: "elements_end q ?n depth u r"
        then obtain bs vs where e': "drop (poffset q) (pbytes q) = bs @ RBRACKET # drop (poffset r) (pbytes q)"
          "json_elements (pprofile q) bs vs" "\<forall>v \<in> set vs. depth + 1 + json_height v \<le> maximum_depth (plimits q)"
          "cells (pdocument r) = cells (pdocument q) @ layout_elements ?n (length (d_tokens (pdocument q))) vs"
          "pinv 0 r" by (auto simp: elements_end_def)
        have "json_elements (pprofile p) (w @ bs) vs" using json_elements_ws [OF e'(2) q(5)] q(10) by simp
        then have parsed: "json_text (pprofile p) (LBRACKET # w @ bs @ [RBRACKET]) (JArr vs)"
          using text_array [of "pprofile p" "w @ bs" vs] by simp
        have fits: "depth + json_height (JArr vs) \<le> maximum_depth (plimits p)"
          using e'(3) False q(11) unfolding json_height_le by auto
        show "ends r (close_container r ?n) (value_ends p up depth)"
          by (rule container_closed [OF o e'(5) r e'(1) parsed fits]) (use e'(4) q(7,8) in simp)
      qed (use q False depth in simp_all)
      with nonempty show ?thesis by auto
    qed
  qed simp
  then show ?thesis using False by (simp add: parse_array_def Let_def)
qed

lemma parse_object_ends:
  assumes p: "pinv 1 p" "up_ok p up" and here: "\<not> at_end p" "current p = LBRACE"
    and depth: "maximum_depth (plimits p) \<le> depth + 1 + levels"
  shows "ends p (parse_object val p up depth) (value_ends p up depth)"
proof (cases "depth \<ge> maximum_depth (plimits p)")
  case True
  then show ?thesis using here by (simp add: parse_object_def at_end_def)
next
  case False
  let ?n = "length (d_tokens (pdocument p))"
  have "ends p (andthen (add_token p TYPE_OBJECT (poffset p) up False) (\<lambda>object p.
        (\<lambda>object p. if \<not> at_end p \<and> current p = RBRACE then close_container (advance p) object
        else andthen (parse_members val (length (pbytes p) + 1) p object depth)
               (\<lambda>_ p. close_container p object)) object (skip_space (advance p)))) (value_ends p up depth)"
  proof (rule container_opened [OF p here])
    fix q w assume o: "opened p up TYPE_OBJECT LBRACE q w"
    note q = openedD [OF o]
    show "ends q (if \<not> at_end q \<and> current q = RBRACE then close_container (advance q) ?n
        else andthen (parse_members val (length (pbytes q) + 1) q ?n depth) (\<lambda>_ p. close_container p ?n))
      (value_ends p up depth)"
    proof (cases "\<not> at_end q \<and> current q = RBRACE")
      case True
      have "drop (poffset q) (pbytes q) = [] @ RBRACE # drop (poffset (advance q)) (pbytes q)"
        using True by (simp add: at_end_def current_def drop_eq_Cons)
      then have "ends (advance q) (close_container (advance q) ?n) (value_ends p up depth)"
        using text_empty_object [OF q(5), of "pprofile p"] False pinv_advance [OF q(1)] True q(7)
        by (intro container_closed [OF o, where v = "JObj []" and bs = "[]"]) simp_all
      then show ?thesis using True by (auto intro: ends_moved)
    next
      case nonempty: False
      have "ends q (andthen (parse_members val (length (pbytes q) + 1) q ?n depth)
          (\<lambda>_ p. close_container p ?n)) (value_ends p up depth)"
      proof (rule ends_andthen [OF parse_members_ends])
        show "pinv 0 q" by (rule q(1))
        fix u r assume r: "static r = static q" and e: "members_end q ?n depth u r"
        then obtain bs ms where e': "drop (poffset q) (pbytes q) = bs @ RBRACE # drop (poffset r) (pbytes q)"
          "json_members (pprofile q) bs ms"
          "\<forall>(k, v) \<in> set ms. depth + 1 + json_height v \<le> maximum_depth (plimits q)"
          "cells (pdocument r) = cells (pdocument q) @ layout_members ?n (length (d_tokens (pdocument q))) ms"
          "pinv 0 r" by (auto simp: members_end_def)
        have "json_members (pprofile p) (w @ bs) ms" using json_members_ws [OF e'(2) q(5)] q(10) by simp
        then have parsed: "json_text (pprofile p) (LBRACE # w @ bs @ [RBRACE]) (JObj ms)"
          using text_object [of "pprofile p" "w @ bs" ms] by simp
        have fits: "depth + json_height (JObj ms) \<le> maximum_depth (plimits p)"
          using e'(3) False q(11) unfolding json_height_le by auto
        show "ends r (close_container r ?n) (value_ends p up depth)"
          by (rule container_closed [OF o e'(5) r e'(1) parsed fits]) (use e'(4) q(7,8) in simp)
      qed (use q False depth in simp_all)
      with nonempty show ?thesis by auto
    qed
  qed simp
  then show ?thesis using False by (simp add: parse_object_def Let_def)
qed

end

section \<open>Values\<close>

lemma value_ends_ws:
  assumes "value_ends q up depth i p'" "pinv 1 q" "static q = static p" "pdocument q = pdocument p"
    "drop (poffset p) (pbytes p) = w @ drop (poffset q) (pbytes p)" "json_ws w"
  shows "value_ends p up depth i p'"
proof -
  note st = staticD [OF assms(3)]
  obtain w' t v where v: "drop (poffset q) (pbytes p) = w' @ t @ drop (poffset p') (pbytes p)" "json_ws w'"
    "json_text (pprofile p) t v" "depth + json_height v \<le> maximum_depth (plimits p)"
    "cells (pdocument p') = cells (pdocument p) @ layout up i v" "pinv 0 p'"
    "i = length (d_tokens (pdocument p))"
    using assms(1,4) st by (auto simp: value_ends_def)
  have "drop (poffset p) (pbytes p) = (w @ w') @ t @ drop (poffset p') (pbytes p)"
    using assms(5) v(1) by simp
  moreover have "json_ws (w @ w')" using assms(6) v(2) by simp
  ultimately show ?thesis unfolding value_ends_def using v(3-7) by blast
qed

text \<open>
  One level of \<open>parse_value\<close>, given the contract one level down where a container can still be
  opened; past the depth limit \<open>parse_array\<close> and \<open>parse_object\<close> fail before they use it.
\<close>

lemma parse_value_step:
  assumes p: "pinv 1 p" "up_ok p up" "depth \<le> maximum_depth (plimits p)"
    and containers: "\<And>q. pinv 1 q \<Longrightarrow> up_ok q up \<Longrightarrow> plimits q = plimits p \<Longrightarrow> \<not> at_end q \<Longrightarrow> current q = LBRACE \<Longrightarrow>
        ends q (parse_object (parse_value levels) q up depth) (value_ends q up depth)"
      "\<And>q. pinv 1 q \<Longrightarrow> up_ok q up \<Longrightarrow> plimits q = plimits p \<Longrightarrow> \<not> at_end q \<Longrightarrow> current q = LBRACKET \<Longrightarrow>
        ends q (parse_array (parse_value levels) q up depth) (value_ends q up depth)"
  shows "ends p (parse_value (Suc levels) p up depth) (value_ends p up depth)"
proof -
  let ?q = "skip_space p"
  obtain w where w: "drop (poffset p) (pbytes p) = w @ drop (poffset ?q) (pbytes p)" "json_ws w"
    "poffset p \<le> poffset ?q" "poffset ?q \<le> length (pbytes p)"
    using skip_space_facts [OF pinvD(3) [OF p(1)]] by blast
  have q: "pinv 1 ?q" by (rule pinv_skip_space [OF p(1)])
  have up: "up_ok ?q up" using p(2) by (simp add: up_ok_def)
  have "ends ?q (parse_value (Suc levels) p up depth) (value_ends ?q up depth)"
  proof (cases "at_end ?q")
    case True
    then show ?thesis using w(4) by (simp add: Let_def)
  next
    case False
    consider (object) "current ?q = LBRACE" | (array) "current ?q = LBRACKET" | (string) "current ?q = QUOTE"
      | (other) "current ?q \<notin> {LBRACE, LBRACKET, QUOTE}" by blast
    then show ?thesis
    proof cases
      case object
      then show ?thesis using False containers(1) [OF q up _ False] by (simp add: Let_def)
    next
      case array
      then show ?thesis using False containers(2) [OF q up _ False] by (simp add: Let_def)
    next
      case string
      have "ends ?q (parse_string ?q up False) (value_ends ?q up depth)"
      proof (rule ends_weaken [OF parse_string_ends])
        fix i p' assume "string_ends ?q up False i p'"
        then obtain raw s where s: "drop (poffset ?q) (pbytes p) = QUOTE # raw @ QUOTE # drop (poffset p') (pbytes p)"
          "json_string (pprofile p) raw s" "cells (pdocument p') = cells (pdocument p) @ [string_cell up s False]"
          "pinv 0 p'" "i = length (d_tokens (pdocument p))"
          by (auto simp: string_ends_def)
        have "json_text (pprofile p) (QUOTE # raw @ [QUOTE]) (JStr s)" using s(2) by (rule text_string)
        then show "value_ends ?q up depth i p'"
          unfolding value_ends_def using s(1,3-5) p(3)
          by (intro conjI exI [of _ "[]"] exI [of _ "QUOTE # raw @ [QUOTE]"] exI [of _ "JStr s"]) simp_all
      qed (use q up in simp_all)
      then show ?thesis using string False by (simp add: Let_def)
    next
      case other
      have "ends ?q (parse_primitive ?q up) (value_ends ?q up depth)"
        by (rule parse_primitive_ends [OF q up]) (use p(3) in simp)
      then show ?thesis using other False by (simp add: Let_def)
    qed
  qed
  then have "ends ?q (parse_value (Suc levels) p up depth) (value_ends p up depth)"
    by (rule ends_weaken) (use q w(1,2) in \<open>auto intro: value_ends_ws\<close>)
  then show ?thesis by (rule ends_moved) (use w(3) in simp_all)
qed

lemma value_contract_parse_value: "value_contract (parse_value (Suc levels)) levels"
proof (induction levels)
  case 0
  show ?case
  proof
    fix p up depth
    assume p: "pinv 1 p" "up_ok p up" "depth \<le> maximum_depth (plimits p)" "maximum_depth (plimits p) \<le> depth + 0"
    then show "ends p (parse_value (Suc 0) p up depth) (value_ends p up depth)"
      by (intro parse_value_step) (simp_all add: parse_object_def parse_array_def at_end_def)
  qed
next
  case (Suc levels)
  show ?case
  proof
    fix p up depth
    assume p: "pinv 1 p" "up_ok p up" "depth \<le> maximum_depth (plimits p)" "maximum_depth (plimits p) \<le> depth + Suc levels"
    then show "ends p (parse_value (Suc (Suc levels)) p up depth) (value_ends p up depth)"
      by (intro parse_value_step value_contract.parse_object_ends [OF Suc]
          value_contract.parse_array_ends [OF Suc]) simp_all
  qed
qed

interpretation parse_value: value_contract "parse_value (Suc levels)" levels for levels
  by (rule value_contract_parse_value)

end
