(* ===== verification/Layout.thy ===== *)
theory Layout
  imports Json_Spec
begin

text \<open>
  Finding one's way in a laid-out value: which cells have a given parent, which values stand
  where (\<open>subvalues\<close>), and that the cells whose parent is the container at \<open>j\<close> are the first cells
  of its elements, respectively the key and first cells of its members.
\<close>

text \<open>The key cell of a member.\<close>

abbreviation key_cell :: "nat \<Rightarrow> bytes \<Rightarrow> cell" where
  "key_cell up k \<equiv> \<lparr>c_parent = up, c_type = TYPE_STRING, c_text = Some k, c_truth = False, c_key = True\<rparr>"

section \<open>Cells by parent\<close>

definition parented :: "nat \<Rightarrow> cell list \<Rightarrow> nat \<Rightarrow> nat list" where
  "parented base cs j = filter (\<lambda>k. c_parent (cs ! (k - base)) = j) [base..<base + length cs]"

lemma parented_Nil [simp]: "parented base [] j = []"
  by (simp add: parented_def)

lemma parented_append:
  "parented base (xs @ ys) j = parented base xs j @ parented (base + length xs) ys j"
proof -
  have "[base..<base + length (xs @ ys)] =
      [base..<base + length xs] @ [base + length xs..<base + length xs + length ys]"
    by (metis add.assoc length_append upt_add_eq_append le_add1)
  moreover have "filter (\<lambda>k. c_parent ((xs @ ys) ! (k - base)) = j) [base..<base + length xs] = parented base xs j"
    unfolding parented_def by (rule filter_cong) (auto simp: nth_append)
  moreover have "filter (\<lambda>k. c_parent ((xs @ ys) ! (k - base)) = j)
      [base + length xs..<base + length xs + length ys] = parented (base + length xs) ys j"
    unfolding parented_def by (rule filter_cong) (auto simp: nth_append diff_diff_eq)
  ultimately show ?thesis by (simp add: parented_def)
qed

lemma parented_one: "parented base [c] j = (if c_parent c = j then [base] else [])"
  by (simp add: parented_def)

lemma parented_Cons:
  "parented base (c # cs) j = (if c_parent c = j then [base] else []) @ parented (Suc base) cs j"
  using parented_append [of base "[c]" cs j] by (simp add: parented_one)

lemma parented_none: "\<forall>c \<in> set cs. c_parent c \<noteq> j \<Longrightarrow> parented base cs j = []"
  by (force simp: parented_def filter_empty_conv)

section \<open>Where the parents of a layout lie\<close>

text \<open>The first cell of a value has the parent given; the others have theirs inside the value.\<close>

definition inside :: "nat \<Rightarrow> nat \<Rightarrow> cell \<Rightarrow> bool" where
  "inside i n c \<longleftrightarrow> i \<le> c_parent c \<and> c_parent c < i + n"

lemma inside_widen: "inside i n c \<Longrightarrow> i' \<le> i \<Longrightarrow> i + n \<le> i' + n' \<Longrightarrow> inside i' n' c"
  by (auto simp: inside_def)

lemma layout_nonempty [simp]: "layout up i v \<noteq> []"
  by (cases v) auto

lemma layout_parents:
  "c_parent (hd (layout up i v)) = up \<and> (\<forall>c \<in> set (tl (layout up i v)). inside i (json_cells v) c)"
  "\<forall>c \<in> set (layout_elements up i vs). c_parent c = up \<or> inside i (sum_list (map json_cells vs)) c"
  "\<forall>c \<in> set (layout_members up i ms).
     c_parent c = up \<or> inside i (sum_list (map (\<lambda>(k, v). 1 + json_cells v) ms)) c"
proof (induction up i v and up i vs and up i ms rule: layout_layout_elements_layout_members.induct)
  case (8 up i v vs)
  have "\<forall>c \<in> set (layout up i v). c_parent c = up \<or> inside i (json_cells v) c"
    using 8(1) by (cases "layout up i v") auto
  with 8(2) show ?case by (auto simp: inside_def)
next
  case (10 up i k v ms)
  have "\<forall>c \<in> set (layout up (i + 1) v). c_parent c = up \<or> inside (i + 1) (json_cells v) c"
    using 10(1) by (cases "layout up (i + 1) v") auto
  with 10(2) show ?case by (auto simp: inside_def)
qed (auto simp: inside_def)

lemma layout_parent_cases:
  assumes "c \<in> set (layout up i v)"
  shows "c_parent c = up \<or> inside i (json_cells v) c"
  using assms layout_parents(1) [of up i v] by (cases "layout up i v") auto

text \<open>A parent that is neither outside nor the one given has no cell in the value.\<close>

lemma parented_layout_other:
  "j \<noteq> up \<Longrightarrow> j < i \<or> i + json_cells v \<le> j \<Longrightarrow> parented i (layout up i v) j = []"
  by (rule parented_none) (auto dest!: layout_parent_cases simp: inside_def)

lemma parented_elements_other:
  "j \<noteq> up \<Longrightarrow> j < i \<or> i + sum_list (map json_cells vs) \<le> j \<Longrightarrow> parented i (layout_elements up i vs) j = []"
  using layout_parents(2) [of up i vs] by (intro parented_none) (auto simp: inside_def)

lemma parented_members_other:
  "j \<noteq> up \<Longrightarrow> j < i \<or> i + sum_list (map (\<lambda>(k, v). 1 + json_cells v) ms) \<le> j \<Longrightarrow>
     parented i (layout_members up i ms) j = []"
  using layout_parents(3) [of up i ms] by (intro parented_none) (auto simp: inside_def)

lemma parented_layout_up:
  assumes "up < i \<or> i + json_cells v \<le> up"
  shows "parented i (layout up i v) up = [i]"
proof -
  obtain c cs where l: "layout up i v = c # cs" by (cases "layout up i v") auto
  have "c_parent c = up" "\<forall>c \<in> set cs. c_parent c \<noteq> up"
    using layout_parents(1) [of up i v] l assms by (auto simp: inside_def)
  then show ?thesis using parented_none [of cs up] by (simp add: l parented_Cons)
qed

lemma parented_elements_up:
  "up < i \<or> i + sum_list (map json_cells vs) \<le> up \<Longrightarrow> parented i (layout_elements up i vs) up = element_handles i vs"
  by (induction vs arbitrary: i) (auto simp: parented_append parented_layout_up)

lemma parented_members_up:
  "up < i \<or> i + sum_list (map (\<lambda>(k, v). 1 + json_cells v) ms) \<le> up \<Longrightarrow>
     parented i (layout_members up i ms) up = member_handles i ms"
  by (induction ms arbitrary: i) (auto simp: parented_append parented_Cons parented_layout_up)

section \<open>Values by handle\<close>

text \<open>Every value of a laid-out value: its parent, its handle, and itself.\<close>

fun subvalues :: "nat \<Rightarrow> nat \<Rightarrow> json \<Rightarrow> (nat \<times> nat \<times> json) list"
and sub_elements :: "nat \<Rightarrow> nat \<Rightarrow> json list \<Rightarrow> (nat \<times> nat \<times> json) list"
and sub_members :: "nat \<Rightarrow> nat \<Rightarrow> (bytes \<times> json) list \<Rightarrow> (nat \<times> nat \<times> json) list"
where
  "subvalues up i (JArr vs) = (up, i, JArr vs) # sub_elements i (i + 1) vs"
| "subvalues up i (JObj ms) = (up, i, JObj ms) # sub_members i (i + 1) ms"
| "subvalues up i JNull = [(up, i, JNull)]"
| "subvalues up i (JBool b) = [(up, i, JBool b)]"
| "subvalues up i (JNum n) = [(up, i, JNum n)]"
| "subvalues up i (JStr s) = [(up, i, JStr s)]"
| "sub_elements up i [] = []"
| "sub_elements up i (v # vs) = subvalues up i v @ sub_elements up (i + json_cells v) vs"
| "sub_members up i [] = []"
| "sub_members up i ((k, v) # ms) = subvalues up (i + 1) v @ sub_members up (i + 1 + json_cells v) ms"

lemma subvalues_root: "(up, i, v) \<in> set (subvalues up i v)"
  by (cases v) auto

text \<open>A subvalue lies inside the value; its parent is the one given, or inside too.\<close>

lemma subvalues_range:
  "(u, j, w) \<in> set (subvalues up i v) \<Longrightarrow> i \<le> j \<and> j + json_cells w \<le> i + json_cells v"
  "(u, j, w) \<in> set (sub_elements up i vs) \<Longrightarrow> i \<le> j \<and> j + json_cells w \<le> i + sum_list (map json_cells vs)"
  "(u, j, w) \<in> set (sub_members up i ms) \<Longrightarrow>
     i < j \<and> j + json_cells w \<le> i + sum_list (map (\<lambda>(k, v). 1 + json_cells v) ms)"
  by (induction up i v and up i vs and up i ms rule: subvalues_sub_elements_sub_members.induct) auto

text \<open>Its cells are a part of the cells.\<close>

definition holds :: "cell list \<Rightarrow> nat \<Rightarrow> cell list \<Rightarrow> bool" where
  "holds cs k part \<longleftrightarrow> (\<exists>pre suf. cs = pre @ part @ suf \<and> length pre = k)"

lemma holds_refl [simp]: "holds cs 0 cs"
  unfolding holds_def by (intro exI [of _ "[]"]) simp

lemma holds_append:
  "holds xs k part \<Longrightarrow> holds (xs @ ys) k part"
  "holds ys k part \<Longrightarrow> n = length xs + k \<Longrightarrow> holds (xs @ ys) n part"
  unfolding holds_def by (metis append.assoc, metis append.assoc length_append)

lemma holds_Cons: "holds cs k part \<Longrightarrow> holds (c # cs) (Suc k) part"
  using holds_append(2) [of cs k part "Suc k" "[c]"] by simp

lemma holds_after:
  "length xs \<le> n \<Longrightarrow> holds ys (n - length xs) part \<Longrightarrow> holds (xs @ ys) n part"
  by (rule holds_append(2)) auto

lemma holds_later: "0 < n \<Longrightarrow> holds cs (n - 1) part \<Longrightarrow> holds (c # cs) n part"
  using holds_Cons [of cs "n - 1"] by simp

lemma holds_trans: "holds cs k mid \<Longrightarrow> holds mid n part \<Longrightarrow> holds cs (k + n) part"
  unfolding holds_def by (metis append.assoc length_append)

lemma holds_nth: "holds cs k part \<Longrightarrow> n < length part \<Longrightarrow> cs ! (k + n) = part ! n \<and> k + n < length cs"
  by (auto simp: holds_def nth_append)

lemma holds_split:
  "holds cs k (xs @ ys) \<Longrightarrow> holds cs k xs \<and> holds cs (k + length xs) ys"
proof -
  assume "holds cs k (xs @ ys)"
  then obtain pre suf where c: "cs = pre @ (xs @ ys) @ suf" "length pre = k" by (auto simp: holds_def)
  have "holds cs k xs" unfolding holds_def using c by (intro exI [of _ pre] exI [of _ "ys @ suf"]) simp
  moreover have "holds cs (k + length xs) ys"
    unfolding holds_def using c by (intro exI [of _ "pre @ xs"] exI [of _ suf]) simp
  ultimately show ?thesis ..
qed

lemma layout_hd:
  "\<not> c_key (hd (layout up i v))" "c_parent (hd (layout up i v)) = up"
  "holds cs k (layout up i v) \<Longrightarrow> cs ! k = hd (layout up i v) \<and> k < length cs"
proof -
  show "\<not> c_key (hd (layout up i v))" "c_parent (hd (layout up i v)) = up" by (cases v; simp)+
  assume "holds cs k (layout up i v)"
  from holds_nth [OF this, of 0] show "cs ! k = hd (layout up i v) \<and> k < length cs"
    by (simp add: hd_conv_nth)
qed

lemma subvalues_holds:
  "(u, j, w) \<in> set (subvalues up i v) \<Longrightarrow> holds (layout up i v) (j - i) (layout u j w)"
  "(u, j, w) \<in> set (sub_elements up i vs) \<Longrightarrow> holds (layout_elements up i vs) (j - i) (layout u j w)"
  "(u, j, w) \<in> set (sub_members up i ms) \<Longrightarrow> holds (layout_members up i ms) (j - i) (layout u j w)"
proof (induction up i v and up i vs and up i ms rule: subvalues_sub_elements_sub_members.induct)
  case (1 up i vs)
  show ?case
  proof (cases "(u, j, w) = (up, i, JArr vs)")
    case False
    with 1 have s: "(u, j, w) \<in> set (sub_elements i (i + 1) vs)" by auto
    then have "j - i = Suc (j - (i + 1))" using subvalues_range(2) by fastforce
    then show ?thesis using 1(1) [OF s] holds_Cons by simp
  qed simp
next
  case (2 up i ms)
  show ?case
  proof (cases "(u, j, w) = (up, i, JObj ms)")
    case False
    with 2 have s: "(u, j, w) \<in> set (sub_members i (i + 1) ms)" by auto
    then have "j - i = Suc (j - (i + 1))" using subvalues_range(3) by fastforce
    then show ?thesis using 2(1) [OF s] holds_Cons by simp
  qed simp
next
  case (8 up i v vs)
  show ?case
  proof (cases "(u, j, w) \<in> set (subvalues up i v)")
    case True
    then show ?thesis using 8(1) holds_append(1) by simp
  next
    case False
    with 8 have s: "(u, j, w) \<in> set (sub_elements up (i + json_cells v) vs)" by auto
    have h: "holds (layout_elements up (i + json_cells v) vs) (j - i - length (layout up i v)) (layout u j w)"
      using 8(2) [OF s] by simp
    have "length (layout up i v) \<le> j - i" using subvalues_range(2) [OF s] unfolding layout_length by linarith
    from holds_after [OF this h] show ?thesis by simp
  qed
next
  case (10 up i k v ms)
  show ?case
  proof (cases "(u, j, w) \<in> set (subvalues up (i + 1) v)")
    case True
    then have "j - i = Suc (j - (i + 1))" using subvalues_range(1) by fastforce
    then show ?thesis using 10(1) [OF True] holds_append(1) holds_Cons by simp
  next
    case False
    with 10 have s: "(u, j, w) \<in> set (sub_members up (i + 1 + json_cells v) ms)" by auto
    let ?c = "key_cell up k # layout up (i + 1) v"
    have h: "holds (layout_members up (i + 1 + json_cells v) ms) (j - i - length ?c) (layout u j w)"
      using 10(2) [OF s] by simp
    have "length ?c \<le> j - i" using subvalues_range(3) [OF s] unfolding list.size layout_length by linarith
    from holds_after [OF this h] show ?thesis by simp
  qed
qed auto

text \<open>The handles of a container's children.\<close>

fun child_handles :: "nat \<Rightarrow> json \<Rightarrow> nat list" where
  "child_handles j (JArr vs) = element_handles (j + 1) vs"
| "child_handles j (JObj ms) = member_handles (j + 1) ms"
| "child_handles j _ = []"

lemma subvalues_parented:
  "(u, j, w) \<in> set (subvalues up i v) \<Longrightarrow> up < i \<or> i + json_cells v \<le> up \<Longrightarrow>
     parented i (layout up i v) j = child_handles j w"
  "(u, j, w) \<in> set (sub_elements up i vs) \<Longrightarrow> up < i \<or> i + sum_list (map json_cells vs) \<le> up \<Longrightarrow>
     parented i (layout_elements up i vs) j = child_handles j w"
  "(u, j, w) \<in> set (sub_members up i ms) \<Longrightarrow>
     up < i \<or> i + sum_list (map (\<lambda>(k, v). 1 + json_cells v) ms) \<le> up \<Longrightarrow>
     parented i (layout_members up i ms) j = child_handles j w"
proof (induction up i v and up i vs and up i ms rule: subvalues_sub_elements_sub_members.induct)
  case (1 up i vs)
  show ?case
  proof (cases "(u, j, w) = (up, i, JArr vs)")
    case True
    with 1 show ?thesis using parented_elements_up [of i "i + 1" vs] by (auto simp: parented_Cons)
  next
    case False
    with 1 have s: "(u, j, w) \<in> set (sub_elements i (i + 1) vs)" by auto
    have "j \<noteq> up"
      using 1(3) subvalues_range(2) [OF s] json_cells_positive [of w] unfolding json_cells.simps by linarith
    then show ?thesis using 1(1) [OF s] by (simp add: parented_Cons)
  qed
next
  case (2 up i ms)
  show ?case
  proof (cases "(u, j, w) = (up, i, JObj ms)")
    case True
    with 2 show ?thesis using parented_members_up [of i "i + 1" ms] by (auto simp: parented_Cons)
  next
    case False
    with 2 have s: "(u, j, w) \<in> set (sub_members i (i + 1) ms)" by auto
    have "j \<noteq> up"
      using 2(3) subvalues_range(3) [OF s] json_cells_positive [of w] unfolding json_cells.simps by linarith
    then show ?thesis using 2(1) [OF s] by (simp add: parented_Cons)
  qed
next
  case (8 up i v vs)
  show ?case
  proof (cases "(u, j, w) \<in> set (subvalues up i v)")
    case True
    have r: "i \<le> j" "j < i + json_cells v"
      using subvalues_range(1) [OF True] json_cells_positive [of w] by linarith+
    have "parented (i + json_cells v) (layout_elements up (i + json_cells v) vs) j = []"
      by (rule parented_elements_other) (use r 8(4) in auto)
    then show ?thesis using 8(1) [OF True] 8(4) by (auto simp: parented_append)
  next
    case False
    with 8 have s: "(u, j, w) \<in> set (sub_elements up (i + json_cells v) vs)" by auto
    have r: "i + json_cells v \<le> j" "j < i + json_cells v + sum_list (map json_cells vs)"
      using subvalues_range(2) [OF s] json_cells_positive [of w] by linarith+
    have "parented i (layout up i v) j = []"
      by (rule parented_layout_other) (use r 8(4) in auto)
    then show ?thesis using 8(2) [OF s] 8(4) by (auto simp: parented_append)
  qed
next
  case (10 up i k v ms)
  show ?case
  proof (cases "(u, j, w) \<in> set (subvalues up (i + 1) v)")
    case True
    have r: "i + 1 \<le> j" "j < i + 1 + json_cells v"
      using subvalues_range(1) [OF True] json_cells_positive [of w] by linarith+
    have "parented (i + 1 + json_cells v) (layout_members up (i + 1 + json_cells v) ms) j = []"
      by (rule parented_members_other) (use r 10(4) in auto)
    moreover have "j \<noteq> up" using r 10(4) by auto
    ultimately show ?thesis using 10(1) [OF True] 10(4) by (auto simp: parented_append parented_Cons)
  next
    case False
    with 10 have s: "(u, j, w) \<in> set (sub_members up (i + 1 + json_cells v) ms)" by auto
    have r: "i + 1 + json_cells v < j" "j < i + 1 + json_cells v + sum_list (map (\<lambda>(k, v). 1 + json_cells v) ms)"
      using subvalues_range(3) [OF s] json_cells_positive [of w] by linarith+
    have "parented (i + 1) (layout up (i + 1) v) j = []"
      by (rule parented_layout_other) (use r 10(4) in auto)
    moreover have "j \<noteq> up" using r 10(4) by auto
    ultimately show ?thesis using 10(2) [OF s] 10(4) by (auto simp: parented_append parented_Cons)
  qed
qed (auto simp: parented_one)

text \<open>The elements and members of a subvalue are subvalues.\<close>

lemma sub_elements_nth:
  "k < length vs \<Longrightarrow> (up, element_handles i vs ! k, vs ! k) \<in> set (sub_elements up i vs)"
  by (induction vs arbitrary: i k) (auto simp: nth_Cons subvalues_root split: nat.splits)

lemma length_element_handles [simp]: "length (element_handles i vs) = length vs"
  by (induction vs arbitrary: i) auto

lemma length_member_handles [simp]: "length (member_handles i ms) = 2 * length ms"
  by (induction i ms rule: member_handles.induct) auto

lemma sub_members_nth:
  "k < length ms \<Longrightarrow> (up, member_handles i ms ! (2 * k + 1), snd (ms ! k)) \<in> set (sub_members up i ms)"
proof (induction i ms arbitrary: k rule: member_handles.induct)
  case (2 i kx v ms)
  then show ?case by (cases k) (auto simp: subvalues_root)
qed simp

lemma subvalues_trans:
  "(u, j, w) \<in> set (subvalues up i v) \<Longrightarrow> x \<in> set (subvalues u j w) \<Longrightarrow> x \<in> set (subvalues up i v)"
  "(u, j, w) \<in> set (sub_elements up i vs) \<Longrightarrow> x \<in> set (subvalues u j w) \<Longrightarrow> x \<in> set (sub_elements up i vs)"
  "(u, j, w) \<in> set (sub_members up i ms) \<Longrightarrow> x \<in> set (subvalues u j w) \<Longrightarrow> x \<in> set (sub_members up i ms)"
  by (induction up i v and up i vs and up i ms rule: subvalues_sub_elements_sub_members.induct)
    auto

lemma subvalues_element:
  assumes "(u, j, JArr vs) \<in> set (subvalues up i v)" "k < length vs"
  shows "(j, element_handles (j + 1) vs ! k, vs ! k) \<in> set (subvalues up i v)"
  by (rule subvalues_trans(1) [OF assms(1)]) (use sub_elements_nth [OF assms(2)] in simp)

lemma subvalues_member:
  assumes "(u, j, JObj ms) \<in> set (subvalues up i v)" "k < length ms"
  shows "(j, member_handles (j + 1) ms ! (2 * k + 1), snd (ms ! k)) \<in> set (subvalues up i v)"
  by (rule subvalues_trans(1) [OF assms(1)]) (use sub_members_nth [OF assms(2)] in simp)

lemma member_key_cell:
  "k < length ms \<Longrightarrow> i \<le> member_handles i ms ! (2 * k) \<and>
     holds (layout_members up i ms) (member_handles i ms ! (2 * k) - i) [key_cell up (fst (ms ! k))]"
proof (induction i ms arbitrary: k rule: member_handles.induct)
  case (2 i kx v ms)
  show ?case
  proof (cases k)
    case 0
    then show ?thesis using holds_append(1) [of "[key_cell up kx]" 0 "[key_cell up kx]"] by simp
  next
    case (Suc n)
    let ?h = "member_handles (i + 1 + json_cells v) ms ! (2 * n)"
    have *: "i + 1 + json_cells v \<le> ?h"
      "holds (layout_members up (i + 1 + json_cells v) ms) (?h - (i + 1 + json_cells v)) [key_cell up (fst (ms ! n))]"
      using 2(1) [of n] 2(2) Suc by auto
    let ?c = "key_cell up kx # layout up (i + 1) v"
    have h: "holds (layout_members up (i + 1 + json_cells v) ms) (?h - i - length ?c) [key_cell up (fst (ms ! n))]"
      using *(2) by simp
    have "length ?c \<le> ?h - i" using *(1) by simp
    from holds_after [OF this h] show ?thesis using Suc *(1) by simp
  qed
qed simp

text \<open>The keys among the handles of an object's children are those of its members.\<close>

lemma member_cells:
  "holds cs i (layout_members up i ms) \<Longrightarrow>
     (\<forall>h \<in> set (member_handles i ms). h < length cs \<and>
        (c_key (cs ! h) \<longrightarrow> (\<exists>k \<in> fst ` set ms. cs ! h = key_cell up k))) \<and>
     (\<forall>k \<in> fst ` set ms. \<exists>h \<in> set (member_handles i ms). cs ! h = key_cell up k)"
proof (induction i ms rule: member_handles.induct)
  case (2 i k v ms)
  have "holds cs i ([key_cell up k] @ layout up (i + 1) v @ layout_members up (i + 1 + json_cells v) ms)"
    using 2(2) by simp
  from holds_split [OF this] have h: "holds cs i [key_cell up k]"
    "holds cs (i + 1) (layout up (i + 1) v @ layout_members up (i + 1 + json_cells v) ms)" by simp_all
  from holds_split [OF h(2)] have r: "holds cs (i + 1) (layout up (i + 1) v)"
    "holds cs (i + 1 + json_cells v) (layout_members up (i + 1 + json_cells v) ms)" by simp_all
  have "cs ! i = key_cell up k \<and> i < length cs" using holds_nth [OF h(1), of 0] by simp
  moreover have "\<not> c_key (cs ! (i + 1)) \<and> i + 1 < length cs"
    using layout_hd(3) [OF r(1)] layout_hd(1) by simp
  ultimately show ?case using 2(1) [OF r(2)] by auto
qed simp

end
