(* ===== verification/Child_Index.thy ===== *)
theory Child_Index
  imports Parser_Inv Layout
begin

text \<open>
  \<open>build_children\<close>: what the child index holds, that building it never leaves an array, and that
  its last assertion (every token but the root is the child of a container) holds.

  \<open>represents d v\<close> is the state of a finished document: its cells are the layout of the value
  \<open>v\<close>, its links and its child index are those of the layout, its texts lie in the arena.
\<close>

definition is_container :: "token \<Rightarrow> bool" where
  "is_container t \<longleftrightarrow> ttype t = TYPE_OBJECT \<or> ttype t = TYPE_ARRAY"

definition indexed :: "document \<Rightarrow> bool" where
  "indexed d \<longleftrightarrow>
     (\<exists>cs. children d = Some cs \<and>
        (\<forall>i < length (d_tokens d). is_container (d_tokens d ! i) \<longrightarrow>
           (let t = d_tokens d ! i; ks = kids (d_tokens d) i
            in child_count (links t) = length ks \<and>
               (\<exists>pre suf. cs = pre @ ks @ suf \<and> length pre = children_offset t))))"

definition represents :: "document \<Rightarrow> json \<Rightarrow> bool" where
  "represents d v \<longleftrightarrow>
     linked (d_tokens d) \<and> (\<forall>t \<in> set (d_tokens d). text_ok (arena d) t) \<and>
     cells d = layout VALUE_NONE 0 v \<and> indexed d"

section \<open>Every cell but the first has a container for parent\<close>

definition rooted :: "nat \<Rightarrow> cell list \<Rightarrow> cell \<Rightarrow> bool" where
  "rooted i cs c \<longleftrightarrow>
     i \<le> c_parent c \<and> (\<exists>c'. holds cs (c_parent c - i) [c'] \<and> c_type c' \<in> {TYPE_OBJECT, TYPE_ARRAY})"

lemma rooted_append: "rooted i xs c \<Longrightarrow> rooted i (xs @ ys) c"
  unfolding rooted_def using holds_append(1) by blast

lemma rooted_after:
  assumes "rooted (i + length xs) ys c"
  shows "rooted i (xs @ ys) c"
proof -
  obtain c' where c': "i + length xs \<le> c_parent c" "holds ys (c_parent c - (i + length xs)) [c']"
    "c_type c' \<in> {TYPE_OBJECT, TYPE_ARRAY}" using assms by (auto simp: rooted_def)
  have "holds (xs @ ys) (c_parent c - i) [c']"
    by (rule holds_after) (use c'(1,2) in \<open>simp_all add: diff_diff_eq\<close>)
  with c' show ?thesis by (auto simp: rooted_def)
qed

lemma rooted_Cons: "rooted (Suc i) cs c \<Longrightarrow> rooted i (x # cs) c"
  using rooted_after [of i "[x]" cs c] by simp

lemma rooted_here: "c_parent c = i \<Longrightarrow> c_type x \<in> {TYPE_OBJECT, TYPE_ARRAY} \<Longrightarrow> rooted i (x # cs) c"
  unfolding rooted_def using holds_append(1) [of "[x]" 0 "[x]" cs] by auto

lemma layout_rooted:
  "\<forall>c \<in> set (tl (layout up i v)). rooted i (layout up i v) c"
  "\<forall>c \<in> set (layout_elements up i vs). c_parent c = up \<or> rooted i (layout_elements up i vs) c"
  "\<forall>c \<in> set (layout_members up i ms). c_parent c = up \<or> rooted i (layout_members up i ms) c"
proof (induction up i v and up i vs and up i ms rule: layout_layout_elements_layout_members.induct)
  case (5 up i vs)
  then show ?case using rooted_here rooted_Cons by fastforce
next
  case (6 up i ms)
  then show ?case using rooted_here rooted_Cons by fastforce
next
  case (8 up i v vs)
  have "\<forall>c \<in> set (layout up i v). c_parent c = up \<or> rooted i (layout up i v) c"
    using 8(1) layout_parents(1) [of up i v] by (cases "layout up i v") auto
  then show ?case using 8(2) rooted_after [of i "layout up i v"] by (auto intro: rooted_append)
next
  case (10 up i k v ms)
  have v: "\<forall>c \<in> set (layout up (i + 1) v). c_parent c = up \<or> rooted (i + 1) (layout up (i + 1) v) c"
    using 10(1) layout_parents(1) [of up "i + 1" v] by (cases "layout up (i + 1) v") auto
  let ?l = "layout up (i + 1) v @ layout_members up (i + 1 + json_cells v) ms"
  have "c_parent c = up \<or> rooted (Suc i) ?l c" if "c \<in> set ?l" for c
    using that v 10(2) rooted_after [of "Suc i" "layout up (i + 1) v" "layout_members up (i + 1 + json_cells v) ms" c]
    by (auto intro: rooted_append)
  then show ?case using rooted_Cons [of i ?l] by auto
qed auto

section \<open>Chains\<close>

lemma child_chain_kids:
  assumes "linked ts" "up < length ts" "length (drop k (kids ts up)) \<le> turns"
  shows "child_chain turns ts (first_of (drop k (kids ts up))) = Some (drop k (kids ts up))"
  using assms(3)
proof (induction turns arbitrary: k)
  case 0
  then show ?case by (simp add: child_chain.simps)
next
  case (Suc n)
  show ?case
  proof (cases "k < length (kids ts up)")
    case False
    then show ?thesis by (simp add: child_chain.simps)
  next
    case True
    then have d: "drop k (kids ts up) = kids ts up ! k # drop (Suc k) (kids ts up)"
      by (simp add: Cons_nth_drop_Suc)
    have "kids ts up ! k \<in> set (kids ts up)" using True by simp
    from kid_not_none [OF assms(1) this] show ?thesis
      using Suc next_sibling_kid [OF assms(1,2) True] True
      by (subst child_chain.simps) (simp add: d)
  qed
qed

lemma length_kids: "length (kids ts i) \<le> length ts"
  unfolding kids_def by (metis length_filter_le length_upt minus_nat.diff_0)

lemma child_chain_first:
  assumes "linked ts" "up < length ts"
  shows "child_chain (length ts) ts (first_child (links (ts ! up))) = Some (kids ts up)"
  using child_chain_kids [OF assms, of 0 "length ts"] first_child_kid [OF assms] length_kids by simp

section \<open>The loop\<close>

definition offset_of :: "token list \<Rightarrow> nat \<Rightarrow> nat list" where
  "offset_of ts k = concat (map (kids ts) (filter (\<lambda>i. is_container (ts ! i)) [0..<k]))"

definition index_token :: "token list \<Rightarrow> nat \<Rightarrow> token" where
  "index_token ts i =
     (if is_container (ts ! i) then (ts ! i)\<lparr>children_offset := length (offset_of ts i)\<rparr> else ts ! i)"

definition index_upto :: "token list \<Rightarrow> nat \<Rightarrow> token list" where
  "index_upto ts k = map (index_token ts) [0..<k] @ drop k ts"

lemma index_upto_nth:
  "k \<le> length ts \<Longrightarrow> i < length ts \<Longrightarrow> index_upto ts k ! i = (if i < k then index_token ts i else ts ! i)"
  by (simp add: index_upto_def nth_append)

lemma length_index_upto [simp]: "k \<le> length ts \<Longrightarrow> length (index_upto ts k) = length ts"
  by (simp add: index_upto_def)

lemma index_token_fields [simp]:
  "links (index_token ts i) = links (ts ! i)" "ttype (index_token ts i) = ttype (ts ! i)"
  "is_container (index_token ts i) = is_container (ts ! i)"
  "cell_of ar (index_token ts i) = cell_of ar (ts ! i)" "text_ok ar (index_token ts i) = text_ok ar (ts ! i)"
  by (simp_all add: index_token_def is_container_def cell_of_def text_ok_def token_text_def cong: option.case_cong)

lemma index_upto_links: "k \<le> length ts \<Longrightarrow> map links (index_upto ts k) = map links ts"
  by (rule nth_equalityI) (simp_all add: index_upto_nth)

lemma index_upto_Suc:
  "k < length ts \<Longrightarrow> (index_upto ts k)[k := index_token ts k] = index_upto ts (Suc k)"
  by (rule nth_equalityI) (auto simp: index_upto_nth nth_list_update less_Suc_eq)

lemma index_fold:
  assumes "linked ts" "k \<le> length ts"
  shows "fold index_container [0..<k] (Some (ts, [])) = Some (index_upto ts k, offset_of ts k)"
  using assms(2)
proof (induction k)
  case 0
  then show ?case by (simp add: index_upto_def offset_of_def)
next
  case (Suc k)
  let ?ts = "index_upto ts k"
  have k: "k < length ts" "k \<le> length ts" using Suc.prems by simp_all
  have ty: "ttype (?ts ! k) = ttype (ts ! k)" using k by (simp add: index_upto_nth)
  have rest: "offset_of ts (Suc k) = offset_of ts k @ (if is_container (ts ! k) then kids ts k else [])"
    by (simp add: offset_of_def)
  have "index_container k (Some (?ts, offset_of ts k)) = Some (index_upto ts (Suc k), offset_of ts (Suc k))"
  proof (cases "is_container (ts ! k)")
    case False
    then have "?ts[k := index_token ts k] = ?ts"
      using k by (simp add: index_token_def index_upto_nth list_update_same_conv)
    with False k ty rest show ?thesis
      using index_upto_Suc [OF k(1)] by (simp add: index_container_def is_container_def)
  next
    case True
    have "(?ts ! k)\<lparr>children_offset := length (offset_of ts k)\<rparr> = index_token ts k"
      using k True by (simp add: index_upto_nth index_token_def)
    then have set: "?ts[k := (?ts ! k)\<lparr>children_offset := length (offset_of ts k)\<rparr>] = index_upto ts (Suc k)"
      using index_upto_Suc [OF k(1)] by simp
    have links: "map links (index_upto ts (Suc k)) = map links ts"
      using k by (intro index_upto_links) simp
    then have "linked (index_upto ts (Suc k))" "kids (index_upto ts (Suc k)) k = kids ts k"
      using linked_cong [OF links] kids_links_cong [OF links] assms(1) by simp_all
    then have "child_chain (length ts) (index_upto ts (Suc k)) (first_child (links (index_upto ts (Suc k) ! k)))
        = Some (kids ts k)"
      using child_chain_first [of "index_upto ts (Suc k)" k] k by simp
    then show ?thesis
      using True ty k rest set
      by (auto simp: index_container_def is_container_def Let_def)
  qed
  then show ?case using Suc by simp
qed

text \<open>Every token but the root is in the list exactly once.\<close>

lemma offset_of_distinct: "distinct (offset_of ts k)"
proof (induction k)
  case (Suc k)
  have "set (offset_of ts k) \<inter> set (kids ts k) = {}"
    by (auto simp: offset_of_def set_kids)
  with Suc show ?case by (auto simp: offset_of_def)
qed (simp add: offset_of_def)

lemma cells_parent: "j < length (d_tokens d) \<Longrightarrow> parent_of (d_tokens d ! j) = c_parent (cells d ! j)"
  by (simp add: cells_def cell_of_def)

lemma cells_type: "j < length (d_tokens d) \<Longrightarrow> ttype (d_tokens d ! j) = c_type (cells d ! j)"
  by (simp add: cells_def cell_of_def)

lemma layout_parent_container:
  assumes c: "cells d = layout VALUE_NONE 0 v" and j: "0 < j" "j < length (d_tokens d)"
  shows "parent_of (d_tokens d ! j) < length (d_tokens d)" "is_container (d_tokens d ! parent_of (d_tokens d ! j))"
proof -
  have "cells d ! j \<in> set (tl (layout VALUE_NONE 0 v))"
    using c j by (metis Suc_pred length_cells length_tl less_diff_conv nth_mem nth_tl Suc_eq_plus1)
  then have "rooted 0 (cells d) (cells d ! j)"
    using layout_rooted(1) [of VALUE_NONE 0 v] c by simp
  then obtain c' where c': "holds (cells d) (c_parent (cells d ! j)) [c']" "c_type c' \<in> {TYPE_OBJECT, TYPE_ARRAY}"
    by (auto simp: rooted_def)
  have "cells d ! c_parent (cells d ! j) = c'" "c_parent (cells d ! j) < length (d_tokens d)"
    using holds_nth [OF c'(1), of 0] by simp_all
  with c'(2) j show "parent_of (d_tokens d ! j) < length (d_tokens d)"
    "is_container (d_tokens d ! parent_of (d_tokens d ! j))"
    by (auto simp: cells_parent is_container_def cells_type)
qed

lemma offset_of_all:
  assumes "linked (d_tokens d)" "cells d = layout VALUE_NONE 0 v"
  shows "length (offset_of (d_tokens d) (length (d_tokens d))) + 1 = length (d_tokens d)"
proof -
  let ?ts = "d_tokens d"
  have "length (cells d) = json_cells v" using assms(2) by simp
  then have pos: "0 < length ?ts" using json_cells_positive [of v] unfolding length_cells by linarith
  have root: "parent_of (?ts ! 0) = VALUE_NONE"
    using layout_parents(1) [of VALUE_NONE 0 v] assms(2) pos cells_parent [of 0 d]
    by (metis hd_conv_nth layout_nonempty)
  have "set (offset_of ?ts (length ?ts)) = {j. 0 < j \<and> j < length ?ts}"
  proof (intro set_eqI iffI)
    fix j assume "j \<in> set (offset_of ?ts (length ?ts))"
    then have "j < length ?ts" "parent_of (?ts ! j) < length ?ts" by (auto simp: offset_of_def set_kids)
    then show "j \<in> {j. 0 < j \<and> j < length ?ts}"
      using root assms(1) by (cases j) (auto simp: linked_def)
  next
    fix j assume "j \<in> {j. 0 < j \<and> j < length ?ts}"
    then show "j \<in> set (offset_of ?ts (length ?ts))"
      using layout_parent_container [OF assms(2)] by (auto simp: offset_of_def set_kids)
  qed
  also have "\<dots> = {1..<length ?ts}" by auto
  finally have "length (offset_of ?ts (length ?ts)) = card {1..<length ?ts}"
    using distinct_card [OF offset_of_distinct] by metis
  with pos show ?thesis by simp
qed

section \<open>The index built\<close>

lemma build_children_ends:
  assumes "linked (d_tokens d)" "\<forall>t \<in> set (d_tokens d). text_ok (arena d) t" "cells d = layout VALUE_NONE 0 v"
  shows "(\<exists>h'. malloc (length (d_tokens d) * SIZEOF_SIZE_T) h = (False, h') \<and>
      build_children d h = (Fail ERR_MEMORY, h')) \<or>
    (\<exists>h' ts cs. malloc (length (d_tokens d) * SIZEOF_SIZE_T) h = (True, h') \<and> length ts = length (d_tokens d) \<and>
      build_children d h = (Ret (d\<lparr>d_tokens := ts, children := Some cs\<rparr>), h') \<and>
      represents (d\<lparr>d_tokens := ts, children := Some cs\<rparr>) v)"
proof (cases "malloc (length (d_tokens d) * SIZEOF_SIZE_T) h")
  case (Pair granted h')
  show ?thesis
  proof (cases granted)
    case False
    with Pair show ?thesis by (simp add: build_children_def)
  next
    case True
    let ?n = "length (d_tokens d)" let ?ts = "index_upto (d_tokens d) ?n" let ?cs = "offset_of (d_tokens d) ?n"
    let ?d = "d\<lparr>d_tokens := ?ts, children := Some ?cs\<rparr>"
    have b: "build_children d h = (Ret ?d, h')"
      using Pair True index_fold [OF assms(1) order.refl] offset_of_all [OF assms(1,3)]
      by (simp add: build_children_def)
    have links: "map links ?ts = map links (d_tokens d)" by (rule index_upto_links) simp
    have nth: "?ts ! i = index_token (d_tokens d) i" if "i < ?n" for i
      using that by (simp add: index_upto_nth)
    have "cells ?d = cells d"
      unfolding cells_def by (rule nth_equalityI) (simp_all add: nth)
    moreover have "\<forall>t \<in> set ?ts. text_ok (arena d) t"
      using assms(2) nth_mem by (fastforce simp: in_set_conv_nth nth)
    moreover have "indexed ?d"
      unfolding indexed_def
    proof (intro exI conjI allI impI)
      fix i assume i: "i < length (d_tokens ?d)" "is_container (d_tokens ?d ! i)"
      then have i': "i < ?n" "is_container (d_tokens d ! i)" by (simp_all add: nth)
      have "[0..<?n] = [0..<i] @ i # [Suc i..<?n]"
        using i'(1) by (metis le_add_diff_inverse less_imp_le upt_add_eq_append upt_conv_Cons zero_le)
      then have "?cs = offset_of (d_tokens d) i @ kids (d_tokens d) i @
          concat (map (kids (d_tokens d)) (filter (\<lambda>i. is_container (d_tokens d ! i)) [Suc i..<?n]))"
        using i'(2) by (simp add: offset_of_def)
      moreover have "child_count (links (d_tokens d ! i)) = length (kids (d_tokens d) i)"
        using assms(1) i'(1) by (auto simp: linked_def linked_at_def Let_def)
      ultimately show "let t = d_tokens ?d ! i; ks = kids (d_tokens ?d) i
         in child_count (links t) = length ks \<and> (\<exists>pre suf. ?cs = pre @ ks @ suf \<and> length pre = children_offset t)"
        using i' kids_links_cong [OF links] by (auto simp: nth index_token_def Let_def)
    qed simp
    ultimately have "represents ?d v"
      using assms linked_cong [OF links] by (simp add: represents_def)
    with b Pair True show ?thesis
      by (intro disjI2 exI [of _ h'] exI [of _ ?ts] exI [of _ ?cs]) simp
  qed
qed

end
