(* ===== verification/Compaction.thy ===== *)
theory Compaction
  imports Parser_Steps Child_Index
begin

text \<open>
  \<open>compact_document\<close> (the last-wins profile): both passes of \<open>compact_walk\<close> return, the sizing pass
  counts exactly what the second one writes, and the packed tokens and texts are the layout of
  the value without its superseded members (\<open>last_wins\<close>).
\<close>

section \<open>Packing one token\<close>

lemma append_cell_token:
  assumes can: "can_append ts f up" and n: "length ts < VALUE_NONE" and texts: "\<forall>t \<in> set ts. text_ok ar t"
    and g: "links g = links_init up" "text_ok (ar @ ext) g"
  shows "linked ((append_token ts f up)[length ts := g])"
    "map (cell_of (ar @ ext)) ((append_token ts f up)[length ts := g]) =
       map (cell_of ar) ts @ [cell_of (ar @ ext) g]"
    "\<forall>t \<in> set ((append_token ts f up)[length ts := g]). text_ok (ar @ ext) t"
proof -
  let ?ar = "ar @ ext" let ?n = "length ts"
  let ?us = "(append_token ts f up)[?n := g]"
  have last: "append_token ts f up ! ?n = f" by (rule append_token_last [OF can n])
  have "map links ?us = map links (append_token ts f up)"
    using last g(1) can_appendD(3) [OF can] by (simp add: map_update list_update_same_conv)
  then show "linked ?us"
    using append_token_linked [OF can n] linked_cong by blast
  have "map (cell_of ?ar) ts = map (cell_of ar) ts"
    using texts by (auto intro: cell_of_append)
  then show "map (cell_of ?ar) ?us = map (cell_of ar) ts @ [cell_of ?ar g]"
    by (simp add: map_update append_token_cells [OF can] list_update_append)
  show "\<forall>t \<in> set ?us. text_ok ?ar t"
  proof
    fix t assume "t \<in> set ?us"
    then obtain i where i: "i < Suc ?n" "t = ?us ! i" by (auto simp: in_set_conv_nth)
    show "text_ok ?ar t"
    proof (cases "i = ?n")
      case True
      with i g(2) show ?thesis by simp
    next
      case False
      with i have "i < ?n" by simp
      then show ?thesis
        using i append_token_fields(2) [OF can i(1), of ?ar] texts text_ok_append
        by (simp add: nth_append)
    qed
  qed
qed

text \<open>The room a cell's text takes in the arena.\<close>

definition cell_room :: "cell \<Rightarrow> nat" where
  "cell_room c = (case c_text c of None \<Rightarrow> 0 | Some x \<Rightarrow> length x + 1)"

definition cells_room :: "cell list \<Rightarrow> nat" where
  "cells_room cs = sum_list (map cell_room cs)"

lemma cells_room_simps [simp]:
  "cells_room [] = 0" "cells_room (c # cs) = cell_room c + cells_room cs"
  "cells_room (xs @ ys) = cells_room xs + cells_room ys"
  by (simp_all add: cells_room_def)

definition packed_cells :: "packed \<Rightarrow> cell list" where
  "packed_cells t = (case pk_tokens t of None \<Rightarrow> [] | Some ts \<Rightarrow> map (cell_of (pk_arena t)) ts)"

definition packed_ok :: "packed \<Rightarrow> bool" where
  "packed_ok t \<longleftrightarrow>
     (case pk_tokens t of
        None \<Rightarrow> True
      | Some ts \<Rightarrow>
          linked ts \<and> (\<forall>x \<in> set ts. text_ok (pk_arena t) x) \<and> pk_token_count t = length ts \<and>
          pk_arena_used t = length (pk_arena t))"

text \<open>The cells \<open>cs\<close> fit behind what is packed; they were packed.\<close>

definition fits :: "packed \<Rightarrow> cell list \<Rightarrow> bool" where
  "fits t cs \<longleftrightarrow>
     (pk_tokens t \<noteq> None \<longrightarrow>
        pk_token_count t + length cs \<le> pk_token_capacity t \<and> pk_token_capacity t \<le> VALUE_NONE \<and>
        pk_arena_used t + cells_room cs \<le> pk_arena_capacity t)"

definition packs :: "packed \<Rightarrow> packed \<Rightarrow> cell list \<Rightarrow> bool" where
  "packs t t' cs \<longleftrightarrow>
     packed_ok t' \<and> pk_token_count t' = pk_token_count t + length cs \<and>
     pk_arena_used t' = pk_arena_used t + cells_room cs \<and>
     pk_token_capacity t' = pk_token_capacity t \<and> pk_arena_capacity t' = pk_arena_capacity t \<and>
     (pk_tokens t' = None \<longleftrightarrow> pk_tokens t = None) \<and>
     (pk_tokens t \<noteq> None \<longrightarrow> packed_cells t' = packed_cells t @ cs)"

lemma packs_refl: "packed_ok t \<Longrightarrow> packs t t []"
  by (simp add: packs_def)

lemma packs_trans: "packs t u xs \<Longrightarrow> packs u v ys \<Longrightarrow> packs t v (xs @ ys)"
  by (auto simp: packs_def)

lemma packs_ok: "packs t u xs \<Longrightarrow> packed_ok u"
  by (simp add: packs_def)

lemma packs_count: "packs t u xs \<Longrightarrow> pk_token_count u = pk_token_count t + length xs"
  by (simp add: packs_def)

lemma fits_append: "fits t (xs @ ys) \<Longrightarrow> fits t xs"
  by (auto simp: fits_def)

lemma fits_after: "fits t (xs @ ys) \<Longrightarrow> packs t u xs \<Longrightarrow> fits u ys"
  by (auto simp: fits_def packs_def)

definition up_packed :: "packed \<Rightarrow> nat \<Rightarrow> bool" where
  "up_packed t up \<longleftrightarrow> (pk_tokens t \<noteq> None \<longrightarrow> up = VALUE_NONE \<or> up < pk_token_count t)"

lemma up_packed_after: "up_packed t up \<Longrightarrow> packs t u xs \<Longrightarrow> up_packed u up"
  by (auto simp: up_packed_def packs_def)

lemma up_packed_here: "packs t u (c # xs) \<Longrightarrow> up_packed u (pk_token_count t)"
  by (auto simp: up_packed_def packs_def)

lemma text_room:
  "text_ok ar t \<Longrightarrow> cell_room (cell_of ar t) = (if ttext t = None then 0 else ttext_size t + 1)"
  by (auto simp: cell_room_def cell_of_def token_text_def text_ok_def split: option.splits)

lemma pack_token_ends:
  assumes old: "text_ok (arena source) old" and t: "packed_ok t" "up_packed t up"
    and c: "c = (cell_of (arena source) old)\<lparr>c_parent := up\<rparr>" and fit: "fits t [c]"
  shows "\<exists>u. pack_token source old t up = Some u \<and> packs t u [c]"
proof -
  have room: "cell_room c = (if ttext old = None then 0 else ttext_size old + 1)"
    using text_room [OF old] by (simp add: c cell_room_def)
  show ?thesis
  proof (cases "pk_tokens t")
    case None
    then show ?thesis using room by (simp add: pack_token_def packs_def packed_ok_def Let_def)
  next
    case (Some ts)
    note ok = t(1) [unfolded packed_ok_def Some option.case]
    let ?f = "old\<lparr>links := links_init up\<rparr>" let ?n = "length ts"
    have can: "can_append ts ?f up" using ok t(2) Some by (auto simp: can_append_def up_packed_def)
    have n: "?n < VALUE_NONE" "\<not> ?n \<ge> pk_token_capacity t"
      "\<not> length (pk_arena t) + cell_room c > pk_arena_capacity t"
      using fit ok Some by (auto simp: fits_def)
    have texts: "\<forall>x \<in> set ts. text_ok (pk_arena t) x" using ok by simp
    have last: "append_token ts ?f up ! ?n = ?f" by (rule append_token_last [OF can n(1)])
    show ?thesis
    proof (cases "ttext old")
      case none: None
      note a = append_cell_token [OF can n(1) texts, of ?f "[]"]
      have same: "(append_token ts ?f up)[?n := ?f] = append_token ts ?f up"
        using last by (metis list_update_id)
      have f: "links ?f = links_init up" "text_ok (pk_arena t @ []) ?f"
        using none by (simp_all add: text_ok_def)
      have cell: "cell_of (pk_arena t) ?f = c" using none by (simp add: c cell_of_def links_init_def)
      have "pack_token source old t up = Some (t\<lparr>pk_token_count := ?n + 1, pk_arena_used := pk_arena_used t,
          pk_tokens := Some (append_token ts ?f up)\<rparr>)"
        using Some none n ok room by (simp add: pack_token_def append_token_def Let_def)
      moreover have "packs t (t\<lparr>pk_token_count := ?n + 1, pk_arena_used := pk_arena_used t,
          pk_tokens := Some (append_token ts ?f up)\<rparr>) [c]"
        using a(1,2,3) [OF f] room none ok Some cell
        by (simp add: packs_def packed_ok_def packed_cells_def same)
      ultimately show ?thesis by blast
    next
      case (Some off)
      let ?ext = "take (ttext_size old + 1) (drop off (arena source))"
      let ?g = "?f\<lparr>ttext := Some (length (pk_arena t))\<rparr>"
      have ext: "off + ttext_size old < length (arena source)" "arena source ! (off + ttext_size old) = 0"
        using old Some by (auto simp: text_ok_def)
      then have le: "length ?ext = ttext_size old + 1" by simp
      have content: "token_text (pk_arena t @ ?ext) ?g = token_text (arena source) old"
        using Some le ext(1) by (simp add: token_text_def take_take min_def)
      have g: "links ?g = links_init up" "text_ok (pk_arena t @ ?ext) ?g"
        using ext le by (simp_all add: text_ok_def nth_append)
      have cell: "cell_of (pk_arena t @ ?ext) ?g = c"
        using content Some by (simp add: c cell_of_def links_init_def)
      note a = append_cell_token [OF can n(1) texts g]
      let ?u = "t\<lparr>pk_token_count := ?n + 1, pk_arena_used := length (pk_arena t) + (ttext_size old + 1),
          pk_tokens := Some ((append_token ts ?f up)[?n := ?g]), pk_arena := pk_arena t @ ?ext\<rparr>"
      have "pack_token source old t up = Some ?u"
        using \<open>pk_tokens t = Some ts\<close> Some n ok room last by (simp add: pack_token_def append_token_def Let_def)
      moreover have "packs t ?u [c]"
        using a room Some ok \<open>pk_tokens t = Some ts\<close> cell le
        by (simp add: packs_def packed_ok_def packed_cells_def)
      ultimately show ?thesis by blast
    qed
  qed
qed

section \<open>The source\<close>

definition compactable :: "document \<Rightarrow> json \<Rightarrow> bool" where
  "compactable d v \<longleftrightarrow>
     linked (d_tokens d) \<and> (\<forall>t \<in> set (d_tokens d). text_ok (arena d) t) \<and>
     cells d = layout VALUE_NONE 0 v \<and>
     (\<forall>i < length (d_tokens d). superseded (d_tokens d ! i) \<longleftrightarrow>
        (\<exists>j < length (d_tokens d). i < j \<and> same_key d i j))"

lemma kids_parented: "kids (d_tokens d) j = parented 0 (cells d) j"
  unfolding kids_def parented_def by (rule filter_cong) (auto simp: cells_parent)

lemma layout_size: "cells d = layout VALUE_NONE 0 v \<Longrightarrow> length (d_tokens d) = json_cells v"
  by (metis layout_length(1) length_cells)

lemma kids_subvalue:
  assumes "cells d = layout VALUE_NONE 0 v" "length (d_tokens d) \<le> VALUE_NONE"
    "(u, j, w) \<in> set (subvalues VALUE_NONE 0 v)"
  shows "kids (d_tokens d) j = child_handles j w"
  using subvalues_parented(1) [OF assms(3)] assms(1,2) layout_size [OF assms(1)]
  by (simp add: kids_parented)

lemma subvalue_cell:
  assumes "cells d = layout VALUE_NONE 0 v" "(u, j, w) \<in> set (subvalues VALUE_NONE 0 v)"
  shows "cells d ! j = hd (layout u j w)" "j < length (d_tokens d)"
  using layout_hd(3) [of "cells d" j u j w] subvalues_holds(1) [OF assms(2)] assms(1)
  by (metis diff_zero length_cells)+

lemma key_kids:
  assumes "cells d = layout VALUE_NONE 0 v" "linked (d_tokens d)" "h < length (d_tokens d)" "c_type (cells d ! h) = TYPE_STRING"
  shows "kids (d_tokens d) h = []"
proof (rule ccontr)
  assume "kids (d_tokens d) h \<noteq> []"
  then obtain j where "j \<in> set (kids (d_tokens d) h)" by (cases "kids (d_tokens d) h") auto
  then have j: "j < length (d_tokens d)" "parent_of (d_tokens d ! j) = h" by (simp_all add: set_kids)
  have "h \<noteq> VALUE_NONE" using assms(2,3) by (auto simp: linked_def)
  moreover have "c_parent (cells d ! 0) = VALUE_NONE"
    using layout_hd(2) [of VALUE_NONE 0 v] assms(1) by (metis hd_conv_nth layout_nonempty)
  ultimately have "0 < j" using j cells_parent [of 0 d] by (cases j) auto
  from layout_parent_container(2) [OF assms(1) this j(1)] show False
    using assms(3,4) j by (simp add: is_container_def cells_type)
qed

text \<open>A key is superseded exactly when a later member has it.\<close>

lemma superseded_member:
  assumes c: "compactable d v0" and kids: "kids (d_tokens d) up = pre @ member_handles i ((k, v) # rest)"
    and h: "holds (cells d) i (layout_members up i ((k, v) # rest))"
  shows "superseded (d_tokens d ! i) \<longleftrightarrow> k \<in> fst ` set rest"
proof -
  let ?ts = "d_tokens d" let ?i' = "i + 1 + json_cells v"
  have ks: "kids ?ts up = pre @ i # (i + 1) # member_handles ?i' rest" using kids by simp
  have "holds (cells d) i ([key_cell up k] @ layout up (i + 1) v @ layout_members up ?i' rest)" using h by simp
  from holds_split [OF this] have here: "holds (cells d) i [key_cell up k]"
    "holds (cells d) (i + 1) (layout up (i + 1) v @ layout_members up ?i' rest)" by simp_all
  from holds_split [OF here(2)] have r: "holds (cells d) (i + 1) (layout up (i + 1) v)"
    "holds (cells d) ?i' (layout_members up ?i' rest)" by simp_all
  have i: "cells d ! i = key_cell up k" "i < length ?ts" using holds_nth [OF here(1), of 0] by simp_all
  have i1: "\<not> object_key (?ts ! (i + 1))"
    using layout_hd(3) [OF r(1)] layout_hd(1) by (simp add: object_key_cell)
  have same: "same_key d i j \<longleftrightarrow> cells d ! j = key_cell up k"
    if j: "j < length ?ts" "j \<in> set (member_handles ?i' rest)" for j
  proof
    assume same: "same_key d i j"
    then have "c_key (cells d ! j)" using j(1) by (simp add: same_key_def object_key_cell)
    then obtain k' where k': "cells d ! j = key_cell up k'" using member_cells [OF r(2)] j(2) by blast
    have "cell_key (cells d ! i) = cell_key (cells d ! j)"
      using same i(2) j(1) by (simp add: same_key_def token_key_cell)
    then show "cells d ! j = key_cell up k" using i(1) k' by (simp add: cell_key_def)
  next
    assume "cells d ! j = key_cell up k"
    then show "same_key d i j" using i j(1) by (simp add: same_key_def object_key_cell token_key_cell)
  qed
  have "(\<exists>j < length ?ts. i < j \<and> same_key d i j) \<longleftrightarrow>
      (\<exists>j \<in> set (member_handles ?i' rest). cells d ! j = key_cell up k)" (is "?L \<longleftrightarrow> ?R")
  proof
    assume ?L
    then obtain j where j: "j < length ?ts" "i < j" "same_key d i j" by auto
    then have "parent_of (?ts ! j) = up"
      using i by (auto simp: same_key_def token_key_cell cell_key_def cells_parent)
    with j(1) have "j \<in> set (kids ?ts up)" by (simp add: set_kids)
    moreover have "sorted (pre @ i # (i + 1) # member_handles ?i' rest)"
      using sorted_kids(1) [of ?ts up] unfolding ks .
    then have "\<forall>x \<in> set pre. x \<le> i" by (simp add: sorted_append)
    moreover have "j \<noteq> i + 1" using j(3) i1 by (auto simp: same_key_def)
    ultimately have "j \<in> set (member_handles ?i' rest)" using ks j(2) by auto
    with same [OF j(1)] j(3) show ?R by auto
  next
    assume ?R
    then obtain j where j: "j \<in> set (member_handles ?i' rest)" "cells d ! j = key_cell up k" by auto
    have "j \<in> set (kids ?ts up)" using j ks by simp
    then have jt: "j < length ?ts" "parent_of (?ts ! j) = up" by (simp_all add: set_kids)
    moreover have "sorted (pre @ i # (i + 1) # member_handles ?i' rest)"
      using sorted_kids(1) [of ?ts up] unfolding ks .
    then have "i + 1 \<le> j" using j(1) by (simp add: sorted_append)
    ultimately show ?L using same [OF jt(1) j(1)] j(2) by (intro exI [of _ j]) simp
  qed
  also have "\<dots> \<longleftrightarrow> k \<in> fst ` set rest"
  proof
    assume ?R
    then obtain j where j: "j \<in> set (member_handles ?i' rest)" "cells d ! j = key_cell up k" by blast
    then obtain k' where "k' \<in> fst ` set rest" "cells d ! j = key_cell up k'"
      using member_cells [OF r(2)] by (metis cell.select_convs(5))
    with j(2) show "k \<in> fst ` set rest" by simp
  qed (use member_cells [OF r(2)] in blast)
  finally show ?thesis using c i(2) by (simp add: compactable_def)
qed

section \<open>The walk\<close>

text \<open>The first cell of a value and the cells of its children, after compaction.\<close>

fun child_cells :: "nat \<Rightarrow> nat \<Rightarrow> json \<Rightarrow> cell list" where
  "child_cells up i (JArr vs) = layout_elements up i (map last_wins vs)"
| "child_cells up i (JObj ms) = layout_members up i (last_members (map (\<lambda>(k, v). (k, last_wins v)) ms))"
| "child_cells up i _ = []"

lemma layout_last_wins:
  "layout up' i (last_wins v) = (hd (layout up j v))\<lparr>c_parent := up'\<rparr> # child_cells i (i + 1) v"
  by (cases v) auto

lemma walk_step:
  assumes c: "compactable d v0" and v: "(up, i, v) \<in> set (subvalues VALUE_NONE 0 v0)"
    and t: "packed_ok t" "up_packed t up'" and fit: "fits t (layout up' (pk_token_count t) (last_wins v))"
    and rest: "\<And>u. packed_ok u \<Longrightarrow> up_packed u (pk_token_count t) \<Longrightarrow> pk_token_count u = pk_token_count t + 1 \<Longrightarrow>
      fits u (child_cells (pk_token_count t) (pk_token_count t + 1) v) \<Longrightarrow>
      \<exists>u'. compact_children f d (first_of (child_handles i v)) u (pk_token_count t) = Some u' \<and>
        packs u u' (child_cells (pk_token_count t) (pk_token_count t + 1) v)"
  shows "\<exists>u. compact_walk (Suc f) d i t up' = Some u \<and> packs t u (layout up' (pk_token_count t) (last_wins v))"
proof -
  let ?n = "pk_token_count t" let ?old = "d_tokens d ! i"
  have d: "linked (d_tokens d)" "\<forall>t \<in> set (d_tokens d). text_ok (arena d) t" "cells d = layout VALUE_NONE 0 v0"
    using c by (simp_all add: compactable_def)
  note cell = subvalue_cell [OF d(3) v]
  let ?c = "(hd (layout up i v))\<lparr>c_parent := up'\<rparr>"
  have l: "layout up' ?n (last_wins v) = [?c] @ child_cells ?n (?n + 1) v"
    by (simp add: layout_last_wins [of up' ?n v up i])
  have "?c = (cell_of (arena d) ?old)\<lparr>c_parent := up'\<rparr>" using cell by (simp add: cells_def)
  moreover have "text_ok (arena d) ?old" using d(2) cell(2) by simp
  ultimately obtain u where u: "pack_token d ?old t up' = Some u" "packs t u [?c]"
    using pack_token_ends [OF _ t] fits_append [OF fit [unfolded l]] by metis
  have "\<exists>u'. compact_children f d (first_of (child_handles i v)) u ?n = Some u' \<and>
      packs u u' (child_cells ?n (?n + 1) v)"
    using rest [OF packs_ok [OF u(2)] up_packed_here [OF u(2)]] packs_count [OF u(2)]
      fits_after [OF fit [unfolded l] u(2)] by simp
  then obtain u' where u': "compact_children f d (first_of (child_handles i v)) u ?n = Some u'"
    "packs u u' (child_cells ?n (?n + 1) v)" by blast
  have "first_child (links ?old) = first_of (child_handles i v)"
    using first_child_kid [OF d(1) cell(2)] kids_subvalue [OF d(3) _ v] d(1) by (simp add: linked_def)
  then have "compact_walk (Suc f) d i t up' = Some u'"
    using u(1) u'(1) cell(2) by (simp add: Let_def)
  with packs_trans [OF u(2) u'(2)] l show ?thesis by metis
qed

text \<open>A value without children.\<close>

lemma walk_leaf:
  assumes "compactable d v0" "(up, i, v) \<in> set (subvalues VALUE_NONE 0 v0)"
    "packed_ok t" "up_packed t up'" "fits t (layout up' (pk_token_count t) (last_wins v))"
    "child_handles i v = []" "child_cells (pk_token_count t) (pk_token_count t + 1) v = []" "2 * json_cells v \<le> fuel"
  shows "\<exists>u. compact_walk fuel d i t up' = Some u \<and> packs t u (layout up' (pk_token_count t) (last_wins v))"
proof -
  obtain f where f: "fuel = Suc (Suc f)"
  proof -
    have "fuel = Suc (Suc (fuel - 2))" using assms(8) json_cells_positive [of v] by linarith
    then show thesis by (rule that)
  qed
  show ?thesis
    unfolding f using walk_step [OF assms(1-5), of "Suc f"] assms(6,7) packs_refl by simp
qed

text \<open>A key has no children: the walk of its token packs it and no more.\<close>

lemma walk_key:
  assumes c: "compactable d v0" and h: "cells d ! h = key_cell up k" "h < length (d_tokens d)"
    and t: "packed_ok t" "up_packed t up'" "fits t [key_cell up' k]"
  shows "\<exists>u. compact_walk (Suc (Suc f)) d h t up' = Some u \<and> packs t u [key_cell up' k]"
proof -
  have d: "linked (d_tokens d)" "\<forall>t \<in> set (d_tokens d). text_ok (arena d) t" "cells d = layout VALUE_NONE 0 v0"
    using c by (simp_all add: compactable_def)
  have "key_cell up' k = (cell_of (arena d) (d_tokens d ! h))\<lparr>c_parent := up'\<rparr>" using h by (simp add: cells_def)
  moreover have "text_ok (arena d) (d_tokens d ! h)" using d(2) h(2) by simp
  ultimately obtain u where u: "pack_token d (d_tokens d ! h) t up' = Some u" "packs t u [key_cell up' k]"
    using pack_token_ends [OF _ t(1,2) _ t(3)] by metis
  have "kids (d_tokens d) h = []" using key_kids [OF d(3,1) h(2)] h(1) by simp
  then have "first_child (links (d_tokens d ! h)) = VALUE_NONE" using first_child_kid [OF d(1) h(2)] by simp
  then show ?thesis using u h(2) by (simp add: Let_def)
qed

lemma compact_children_none: "compact_children (Suc f) d VALUE_NONE t fresh = Some t"
  by simp

text \<open>A turn of the loop over the children at a child that is kept.\<close>

lemma compact_children_kept:
  assumes "linked (d_tokens d)" "up < length (d_tokens d)" "kids (d_tokens d) up = pre @ i # rest"
    "\<not> (object_key (d_tokens d ! i) \<and> superseded (d_tokens d ! i))" "compact_walk f d i t fresh = Some u"
  shows "compact_children (Suc f) d i t fresh = compact_children f d (first_of rest) u fresh"
proof -
  have "kids (d_tokens d) up ! length pre = i" "length pre < length (kids (d_tokens d) up)"
    using assms(3) by simp_all
  moreover have "i \<in> set (kids (d_tokens d) up)" using assms(3) by simp
  ultimately have "next_sibling (links (d_tokens d ! i)) = first_of rest" "i \<noteq> VALUE_NONE" "i < length (d_tokens d)"
    using next_sibling_kid [OF assms(1,2), of "length pre"] kid_not_none [OF assms(1), of i up] assms(3) by auto
  then show ?thesis using assms(4,5) by (auto simp: Let_def)
qed

text \<open>A turn at a superseded key: its value is skipped with it.\<close>

lemma compact_children_dropped:
  assumes "linked (d_tokens d)" "up < length (d_tokens d)" "kids (d_tokens d) up = pre @ i # j # rest"
    "object_key (d_tokens d ! i)" "superseded (d_tokens d ! i)"
  shows "compact_children (Suc f) d i t fresh = compact_children f d (first_of rest) t fresh"
proof -
  have k: "kids (d_tokens d) up ! length pre = i" "length pre < length (kids (d_tokens d) up)"
    "kids (d_tokens d) up ! Suc (length pre) = j" "Suc (length pre) < length (kids (d_tokens d) up)"
    using assms(3) by (simp_all add: nth_append)
  have "next_sibling (links (d_tokens d ! i)) = j" "next_sibling (links (d_tokens d ! j)) = first_of rest"
    using next_sibling_kid [OF assms(1,2) k(2)] next_sibling_kid [OF assms(1,2) k(4)] k(1,3) assms(3) by simp_all
  moreover have "i \<noteq> VALUE_NONE" "i < length (d_tokens d)" "j \<noteq> VALUE_NONE" "j < length (d_tokens d)"
    using kid_not_none [OF assms(1), of _ up] assms(3) by simp_all
  ultimately show ?thesis using assms(4,5) by (simp add: Let_def)
qed

abbreviation members_size :: "(bytes \<times> json) list \<Rightarrow> nat" where
  "members_size ms \<equiv> sum_list (map (\<lambda>(k, v). 1 + json_cells v) ms)"

lemma compact_walk_ends:
  assumes c: "compactable d v0"
  shows "\<And>t up' fuel. (up, i, v) \<in> set (subvalues VALUE_NONE 0 v0) \<Longrightarrow> packed_ok t \<Longrightarrow> up_packed t up' \<Longrightarrow>
      2 * json_cells v \<le> fuel \<Longrightarrow> fits t (layout up' (pk_token_count t) (last_wins v)) \<Longrightarrow>
      \<exists>u. compact_walk fuel d i t up' = Some u \<and> packs t u (layout up' (pk_token_count t) (last_wins v))"
    and "\<And>t fresh fuel pre. set (sub_elements up i vs) \<subseteq> set (subvalues VALUE_NONE 0 v0) \<Longrightarrow>
      up < length (d_tokens d) \<Longrightarrow> kids (d_tokens d) up = pre @ element_handles i vs \<Longrightarrow>
      packed_ok t \<Longrightarrow> up_packed t fresh \<Longrightarrow> 1 + 2 * sum_list (map json_cells vs) \<le> fuel \<Longrightarrow>
      fits t (layout_elements fresh (pk_token_count t) (map last_wins vs)) \<Longrightarrow>
      \<exists>u. compact_children fuel d (first_of (element_handles i vs)) t fresh = Some u \<and>
        packs t u (layout_elements fresh (pk_token_count t) (map last_wins vs))"
    and "\<And>t fresh fuel pre. set (sub_members up i ms) \<subseteq> set (subvalues VALUE_NONE 0 v0) \<Longrightarrow>
      up < length (d_tokens d) \<Longrightarrow> kids (d_tokens d) up = pre @ member_handles i ms \<Longrightarrow>
      holds (cells d) i (layout_members up i ms) \<Longrightarrow>
      packed_ok t \<Longrightarrow> up_packed t fresh \<Longrightarrow> 1 + 2 * members_size ms \<le> fuel \<Longrightarrow>
      fits t (layout_members fresh (pk_token_count t) (last_members (map (\<lambda>(k, v). (k, last_wins v)) ms))) \<Longrightarrow>
      \<exists>u. compact_children fuel d (first_of (member_handles i ms)) t fresh = Some u \<and>
        packs t u (layout_members fresh (pk_token_count t) (last_members (map (\<lambda>(k, v). (k, last_wins v)) ms)))"
proof (induction up i v and up i vs and up i ms rule: subvalues_sub_elements_sub_members.induct)
  case (1 up i vs)
  obtain f where f: "fuel = Suc f" "1 + 2 * sum_list (map json_cells vs) \<le> f"
    using 1(5) by (cases fuel) auto
  have d: "cells d = layout VALUE_NONE 0 v0" "length (d_tokens d) \<le> VALUE_NONE"
    using c by (auto simp: compactable_def linked_def)
  note i = subvalue_cell(2) [OF d(1) 1(2)] and ks = kids_subvalue [OF d 1(2)]
  have sub: "set (sub_elements i (i + 1) vs) \<subseteq> set (subvalues VALUE_NONE 0 v0)"
    using subvalues_trans(1) [OF 1(2)] by auto
  show ?case
    unfolding f(1)
  proof (rule walk_step [OF c 1(2,3,4,6)])
    fix u
    assume "packed_ok u" "up_packed u (pk_token_count t)" "pk_token_count u = pk_token_count t + 1"
      "fits u (child_cells (pk_token_count t) (pk_token_count t + 1) (JArr vs))"
    then show "\<exists>u'. compact_children f d (first_of (child_handles i (JArr vs))) u (pk_token_count t) = Some u' \<and>
        packs u u' (child_cells (pk_token_count t) (pk_token_count t + 1) (JArr vs))"
      using 1(1) [OF sub i, of "[]" u "pk_token_count t" f] ks f(2) by simp
  qed
next
  case (2 up i ms)
  obtain f where f: "fuel = Suc f" "1 + 2 * members_size ms \<le> f"
    using 2(5) by (cases fuel) auto
  have d: "cells d = layout VALUE_NONE 0 v0" "length (d_tokens d) \<le> VALUE_NONE"
    using c by (auto simp: compactable_def linked_def)
  note i = subvalue_cell(2) [OF d(1) 2(2)] and ks = kids_subvalue [OF d 2(2)]
  have sub: "set (sub_members i (i + 1) ms) \<subseteq> set (subvalues VALUE_NONE 0 v0)"
    using subvalues_trans(1) [OF 2(2)] by auto
  have "holds (cells d) i ([hd (layout up i (JObj ms))] @ layout_members i (i + 1) ms)"
    using subvalues_holds(1) [OF 2(2)] d(1) by simp
  from holds_split [OF this] have h: "holds (cells d) (i + 1) (layout_members i (i + 1) ms)" by simp
  show ?case
    unfolding f(1)
  proof (rule walk_step [OF c 2(2,3,4,6)])
    fix u
    assume "packed_ok u" "up_packed u (pk_token_count t)" "pk_token_count u = pk_token_count t + 1"
      "fits u (child_cells (pk_token_count t) (pk_token_count t + 1) (JObj ms))"
    then show "\<exists>u'. compact_children f d (first_of (child_handles i (JObj ms))) u (pk_token_count t) = Some u' \<and>
        packs u u' (child_cells (pk_token_count t) (pk_token_count t + 1) (JObj ms))"
      using 2(1) [OF sub i, of "[]" u "pk_token_count t" f] ks f(2) h by simp
  qed
next
  case (7 up i)
  then show ?case by (cases fuel) (auto intro: packs_refl)
next
  case (9 up i)
  then show ?case by (cases fuel) (auto intro: packs_refl)
next
  case (8 up i v vs)
  have fuel: "1 + 2 * json_cells v + 2 * sum_list (map json_cells vs) \<le> fuel" using 8(8) by simp
  then obtain f where f0: "fuel = Suc f" by (cases fuel) auto
  have f: "fuel = Suc f" "2 * json_cells v \<le> f" "1 + 2 * sum_list (map json_cells vs) \<le> f"
    using f0 fuel json_cells_positive [of v] by linarith+
  have lin: "linked (d_tokens d)" and d: "cells d = layout VALUE_NONE 0 v0"
    using c by (auto simp: compactable_def)
  have v: "(up, i, v) \<in> set (subvalues VALUE_NONE 0 v0)" using 8(3) subvalues_root by fastforce
  note cell = subvalue_cell [OF d v]
  note fit = 8(9) [unfolded list.map layout_elements.simps]
  obtain u where u: "compact_walk f d i t fresh = Some u" "packs t u (layout fresh (pk_token_count t) (last_wins v))"
    using 8(1) [OF v 8(6,7) f(2) fits_append [OF fit]] by blast
  have ks: "kids (d_tokens d) up = pre @ i # element_handles (i + json_cells v) vs" using 8(5) by simp
  have "\<not> object_key (d_tokens d ! i)" using cell layout_hd(1) [of up i v] by (simp add: object_key_cell)
  then have step: "compact_children (Suc f) d i t fresh =
      compact_children f d (first_of (element_handles (i + json_cells v) vs)) u fresh"
    using compact_children_kept [OF lin 8(4) ks] u(1) by blast
  have count: "pk_token_count u = pk_token_count t + json_cells (last_wins v)" using packs_count [OF u(2)] by simp
  have "\<exists>u'. compact_children f d (first_of (element_handles (i + json_cells v) vs)) u fresh = Some u' \<and>
      packs u u' (layout_elements fresh (pk_token_count u) (map last_wins vs))"
    using 8(2) [OF _ 8(4), of "pre @ [i]" u fresh f] 8(3) ks packs_ok [OF u(2)] up_packed_after [OF 8(7) u(2)] f(3)
      fits_after [OF fit u(2)] by (simp add: count)
  then obtain u' where u': "compact_children f d (first_of (element_handles (i + json_cells v) vs)) u fresh = Some u'"
    "packs u u' (layout_elements fresh (pk_token_count u) (map last_wins vs))" by blast
  have "compact_children fuel d (first_of (element_handles i (v # vs))) t fresh = Some u'"
    unfolding f(1) element_handles.simps first_of_Cons step by (rule u'(1))
  then show ?case using packs_trans [OF u(2) u'(2)] unfolding count list.map layout_elements.simps by blast
next
  case (10 up i k v ms)
  have fuel: "3 + 2 * json_cells v + 2 * members_size ms \<le> fuel" using 10(9) by simp
  then have "fuel = Suc (Suc (Suc (fuel - 3)))" by linarith
  then obtain f where f0: "fuel = Suc (Suc (Suc f))" ..
  have f: "fuel = Suc (Suc (Suc f))" "2 * json_cells v \<le> Suc f" "1 + 2 * members_size ms \<le> Suc f"
    using f0 fuel json_cells_positive [of v] by linarith+
  have lin: "linked (d_tokens d)" and d: "cells d = layout VALUE_NONE 0 v0"
    using c by (auto simp: compactable_def)
  let ?i' = "i + 1 + json_cells v" and ?ms = "map (\<lambda>(k, v). (k, last_wins v)) ms"
  have v: "(up, i + 1, v) \<in> set (subvalues VALUE_NONE 0 v0)" using 10(3) subvalues_root by fastforce
  have h: "holds (cells d) i ([key_cell up k] @ layout up (i + 1) v @ layout_members up ?i' ms)" using 10(6) by simp
  note h = holds_split [OF h]
  have key: "cells d ! i = key_cell up k" "i < length (d_tokens d)" using h holds_nth [of "cells d" i "[key_cell up k]" 0] by auto
  have hm: "holds (cells d) ?i' (layout_members up ?i' ms)"
    using h holds_split [of "cells d" "i + 1" "layout up (i + 1) v"] by simp
  have ks: "kids (d_tokens d) up = pre @ i # (i + 1) # member_handles ?i' ms" using 10(5) by simp
  have sup: "superseded (d_tokens d ! i) \<longleftrightarrow> k \<in> fst ` set ms"
    by (rule superseded_member [OF c 10(5,6)])
  have fsts: "set (map fst ?ms) = fst ` set ms" by force
  have lw: "last_members (map (\<lambda>(k, v). (k, last_wins v)) ((k, v) # ms)) =
      (if k \<in> fst ` set ms then last_members ?ms else (k, last_wins v) # last_members ?ms)"
    unfolding list.map prod.case last_members.simps fsts ..
  have sub: "set (sub_members up ?i' ms) \<subseteq> set (subvalues VALUE_NONE 0 v0)" using 10(3) by simp
  have ok: "object_key (d_tokens d ! i)" using key by (simp add: object_key_cell)
  show ?case
  proof (cases "k \<in> fst ` set ms")
    case True
    have "compact_children fuel d i t fresh = compact_children (Suc (Suc f)) d (first_of (member_handles ?i' ms)) t fresh"
      unfolding f(1) by (rule compact_children_dropped [OF lin 10(4) ks ok]) (use sup True in simp)
    moreover have "kids (d_tokens d) up = (pre @ [i, i + 1]) @ member_handles ?i' ms" using ks by simp
    moreover have "1 + 2 * members_size ms \<le> Suc (Suc f)" using f(3) by simp
    moreover have "fits t (layout_members fresh (pk_token_count t) (last_members ?ms))"
      using 10(10) unfolding lw if_P [OF True] .
    ultimately have "\<exists>u. compact_children fuel d i t fresh = Some u \<and>
        packs t u (layout_members fresh (pk_token_count t) (last_members ?ms))"
      using 10(2) [OF sub 10(4) _ hm 10(7,8)] by metis
    then show ?thesis unfolding lw if_P [OF True] member_handles.simps first_of_Cons .
  next
    case False
    have fit: "fits t ([key_cell fresh k] @ layout fresh (pk_token_count t + 1) (last_wins v) @
        layout_members fresh (pk_token_count t + 1 + json_cells (last_wins v)) (last_members ?ms))"
      using 10(10) unfolding lw if_not_P [OF False] layout_members.simps by simp
    obtain u where u: "compact_walk (Suc (Suc f)) d i t fresh = Some u" "packs t u [key_cell fresh k]"
      using walk_key [OF c key 10(7,8) fits_append [OF fit]] by blast
    have one: "pk_token_count u = pk_token_count t + 1" using packs_count [OF u(2)] by simp
    note fit1 = fits_after [OF fit u(2)]
    have step1: "compact_children (Suc (Suc (Suc f))) d i t fresh = compact_children (Suc (Suc f)) d (i + 1) u fresh"
      using compact_children_kept [OF lin 10(4) ks _ u(1)] sup False by simp
    obtain w where w: "compact_walk (Suc f) d (i + 1) u fresh = Some w"
      "packs u w (layout fresh (pk_token_count u) (last_wins v))"
      using 10(1) [OF v packs_ok [OF u(2)] up_packed_after [OF 10(8) u(2)] f(2)] fits_append [OF fit1] one by auto
    have two: "pk_token_count w = pk_token_count t + 1 + json_cells (last_wins v)" using packs_count [OF w(2)] one by simp
    have ks2: "kids (d_tokens d) up = (pre @ [i]) @ (i + 1) # member_handles ?i' ms" using ks by simp
    have "\<not> object_key (d_tokens d ! (i + 1))"
      using subvalue_cell [OF d v] layout_hd(1) [of up "i + 1" v] by (simp add: object_key_cell)
    then have step2: "compact_children (Suc (Suc f)) d (i + 1) u fresh =
        compact_children (Suc f) d (first_of (member_handles ?i' ms)) w fresh"
      using compact_children_kept [OF lin 10(4) ks2 _ w(1)] by blast
    have fitw: "fits w (layout_members fresh (pk_token_count w) (last_members ?ms))"
      using fits_after [OF fit1 [folded one] w(2)] two one by simp
    have "kids (d_tokens d) up = (pre @ [i, i + 1]) @ member_handles ?i' ms" using ks by simp
    then have "\<exists>w'. compact_children (Suc f) d (first_of (member_handles ?i' ms)) w fresh = Some w' \<and>
        packs w w' (layout_members fresh (pk_token_count w) (last_members ?ms))"
      using 10(2) [OF sub 10(4) _ hm packs_ok [OF w(2)] up_packed_after [OF up_packed_after [OF 10(8) u(2)] w(2)] f(3) fitw]
      by metis
    then obtain w' where w': "compact_children (Suc f) d (first_of (member_handles ?i' ms)) w fresh = Some w'"
      "packs w w' (layout_members fresh (pk_token_count w) (last_members ?ms))" by blast
    have "compact_children fuel d i t fresh = Some w'" unfolding f(1) step1 step2 by (rule w'(1))
    moreover have "packs t w' ([key_cell fresh k] @ layout fresh (pk_token_count u) (last_wins v) @
        layout_members fresh (pk_token_count w) (last_members ?ms))"
      using packs_trans [OF u(2) packs_trans [OF w(2) w'(2)]] .
    ultimately show ?thesis
      unfolding lw if_not_P [OF False] member_handles.simps layout_members.simps first_of_Cons one two by auto
  qed
qed (rule walk_leaf [OF c]; simp)+

section \<open>Compaction\<close>

text \<open>Compaction never takes more room than the source.\<close>

fun text_size :: "json \<Rightarrow> nat" where
  "text_size (JNum n) = length n + 1"
| "text_size (JStr s) = length s + 1"
| "text_size (JArr vs) = sum_list (map text_size vs)"
| "text_size (JObj ms) = sum_list (map (\<lambda>(k, v). length k + 1 + text_size v) ms)"
| "text_size _ = 0"

lemma layout_room:
  "cells_room (layout up i v) = text_size v"
  "cells_room (layout_elements up i vs) = sum_list (map text_size vs)"
  "cells_room (layout_members up i ms) = sum_list (map (\<lambda>(k, v). length k + 1 + text_size v) ms)"
  by (induction up i v and up i vs and up i ms rule: layout_layout_elements_layout_members.induct)
    (auto simp: cell_room_def)

lemma last_members_sum: "sum_list (map f (last_members ms)) \<le> sum_list (map (f :: _ \<Rightarrow> nat) ms)"
proof (induction ms rule: last_members.induct)
  case (2 k v ms)
  then show ?case by (cases "k \<in> set (map fst ms)") (auto simp: trans_le_add2)
qed simp

lemma sum_list_map_le: "(\<And>x. x \<in> set xs \<Longrightarrow> f x \<le> (g x :: nat)) \<Longrightarrow> sum_list (map f xs) \<le> sum_list (map g xs)"
  by (induction xs) (auto intro: add_mono)

lemma last_wins_smaller: "json_cells (last_wins v) \<le> json_cells v \<and> text_size (last_wins v) \<le> text_size v"
proof (induction v)
  case (JArr vs)
  then show ?case by (auto simp: comp_def intro!: sum_list_map_le)
next
  case (JObj ms)
  let ?ms = "map (\<lambda>(k, v). (k, last_wins v)) ms"
  have "sum_list (map (\<lambda>(k, v). 1 + json_cells v) ?ms) \<le> sum_list (map (\<lambda>(k, v). 1 + json_cells v) ms)"
    "sum_list (map (\<lambda>(k, v). length k + 1 + text_size v) ?ms) \<le> sum_list (map (\<lambda>(k, v). length k + 1 + text_size v) ms)"
    using JObj by (auto simp: comp_def split_def intro!: sum_list_map_le)
  then show ?case
    using last_members_sum [of "\<lambda>(k, v). 1 + json_cells v" ?ms]
      last_members_sum [of "\<lambda>(k, v). length k + 1 + text_size v" ?ms] by simp
qed simp_all

lemma packed_empty: "packed_ok \<lparr>pk_tokens = Some [], pk_token_count = 0, pk_token_capacity = n, pk_arena = [],
    pk_arena_used = 0, pk_arena_capacity = m\<rparr>"
  by (simp add: packed_ok_def linked_def parents_before_def)

definition arena_room :: "nat \<Rightarrow> nat" where
  "arena_room n = (if n \<noteq> 0 then n else 1)"

text \<open>The two walks.\<close>

lemma compact_walks:
  assumes c: "compactable d v"
  defines "n \<equiv> json_cells (last_wins v)" and "m \<equiv> text_size (last_wins v)"
  shows "\<exists>u. compact_walk (compact_fuel d) d 0 \<lparr>pk_tokens = None, pk_token_count = 0, pk_token_capacity = 0,
        pk_arena = [], pk_arena_used = 0, pk_arena_capacity = 0\<rparr> VALUE_NONE = Some u \<and>
      pk_token_count u = n \<and> pk_arena_used u = m"
    "\<exists>u ts. compact_walk (compact_fuel d) d 0 \<lparr>pk_tokens = Some [], pk_token_count = 0, pk_token_capacity = n,
        pk_arena = [], pk_arena_used = 0, pk_arena_capacity = arena_room m\<rparr> VALUE_NONE = Some u \<and>
      pk_tokens u = Some ts \<and> linked ts \<and> (\<forall>t \<in> set ts. text_ok (pk_arena u) t) \<and>
      map (cell_of (pk_arena u)) ts = layout VALUE_NONE 0 (last_wins v)"
proof -
  have d: "cells d = layout VALUE_NONE 0 v" "length (d_tokens d) \<le> VALUE_NONE"
    using c by (auto simp: compactable_def linked_def)
  note len = layout_size [OF d(1)]
  have fuel: "2 * json_cells v \<le> compact_fuel d" using len by (simp add: compact_fuel_def)
  have small: "n \<le> VALUE_NONE" using last_wins_smaller [of v] len d(2) by (simp add: n_def)
  show "\<exists>u. compact_walk (compact_fuel d) d 0 \<lparr>pk_tokens = None, pk_token_count = 0, pk_token_capacity = 0,
        pk_arena = [], pk_arena_used = 0, pk_arena_capacity = 0\<rparr> VALUE_NONE = Some u \<and>
      pk_token_count u = n \<and> pk_arena_used u = m" (is "\<exists>u. compact_walk _ _ _ ?t _ = _ \<and> _")
    using compact_walk_ends(1) [OF c subvalues_root _ _ fuel, of ?t VALUE_NONE]
    by (fastforce simp: packed_ok_def up_packed_def fits_def packs_def layout_room n_def m_def)
  let ?t = "\<lparr>pk_tokens = Some [], pk_token_count = 0, pk_token_capacity = n,
        pk_arena = [], pk_arena_used = 0, pk_arena_capacity = arena_room m\<rparr> :: packed"
  have "fits ?t (layout VALUE_NONE (pk_token_count ?t) (last_wins v))"
    using small by (simp add: fits_def layout_room n_def m_def arena_room_def)
  then obtain u where u: "compact_walk (compact_fuel d) d 0 ?t VALUE_NONE = Some u"
    "packs ?t u (layout VALUE_NONE 0 (last_wins v))"
    using compact_walk_ends(1) [OF c subvalues_root _ _ fuel, of ?t VALUE_NONE] packed_empty [of n "arena_room m"]
    by (auto simp: up_packed_def)
  obtain ts where ts: "pk_tokens u = Some ts" using u(2) by (auto simp: packs_def)
  have "packed_cells u = packed_cells ?t @ layout VALUE_NONE 0 (last_wins v)" "packed_ok u"
    using u(2) by (simp_all add: packs_def)
  then show "\<exists>u ts. compact_walk (compact_fuel d) d 0 ?t VALUE_NONE = Some u \<and>
      pk_tokens u = Some ts \<and> linked ts \<and> (\<forall>t \<in> set ts. text_ok (pk_arena u) t) \<and>
      map (cell_of (pk_arena u)) ts = layout VALUE_NONE 0 (last_wins v)"
    using u(1) ts by (intro exI [of _ u] exI [of _ ts]) (simp add: packed_ok_def packed_cells_def)
qed

text \<open>
  \<open>compact_document\<close>: out of memory with the source as it was, or the compacted document, the
  source's arrays freed.
\<close>

definition compacted :: "document \<Rightarrow> token list \<Rightarrow> bytes \<Rightarrow> nat \<Rightarrow> nat \<Rightarrow> document" where
  "compacted d ts ar n m =
     d\<lparr>d_tokens := ts, token_capacity := n, arena := ar, arena_capacity := m\<rparr>"

lemma compact_document_ends:
  assumes c: "compactable d v"
  defines "n \<equiv> json_cells (last_wins v)" and "m \<equiv> arena_room (text_size (last_wins v))"
  shows "(\<exists>h'. compact_document d h = (Fail ERR_MEMORY, h') \<and> live h' = live h \<and> fates h \<noteq> [] \<and>
       peak h' \<le> max (peak h) (live h + n * SIZEOF_TOKEN + m)) \<or>
    (\<exists>h' ts ar. compact_document d h = (Ret (compacted d ts ar n m), h') \<and>
       linked ts \<and> (\<forall>t \<in> set ts. text_ok ar t) \<and> cells (compacted d ts ar n m) = layout VALUE_NONE 0 (last_wins v) \<and>
       live h' = live h + n * SIZEOF_TOKEN + m - token_capacity d * SIZEOF_TOKEN - arena_capacity d \<and>
       peak h' = max (peak h) (live h + n * SIZEOF_TOKEN + m) \<and> (fates h = [] \<longrightarrow> fates h' = []))"
proof -
  let ?z = "\<lparr>pk_tokens = None, pk_token_count = 0, pk_token_capacity = 0, pk_arena = [], pk_arena_used = 0,
    pk_arena_capacity = 0\<rparr> :: packed"
  let ?e = "\<lparr>pk_tokens = Some [], pk_token_count = 0, pk_token_capacity = n, pk_arena = [], pk_arena_used = 0,
    pk_arena_capacity = m\<rparr> :: packed"
  obtain s where s: "compact_walk (compact_fuel d) d 0 ?z VALUE_NONE = Some s" "pk_token_count s = n"
    "(if pk_arena_used s \<noteq> 0 then pk_arena_used s else 1) = m"
    using compact_walks(1) [OF c] by (auto simp: n_def m_def arena_room_def)
  obtain u ts where u: "compact_walk (compact_fuel d) d 0 ?e VALUE_NONE = Some u" "pk_tokens u = Some ts" "linked ts"
    "\<forall>t \<in> set ts. text_ok (pk_arena u) t" "map (cell_of (pk_arena u)) ts = layout VALUE_NONE 0 (last_wins v)"
    using compact_walks(2) [OF c] unfolding n_def m_def by blast
  obtain tok h1 where h1: "malloc (n * SIZEOF_TOKEN) h = (tok, h1)" by fastforce
  obtain aok h2 where h2: "malloc m h1 = (aok, h2)" by fastforce
  have e: "compact_document d h =
      (if \<not> tok \<or> \<not> aok then
         let h = (if tok then mfree (n * SIZEOF_TOKEN) h2 else h2); h = (if aok then mfree m h else h)
         in (Fail ERR_MEMORY, h)
       else (Ret (compacted d ts (pk_arena u) n m), mfree (arena_capacity d) (mfree (token_capacity d * SIZEOF_TOKEN) h2)))"
    using s u(1,2) h1 h2 by (simp add: compact_document_def Let_def compacted_def del: compact_walk.simps)
  show ?thesis
  proof (cases "tok \<and> aok")
    case True
    have l1: "live h1 = live h + n * SIZEOF_TOKEN" "peak h1 = max (peak h) (live h + n * SIZEOF_TOKEN)"
      using h1 True malloc_True_live by auto
    have l2: "live h2 = live h1 + m" "peak h2 = max (peak h1) (live h1 + m)" using h2 True malloc_True_live by auto
    have "fates h = [] \<longrightarrow> fates h2 = []" using h1 h2 by (auto simp: malloc_def)
    then show ?thesis
      using e True u(3-5) l1 l2
      by (intro disjI2 exI [of _ "mfree (arena_capacity d) (mfree (token_capacity d * SIZEOF_TOKEN) h2)"]
          exI [of _ ts] exI [of _ "pk_arena u"]) (simp add: compacted_def cells_def)
  next
    case False
    let ?h = "if tok then mfree (n * SIZEOF_TOKEN) h2 else h2"
    let ?h' = "if aok then mfree m ?h else ?h"
    have "fates h \<noteq> []"
      using False h1 h2 malloc_reliable [of h "n * SIZEOF_TOKEN"] malloc_reliable [of h1 m] by auto
    moreover have "live ?h' = live h" "peak ?h' \<le> max (peak h) (live h + n * SIZEOF_TOKEN + m)"
      using h1 h2 malloc_True_live [of _ h h1] malloc_False_live [of _ h h1] malloc_True_live [of _ h1 h2]
        malloc_False_live [of _ h1 h2] False
      by (cases tok; cases aok; auto)+
    ultimately show ?thesis using e False by (intro disjI1 exI [of _ ?h']) auto
  qed
qed

end
