(* ===== verification/Parser_Run.thy ===== *)
theory Parser_Run
  imports Parser_Sound Compaction
begin

text \<open>
  \<open>maelys_json_document_parse\<close> from the allocation of the document on: the run of the parser
  over the whole input, compaction, the child index, and the release of everything on failure.
\<close>

section \<open>Values and duplicate keys\<close>

lemma subvalue_keys:
  "unique_keys v \<longleftrightarrow> (\<forall>(u, j, w) \<in> set (subvalues up i v). \<forall>ms. w = JObj ms \<longrightarrow> distinct (map fst ms))"
  "(\<forall>v \<in> set vs. unique_keys v) \<longleftrightarrow>
     (\<forall>(u, j, w) \<in> set (sub_elements up i vs). \<forall>ms. w = JObj ms \<longrightarrow> distinct (map fst ms))"
  "(\<forall>(k, v) \<in> set ms. unique_keys v) \<longleftrightarrow>
     (\<forall>(u, j, w) \<in> set (sub_members up i ms). \<forall>ns. w = JObj ns \<longrightarrow> distinct (map fst ns))"
  by (induction up i v and up i vs and up i ms rule: subvalues_sub_elements_sub_members.induct) (auto simp: ball_Un)

lemma last_members_unique: "distinct (map fst ms) \<Longrightarrow> last_members ms = ms"
  by (induction ms rule: last_members.induct) auto

lemma last_wins_unique: "unique_keys v \<Longrightarrow> last_wins v = v"
proof (induction v)
  case (JArr vs)
  then show ?case by (simp add: map_idI)
next
  case (JObj ms)
  then have "map (\<lambda>(k, v). (k, last_wins v)) ms = ms" by (intro map_idI) fastforce
  with JObj show ?case by (simp add: last_members_unique)
qed simp_all

lemma last_members_keys: "fst ` set (last_members ms) = fst ` set ms"
proof (induction ms rule: last_members.induct)
  case (2 k v ms)
  then show ?case by (cases "k \<in> set (map fst ms)") (auto simp: image_iff)
qed simp

lemma last_members_distinct: "distinct (map fst (last_members ms))"
proof (induction ms rule: last_members.induct)
  case (2 k v ms)
  then show ?case using last_members_keys [of ms] by (cases "k \<in> set (map fst ms)") auto
qed simp

lemma last_wins_unique_keys: "unique_keys (last_wins v)"
proof (induction v)
  case (JObj ms)
  have "set (last_members ns) \<subseteq> set ns" for ns :: "(bytes \<times> json) list"
    by (induction ns rule: last_members.induct) auto
  with JObj show ?case by (fastforce simp: last_members_distinct)
qed auto

lemma members_distinct:
  assumes c: "compactable d v0" and none: "superseded_set d = {}"
  shows "kids (d_tokens d) up = pre @ member_handles i ms \<Longrightarrow> holds (cells d) i (layout_members up i ms) \<Longrightarrow>
    distinct (map fst ms)"
proof (induction ms arbitrary: i pre)
  case (Cons m ms)
  obtain k v where m: "m = (k, v)" by fastforce
  have h: "holds (cells d) i ([key_cell up k] @ layout up (i + 1) v @ layout_members up (i + 1 + json_cells v) ms)"
    using Cons.prems(2) m by simp
  note h' = holds_split [OF h]
  have hm: "holds (cells d) (i + 1 + json_cells v) (layout_members up (i + 1 + json_cells v) ms)"
    using h' holds_split [of "cells d" "i + 1" "layout up (i + 1) v"] by simp
  have "i < length (d_tokens d)" using h' holds_nth [of "cells d" i "[key_cell up k]" 0] by auto
  then have "\<not> superseded (d_tokens d ! i)" using none by (auto simp: superseded_set_def)
  then have "k \<notin> fst ` set ms" using superseded_member [OF c] Cons.prems m by metis
  moreover have "distinct (map fst ms)"
    using Cons.IH [OF _ hm, of "pre @ [i, i + 1]"] Cons.prems(1) m by simp
  ultimately show ?case using m by simp
qed simp

lemma none_superseded_unique:
  assumes c: "compactable d v" and none: "superseded_set d = {}"
  shows "unique_keys v"
proof -
  have d: "cells d = layout VALUE_NONE 0 v" "length (d_tokens d) \<le> VALUE_NONE"
    using c by (auto simp: compactable_def linked_def)
  have "distinct (map fst ms)" if s: "(u, j, JObj ms) \<in> set (subvalues VALUE_NONE 0 v)" for u j ms
  proof (rule members_distinct [OF c none])
    show "kids (d_tokens d) j = [] @ member_handles (j + 1) ms" using kids_subvalue [OF d s] by simp
    have "holds (cells d) j ([hd (layout u j (JObj ms))] @ layout_members j (j + 1) ms)"
      using subvalues_holds(1) [OF s] d(1) by simp
    from holds_split [OF this] show "holds (cells d) (j + 1) (layout_members j (j + 1) ms)" by simp
  qed
  then show ?thesis unfolding subvalue_keys(1) [of v VALUE_NONE 0] by auto
qed

section \<open>The parser's run\<close>

text \<open>A fresh document and a fresh key set make a parser.\<close>

definition fresh_document :: "bytes \<Rightarrow> nat \<Rightarrow> document" where
  "fresh_document bs n =
     \<lparr>d_profile = RFC8259, d_bytes = bs, d_tokens = [], token_capacity = n, arena = [],
      arena_capacity = length bs + n + 1, children = None, duplicate_count = 0\<rparr>"

lemma pinv_initial:
  assumes keys: "keyset_inv (token_key d) keys" "keyset_entries keys = {}" "ks_capacity keys = keyset_capacity (n div 2 + 1)"
    and d: "d = (fresh_document bs n)\<lparr>d_profile := prof\<rparr>" and n: "n < VALUE_NONE"
    and err: "\<And>e. err = Some e \<Longrightarrow> err_code e = OK"
  shows "pinv 1 ((initial_parser (fresh_document bs n) prof l err h)\<lparr>pkeys := keys, pheap := h'\<rparr>)"
proof -
  have "keys_inv prof d keys"
    using keys keyset_capacity_spec [of "n div 2 + 1"]
    by (auto simp: keys_inv_def d fresh_document_def live_keys_def superseded_set_def)
  moreover have "doc_inv d"
    using n by (simp add: doc_inv_def d fresh_document_def linked_def parents_before_def)
  ultimately show ?thesis
    using err by (simp add: pinv_def initial_parser_def fresh_document_def d cells_def key_count_def Let_def)
qed

definition root_ends :: "parser \<Rightarrow> unit \<Rightarrow> parser \<Rightarrow> bool" where
  "root_ends p u p' \<longleftrightarrow>
     pinv 0 p' \<and>
     (\<exists>v. json_document (pprofile p) (pbytes p) v \<and> json_height v \<le> maximum_depth (plimits p) \<and>
        cells (pdocument p') = layout VALUE_NONE 0 v)"

lemma ends_skip: "ends p (r, q) Q \<Longrightarrow> r = Fail code \<Longrightarrow> ends p (Fail code, skip_space q) R"
  by (auto simp: ends_def failed_def)

lemma parse_root_ends:
  assumes p: "pinv 1 p" "poffset p = 0" "d_tokens (pdocument p) = []"
  shows "ends p (parse_root p) (root_ends p)"
proof -
  have e: "ends p (parse_value (parse_levels (plimits p)) p VALUE_NONE 0) (value_ends p VALUE_NONE 0)"
    using parse_value.value_ends [OF p(1), of VALUE_NONE 0 "maximum_depth (plimits p)"]
    by (simp add: up_ok_def parse_levels_def)
  obtain r q where q: "parse_value (parse_levels (plimits p)) p VALUE_NONE 0 = (r, q)" by fastforce
  show ?thesis
  proof (cases r)
    case Stuck
    then show ?thesis using e q by (simp add: ends_def)
  next
    case (Fail code)
    then show ?thesis using ends_skip [OF e [unfolded q] Fail] q by (simp add: parse_root_def)
  next
    case (Ret i)
    with e q have e': "static q = static p" "perror q = perror p" "value_ends p VALUE_NONE 0 i q" by simp_all
    then obtain w t v where v: "pbytes p = w @ t @ drop (poffset q) (pbytes p)" "json_ws w"
      "json_text (pprofile p) t v" "json_height v \<le> maximum_depth (plimits p)"
      "cells (pdocument q) = layout VALUE_NONE 0 v" "pinv 0 q" "i = 0"
      using p(2,3) by (auto simp: value_ends_def cells_def)
    note st = staticD [OF e'(1)]
    let ?s = "skip_space q"
    obtain w' where w': "drop (poffset q) (pbytes q) = w' @ drop (poffset ?s) (pbytes q)" "json_ws w'"
      "poffset ?s \<le> length (pbytes q)"
      using skip_space_facts [OF pinvD(3) [OF v(6)]] by blast
    show ?thesis
    proof (cases "poffset ?s = length (pbytes ?s)")
      case False
      have "ends p (fail ?s ERR_SYNTAX (poffset ?s)) (root_ends p)"
        using w'(3) st(1) e'(1,2) by (intro ends_fail) simp_all
      with False show ?thesis using q Ret by (simp add: parse_root_def Let_def)
    next
      case True
      have "pbytes p = w @ t @ w'" using v(1) w'(1) True st(1) by simp
      then have "json_document (pprofile p) (pbytes p) v"
        using v(2,3) w'(2) by (auto simp: json_document_def)
      then have "root_ends p () ?s"
        using v(4,5) pinv_skip_space [OF v(6)] by (auto simp: root_ends_def)
      then show ?thesis using True q Ret v(7) e'(1,2) p(2) by (simp add: parse_root_def)
    qed
  qed
qed

lemma pinv_compactable:
  "pinv s p \<Longrightarrow> cells (pdocument p) = layout VALUE_NONE 0 v \<Longrightarrow> compactable (pdocument p) v"
  by (simp add: compactable_def pinv_def Let_def doc_inv_def keys_inv_def)

text \<open>How the run ends: its heap is back where it was but for the peak.\<close>

definition run_ends :: "bytes \<Rightarrow> nat \<Rightarrow> profile \<Rightarrow> limits \<Rightarrow> json_error option \<Rightarrow> heap \<Rightarrow>
    (result, unit) outcome \<times> parser \<Rightarrow> bool" where
  "run_ends bs n prof l err h m \<longleftrightarrow>
     (let d = pdocument (snd m) in
      d_bytes d = bs \<and> token_capacity d = n \<and> arena_capacity d = length bs + n + 1 \<and> children d = None \<and>
      d_profile d = prof \<and>
      live (pheap (snd m)) = live h \<and>
      peak (pheap (snd m)) \<le> max (peak h) (live h + keyset_capacity (n div 2 + 1) * SIZEOF_SIZE_T) \<and>
      (case fst m of
         Ret _ \<Rightarrow>
           perror (snd m) = err \<and> (fates h = [] \<longrightarrow> fates (pheap (snd m)) = []) \<and> doc_inv d \<and>
           (\<exists>v. json_document prof bs v \<and> json_height v \<le> maximum_depth l \<and> json_cells v \<le> n \<and>
              compactable d v \<and> duplicate_count d = card (superseded_set d) \<and>
              (prof \<noteq> RFC8259_LAST_WINS \<longrightarrow> superseded_set d = {}))
       | Fail code \<Rightarrow>
           (code = ERR_MEMORY \<and> fates h \<noteq> [] \<and> perror (snd m) = err) \<or>
           (code \<in> {ERR_SYNTAX, ERR_UTF8, ERR_LIMIT, ERR_DUPLICATE_KEY} \<and>
            (\<exists>off \<le> length bs. perror (snd m) = error_set err code (Some bs) (length bs) off))
       | Stuck \<Rightarrow> False))"

lemma run_parser_ends:
  assumes cap: "n \<le> SIZE_MAX div 256" and err: "\<And>e. err = Some e \<Longrightarrow> err_code e = OK"
  shows "run_ends bs n prof l err h (run_parser (initial_parser (fresh_document bs n) prof l err h))"
proof -
  let ?p = "initial_parser (fresh_document bs n) prof l err h"
  let ?d = "(fresh_document bs n)\<lparr>d_profile := prof\<rparr>"
  have n: "n < VALUE_NONE" and room: "n div 2 + 1 \<le> SIZE_MAX div 4"
    using cap by (simp_all add: VALUE_NONE_def SIZE_MAX_def)
  have pf: "pdocument ?p = ?d" "pheap ?p = h" "token_capacity ?d = n" "perror ?p = err"
    "pprofile ?p = prof" "plimits ?p = l" "poffset ?p = 0"
    by (simp_all add: initial_parser_def fresh_document_def)
  show ?thesis
    using room
  proof (cases rule: keyset_init_cases [where h = h and key_of = "token_key ?d"])
    case (memory s h')
    then have r: "run_parser ?p = (Fail ERR_MEMORY, ?p\<lparr>pkeys := fst (keyset_release s h'), pheap := snd (keyset_release s h')\<rparr>)"
      by (simp add: run_parser_def pf Let_def split: prod.splits)
    show ?thesis
      using memory unfolding r
      by (auto simp: run_ends_def initial_parser_def fresh_document_def keyset_release_def keyset_footprint_def Let_def)
  next
    case (ready s h')
    let ?q = "?p\<lparr>pkeys := s, pheap := h'\<rparr>"
    have inv: "pinv 1 ?q"
      by (rule pinv_initial [OF ready(2,3,5) refl n err])
    have e: "ends ?q (parse_root ?q) (root_ends ?q)"
      by (rule parse_root_ends [OF inv]) (simp_all add: initial_parser_def fresh_document_def)
    obtain r q where q: "parse_root ?q = (r, q)" by fastforce
    have st: "static q = static ?q" using e q by (simp add: ends_def)
    have q': "pheap q = h'" "length (slots (pkeys q)) = length (slots s)" "pbytes q = bs"
      "token_capacity (pdocument q) = n" "arena_capacity (pdocument q) = length bs + n + 1"
      "children (pdocument q) = None" "d_profile (pdocument q) = prof" "pprofile q = prof"
      using st by (simp_all add: static_def Let_def initial_parser_def fresh_document_def)
    have run: "run_parser ?p = (r, q\<lparr>pkeys := fst (keyset_release (pkeys q) h'), pheap := snd (keyset_release (pkeys q) h')\<rparr>)"
      using ready(1) q q'(1) by (simp add: run_parser_def pf keyset_release_def Let_def)
    have m: "malloc (keyset_footprint s) h = (True, h')"
      using ready(6,7) by (metis prod.collapse)
    have heap: "live (snd (keyset_release (pkeys q) h')) = live h"
      "peak (snd (keyset_release (pkeys q) h')) = max (peak h) (live h + keyset_capacity (n div 2 + 1) * SIZEOF_SIZE_T)"
      "fates (snd (keyset_release (pkeys q) h')) = fates h'"
      using malloc_True_live [OF m] q'(2) ready(8)
      by (auto simp: keyset_release_def keyset_footprint_def SIZEOF_SIZE_T_def)
    have fates: "fates h = [] \<Longrightarrow> fates h' = []" using m by (auto simp: malloc_def)
    have "(case r of
         Ret _ \<Rightarrow> perror q = err \<and> doc_inv (pdocument q) \<and>
           (\<exists>v. json_document prof bs v \<and> json_height v \<le> maximum_depth l \<and> json_cells v \<le> n \<and>
              compactable (pdocument q) v \<and> duplicate_count (pdocument q) = card (superseded_set (pdocument q)) \<and>
              (prof \<noteq> RFC8259_LAST_WINS \<longrightarrow> superseded_set (pdocument q) = {}))
       | Fail code \<Rightarrow>
           code \<in> {ERR_SYNTAX, ERR_UTF8, ERR_LIMIT, ERR_DUPLICATE_KEY} \<and>
            (\<exists>off \<le> length bs. perror q = error_set err code (Some bs) (length bs) off)
       | Stuck \<Rightarrow> False)"
    proof (cases r)
      case (Ret u)
      have er: "perror q = err" "root_ends ?q () q" using e q Ret by (simp_all add: initial_parser_def)
      then obtain v where v: "pinv 0 q" "json_document prof bs v" "json_height v \<le> maximum_depth l"
        "cells (pdocument q) = layout VALUE_NONE 0 v"
        by (auto simp: root_ends_def initial_parser_def fresh_document_def)
      note i = pinvD(1,2) [OF v(1)]
      have "json_cells v \<le> n" using layout_size [OF v(4)] doc_invD(3) [OF i(1)] q'(4) by simp
      then show ?thesis
        using Ret er(1) v i pinv_compactable [OF v(1,4)] q'(8) by (auto simp: keys_inv_def)
    next
      case (Fail code)
      then show ?thesis
        using e q by (auto simp: ends_def failed_def initial_parser_def fresh_document_def)
    next
      case Stuck
      then show ?thesis using e q by (simp add: ends_def)
    qed
    then show ?thesis
      using q'(3-7) heap fates unfolding run by (cases r) (auto simp: run_ends_def Let_def)
  qed
qed

section \<open>Sizes\<close>

text \<open>A value's texts are no longer than its text, but for the NULs.\<close>

lemma json_text_size:
  "json_text prof t v \<Longrightarrow> text_size v \<le> length t + json_cells v"
  "json_elements prof bs vs \<Longrightarrow> sum_list (map text_size vs) \<le> length bs + sum_list (map json_cells vs)"
  "json_members prof cs ms \<Longrightarrow>
     sum_list (map (\<lambda>(k, v). length k + 1 + text_size v) ms) \<le> length cs + members_size ms"
  by (induction rule: json_text_json_elements_json_members.inducts)
    (fastforce dest: decode_string_length simp: json_string_iff)+

lemma arena_fits:
  assumes "json_document prof bs v" "json_cells v \<le> n"
  shows "arena_room (text_size (last_wins v)) \<le> length bs + n + 1"
proof -
  obtain t where "json_text prof t v" "length t \<le> length bs" using assms(1) by (auto simp: json_document_def)
  with json_text_size(1) [OF this(1)] last_wins_smaller [of v] assms(2) show ?thesis
    by (simp add: arena_room_def)
qed

section \<open>Memory\<close>

definition footprint :: "document \<Rightarrow> nat" where
  "footprint d =
     SIZEOF_DOCUMENT + (length (d_bytes d) + 1) + token_capacity d * SIZEOF_TOKEN + arena_capacity d + children_size d"

lemma document_release_heap [simp]:
  "live (document_release d h) = live h - footprint d" "peak (document_release d h) = peak h"
  by (simp_all add: document_release_def footprint_def Let_def)

text \<open>The sum \<open>parse_allocation_bound\<close> computes.\<close>

definition storage_bound :: "nat \<Rightarrow> nat \<Rightarrow> nat \<Rightarrow> nat" where
  "storage_bound sz n copies =
     SIZEOF_DOCUMENT + (sz + 1) + copies * (n * SIZEOF_TOKEN) + copies * (sz + n + 1) +
       keyset_capacity (n div 2 + 1) * SIZEOF_SIZE_T + n * SIZEOF_SIZE_T"

definition copies_of :: "profile \<Rightarrow> nat" where
  "copies_of prof = (if prof = RFC8259_LAST_WINS then 2 else 1)"

definition base_size :: "nat \<Rightarrow> nat \<Rightarrow> nat" where
  "base_size sz n = SIZEOF_DOCUMENT + (sz + 1) + n * SIZEOF_TOKEN + (sz + n + 1)"

text \<open>\<open>allocate_document\<close>: everything, or nothing kept.\<close>

lemma malloc_facts:
  assumes "malloc n h = (b, h')"
  shows "live h' = live h + (if b then n else 0)" "peak h' = (if b then max (peak h) (live h + n) else peak h)"
    "fates h = [] \<Longrightarrow> b \<and> fates h' = []"
  using assms malloc_True_live [of n h h'] malloc_False_live [of n h h']
  by (cases b; auto simp: malloc_def)+

lemma malloc_chain:
  assumes "malloc n h = (True, h')" "peak h = max p (live h)"
  shows "live h' = live h + n" "peak h' = max p (live h')"
  using malloc_facts(1,2) [OF assms(1)] assms(2) by simp_all

lemma malloc_below:
  assumes "malloc n h = (b, h')" "peak h \<le> m" "live h + n \<le> m"
  shows "peak h' \<le> m"
  using malloc_facts(2) [OF assms(1)] assms(2,3) by simp

lemma allocate_document_ends:
  fixes bs l
  defines "n \<equiv> document_token_capacity (length bs) l"
  shows "(\<exists>h'. allocate_document bs l h = (Fail ERR_MEMORY, h') \<and> fates h \<noteq> [] \<and> live h' = live h \<and>
       peak h' \<le> max (peak h) (live h + base_size (length bs) n)) \<or>
    (\<exists>h'. allocate_document bs l h = (Ret (fresh_document bs n), h') \<and>
       live h' = live h + base_size (length bs) n \<and> peak h' = max (peak h) (live h + base_size (length bs) n) \<and>
       (fates h = [] \<longrightarrow> fates h' = []))"
proof -
  obtain b0 h0 where m0: "malloc SIZEOF_DOCUMENT h = (b0, h0)" by fastforce
  obtain b1 h1 where m1: "malloc (length bs + 1) h0 = (b1, h1)" by fastforce
  obtain b2 h2 where m2: "malloc (n * SIZEOF_TOKEN) h1 = (b2, h2)" by fastforce
  obtain b3 h3 where m3: "malloc (length bs + n + 1) h2 = (b3, h3)" by fastforce
  note f = malloc_facts [OF m0] malloc_facts [OF m1] malloc_facts [OF m2] malloc_facts [OF m3]
  show ?thesis
  proof (cases "b0 \<and> b1 \<and> b2 \<and> b3")
    case True
    then have "allocate_document bs l h = (Ret (fresh_document bs n), h3)"
      using m0 m1 m2 m3 by (simp add: allocate_document_def n_def [symmetric] fresh_document_def Let_def)
    moreover have m0': "malloc SIZEOF_DOCUMENT h = (True, h0)" "malloc (length bs + 1) h0 = (True, h1)"
      "malloc (n * SIZEOF_TOKEN) h1 = (True, h2)" "malloc (length bs + n + 1) h2 = (True, h3)"
      using m0 m1 m2 m3 True by simp_all
    moreover have "peak h0 = max (peak h) (live h0)" using malloc_facts(1,2) [OF m0'(1)] by simp
    note c1 = malloc_chain [OF m0'(2) this]
    note c2 = malloc_chain [OF m0'(3) c1(2)]
    note c3 = malloc_chain [OF m0'(4) c2(2)]
    have "live h3 = live h + base_size (length bs) n"
      using c1(1) c2(1) c3(1) malloc_facts(1) [OF m0'(1)] by (simp add: base_size_def)
    moreover have "fates h = [] \<longrightarrow> fates h3 = []" using f(3,6,9,12) by blast
    ultimately show ?thesis using c3(2) by auto
  next
    case False
    let ?h = "if b0 then mfree SIZEOF_DOCUMENT (let h = (if b3 then mfree (length bs + n + 1) h3 else h3);
        h = (if b2 then mfree (n * SIZEOF_TOKEN) h else h) in (if b1 then mfree (length bs + 1) h else h)) else h0"
    have "allocate_document bs l h = (Fail ERR_MEMORY, ?h)"
      using m0 m1 m2 m3 False
      by (cases b0) (simp_all add: allocate_document_def n_def [symmetric] Let_def)
    moreover have "fates h \<noteq> []" using f False by blast
    moreover have "live ?h = live h"
      using f(1,4,7,10) by (cases b0; cases b1; cases b2; cases b3; simp add: Let_def)
    moreover have "peak ?h \<le> max (peak h) (live h + base_size (length bs) n)" (is "_ \<le> ?m")
    proof -
      have p0: "peak h0 \<le> ?m" by (rule malloc_below [OF m0 _ max.coboundedI2]) (simp_all add: base_size_def)
      have p1: "peak h1 \<le> ?m" by (rule malloc_below [OF m1 p0 max.coboundedI2]) (use f(1) in \<open>simp add: base_size_def\<close>)
      have p2: "peak h2 \<le> ?m" by (rule malloc_below [OF m2 p1 max.coboundedI2]) (use f(1,4) in \<open>simp add: base_size_def\<close>)
      have p3: "peak h3 \<le> ?m" by (rule malloc_below [OF m3 p2 max.coboundedI2]) (use f(1,4,7) in \<open>simp add: base_size_def\<close>)
      show ?thesis using p0 p3 by (simp add: Let_def)
    qed
    ultimately show ?thesis by blast
  qed
qed

section \<open>The whole parse\<close>

text \<open>After the run: compaction when a key was repeated, then the child index.\<close>

lemma last_wins_here:
  assumes "compactable d v" "duplicate_count d = card (superseded_set d)" "duplicate_count d = 0"
  shows "unique_keys v"
proof -
  have "finite (superseded_set d)" by (simp add: superseded_set_def)
  then have "superseded_set d = {}" using assms(2,3) by simp
  with none_superseded_unique assms(1) show ?thesis by blast
qed

definition finish_ends :: "document \<Rightarrow> json \<Rightarrow> heap \<Rightarrow> nat \<Rightarrow> (result, document) outcome \<times> document \<times> heap \<Rightarrow> bool" where
  "finish_ends d v h extra m \<longleftrightarrow>
     (case m of (r, d', h') \<Rightarrow>
        live h' + footprint d = live h + footprint d' \<and> peak h' \<le> max (peak h) (live h + extra) \<and>
        (case r of
           Ret d'' \<Rightarrow> d'' = d' \<and> represents d' (last_wins v) \<and> d_bytes d' = d_bytes d \<and>
             d_profile d' = d_profile d \<and> duplicate_count d' = duplicate_count d
         | Fail code \<Rightarrow> code = ERR_MEMORY \<and> fates h \<noteq> []
         | Stuck \<Rightarrow> False))"

lemma finish_ends_weaken: "finish_ends d v h n m \<Longrightarrow> n \<le> n' \<Longrightarrow> finish_ends d v h n' m"
  unfolding finish_ends_def by (auto split: prod.splits)

lemma index_ends:
  assumes d: "linked (d_tokens d)" "\<forall>t \<in> set (d_tokens d). text_ok (arena d) t" "cells d = layout VALUE_NONE 0 (last_wins v)"
    "children d = None"
  shows "finish_ends d v h (length (d_tokens d) * SIZEOF_SIZE_T)
    (case build_children d h of (Ret d', h) \<Rightarrow> (Ret d', d', h) | (Fail e, h) \<Rightarrow> (Fail e, d, h) | (Stuck, h) \<Rightarrow> (Stuck, d, h))"
  using build_children_ends [OF d(1-3), of h]
proof (elim disjE exE conjE, goal_cases)
  case (1 h')
  then show ?case using malloc_facts [OF 1(1)] by (auto simp: finish_ends_def)
next
  case (2 h' ts cs)
  then show ?case
    using malloc_facts [OF 2(1)] d(4) by (simp add: finish_ends_def footprint_def children_size_def)
qed

lemma finish_document_ends:
  assumes c: "compactable d v" and dup: "duplicate_count d = card (superseded_set d)"
    and d: "children d = None" "length (d_tokens d) \<le> token_capacity d"
      "arena_room (text_size (last_wins v)) \<le> arena_capacity d"
    and live: "footprint d \<le> live h"
  shows "finish_ends d v h
    ((if duplicate_count d = 0 then 0 else token_capacity d * SIZEOF_TOKEN + arena_capacity d) + token_capacity d * SIZEOF_SIZE_T)
    (finish_document d h)"
proof -
  have cd: "linked (d_tokens d)" "\<forall>t \<in> set (d_tokens d). text_ok (arena d) t" "cells d = layout VALUE_NONE 0 v"
    using c by (simp_all add: compactable_def)
  show ?thesis
  proof (cases "duplicate_count d = 0")
    case True
    then have "last_wins v = v" using last_wins_unique last_wins_here [OF c dup] by blast
    with cd have "finish_ends d v h (length (d_tokens d) * SIZEOF_SIZE_T) (finish_document d h)"
      using index_ends [OF cd(1,2) _ d(1), of v h] True by (simp add: finish_document_def)
    moreover have "length (d_tokens d) * SIZEOF_SIZE_T \<le> token_capacity d * SIZEOF_SIZE_T" using d(2) by simp
    ultimately show ?thesis using finish_ends_weaken True by simp
  next
    case False
    let ?n = "json_cells (last_wins v)" and ?m = "arena_room (text_size (last_wins v))"
    have n: "?n \<le> token_capacity d" using last_wins_smaller [of v] layout_size [OF cd(3)] d(2) by simp
    have tok: "?n * SIZEOF_TOKEN \<le> token_capacity d * SIZEOF_TOKEN" "?n * SIZEOF_SIZE_T \<le> token_capacity d * SIZEOF_SIZE_T"
      using n by simp_all
    show ?thesis
      using compact_document_ends [OF c, of h]
    proof (elim disjE exE conjE, goal_cases)
      case (1 h')
      have "max (peak h) (live h + ?n * SIZEOF_TOKEN + ?m) \<le> max (peak h)
          (live h + (token_capacity d * SIZEOF_TOKEN + arena_capacity d + token_capacity d * SIZEOF_SIZE_T))"
        by (intro max.mono order.refl) (use tok(1) d(3) in linarith)
      then show ?case using 1 False by (simp add: finish_document_def finish_ends_def)
    next
      case (2 h' ts ar)
      let ?d = "compacted d ts ar ?n ?m"
      have fp: "footprint d = SIZEOF_DOCUMENT + (length (d_bytes d) + 1) + token_capacity d * SIZEOF_TOKEN + arena_capacity d"
        "footprint ?d = SIZEOF_DOCUMENT + (length (d_bytes d) + 1) + ?n * SIZEOF_TOKEN + ?m"
        using d(1) by (simp_all add: footprint_def compacted_def children_size_def)
      have "finish_ends ?d v h' (length (d_tokens ?d) * SIZEOF_SIZE_T)
        (case build_children ?d h' of (Ret d', h) \<Rightarrow> (Ret d', d', h) | (Fail e, h) \<Rightarrow> (Fail e, ?d, h) | (Stuck, h) \<Rightarrow> (Stuck, ?d, h))"
        by (rule index_ends) (use 2 d(1) in \<open>simp_all add: compacted_def\<close>)
      moreover have "finish_document d h = (case build_children ?d h' of (Ret d', h) \<Rightarrow> (Ret d', d', h)
          | (Fail e, h) \<Rightarrow> (Fail e, ?d, h) | (Stuck, h) \<Rightarrow> (Stuck, ?d, h))"
        using 2(1) False by (simp add: finish_document_def)
      moreover have "length (d_tokens ?d) = ?n" using layout_size [OF 2(4)] by simp
      ultimately have e: "finish_ends ?d v h' (?n * SIZEOF_SIZE_T) (finish_document d h)" by simp
      have l: "live h' + footprint d = live h + footprint ?d" using 2(5) fp live by simp
      have p: "max (peak h') (live h' + ?n * SIZEOF_SIZE_T) \<le> max (peak h)
          (live h + (token_capacity d * SIZEOF_TOKEN + arena_capacity d + token_capacity d * SIZEOF_SIZE_T))"
      proof (rule max.boundedI)
        show "peak h' \<le> max (peak h) (live h + (token_capacity d * SIZEOF_TOKEN + arena_capacity d + token_capacity d * SIZEOF_SIZE_T))"
          unfolding 2(6) by (intro max.mono order.refl) (use tok(1) d(3) in linarith)
        have "live h' + ?n * SIZEOF_SIZE_T \<le> live h + (token_capacity d * SIZEOF_TOKEN + arena_capacity d + token_capacity d * SIZEOF_SIZE_T)"
          using l fp tok d(3) by linarith
        then show "live h' + ?n * SIZEOF_SIZE_T \<le> max (peak h)
            (live h + (token_capacity d * SIZEOF_TOKEN + arena_capacity d + token_capacity d * SIZEOF_SIZE_T))"
          by (rule max.coboundedI2)
      qed
      obtain r d' h'' where m: "finish_document d h = (r, d', h'')" by (metis prod_cases3)
      show ?case
        unfolding finish_ends_def m prod.case
      proof (intro conjI)
        note e' = e [unfolded finish_ends_def m prod.case]
        show "live h'' + footprint d = live h + footprint d'" using e' l by linarith
        show "peak h'' \<le> max (peak h) (live h + ((if duplicate_count d = 0 then 0
            else token_capacity d * SIZEOF_TOKEN + arena_capacity d) + token_capacity d * SIZEOF_SIZE_T))"
          using order.trans [OF conjunct1 [OF conjunct2 [OF e']] p] False by simp
        show "case r of Ret d'' \<Rightarrow> d'' = d' \<and> represents d' (last_wins v) \<and> d_bytes d' = d_bytes d \<and>
             d_profile d' = d_profile d \<and> duplicate_count d' = duplicate_count d
           | Fail code \<Rightarrow> code = ERR_MEMORY \<and> fates h \<noteq> [] | Stuck \<Rightarrow> False"
          using e' 2(7) by (auto simp: compacted_def split: outcome.splits)
      qed
    qed
  qed
qed

section \<open>The result of a parse\<close>

text \<open>An error position: the code, an offset inside the input, its line and column.\<close>

definition error_at :: "bytes \<Rightarrow> json_error option \<Rightarrow> result \<Rightarrow> json_error option \<Rightarrow> bool" where
  "error_at bs err code err' \<longleftrightarrow> (\<exists>off \<le> length bs. err' = error_set err code (Some bs) (length bs) off)"

lemma error_set_None [simp]: "error_set None code src sz off = None"
  by (simp add: error_set_def)

definition parse_ends :: "bytes \<Rightarrow> profile \<Rightarrow> limits \<Rightarrow> json_error option \<Rightarrow> heap \<Rightarrow>
    (result, document) outcome \<times> json_error option \<times> heap \<Rightarrow> bool" where
  "parse_ends bs prof l err h m \<longleftrightarrow>
     (case m of (r, err', h') \<Rightarrow>
        peak h' \<le> max (peak h)
          (live h + storage_bound (length bs) (document_token_capacity (length bs) l) (copies_of prof)) \<and>
        (case r of
           Ret d \<Rightarrow>
             live h' = live h + footprint d \<and> err' = err \<and> d_bytes d = bs \<and> d_profile d = prof \<and>
             (\<exists>v. json_document prof bs v \<and> json_height v \<le> maximum_depth l \<and>
                json_cells v \<le> document_token_capacity (length bs) l \<and>
                (prof \<noteq> RFC8259_LAST_WINS \<longrightarrow> unique_keys v) \<and> (duplicate_count d = 0 \<longrightarrow> unique_keys v) \<and>
                (prof \<noteq> RFC8259_LAST_WINS \<longrightarrow> duplicate_count d = 0) \<and>
                represents d (last_wins v))
         | Fail code \<Rightarrow>
             live h' = live h \<and> error_at bs err code err' \<and>
             (code \<in> {ERR_SYNTAX, ERR_UTF8, ERR_LIMIT, ERR_DUPLICATE_KEY} \<or> code = ERR_MEMORY \<and> fates h \<noteq> [])
         | Stuck \<Rightarrow> False))"

lemma document_token_capacity_bounds:
  "maximum_tokens l \<le> SIZE_MAX div 256 \<Longrightarrow> document_token_capacity n l \<le> SIZE_MAX div 256"
  "0 < document_token_capacity n l"
  by (auto simp: document_token_capacity_def SIZE_MAX_def Let_def)

lemma parse_document_ends:
  assumes l: "maximum_tokens l \<le> SIZE_MAX div 256" and err: "\<And>e. err = Some e \<Longrightarrow> err_code e = OK"
  shows "parse_ends bs prof l err h (parse_document bs prof l err h)"
proof -
  let ?n = "document_token_capacity (length bs) l"
  let ?b = "storage_bound (length bs) ?n (copies_of prof)"
  have b: "?b = base_size (length bs) ?n + (copies_of prof - 1) * (?n * SIZEOF_TOKEN) +
      (copies_of prof - 1) * (length bs + ?n + 1) + keyset_capacity (?n div 2 + 1) * SIZEOF_SIZE_T + ?n * SIZEOF_SIZE_T"
    by (cases "prof = RFC8259_LAST_WINS") (simp_all add: storage_bound_def base_size_def copies_of_def)
  show ?thesis
    using allocate_document_ends [of bs l h]
  proof (elim disjE exE conjE, goal_cases)
    case (1 h')
    have "error_at bs err ERR_MEMORY (error_set err ERR_MEMORY (Some bs) (length bs) 0)"
      unfolding error_at_def by blast
    moreover have "peak h' \<le> max (peak h) (live h + ?b)"
      by (rule order.trans [OF 1(4)]) (intro max.mono order.refl, use b in linarith)
    ultimately show ?case using 1 by (simp add: parse_document_def parse_ends_def Let_def)
  next
    case (2 h0)
    let ?p0 = "initial_parser (fresh_document bs ?n) prof l err h0"
    have cap: "?n \<le> SIZE_MAX div 256" by (rule document_token_capacity_bounds(1) [OF l])
    obtain r p where p: "run_parser ?p0 = (r, p)" by fastforce
    note run = run_parser_ends [OF cap, where err = err and bs = bs and prof = prof and l = l and h = h0, OF err, unfolded p run_ends_def fst_conv snd_conv Let_def]
    let ?d = "pdocument p"
    have fp: "footprint ?d = base_size (length bs) ?n"
      using run by (simp add: footprint_def base_size_def children_size_def)
    have pk: "peak (pheap p) \<le> max (peak h) (live h + base_size (length bs) ?n + keyset_capacity (?n div 2 + 1) * SIZEOF_SIZE_T)"
    proof -
      have "peak (pheap p) \<le> max (peak h0) (live h0 + keyset_capacity (?n div 2 + 1) * SIZEOF_SIZE_T)"
        using run by blast
      also have "\<dots> = max (peak h) (live h + base_size (length bs) ?n + keyset_capacity (?n div 2 + 1) * SIZEOF_SIZE_T)"
        unfolding 2(2,3) by (simp add: max.assoc)
      finally show ?thesis .
    qed
    have pk': "peak (pheap p) \<le> max (peak h) (live h + ?b)"
      by (rule order.trans [OF pk]) (intro max.mono order.refl, use b in linarith)
    show ?case
    proof (cases r)
      case Stuck
      then show ?thesis using run by simp
    next
      case (Fail code)
      have "parse_document bs prof l err h = (Fail code,
          (case perror p of Some e \<Rightarrow> if err_code e = OK then error_set (perror p) code (Some bs) (length bs) 0 else perror p
           | None \<Rightarrow> None), document_release ?d (pheap p))"
        using 2(1) p Fail by (simp add: parse_document_def Let_def)
      moreover have "error_at bs err code
          (case perror p of Some e \<Rightarrow> if err_code e = OK then error_set (perror p) code (Some bs) (length bs) 0 else perror p
           | None \<Rightarrow> None)"
      proof (cases err)
        case None
        then have "perror p = None" using run Fail by auto
        then show ?thesis using None by (auto simp: error_at_def)
      next
        case (Some e)
        then have e: "err_code e = OK" by (rule err)
        have "(code = ERR_MEMORY \<and> perror p = Some e) \<or>
            (code \<noteq> OK \<and> (\<exists>off \<le> length bs. perror p = error_set (Some e) code (Some bs) (length bs) off))"
          using run Fail Some by auto
        then show ?thesis
        proof (elim disjE conjE exE)
          assume "perror p = Some e"
          then show ?thesis using Some e unfolding error_at_def by auto
        next
          fix off assume c: "code \<noteq> OK" and off: "off \<le> length bs" "perror p = error_set (Some e) code (Some bs) (length bs) off"
          then obtain e' where e': "perror p = Some e'" by (auto simp: error_set_def Let_def)
          have "err_code e' = code" using error_set_code [of err code] off(2) e' Some by metis
          then have "(case perror p of Some e \<Rightarrow> if err_code e = OK then error_set (perror p) code (Some bs) (length bs) 0
              else perror p | None \<Rightarrow> None) = perror p" using c e' by simp
          then show ?thesis using off Some unfolding error_at_def by metis
        qed
      qed
      moreover have "live (document_release ?d (pheap p)) = live h" using run fp 2(2) by simp
      moreover have "code \<in> {ERR_SYNTAX, ERR_UTF8, ERR_LIMIT, ERR_DUPLICATE_KEY} \<or> code = ERR_MEMORY \<and> fates h \<noteq> []"
        using run Fail 2(4) by auto
      ultimately show ?thesis using pk' by (simp add: parse_ends_def)
    next
      case (Ret u)
      then obtain v where v: "json_document prof bs v" "json_height v \<le> maximum_depth l" "json_cells v \<le> ?n"
        "compactable ?d v" "duplicate_count ?d = card (superseded_set ?d)" "prof \<noteq> RFC8259_LAST_WINS \<longrightarrow> superseded_set ?d = {}"
        "doc_inv ?d" "perror p = err" "fates h0 = [] \<longrightarrow> fates (pheap p) = []"
        using run by auto
      have fin: "finish_ends ?d v (pheap p) ((if duplicate_count ?d = 0 then 0 else token_capacity ?d * SIZEOF_TOKEN + arena_capacity ?d)
          + token_capacity ?d * SIZEOF_SIZE_T) (finish_document ?d (pheap p))"
      proof (rule finish_document_ends [OF v(4,5)])
        show "children ?d = None" "length (d_tokens ?d) \<le> token_capacity ?d"
          using run doc_invD(3) [OF v(7)] by simp_all
        show "arena_room (text_size (last_wins v)) \<le> arena_capacity ?d" using arena_fits [OF v(1,3)] run by simp
        show "footprint ?d \<le> live (pheap p)" using fp run 2(2) by simp
      qed
      obtain r' d' h' where m: "finish_document ?d (pheap p) = (r', d', h')" by (metis prod_cases3)
      note f = fin [unfolded finish_ends_def m prod.case]
      have lw: "live h' = live h + footprint d'" using f run fp 2(2) by linarith
      have dup: "duplicate_count ?d \<noteq> 0 \<Longrightarrow> copies_of prof = 2"
        using v(5,6) by (auto simp: copies_of_def)
      have "live (pheap p) + ((if duplicate_count ?d = 0 then 0 else token_capacity ?d * SIZEOF_TOKEN + arena_capacity ?d)
          + token_capacity ?d * SIZEOF_SIZE_T) \<le> live h + ?b"
        using run 2(2) dup b by (cases "duplicate_count ?d = 0") simp_all
      then have bound: "peak h' \<le> max (peak h) (live h + ?b)"
        using f pk' by (meson max.boundedI max.coboundedI2 order.trans)
      show ?thesis
      proof (cases r')
        case Stuck
        then show ?thesis using f by simp
      next
        case (Fail code)
        have "parse_document bs prof l err h = (Fail code,
            (case err of Some e \<Rightarrow> if err_code e = OK then error_set err code (Some bs) (length bs) 0 else err
             | None \<Rightarrow> None), document_release d' h')"
          using 2(1) p Ret m Fail v(8) by (cases err) (simp_all add: parse_document_def Let_def)
        moreover have "(case err of Some e \<Rightarrow> if err_code e = OK then error_set err code (Some bs) (length bs) 0 else err
             | None \<Rightarrow> None) = error_set err code (Some bs) (length bs) 0"
          using err by (auto split: option.splits)
        moreover have "error_at bs err code (error_set err code (Some bs) (length bs) 0)"
          unfolding error_at_def by blast
        ultimately show ?thesis using f Fail bound lw v(9) 2(4) by (auto simp: parse_ends_def)
      next
        case (Ret d'')
        have "parse_document bs prof l err h = (Ret d'', err, h')"
          using 2(1) p \<open>r = Ret u\<close> m Ret v(8) by (simp add: parse_document_def Let_def)
        moreover have "prof \<noteq> RFC8259_LAST_WINS \<longrightarrow> unique_keys v"
          using none_superseded_unique [OF v(4)] v(6) by blast
        moreover have "duplicate_count ?d = 0 \<longrightarrow> unique_keys v" using last_wins_here [OF v(4,5)] by blast
        moreover have "prof \<noteq> RFC8259_LAST_WINS \<longrightarrow> duplicate_count ?d = 0" using v(5,6) by simp
        ultimately show ?thesis using f Ret bound lw v(1-3) run by (auto simp: parse_ends_def)
      qed
    qed
  qed
qed

end
