(* ===== verification/Parser_Complete.thy ===== *)
theory Parser_Complete
  imports Parser_Run
begin

text \<open>
  The parser accepts every text of the grammar that is within the limits: by rule induction on the
  grammar, \<open>parse_value\<close> at the start of a text consumes exactly that text and appends exactly
  the layout of its value.
\<close>

section \<open>First and last bytes\<close>

definition number_char :: "byte \<Rightarrow> bool" where
  "number_char b \<longleftrightarrow> is_digit b \<or> b \<in> {MINUS, PLUS, DOT, 0x65, 0x45}"

lemma number_char_other:
  assumes "number_char b"
  shows "\<not> is_delimiter b" "b \<noteq> QUOTE" "b \<noteq> LBRACE" "b \<noteq> LBRACKET" "b \<noteq> 0x74" "b \<noteq> 0x66" "b \<noteq> 0x6e"
  using assms by (auto simp: number_char_def is_digit_def is_delimiter_def is_space_def)

lemma number_chars:
  assumes "json_number n"
  shows "n \<noteq> []" "\<forall>b \<in> set n. number_char b"
proof -
  obtain s i f e where n: "n = s @ i @ f @ e" "s = [] \<or> s = [MINUS]" "number_int i" "number_frac f" "number_exp e"
    using assms by (auto simp: json_number_def)
  show "n \<noteq> []" using n(1,3) by (auto simp: number_int_def)
  have "\<forall>b \<in> set i. number_char b"
    using n(3) order.trans [of "0x30 :: byte" "0x31"]
    by (cases i) (auto simp: number_int_def number_char_def is_digit_def)
  moreover have "\<forall>b \<in> set f. number_char b"
    using n(4) by (auto simp: number_frac_def number_char_def digits1_def)
  moreover have "\<forall>b \<in> set e. number_char b"
    using n(5) by (auto simp: number_exp_def number_char_def digits1_def)
  ultimately show "\<forall>b \<in> set n. number_char b" using n(1,2) by (auto simp: number_char_def)
qed

definition delimited :: "bytes \<Rightarrow> bool" where
  "delimited rest \<longleftrightarrow> rest = [] \<or> is_delimiter (hd rest)"

lemma delimited_ws: "json_ws w \<Longrightarrow> is_delimiter b \<Longrightarrow> delimited (w @ b # rest)"
  by (cases w) (auto simp: delimited_def is_space_ws is_delimiter_def)

lemma delimiter_bytes [simp]: "is_delimiter COMMA" "is_delimiter RBRACE" "is_delimiter RBRACKET"
  by (simp_all add: is_delimiter_def)

lemma space_bytes [simp]: "\<not> is_space COMMA" "\<not> is_space RBRACE" "\<not> is_space RBRACKET" "\<not> is_space QUOTE"
  "\<not> is_space COLON" "\<not> is_space LBRACE" "\<not> is_space LBRACKET"
  by (simp_all add: is_space_def)

text \<open>A value's text starts with no space.\<close>

lemma json_text_start:
  assumes "json_text prof t v"
  shows "t \<noteq> [] \<and> \<not> is_space (hd t)"
  using assms
proof cases
  case text_number
  with number_chars number_char_other(1) show ?thesis by (auto simp: is_delimiter_def hd_in_set)
qed (auto simp: ascii_def is_space_def)

section \<open>Keys not yet used\<close>

definition unused_keys :: "document \<Rightarrow> nat \<Rightarrow> bytes set \<Rightarrow> bool" where
  "unused_keys d up ks \<longleftrightarrow>
     (\<forall>c \<in> set (cells d). c_key c \<longrightarrow> c_parent c = up \<longrightarrow> k_bytes (cell_key c) \<notin> ks)"

lemma unused_keys_fresh:
  assumes "unused_keys d up ks" "k \<in> ks"
  shows "\<lparr>k_parent = up, k_bytes = k\<rparr> \<notin> token_key d ` live_keys d"
proof
  assume "\<lparr>k_parent = up, k_bytes = k\<rparr> \<in> token_key d ` live_keys d"
  then obtain i where i: "i < length (d_tokens d)" "object_key (d_tokens d ! i)" "token_key d i = \<lparr>k_parent = up, k_bytes = k\<rparr>"
    by (auto simp: live_keys_def)
  then have "cells d ! i \<in> set (cells d)" "c_key (cells d ! i)" "cell_key (cells d ! i) = \<lparr>k_parent = up, k_bytes = k\<rparr>"
    by (simp_all add: object_key_cell token_key_cell)
  with assms show False by (auto simp: unused_keys_def cell_key_def)
qed

lemma unused_keys_subset: "unused_keys d up ks \<Longrightarrow> ks' \<subseteq> ks \<Longrightarrow> unused_keys d up ks'"
  by (auto simp: unused_keys_def)

text \<open>A new container has no keys.\<close>

lemma unused_keys_new:
  assumes "linked (d_tokens d)" "length (d_tokens d) < VALUE_NONE"
  shows "unused_keys d (length (d_tokens d)) ks"
proof -
  have "c_parent (cells d ! i) \<noteq> length (d_tokens d)" if "i < length (d_tokens d)" for i
  proof -
    have "parents_before (d_tokens d)" using assms by (simp add: linked_def)
    then show ?thesis using that assms(2) cells_parent [of i d] by (auto simp: parents_before_def)
  qed
  then show ?thesis by (auto simp: unused_keys_def in_set_conv_nth)
qed

text \<open>A value put under \<open>up\<close> adds no key there.\<close>

lemma layout_no_keys:
  assumes "c \<in> set (layout up i v)" "up < i"
  shows "\<not> (c_key c \<and> c_parent c = up)"
proof (cases "c = hd (layout up i v)")
  case True
  then show ?thesis using layout_hd(1) by simp
next
  case False
  with assms(1) have "c \<in> set (tl (layout up i v))" by (cases "layout up i v") auto
  then show ?thesis using layout_parents(1) [of up i v] assms(2) by (auto simp: inside_def)
qed

lemma unused_keys_member:
  assumes "unused_keys d up (insert k ks)" "k \<notin> ks" "up < i"
    "cells d' = cells d @ [key_cell up k] @ layout up i v"
  shows "unused_keys d' up ks"
  using assms layout_no_keys [OF _ assms(3), of _ v] by (auto simp: unused_keys_def cell_key_def)

section \<open>Steps\<close>

definition reads :: "parser \<Rightarrow> bytes \<Rightarrow> cell list \<Rightarrow> parser \<Rightarrow> bool" where
  "reads p t cs p' \<longleftrightarrow>
     static p' = static p \<and> poffset p' = poffset p + length t \<and>
     cells (pdocument p') = cells (pdocument p) @ cs \<and> pinv 0 p'"

lemma readsD:
  assumes "reads p t cs p'" "drop (poffset p) (pbytes p) = t @ rest"
  shows "static p' = static p" "cells (pdocument p') = cells (pdocument p) @ cs" "pinv 0 p'"
    "drop (poffset p') (pbytes p') = rest" "length (d_tokens (pdocument p')) = length (d_tokens (pdocument p)) + length cs"
    "pprofile p' = pprofile p" "plimits p' = plimits p" "pbytes p' = pbytes p"
    "token_capacity (pdocument p') = token_capacity (pdocument p)"
proof -
  show s: "static p' = static p" and c: "cells (pdocument p') = cells (pdocument p) @ cs" and "pinv 0 p'"
    using assms(1) by (simp_all add: reads_def)
  show "pprofile p' = pprofile p" "plimits p' = plimits p" "pbytes p' = pbytes p"
    "token_capacity (pdocument p') = token_capacity (pdocument p)" using staticD [OF s] by simp_all
  have "drop (poffset p') (pbytes p) = drop (length t) (drop (poffset p) (pbytes p))"
    using assms(1) by (simp add: reads_def add.commute)
  then show "drop (poffset p') (pbytes p') = rest" using assms(2) staticD(1) [OF s] by simp
  show "length (d_tokens (pdocument p')) = length (d_tokens (pdocument p)) + length cs"
    using arg_cong [OF c, of length] by simp
qed

lemma reads_trans:
  assumes "reads p s xs q" "reads q t ys r"
  shows "reads p (s @ t) (xs @ ys) r"
  using assms by (simp add: reads_def)

lemma skip_space_idem: "pinv s p \<Longrightarrow> skip_space (skip_space p) = skip_space p"
proof -
  assume p: "pinv s p"
  let ?q = "skip_space p"
  have o: "poffset ?q = scan_while is_space (pbytes p) (poffset p)" by (simp add: skip_space_def)
  have "\<not> (poffset ?q < length (pbytes p) \<and> is_space (pbytes p ! poffset ?q))"
    using scan_while_stop [of is_space "pbytes p" "poffset p"] o by auto
  then have "scan_while is_space (pbytes p) (poffset ?q) = poffset ?q"
    by (subst scan_while.simps) (rule if_not_P)
  then show ?thesis by (simp add: skip_space_def)
qed

lemma parse_value_skip: "pinv s p \<Longrightarrow> parse_value (Suc levels) (skip_space p) up depth = parse_value (Suc levels) p up depth"
  by (simp add: skip_space_idem Let_def)

lemma skip_space_at:
  assumes "pinv s p" "drop (poffset p) (pbytes p) = w @ rest" "json_ws w" "rest = [] \<or> \<not> is_space (hd rest)"
  shows "skip_space p = p\<lparr>poffset := poffset p + length w\<rparr>" "drop (poffset (skip_space p)) (pbytes p) = rest"
    "pinv s (skip_space p)"
proof -
  show e: "skip_space p = p\<lparr>poffset := poffset p + length w\<rparr>"
    using skip_space_complete [OF assms(2-4)] pinvD(3) [OF assms(1)] by simp
  have "drop (poffset p + length w) (pbytes p) = drop (length w) (drop (poffset p) (pbytes p))"
    by (simp add: add.commute)
  then show "drop (poffset (skip_space p)) (pbytes p) = rest" using assms(2) e by simp
  show "pinv s (skip_space p)" by (rule pinv_skip_space [OF assms(1)])
qed

lemma here:
  assumes "drop (poffset p) (pbytes p) = b # rest"
  shows "\<not> at_end p" "current p = b" "drop (poffset (advance p)) (pbytes p) = rest"
proof -
  have lt: "poffset p < length (pbytes p)" using assms by (metis drop_all list.distinct(1) not_le)
  then show "\<not> at_end p" by (simp add: at_end_def)
  have e: "pbytes p ! poffset p # drop (Suc (poffset p)) (pbytes p) = b # rest"
    using assms lt by (simp add: Cons_nth_drop_Suc)
  then show "current p = b" "drop (poffset (advance p)) (pbytes p) = rest" by (simp_all add: current_def)
qed

lemma delimiter_closing:
  assumes "pinv s p" "drop (poffset p) (pbytes p) = w @ closing # rest" "json_ws w" "\<not> is_space closing"
  shows "container_delimiter p closing = (Ret True, p\<lparr>poffset := poffset p + length w + 1\<rparr>)"
proof -
  note s = skip_space_at [OF assms(1,2,3)]
  have d: "drop (poffset (skip_space p)) (pbytes (skip_space p)) = closing # rest" using s(2) assms(4) by simp
  note h = here [OF d]
  have "pbytes p ! poffset (skip_space p) = closing" using h(2) by (simp add: current_def)
  then show ?thesis
    using h(1) s(1) assms(4) by (simp add: container_delimiter_def advance_def Let_def)
qed

lemma delimiter_comma:
  assumes "pinv s p" "drop (poffset p) (pbytes p) = w @ COMMA # rest" "json_ws w" "closing \<noteq> COMMA"
  defines "q \<equiv> p\<lparr>poffset := poffset p + length w + 1\<rparr>"
  shows "container_delimiter p closing = (Ret False, skip_space q)"
    "drop (poffset q) (pbytes q) = rest" "pinv s q" "static q = static p"
proof -
  note s = skip_space_at [OF assms(1,2,3)]
  have d: "drop (poffset (skip_space p)) (pbytes (skip_space p)) = COMMA # rest" using s(2) by simp
  note h = here [OF d]
  have q: "advance (skip_space p) = q" using s(1) by (simp add: q_def advance_def)
  have "pbytes p ! poffset (skip_space p) = COMMA" using h(2) by (simp add: current_def)
  then show "container_delimiter p closing = (Ret False, skip_space q)"
    using h(1) assms(4) q s(1) by (auto simp: container_delimiter_def Let_def q_def)
  show "drop (poffset q) (pbytes q) = rest" using h(3) q by (simp add: q_def)
  show "pinv s q" using pinv_advance [OF s(3)] h(1) q by simp
  show "static q = static p" by (simp add: q_def)
qed

lemma reads_moved:
  "reads q t cs p' \<Longrightarrow> q = p\<lparr>poffset := poffset p + length w\<rparr> \<Longrightarrow> reads p (w @ t) cs p'"
  by (simp add: reads_def)

section \<open>Containers\<close>

lemma container_start:
  assumes "pinv 1 p" "up_ok p up" "length (d_tokens (pdocument p)) < token_capacity (pdocument p)"
    "drop (poffset p) (pbytes p) = opening # rest" "ty \<noteq> TYPE_NUMBER"
  shows "\<exists>q. add_token p ty (poffset p) up False = (Ret (length (d_tokens (pdocument p))), q) \<and>
    \<not> at_end q \<and> reads p [opening] [container_cell up ty] (advance q)"
proof -
  note h = here [OF assms(4)]
  have lt: "poffset p < length (pbytes p)" using h(1) by (simp add: at_end_def)
  have e: "ends p (add_token p ty (poffset p) up False) (\<lambda>i p'. pinv 0 p' \<and> i = length (d_tokens (pdocument p)) \<and>
      poffset p' = poffset p \<and> cells (pdocument p') = cells (pdocument p) @ [container_cell up ty])"
    by (rule container_token [OF assms(1,2) lt assms(5)])
  obtain q where q: "add_token p ty (poffset p) up False = (Ret (length (d_tokens (pdocument p))), q)"
    using add_token_eq [OF assms(3)] by metis
  have q': "pinv 0 q" "static q = static p" "poffset q = poffset p"
    "cells (pdocument q) = cells (pdocument p) @ [container_cell up ty]"
    using e unfolding q by simp_all
  have inside: "\<not> at_end q" using h(1) q'(3) staticD(1) [OF q'(2)] by (simp add: at_end_def)
  then have "reads p [opening] [container_cell up ty] (advance q)"
    using q' pinv_advance [OF q'(1)] by (simp add: reads_def)
  with q inside show ?thesis by blast
qed

lemma container_finish:
  assumes "reads p t cs q"
  shows "\<exists>p'. close_container q i = (Ret i, p') \<and> reads p t cs p'"
proof -
  have "pinv 0 q" using assms by (simp add: reads_def)
  from close_container_ends [OF this, of i] show ?thesis
    using assms by (auto simp: close_container_def reads_def)
qed

lemma parse_value_container:
  assumes "drop (poffset p) (pbytes p) = b # rest" "pinv s p"
  shows "b = LBRACKET \<Longrightarrow> parse_value (Suc levels) p up depth = parse_array (parse_value levels) p up depth"
    "b = LBRACE \<Longrightarrow> parse_value (Suc levels) p up depth = parse_object (parse_value levels) p up depth"
    "b = QUOTE \<Longrightarrow> parse_value (Suc levels) p up depth = parse_string p up False"
    "\<not> is_space b \<Longrightarrow> b \<notin> {LBRACE, LBRACKET, QUOTE} \<Longrightarrow>
       parse_value (Suc levels) p up depth = parse_primitive p up"
proof -
  have s: "skip_space p = p" if "\<not> is_space b"
    using skip_space_complete [of p "[]" "b # rest"] assms that pinvD(3) [OF assms(2)] by simp
  note h = here [OF assms(1)]
  show "b = LBRACKET \<Longrightarrow> parse_value (Suc levels) p up depth = parse_array (parse_value levels) p up depth"
    "b = LBRACE \<Longrightarrow> parse_value (Suc levels) p up depth = parse_object (parse_value levels) p up depth"
    "b = QUOTE \<Longrightarrow> parse_value (Suc levels) p up depth = parse_string p up False"
    "\<not> is_space b \<Longrightarrow> b \<notin> {LBRACE, LBRACKET, QUOTE} \<Longrightarrow>
       parse_value (Suc levels) p up depth = parse_primitive p up"
    using s h by (simp_all add: Let_def)
qed

section \<open>What the induction shows\<close>

definition text_complete :: "profile \<Rightarrow> bytes \<Rightarrow> json \<Rightarrow> bool" where
  "text_complete prof t v \<longleftrightarrow>
     (\<forall>levels p up depth rest.
        pprofile p = prof \<longrightarrow> pinv 1 p \<longrightarrow> up_ok p up \<longrightarrow> drop (poffset p) (pbytes p) = t @ rest \<longrightarrow>
        delimited rest \<longrightarrow> length (d_tokens (pdocument p)) + json_cells v \<le> token_capacity (pdocument p) \<longrightarrow>
        depth + json_height v \<le> maximum_depth (plimits p) \<longrightarrow> maximum_depth (plimits p) \<le> depth + levels \<longrightarrow>
        prof = RFC8259_LAST_WINS \<or> unique_keys v \<longrightarrow>
        (\<exists>p'. parse_value (Suc levels) p up depth = (Ret (length (d_tokens (pdocument p))), p') \<and>
           reads p t (layout up (length (d_tokens (pdocument p))) v) p'))"

definition elements_complete :: "profile \<Rightarrow> bytes \<Rightarrow> json list \<Rightarrow> bool" where
  "elements_complete prof bs vs \<longleftrightarrow>
     (\<forall>levels p up depth rest turns.
        pprofile p = prof \<longrightarrow> pinv 0 p \<longrightarrow> up < length (d_tokens (pdocument p)) \<longrightarrow>
        drop (poffset p) (pbytes p) = bs @ RBRACKET # rest \<longrightarrow>
        length (d_tokens (pdocument p)) + sum_list (map json_cells vs) \<le> token_capacity (pdocument p) \<longrightarrow>
        (\<forall>v \<in> set vs. depth + 1 + json_height v \<le> maximum_depth (plimits p)) \<longrightarrow>
        maximum_depth (plimits p) \<le> depth + 1 + levels \<longrightarrow>
        prof = RFC8259_LAST_WINS \<or> (\<forall>v \<in> set vs. unique_keys v) \<longrightarrow> length bs < turns \<longrightarrow>
        (\<exists>p'. parse_elements (parse_value (Suc levels)) turns (skip_space p) up depth = (Ret (), p') \<and>
           reads p (bs @ [RBRACKET]) (layout_elements up (length (d_tokens (pdocument p))) vs) p'))"

definition members_complete :: "profile \<Rightarrow> bytes \<Rightarrow> (bytes \<times> json) list \<Rightarrow> bool" where
  "members_complete prof bs ms \<longleftrightarrow>
     (\<forall>levels p up depth rest turns.
        pprofile p = prof \<longrightarrow> pinv 0 p \<longrightarrow> up < length (d_tokens (pdocument p)) \<longrightarrow>
        drop (poffset p) (pbytes p) = bs @ RBRACE # rest \<longrightarrow>
        length (d_tokens (pdocument p)) + members_size ms \<le> token_capacity (pdocument p) \<longrightarrow>
        (\<forall>(k, v) \<in> set ms. depth + 1 + json_height v \<le> maximum_depth (plimits p)) \<longrightarrow>
        maximum_depth (plimits p) \<le> depth + 1 + levels \<longrightarrow>
        prof = RFC8259_LAST_WINS \<or> (\<forall>(k, v) \<in> set ms. unique_keys v) \<and> distinct (map fst ms) \<and>
          unused_keys (pdocument p) up (fst ` set ms) \<longrightarrow> length bs < turns \<longrightarrow>
        (\<exists>p'. parse_members (parse_value (Suc levels)) turns (skip_space p) up depth = (Ret (), p') \<and>
           reads p (bs @ [RBRACE]) (layout_members up (length (d_tokens (pdocument p))) ms) p'))"

lemma text_completeD:
  assumes "text_complete prof t v" "pprofile p = prof" "pinv 1 p" "up_ok p up"
    "drop (poffset p) (pbytes p) = w @ t @ rest" "json_ws w" "json_text prof t v" "delimited rest"
    "length (d_tokens (pdocument p)) + json_cells v \<le> token_capacity (pdocument p)"
    "depth + json_height v \<le> maximum_depth (plimits p)" "maximum_depth (plimits p) \<le> depth + levels"
    "prof = RFC8259_LAST_WINS \<or> unique_keys v"
  shows "\<exists>p'. parse_value (Suc levels) p up depth = (Ret (length (d_tokens (pdocument p))), p') \<and>
    reads p (w @ t) (layout up (length (d_tokens (pdocument p))) v) p'"
proof -
  have "t @ rest = [] \<or> \<not> is_space (hd (t @ rest))" using json_text_start [OF assms(7)] by simp
  note s = skip_space_at [OF assms(3,5,6) this]
  have "\<exists>p'. parse_value (Suc levels) (skip_space p) up depth = (Ret (length (d_tokens (pdocument p))), p') \<and>
    reads (skip_space p) t (layout up (length (d_tokens (pdocument p))) v) p'"
    using assms(1) [unfolded text_complete_def, rule_format, of "skip_space p" up rest depth levels] s(2,3) assms
    by (simp add: up_ok_def)
  then show ?thesis using reads_moved [OF _ s(1)] parse_value_skip [OF assms(3)] by metis
qed

text \<open>One member: its key, the colon, its value.\<close>

definition member_rest :: "value_parser \<Rightarrow> nat \<Rightarrow> nat \<Rightarrow> nat \<Rightarrow> parser \<Rightarrow> (result, unit) outcome \<times> parser" where
  "member_rest value turns up depth p =
     andthen (container_delimiter p RBRACE) (\<lambda>closed p.
       if closed then (Ret (), p) else parse_members value turns p up depth)"

lemma member_complete:
  assumes t: "text_complete prof t v" "json_text prof t v" and p: "pprofile p = prof" "pinv 0 p"
    "up < length (d_tokens (pdocument p))"
    and d: "drop (poffset p) (pbytes p) = w1 @ QUOTE # raw @ QUOTE # w2 @ COLON # w3 @ t @ rest"
    and ws: "json_ws w1" "json_ws w2" "json_ws w3" and k: "json_string prof raw k" and rest: "delimited rest"
    and room: "length (d_tokens (pdocument p)) + 1 + json_cells v \<le> token_capacity (pdocument p)"
    and depth: "depth + 1 + json_height v \<le> maximum_depth (plimits p)" "maximum_depth (plimits p) \<le> depth + 1 + levels"
    and keys: "prof = RFC8259_LAST_WINS \<or> unique_keys v \<and> unused_keys (pdocument p) up {k}"
  shows "\<exists>p'. parse_members (parse_value (Suc levels)) (Suc turns) (skip_space p) up depth =
      member_rest (parse_value (Suc levels)) turns up depth p' \<and>
    reads p (w1 @ QUOTE # raw @ QUOTE # w2 @ COLON # w3 @ t)
      (key_cell up k # layout up (length (d_tokens (pdocument p)) + 1) v) p'"
proof -
  let ?n = "length (d_tokens (pdocument p))"
  have d1: "drop (poffset p) (pbytes p) = w1 @ (QUOTE # raw @ QUOTE # w2 @ COLON # w3 @ t @ rest)" using d by simp
  note s = skip_space_at [OF p(2) d1 ws(1)]
  let ?p1 = "skip_space p"
  have d2: "drop (poffset ?p1) (pbytes ?p1) = QUOTE # raw @ QUOTE # w2 @ COLON # w3 @ t @ rest" using s(2) by simp
  have fresh: "pprofile ?p1 \<noteq> RFC8259_LAST_WINS \<Longrightarrow>
      \<lparr>k_parent = up, k_bytes = k\<rparr> \<notin> token_key (pdocument ?p1) ` live_keys (pdocument ?p1)"
    using unused_keys_fresh [of "pdocument p" up "{k}" k] keys p(1) by simp
  obtain q where q: "parse_string ?p1 up True = (Ret ?n, q)" "static q = static ?p1" "pinv 1 q"
    "poffset q = poffset ?p1 + length raw + 2" "cells (pdocument q) = cells (pdocument p) @ [key_cell up k]"
    using parse_string_complete [of True ?p1 up raw "w2 @ COLON # w3 @ t @ rest" k] s d2 k p(1,3) room fresh
    by (auto simp: up_ok_def)
  note st = staticD [OF q(2)]
  have "drop (poffset q) (pbytes q) = drop (length (QUOTE # raw @ [QUOTE])) (drop (poffset ?p1) (pbytes ?p1))"
    using q(4) st(1) by (simp add: add.commute add.left_commute)
  then have dq: "drop (poffset q) (pbytes q) = w2 @ COLON # w3 @ t @ rest" unfolding d2 by simp
  note s2 = skip_space_at [OF q(3) dq ws(2)]
  have d3: "drop (poffset (skip_space q)) (pbytes (skip_space q)) = COLON # w3 @ t @ rest" using s2(2) by simp
  note h = here [OF d3]
  let ?r = "advance (skip_space q)"
  have hr: "drop (poffset ?r) (pbytes ?r) = w3 @ t @ rest" using h(3) by simp
  have r: "pinv 1 ?r" "static ?r = static p" "cells (pdocument ?r) = cells (pdocument p) @ [key_cell up k]"
    "poffset ?r = poffset p + length (w1 @ QUOTE # raw @ QUOTE # w2 @ [COLON])"
    using pinv_advance [OF s2(3)] h(1) q s s2 by simp_all
  have rn: "length (d_tokens (pdocument ?r)) = ?n + 1" using arg_cong [OF r(3), of length] by simp
  note rst = staticD [OF r(2)]
  obtain p' where p': "parse_value (Suc levels) ?r up (depth + 1) = (Ret (?n + 1), p')"
    "reads ?r (w3 @ t) (layout up (?n + 1) v) p'"
    using text_completeD [OF t(1) _ r(1) _ hr ws(3) t(2) rest, of up "depth + 1" levels] p(1,3) rst rn room depth keys
    by (auto simp: up_ok_def)
  have "reads p (w1 @ QUOTE # raw @ QUOTE # w2 @ COLON # w3 @ t) (key_cell up k # layout up (?n + 1) v) p'"
    using p'(2) r(2-4) by (simp add: reads_def)
  moreover have "parse_members (parse_value (Suc levels)) (Suc turns) ?p1 up depth =
      member_rest (parse_value (Suc levels)) turns up depth p'"
    using q(1) h(1,2) p'(1) by (simp add: member_rest_def Let_def)
  ultimately show ?thesis by blast
qed

lemma cells_here: "length (d_tokens (pdocument p)) + json_cells v \<le> n \<Longrightarrow> length (d_tokens (pdocument p)) < n"
  using json_cells_positive [of v] by linarith

lemma primitive_complete:
  assumes c: "classify_primitive t = Some (ty, truth)" and t: "t \<noteq> []" "\<forall>b \<in> set t. \<not> is_delimiter b"
    "hd t \<notin> {LBRACE, LBRACKET, QUOTE}"
    and cell: "\<And>up i. layout up i v = [\<lparr>c_parent = up, c_type = ty,
      c_text = (if ty = TYPE_NUMBER then Some t else None), c_truth = truth, c_key = False\<rparr>]"
  shows "text_complete prof t v"
  unfolding text_complete_def
proof (intro allI impI)
  fix levels p up depth rest
  assume p: "pinv 1 p" "up_ok p up" and d: "drop (poffset p) (pbytes p) = t @ rest" and rest: "delimited rest"
    and room: "length (d_tokens (pdocument p)) + json_cells v \<le> token_capacity (pdocument p)"
  obtain b bs where b: "t = b # bs" using t(1) by (cases t) auto
  have d': "drop (poffset p) (pbytes p) = b # bs @ rest" using d b by simp
  have s: "\<not> is_space b" "b \<notin> {LBRACE, LBRACKET, QUOTE}" using t(2,3) b by (auto simp: is_delimiter_def)
  have pv: "parse_value (Suc levels) p up depth = parse_primitive p up"
    by (rule parse_value_container(4) [OF d' p(1) s])
  have rest': "rest = [] \<or> is_delimiter (hd rest)" using rest by (simp add: delimited_def)
  from parse_primitive_eval [OF p d t(2) rest' c]
  show "\<exists>p'. parse_value (Suc levels) p up depth = (Ret (length (d_tokens (pdocument p))), p') \<and>
           reads p t (layout up (length (d_tokens (pdocument p))) v) p'"
    unfolding pv using cells_here [OF room] cell by (auto simp: reads_def)
qed

lemma string_complete:
  assumes "json_string prof raw s"
  shows "text_complete prof (QUOTE # raw @ [QUOTE]) (JStr s)"
  unfolding text_complete_def
proof (intro allI impI)
  fix levels p up depth rest
  assume p: "pprofile p = prof" "pinv 1 p" "up_ok p up"
    and d: "drop (poffset p) (pbytes p) = (QUOTE # raw @ [QUOTE]) @ rest"
    and room: "length (d_tokens (pdocument p)) + json_cells (JStr s) \<le> token_capacity (pdocument p)"
  have d': "drop (poffset p) (pbytes p) = QUOTE # raw @ QUOTE # rest" using d by simp
  have pv: "parse_value (Suc levels) p up depth = parse_string p up False"
    by (rule parse_value_container(3) [OF d' p(2) refl])
  have "\<exists>p'. parse_string p up False = (Ret (length (d_tokens (pdocument p))), p') \<and>
    static p' = static p \<and> pinv 0 p' \<and> poffset p' = poffset p + length raw + 2 \<and>
    cells (pdocument p') = cells (pdocument p) @ [string_cell up s False]"
    using parse_string_complete [of False p up raw rest s] p d' room assms by simp
  then show "\<exists>p'. parse_value (Suc levels) p up depth = (Ret (length (d_tokens (pdocument p))), p') \<and>
           reads p (QUOTE # raw @ [QUOTE]) (layout up (length (d_tokens (pdocument p))) (JStr s)) p'"
    unfolding pv by (auto simp: reads_def)
qed

section \<open>Elements and members\<close>

lemma element_complete:
  assumes t: "text_complete prof t v" "json_text prof t v" and p: "pprofile p = prof" "pinv 0 p"
    "up < length (d_tokens (pdocument p))"
    and d: "drop (poffset p) (pbytes p) = w1 @ t @ w2 @ b # rest" and ws: "json_ws w1" "json_ws w2" "is_delimiter b"
    and room: "length (d_tokens (pdocument p)) + json_cells v \<le> token_capacity (pdocument p)"
    and depth: "depth + 1 + json_height v \<le> maximum_depth (plimits p)" "maximum_depth (plimits p) \<le> depth + 1 + levels"
    and keys: "prof = RFC8259_LAST_WINS \<or> unique_keys v"
  shows "\<exists>p'. parse_elements (parse_value (Suc levels)) (Suc turns) (skip_space p) up depth =
      andthen (container_delimiter p' RBRACKET) (\<lambda>closed p.
         if closed then (Ret (), p) else parse_elements (parse_value (Suc levels)) turns p up depth) \<and>
    reads p (w1 @ t) (layout up (length (d_tokens (pdocument p))) v) p' \<and>
    drop (poffset p') (pbytes p') = w2 @ b # rest"
proof -
  have p1: "pinv 1 p" by (rule pinv_weaken [OF p(2)]) simp
  have up: "up_ok p up" using p(3) by (simp add: up_ok_def)
  obtain p' where p': "parse_value (Suc levels) p up (depth + 1) = (Ret (length (d_tokens (pdocument p))), p')"
    "reads p (w1 @ t) (layout up (length (d_tokens (pdocument p))) v) p'"
    using text_completeD [OF t(1) p(1) p1 up d ws(1) t(2) delimited_ws [OF ws(2,3)] room depth keys] by blast
  have d': "drop (poffset p) (pbytes p) = (w1 @ t) @ (w2 @ b # rest)" using d by simp
  note r = readsD [OF p'(2) d']
  have "parse_value (Suc levels) (skip_space p) up (depth + 1) = (Ret (length (d_tokens (pdocument p))), p')"
    using p'(1) parse_value_skip [OF p(2)] by metis
  then show ?thesis using p'(2) r(4,8) by (intro exI [of _ p']) (simp del: parse_value.simps)
qed

lemma elements_one_complete:
  assumes t: "text_complete prof t v" "json_text prof t v" and ws: "json_ws w1" "json_ws w2"
  shows "elements_complete prof (w1 @ t @ w2) [v]"
  unfolding elements_complete_def
proof (intro allI impI)
  fix levels p up depth rest turns
  assume p: "pprofile p = prof" "pinv 0 p" "up < length (d_tokens (pdocument p))"
    and d: "drop (poffset p) (pbytes p) = (w1 @ t @ w2) @ RBRACKET # rest"
    and room: "length (d_tokens (pdocument p)) + sum_list (map json_cells [v]) \<le> token_capacity (pdocument p)"
    and depth: "\<forall>v \<in> set [v]. depth + 1 + json_height v \<le> maximum_depth (plimits p)"
      "maximum_depth (plimits p) \<le> depth + 1 + levels"
    and keys: "prof = RFC8259_LAST_WINS \<or> (\<forall>v \<in> set [v]. unique_keys v)"
    and turns: "length (w1 @ t @ w2) < turns"
  obtain n where n: "turns = Suc n" using turns by (cases turns) auto
  have d1: "drop (poffset p) (pbytes p) = w1 @ t @ w2 @ RBRACKET # rest" using d by simp
  obtain p' where p': "parse_elements (parse_value (Suc levels)) (Suc n) (skip_space p) up depth =
      andthen (container_delimiter p' RBRACKET) (\<lambda>closed p.
         if closed then (Ret (), p) else parse_elements (parse_value (Suc levels)) n p up depth)"
    "reads p (w1 @ t) (layout up (length (d_tokens (pdocument p))) v) p'"
    "drop (poffset p') (pbytes p') = w2 @ RBRACKET # rest"
    using element_complete [OF t p d1 ws delimiter_bytes(3), of depth levels n] room depth keys by auto
  have inv: "pinv 0 p'" using p'(2) by (simp add: reads_def)
  note c = delimiter_closing [OF inv p'(3) ws(2) space_bytes(3)]
  have lt: "poffset p' + length w2 + 1 \<le> length (pbytes p')"
    using arg_cong [OF p'(3), of length] by simp
  have "pinv 0 (p'\<lparr>poffset := poffset p' + length w2 + 1\<rparr>)" by (rule pinv_offset [OF inv _ lt]) simp
  then show "\<exists>p'. parse_elements (parse_value (Suc levels)) turns (skip_space p) up depth = (Ret (), p') \<and>
           reads p ((w1 @ t @ w2) @ [RBRACKET]) (layout_elements up (length (d_tokens (pdocument p))) [v]) p'"
    using p'(1,2) c n by (auto simp: reads_def simp del: parse_elements.simps parse_value.simps)
qed

lemma elements_more_complete:
  assumes t: "text_complete prof t v" "json_text prof t v" and ws: "json_ws w1" "json_ws w2"
    and more: "elements_complete prof bs vs"
  shows "elements_complete prof (w1 @ t @ w2 @ COMMA # bs) (v # vs)"
  unfolding elements_complete_def
proof (intro allI impI)
  fix levels p up depth rest turns
  assume p: "pprofile p = prof" "pinv 0 p" "up < length (d_tokens (pdocument p))"
    and d: "drop (poffset p) (pbytes p) = (w1 @ t @ w2 @ COMMA # bs) @ RBRACKET # rest"
    and room: "length (d_tokens (pdocument p)) + sum_list (map json_cells (v # vs)) \<le> token_capacity (pdocument p)"
    and depth: "\<forall>v \<in> set (v # vs). depth + 1 + json_height v \<le> maximum_depth (plimits p)"
      "maximum_depth (plimits p) \<le> depth + 1 + levels"
    and keys: "prof = RFC8259_LAST_WINS \<or> (\<forall>v \<in> set (v # vs). unique_keys v)"
    and turns: "length (w1 @ t @ w2 @ COMMA # bs) < turns"
  let ?n = "length (d_tokens (pdocument p))"
  obtain n where n: "turns = Suc n" using turns by (cases turns) auto
  have d1: "drop (poffset p) (pbytes p) = w1 @ t @ w2 @ COMMA # (bs @ RBRACKET # rest)" using d by simp
  obtain p' where p': "parse_elements (parse_value (Suc levels)) (Suc n) (skip_space p) up depth =
      andthen (container_delimiter p' RBRACKET) (\<lambda>closed p.
         if closed then (Ret (), p) else parse_elements (parse_value (Suc levels)) n p up depth)"
    "reads p (w1 @ t) (layout up ?n v) p'"
    "drop (poffset p') (pbytes p') = w2 @ COMMA # (bs @ RBRACKET # rest)"
    using element_complete [OF t p d1 ws delimiter_bytes(1), of depth levels n] room depth keys by auto
  let ?q = "p'\<lparr>poffset := poffset p' + length w2 + 1\<rparr>"
  have d2: "drop (poffset p) (pbytes p) = (w1 @ t) @ (w2 @ COMMA # (bs @ RBRACKET # rest))" using d1 by simp
  note r = readsD [OF p'(2) d2]
  have ne: "RBRACKET \<noteq> COMMA" by simp
  note c = delimiter_comma [OF r(3) p'(3) ws(2) ne]
  have q: "pprofile ?q = prof" "up < length (d_tokens (pdocument ?q))" "length (d_tokens (pdocument ?q)) = ?n + json_cells v"
    "token_capacity (pdocument ?q) = token_capacity (pdocument p)" "plimits ?q = plimits p"
    using r p(1,3) by simp_all
  obtain p'' where p'': "parse_elements (parse_value (Suc levels)) n (skip_space ?q) up depth = (Ret (), p'')"
    "reads ?q (bs @ [RBRACKET]) (layout_elements up (?n + json_cells v) vs) p''"
    using more [unfolded elements_complete_def, rule_format, of ?q up rest depth levels n] q c(2,3) room depth keys turns n
    by (auto simp: add.assoc simp del: parse_elements.simps parse_value.simps)
  have "reads p ((w1 @ t @ w2 @ COMMA # bs) @ [RBRACKET]) (layout_elements up ?n (v # vs)) p''"
    using p'(2) p''(2) by (simp add: reads_def)
  then show "\<exists>p'. parse_elements (parse_value (Suc levels)) turns (skip_space p) up depth = (Ret (), p') \<and>
           reads p ((w1 @ t @ w2 @ COMMA # bs) @ [RBRACKET]) (layout_elements up ?n (v # vs)) p'"
    using p'(1) p''(1) c(1) n by (auto simp del: parse_elements.simps parse_value.simps)
qed

lemma members_one_complete:
  assumes t: "text_complete prof t v" "json_text prof t v" and k: "json_string prof raw k"
    and ws: "json_ws w1" "json_ws w2" "json_ws w3" "json_ws w4"
  shows "members_complete prof (w1 @ QUOTE # raw @ QUOTE # w2 @ COLON # w3 @ t @ w4) [(k, v)]"
  unfolding members_complete_def
proof (intro allI impI)
  fix levels and p :: parser and up depth rest turns
  let ?s = "w1 @ QUOTE # raw @ QUOTE # w2 @ COLON # w3 @ t" let ?n = "length (d_tokens (pdocument p))"
  assume p: "pprofile p = prof" "pinv 0 p" "up < ?n"
    and d: "drop (poffset p) (pbytes p) = (w1 @ QUOTE # raw @ QUOTE # w2 @ COLON # w3 @ t @ w4) @ RBRACE # rest"
    and room: "?n + members_size [(k, v)] \<le> token_capacity (pdocument p)"
    and depth: "\<forall>(k, v) \<in> set [(k, v)]. depth + 1 + json_height v \<le> maximum_depth (plimits p)"
      "maximum_depth (plimits p) \<le> depth + 1 + levels"
    and keys: "prof = RFC8259_LAST_WINS \<or> (\<forall>(k, v) \<in> set [(k, v)]. unique_keys v) \<and> distinct (map fst [(k, v)]) \<and>
          unused_keys (pdocument p) up (fst ` set [(k, v)])"
    and turns: "length (w1 @ QUOTE # raw @ QUOTE # w2 @ COLON # w3 @ t @ w4) < turns"
  obtain n where n: "turns = Suc n" using turns by (cases turns) auto
  have d1: "drop (poffset p) (pbytes p) = w1 @ QUOTE # raw @ QUOTE # w2 @ COLON # w3 @ t @ (w4 @ RBRACE # rest)"
    using d by simp
  obtain p' where p': "parse_members (parse_value (Suc levels)) (Suc n) (skip_space p) up depth =
      member_rest (parse_value (Suc levels)) n up depth p'"
    "reads p ?s (key_cell up k # layout up (?n + 1) v) p'"
    using member_complete [OF t p d1 ws(1-3) k delimited_ws [OF ws(4) delimiter_bytes(2)], of depth levels n]
      room depth keys by auto
  have d2: "drop (poffset p) (pbytes p) = ?s @ (w4 @ RBRACE # rest)" using d1 by simp
  note r = readsD [OF p'(2) d2]
  have d3: "drop (poffset p') (pbytes p') = w4 @ RBRACE # rest" using r(4,8) by simp
  note c = delimiter_closing [OF r(3) d3 ws(4) space_bytes(2)]
  have lt: "poffset p' + length w4 + 1 \<le> length (pbytes p')"
    using arg_cong [OF d3, of length] by simp
  have "pinv 0 (p'\<lparr>poffset := poffset p' + length w4 + 1\<rparr>)" by (rule pinv_offset [OF r(3) _ lt]) simp
  then show "\<exists>p'. parse_members (parse_value (Suc levels)) turns (skip_space p) up depth = (Ret (), p') \<and>
           reads p ((w1 @ QUOTE # raw @ QUOTE # w2 @ COLON # w3 @ t @ w4) @ [RBRACE]) (layout_members up ?n [(k, v)]) p'"
    using p'(1,2) c n by (auto simp: reads_def member_rest_def simp del: parse_members.simps parse_value.simps)
qed

lemma members_more_complete:
  assumes t: "text_complete prof t v" "json_text prof t v" and k: "json_string prof raw k"
    and ws: "json_ws w1" "json_ws w2" "json_ws w3" "json_ws w4" and more: "members_complete prof bs ms"
  shows "members_complete prof (w1 @ QUOTE # raw @ QUOTE # w2 @ COLON # w3 @ t @ w4 @ COMMA # bs) ((k, v) # ms)"
  unfolding members_complete_def
proof (intro allI impI)
  fix levels and p :: parser and up depth rest turns
  let ?s = "w1 @ QUOTE # raw @ QUOTE # w2 @ COLON # w3 @ t" let ?n = "length (d_tokens (pdocument p))"
  let ?bs = "w1 @ QUOTE # raw @ QUOTE # w2 @ COLON # w3 @ t @ w4 @ COMMA # bs"
  assume p: "pprofile p = prof" "pinv 0 p" "up < ?n"
    and d: "drop (poffset p) (pbytes p) = ?bs @ RBRACE # rest"
    and room: "?n + members_size ((k, v) # ms) \<le> token_capacity (pdocument p)"
    and depth: "\<forall>(k, v) \<in> set ((k, v) # ms). depth + 1 + json_height v \<le> maximum_depth (plimits p)"
      "maximum_depth (plimits p) \<le> depth + 1 + levels"
    and keys: "prof = RFC8259_LAST_WINS \<or> (\<forall>(k, v) \<in> set ((k, v) # ms). unique_keys v) \<and> distinct (map fst ((k, v) # ms)) \<and>
          unused_keys (pdocument p) up (fst ` set ((k, v) # ms))"
    and turns: "length ?bs < turns"
  obtain n where n: "turns = Suc n" using turns by (cases turns) auto
  have d1: "drop (poffset p) (pbytes p) = w1 @ QUOTE # raw @ QUOTE # w2 @ COLON # w3 @ t @ (w4 @ COMMA # (bs @ RBRACE # rest))"
    using d by simp
  have here_keys: "prof = RFC8259_LAST_WINS \<or> unique_keys v \<and> unused_keys (pdocument p) up {k}"
    using keys unused_keys_subset [of "pdocument p" up "fst ` set ((k, v) # ms)" "{k}"] by auto
  obtain p' where p': "parse_members (parse_value (Suc levels)) (Suc n) (skip_space p) up depth =
      member_rest (parse_value (Suc levels)) n up depth p'"
    "reads p ?s (key_cell up k # layout up (?n + 1) v) p'"
    using member_complete [OF t p d1 ws(1-3) k delimited_ws [OF ws(4) delimiter_bytes(1)] _ _ depth(2) here_keys, of n]
      room depth by auto
  let ?q = "p'\<lparr>poffset := poffset p' + length w4 + 1\<rparr>"
  have d2: "drop (poffset p) (pbytes p) = ?s @ (w4 @ COMMA # (bs @ RBRACE # rest))" using d1 by simp
  note r = readsD [OF p'(2) d2]
  have d3: "drop (poffset p') (pbytes p') = w4 @ COMMA # (bs @ RBRACE # rest)" using r(4,8) by simp
  have ne: "RBRACE \<noteq> COMMA" by simp
  note c = delimiter_comma [OF r(3) d3 ws(4) ne]
  have q: "pprofile ?q = prof" "up < length (d_tokens (pdocument ?q))" "length (d_tokens (pdocument ?q)) = ?n + 1 + json_cells v"
    "token_capacity (pdocument ?q) = token_capacity (pdocument p)" "plimits ?q = plimits p"
    using r p(1,3) by simp_all
  have rest_keys: "prof = RFC8259_LAST_WINS \<or> (\<forall>(k, v) \<in> set ms. unique_keys v) \<and> distinct (map fst ms) \<and>
          unused_keys (pdocument ?q) up (fst ` set ms)"
  proof (cases "prof = RFC8259_LAST_WINS")
    case False
    with keys have u: "unused_keys (pdocument p) up (insert k (fst ` set ms))" "k \<notin> fst ` set ms"
      "(\<forall>(k, v) \<in> set ms. unique_keys v)" "distinct (map fst ms)" by auto
    have "cells (pdocument ?q) = cells (pdocument p) @ [key_cell up k] @ layout up (?n + 1) v" using r(2) by simp
    from unused_keys_member [OF u(1,2) _ this] have "unused_keys (pdocument ?q) up (fst ` set ms)" using p(3) by simp
    with u(3,4) show ?thesis by blast
  qed simp
  obtain p'' where p'': "parse_members (parse_value (Suc levels)) n (skip_space ?q) up depth = (Ret (), p'')"
    "reads ?q (bs @ [RBRACE]) (layout_members up (?n + 1 + json_cells v) ms) p''"
    using more [unfolded members_complete_def, rule_format, of ?q up rest depth levels n] q c(2,3) room depth rest_keys turns n
    by (auto simp: add.assoc simp del: parse_members.simps parse_value.simps)
  have "reads p (?bs @ [RBRACE]) (layout_members up ?n ((k, v) # ms)) p''"
    using p'(2) p''(2) by (simp add: reads_def)
  then show "\<exists>p'. parse_members (parse_value (Suc levels)) turns (skip_space p) up depth = (Ret (), p') \<and>
           reads p (?bs @ [RBRACE]) (layout_members up ?n ((k, v) # ms)) p'"
    using p'(1) p''(1) c(1) n by (auto simp: member_rest_def simp del: parse_members.simps parse_value.simps)
qed

section \<open>Arrays and objects\<close>

lemma unused_keys_opened:
  assumes p: "pinv s p" and n: "length (d_tokens (pdocument p)) < token_capacity (pdocument p)"
    and q: "cells (pdocument q) = cells (pdocument p) @ [container_cell up ty]"
  shows "unused_keys (pdocument q) (length (d_tokens (pdocument p))) ks"
proof -
  note d = doc_invD [OF pinvD(1) [OF p]]
  have "length (d_tokens (pdocument p)) < VALUE_NONE" using n d(4) by simp
  then show ?thesis using unused_keys_new [OF d(1), of ks] q by (auto simp: unused_keys_def)
qed

text \<open>The first byte of the elements and of the members is not that of the end of the container.\<close>

definition starts_inside :: "byte \<Rightarrow> bytes \<Rightarrow> bool" where
  "starts_inside closing bs \<longleftrightarrow> (\<exists>w c bs'. bs = w @ c # bs' \<and> json_ws w \<and> \<not> is_space c \<and> c \<noteq> closing)"

lemma starts_insideI: "json_ws w \<Longrightarrow> \<not> is_space c \<Longrightarrow> c \<noteq> closing \<Longrightarrow> starts_inside closing (w @ c # bs)"
  by (auto simp: starts_inside_def)

lemma json_text_inside:
  assumes "json_text prof t v" "json_ws w"
  shows "starts_inside RBRACKET (w @ t @ bs)"
proof -
  have "\<exists>c t'. t = c # t' \<and> \<not> is_space c \<and> c \<noteq> RBRACKET"
    using assms(1)
  proof cases
    case text_number
    then show ?thesis
      using number_chars [OF text_number(2)] number_char_other(1) by (cases t) (auto simp: is_delimiter_def)
  qed (auto simp: ascii_def is_space_def)
  then show ?thesis using starts_insideI [OF assms(2)] by auto
qed

lemma json_elements_start: "json_elements prof bs vs \<Longrightarrow> starts_inside RBRACKET bs"
  by (erule json_elements.cases) (simp_all add: json_text_inside)

lemma json_members_start: "json_members prof bs ms \<Longrightarrow> starts_inside RBRACE bs"
  by (erule json_members.cases) (simp_all add: starts_insideI)

lemma skip_to:
  assumes "pinv s q" "drop (poffset q) (pbytes q) = (w @ c # bs) @ rest" "json_ws w" "\<not> is_space c"
  shows "\<not> at_end (skip_space q)" "current (skip_space q) = c"
    "advance (skip_space q) = q\<lparr>poffset := poffset q + length w + 1\<rparr>" "pinv s (advance (skip_space q))"
proof -
  have d: "drop (poffset q) (pbytes q) = w @ (c # bs @ rest)" using assms(2) by simp
  note k = skip_space_at [OF assms(1) d assms(3)]
  have d': "drop (poffset (skip_space q)) (pbytes (skip_space q)) = c # bs @ rest" using k(2) assms(4) by simp
  note h = here [OF d']
  show "\<not> at_end (skip_space q)" "current (skip_space q) = c"
    "advance (skip_space q) = q\<lparr>poffset := poffset q + length w + 1\<rparr>" "pinv s (advance (skip_space q))"
    using h k assms(4) pinv_advance [OF k(3) h(1)] by (simp_all add: advance_def)
qed

lemma empty_container:
  assumes "drop (poffset p) (pbytes p) = (opening # w @ [closing]) @ rest" "json_ws w" "\<not> is_space closing"
    "reads p [opening] cs q"
  shows "\<not> at_end (skip_space q) \<and> current (skip_space q) = closing \<and>
    (\<exists>p'. close_container (advance (skip_space q)) i = (Ret i, p') \<and> reads p (opening # w @ [closing]) cs p')"
proof -
  have d: "drop (poffset p) (pbytes p) = [opening] @ (w @ [closing] @ rest)" using assms(1) by simp
  note r = readsD [OF assms(4) d]
  have d': "drop (poffset q) (pbytes q) = (w @ closing # []) @ rest" using r(4,8) by simp
  note k = skip_to [OF r(3) d' assms(2,3)]
  have "reads p (opening # w @ [closing]) cs (advance (skip_space q))"
    using assms(4) k(3,4) by (simp add: reads_def)
  from container_finish [OF this] k(1,2) show ?thesis by simp
qed

lemma empty_array_complete:
  assumes w: "json_ws w"
  shows "text_complete prof (LBRACKET # w @ [RBRACKET]) (JArr [])"
  unfolding text_complete_def
proof (intro allI impI)
  fix levels and p :: parser and up depth rest
  let ?n = "length (d_tokens (pdocument p))"
  assume p: "pinv 1 p" "up_ok p up" and d: "drop (poffset p) (pbytes p) = (LBRACKET # w @ [RBRACKET]) @ rest"
    and room: "?n + json_cells (JArr []) \<le> token_capacity (pdocument p)"
    and depth: "depth + json_height (JArr []) \<le> maximum_depth (plimits p)"
  have d': "drop (poffset p) (pbytes p) = LBRACKET # w @ RBRACKET # rest" using d by simp
  obtain q where q: "add_token p TYPE_ARRAY (poffset p) up False = (Ret ?n, q)" "\<not> at_end q"
    "reads p [LBRACKET] [container_cell up TYPE_ARRAY] (advance q)"
    using container_start [OF p cells_here [OF room] d', of TYPE_ARRAY] by auto
  have deep: "\<not> depth \<ge> maximum_depth (plimits p)" using depth by simp
  show "\<exists>p'. parse_value (Suc levels) p up depth = (Ret ?n, p') \<and>
     reads p (LBRACKET # w @ [RBRACKET]) (layout up ?n (JArr [])) p'"
    using empty_container [OF d w space_bytes(3) q(3), of ?n] q(1) deep
    unfolding parse_value_container(1) [OF d' p(1) refl] parse_array_def by (auto simp: Let_def)
qed

lemma empty_object_complete:
  assumes w: "json_ws w"
  shows "text_complete prof (LBRACE # w @ [RBRACE]) (JObj [])"
  unfolding text_complete_def
proof (intro allI impI)
  fix levels and p :: parser and up depth rest
  let ?n = "length (d_tokens (pdocument p))"
  assume p: "pinv 1 p" "up_ok p up" and d: "drop (poffset p) (pbytes p) = (LBRACE # w @ [RBRACE]) @ rest"
    and room: "?n + json_cells (JObj []) \<le> token_capacity (pdocument p)"
    and depth: "depth + json_height (JObj []) \<le> maximum_depth (plimits p)"
  have d': "drop (poffset p) (pbytes p) = LBRACE # w @ RBRACE # rest" using d by simp
  obtain q where q: "add_token p TYPE_OBJECT (poffset p) up False = (Ret ?n, q)" "\<not> at_end q"
    "reads p [LBRACE] [container_cell up TYPE_OBJECT] (advance q)"
    using container_start [OF p cells_here [OF room] d', of TYPE_OBJECT] by auto
  have deep: "\<not> depth \<ge> maximum_depth (plimits p)" using depth by simp
  show "\<exists>p'. parse_value (Suc levels) p up depth = (Ret ?n, p') \<and>
     reads p (LBRACE # w @ [RBRACE]) (layout up ?n (JObj [])) p'"
    using empty_container [OF d w space_bytes(2) q(3), of ?n] q(1) deep
    unfolding parse_value_container(2) [OF d' p(1) refl] parse_object_def by (auto simp: Let_def)
qed

lemma array_complete:
  assumes more: "elements_complete prof bs vs" and bs: "json_elements prof bs vs"
  shows "text_complete prof (LBRACKET # bs @ [RBRACKET]) (JArr vs)"
  unfolding text_complete_def
proof (intro allI impI)
  fix levels and p :: parser and up depth rest
  let ?n = "length (d_tokens (pdocument p))"
  assume p: "pprofile p = prof" "pinv 1 p" "up_ok p up" and d: "drop (poffset p) (pbytes p) = (LBRACKET # bs @ [RBRACKET]) @ rest"
    and room: "?n + json_cells (JArr vs) \<le> token_capacity (pdocument p)"
    and depth: "depth + json_height (JArr vs) \<le> maximum_depth (plimits p)" "maximum_depth (plimits p) \<le> depth + levels"
    and keys: "prof = RFC8259_LAST_WINS \<or> unique_keys (JArr vs)"
  have d': "drop (poffset p) (pbytes p) = LBRACKET # bs @ RBRACKET # rest" using d by simp
  have d1: "drop (poffset p) (pbytes p) = [LBRACKET] @ (bs @ RBRACKET # rest)" using d by simp
  obtain q where q: "add_token p TYPE_ARRAY (poffset p) up False = (Ret ?n, q)" "\<not> at_end q"
    "reads p [LBRACKET] [container_cell up TYPE_ARRAY] (advance q)"
    using container_start [OF p(2,3) cells_here [OF room] d', of TYPE_ARRAY] by auto
  note r = readsD [OF q(3) d1]
  have deep: "\<not> depth \<ge> maximum_depth (plimits p)" "\<forall>v \<in> set vs. depth + 1 + json_height v \<le> maximum_depth (plimits p)"
    using depth(1) unfolding json_height_le by auto
  then obtain levels' where l: "levels = Suc levels'" using depth(2) by (cases levels) auto
  obtain w c bs' where c: "bs = w @ c # bs'" "json_ws w" "\<not> is_space c" "c \<noteq> RBRACKET"
    using json_elements_start [OF bs] by (auto simp: starts_inside_def)
  have d2: "drop (poffset (advance q)) (pbytes (advance q)) = bs @ RBRACKET # rest" using r(4,8) by simp
  note k = skip_to [OF r(3) d2 [unfolded c(1)] c(2,3)]
  have "length (bs @ RBRACKET # rest) \<le> length (pbytes (advance q))" unfolding d2 [symmetric] by simp
  then have turns: "length bs < length (pbytes (skip_space (advance q))) + 1" by simp
  obtain p' where p': "parse_elements (parse_value (Suc levels')) (length (pbytes (skip_space (advance q))) + 1)
      (skip_space (advance q)) ?n depth = (Ret (), p')"
    "reads (advance q) (bs @ [RBRACKET]) (layout_elements ?n (?n + 1) vs) p'"
    using more [unfolded elements_complete_def, rule_format, of "advance q" ?n rest depth levels'
        "length (pbytes (skip_space (advance q))) + 1"] r d2 p(1) room deep depth(2) keys turns l
    by (auto simp del: parse_elements.simps parse_value.simps)
  have rd: "reads p (LBRACKET # bs @ [RBRACKET]) (layout up ?n (JArr vs)) p'"
    using reads_trans [OF q(3) p'(2)] by simp
  have pv: "parse_value (Suc levels) p up depth = close_container p' ?n"
    using q(1) deep(1) k(1,2) c(4) p'(1) l
    unfolding parse_value_container(1) [OF d' p(2) refl] parse_array_def
    by (simp add: Let_def del: parse_elements.simps parse_value.simps)
  show "\<exists>p'. parse_value (Suc levels) p up depth = (Ret ?n, p') \<and>
     reads p (LBRACKET # bs @ [RBRACKET]) (layout up ?n (JArr vs)) p'"
    unfolding pv by (rule container_finish [OF rd])
qed

lemma object_complete:
  assumes more: "members_complete prof bs ms" and bs: "json_members prof bs ms"
  shows "text_complete prof (LBRACE # bs @ [RBRACE]) (JObj ms)"
  unfolding text_complete_def
proof (intro allI impI)
  fix levels and p :: parser and up depth rest
  let ?n = "length (d_tokens (pdocument p))"
  assume p: "pprofile p = prof" "pinv 1 p" "up_ok p up" and d: "drop (poffset p) (pbytes p) = (LBRACE # bs @ [RBRACE]) @ rest"
    and room: "?n + json_cells (JObj ms) \<le> token_capacity (pdocument p)"
    and depth: "depth + json_height (JObj ms) \<le> maximum_depth (plimits p)" "maximum_depth (plimits p) \<le> depth + levels"
    and keys: "prof = RFC8259_LAST_WINS \<or> unique_keys (JObj ms)"
  have d': "drop (poffset p) (pbytes p) = LBRACE # bs @ RBRACE # rest" using d by simp
  have d1: "drop (poffset p) (pbytes p) = [LBRACE] @ (bs @ RBRACE # rest)" using d by simp
  obtain q where q: "add_token p TYPE_OBJECT (poffset p) up False = (Ret ?n, q)" "\<not> at_end q"
    "reads p [LBRACE] [container_cell up TYPE_OBJECT] (advance q)"
    using container_start [OF p(2,3) cells_here [OF room] d', of TYPE_OBJECT] by auto
  note r = readsD [OF q(3) d1]
  have deep: "\<not> depth \<ge> maximum_depth (plimits p)" "\<forall>(k, v) \<in> set ms. depth + 1 + json_height v \<le> maximum_depth (plimits p)"
    using depth(1) unfolding json_height_le by auto
  then obtain levels' where l: "levels = Suc levels'" using depth(2) by (cases levels) auto
  obtain w c bs' where c: "bs = w @ c # bs'" "json_ws w" "\<not> is_space c" "c \<noteq> RBRACE"
    using json_members_start [OF bs] by (auto simp: starts_inside_def)
  have d2: "drop (poffset (advance q)) (pbytes (advance q)) = bs @ RBRACE # rest" using r(4,8) by simp
  note k = skip_to [OF r(3) d2 [unfolded c(1)] c(2,3)]
  have "length (bs @ RBRACE # rest) \<le> length (pbytes (advance q))" unfolding d2 [symmetric] by simp
  then have turns: "length bs < length (pbytes (skip_space (advance q))) + 1" by simp
  have "unused_keys (pdocument (advance q)) ?n (fst ` set ms)"
    by (rule unused_keys_opened [OF p(2) cells_here [OF room] r(2)])
  then obtain p' where p': "parse_members (parse_value (Suc levels')) (length (pbytes (skip_space (advance q))) + 1)
      (skip_space (advance q)) ?n depth = (Ret (), p')"
    "reads (advance q) (bs @ [RBRACE]) (layout_members ?n (?n + 1) ms) p'"
    using more [unfolded members_complete_def, rule_format, of "advance q" ?n rest depth levels'
        "length (pbytes (skip_space (advance q))) + 1"] r d2 p(1) room deep depth(2) keys turns l
    by (auto simp del: parse_members.simps parse_value.simps)
  have rd: "reads p (LBRACE # bs @ [RBRACE]) (layout up ?n (JObj ms)) p'"
    using reads_trans [OF q(3) p'(2)] by simp
  have pv: "parse_value (Suc levels) p up depth = close_container p' ?n"
    using q(1) deep(1) k(1,2) c(4) p'(1) l
    unfolding parse_value_container(2) [OF d' p(2) refl] parse_object_def
    by (simp add: Let_def del: parse_members.simps parse_value.simps)
  show "\<exists>p'. parse_value (Suc levels) p up depth = (Ret ?n, p') \<and>
     reads p (LBRACE # bs @ [RBRACE]) (layout up ?n (JObj ms)) p'"
    unfolding pv by (rule container_finish [OF rd])
qed

section \<open>Every text of the grammar\<close>

lemma json_complete:
  "json_text prof t v \<Longrightarrow> text_complete prof t v"
  "json_elements prof bs vs \<Longrightarrow> elements_complete prof bs vs"
  "json_members prof cs ms \<Longrightarrow> members_complete prof cs ms"
proof (induction rule: json_text_json_elements_json_members.inducts)
  case text_null
  show ?case
    by (rule primitive_complete) (auto simp: classify_primitive_def ascii_def is_delimiter_def is_space_def)
next
  case text_true
  show ?case
    by (rule primitive_complete) (auto simp: classify_primitive_def ascii_def is_delimiter_def is_space_def)
next
  case text_false
  show ?case
    by (rule primitive_complete) (auto simp: classify_primitive_def ascii_def is_delimiter_def is_space_def)
next
  case (text_number n)
  note c = number_chars [OF text_number]
  obtain b bs where b: "n = b # bs" "number_char b" using c by (cases n) auto
  note o = number_char_other [OF b(2)]
  have "classify_primitive n = Some (TYPE_NUMBER, False)"
    using o b(1) text_number number_syntax_grammar [of n] by (auto simp: classify_primitive_def ascii_def)
  then show ?case
    using c number_char_other(1) o b(1) by (intro primitive_complete) auto
next
  case (text_string raw s)
  then show ?case by (rule string_complete)
next
  case (text_empty_array w)
  then show ?case by (rule empty_array_complete)
next
  case (text_array bs vs)
  then show ?case by (simp add: array_complete)
next
  case (text_empty_object w)
  then show ?case by (rule empty_object_complete)
next
  case (text_object bs ms)
  then show ?case by (simp add: object_complete)
qed (simp_all add: elements_one_complete elements_more_complete members_one_complete members_more_complete)

text \<open>A text has at least one byte for each cell.\<close>

lemma json_cells_text:
  "json_text prof t v \<Longrightarrow> json_cells v \<le> length t"
  "json_elements prof bs vs \<Longrightarrow> sum_list (map json_cells vs) \<le> length bs"
  "json_members prof cs ms \<Longrightarrow> members_size ms \<le> length cs"
proof (induction rule: json_text_json_elements_json_members.inducts)
  case (text_number n)
  then show ?case using number_chars(1) [of n] by (cases n) auto
qed (auto simp: ascii_def)

section \<open>A layout has one value\<close>

lemma layout_prefix:
  assumes "layout up i v @ xs = layout up i w @ ys" "up < i"
    "xs = [] \<or> c_parent (hd xs) = up" "ys = [] \<or> c_parent (hd ys) = up"
  shows "layout up i v = layout up i w \<and> xs = ys"
proof -
  have tails: "takeWhile (\<lambda>c. c_parent c \<noteq> up) (tl (layout up i u @ zs)) = tl (layout up i u)"
    if "zs = [] \<or> c_parent (hd zs) = up" for u zs
  proof -
    have "\<forall>c \<in> set (tl (layout up i u)). c_parent c \<noteq> up"
      using layout_parents(1) [of up i u] assms(2) by (auto simp: inside_def)
    then show ?thesis using that by (cases zs) (auto simp: takeWhile_append takeWhile_eq_all_conv)
  qed
  have "tl (layout up i v) = tl (layout up i w)"
    using tails [OF assms(3), of v] tails [OF assms(4), of w] assms(1) by simp
  moreover have "hd (layout up i v) = hd (layout up i w)"
    using arg_cong [OF assms(1), of hd] by simp
  ultimately have "layout up i v = layout up i w"
    by (metis layout_nonempty list.collapse)
  with assms(1) show ?thesis by simp
qed

lemma layout_elements_hd: "layout_elements up i vs = [] \<or> c_parent (hd (layout_elements up i vs)) = up"
  by (cases vs) (simp_all add: layout_hd(2))

lemma layout_members_hd: "layout_members up i ms = [] \<or> c_parent (hd (layout_members up i ms)) = up"
  by (cases ms) auto

lemma layout_injective:
  "\<forall>w. layout up i v = layout up i w \<longrightarrow> v = w"
  "up < i \<longrightarrow> (\<forall>ws. layout_elements up i vs = layout_elements up i ws \<longrightarrow> vs = ws)"
  "up < i \<longrightarrow> (\<forall>ns. layout_members up i ms = layout_members up i ns \<longrightarrow> ms = ns)"
proof (induction up i v and up i vs and up i ms rule: layout_layout_elements_layout_members.induct)
  case (7 up i)
  have "layout_elements up i ws = [] \<Longrightarrow> ws = []" for ws by (cases ws) auto
  then show ?case by (metis layout_elements.simps(1))
next
  case (9 up i)
  have "layout_members up i ws = [] \<Longrightarrow> ws = []" for ws by (cases ws) auto
  then show ?case by (metis layout_members.simps(1))
next
  case (8 up i v vs)
  show ?case
  proof (intro impI allI)
    fix ws assume up: "up < i" and eq: "layout_elements up i (v # vs) = layout_elements up i ws"
    obtain w ws' where w: "ws = w # ws'" using eq by (cases ws) auto
    have "layout up i v = layout up i w \<and> layout_elements up (i + json_cells v) vs = layout_elements up (i + json_cells w) ws'"
      by (rule layout_prefix) (use eq w up layout_elements_hd in auto)
    with 8 up w show "v # vs = ws" by (metis trans_less_add1)
  qed
next
  case (10 up i k v ms)
  show ?case
  proof (intro impI allI)
    fix ns assume up: "up < i" and eq: "layout_members up i ((k, v) # ms) = layout_members up i ns"
    obtain k' w ns' where w: "ns = (k', w) # ns'" using eq by (cases ns) auto
    have "layout up (i + 1) v = layout up (i + 1) w \<and>
        layout_members up (i + 1 + json_cells v) ms = layout_members up (i + 1 + json_cells w) ns'"
      by (rule layout_prefix) (use eq w up layout_members_hd in auto)
    with 10 up w eq show "(k, v) # ms = ns" by (auto simp: trans_less_add1)
  qed
next
  case (5 up i vs)
  then show ?case by (auto elim!: layout.elims [OF sym])
next
  case (6 up i ms)
  then show ?case by (auto elim!: layout.elims [OF sym])
qed (auto elim!: layout.elims [OF sym])

lemma represents_unique: "represents d v \<Longrightarrow> represents d w \<Longrightarrow> v = w"
  using layout_injective(1) [of VALUE_NONE 0 v] by (simp add: represents_def)

section \<open>The whole text\<close>

definition within :: "limits \<Rightarrow> profile \<Rightarrow> json \<Rightarrow> bool" where
  "within l prof v \<longleftrightarrow>
     json_height v \<le> maximum_depth l \<and> json_cells v \<le> maximum_tokens l \<and>
     (prof = RFC8259_LAST_WINS \<or> unique_keys v)"

lemma parse_root_complete:
  assumes p: "pinv 1 p" "poffset p = 0" "d_tokens (pdocument p) = []"
    and doc: "json_document (pprofile p) (pbytes p) v" and cells: "json_cells v \<le> token_capacity (pdocument p)"
    and depth: "json_height v \<le> maximum_depth (plimits p)"
    and keys: "pprofile p = RFC8259_LAST_WINS \<or> unique_keys v"
  shows "\<exists>p'. parse_root p = (Ret (), p') \<and> static p' = static p \<and> cells (pdocument p') = layout VALUE_NONE 0 v"
proof -
  obtain w1 t w2 where t: "pbytes p = w1 @ t @ w2" "json_ws w1" "json_text (pprofile p) t v" "json_ws w2"
    using doc by (auto simp: json_document_def)
  have d: "drop (poffset p) (pbytes p) = w1 @ t @ w2" using t(1) p(2) by simp
  have up: "up_ok p VALUE_NONE" by (simp add: up_ok_def)
  have "w2 = [] \<or> is_space (hd w2)" using t(4) by (cases w2) (auto simp: is_space_ws)
  then have rest: "delimited w2" by (auto simp: delimited_def is_delimiter_def)
  obtain q where q: "parse_value (Suc (maximum_depth (plimits p))) p VALUE_NONE 0 = (Ret 0, q)"
    "reads p (w1 @ t) (layout VALUE_NONE 0 v) q"
    using text_completeD [OF json_complete(1) [OF t(3)] refl p(1) up d t(2,3) rest, of 0 "maximum_depth (plimits p)"]
      p(3) cells depth keys by auto
  have d': "drop (poffset p) (pbytes p) = (w1 @ t) @ w2" using d by simp
  note r = readsD [OF q(2) d']
  have e: "drop (poffset q) (pbytes q) = w2 @ []" using r(4,8) by simp
  note s = skip_space_at [OF r(3) e t(4)]
  have "poffset (skip_space q) = length (pbytes (skip_space q))"
    using s(1) arg_cong [OF e, of length] pinvD(3) [OF r(3)] by simp
  then have "parse_root p = (Ret (), skip_space q)"
    using q(1) by (simp add: parse_root_def parse_levels_def Let_def del: parse_value.simps)
  then show ?thesis using r(1,2) p(3) by (simp add: cells_def)
qed

text \<open>What \<open>run_parser\<close> does for such a text when no allocation fails.\<close>

lemma run_parser_complete:
  assumes n: "n \<le> SIZE_MAX div 256" and err: "\<And>e. err = Some e \<Longrightarrow> err_code e = OK" and fates: "fates h = []"
    and v: "json_document prof bs v" "json_cells v \<le> n" "json_height v \<le> maximum_depth l"
      "prof = RFC8259_LAST_WINS \<or> unique_keys v"
  shows "\<exists>p. run_parser (initial_parser (fresh_document bs n) prof l err h) = (Ret (), p) \<and>
    cells (pdocument p) = layout VALUE_NONE 0 v"
proof -
  let ?p = "initial_parser (fresh_document bs n) prof l err h"
  let ?d = "(fresh_document bs n)\<lparr>d_profile := prof\<rparr>"
  have n': "n < VALUE_NONE" "n div 2 + 1 \<le> SIZE_MAX div 4"
    using n by (simp_all add: VALUE_NONE_def SIZE_MAX_def)
  have pf: "pdocument ?p = ?d" "pheap ?p = h" "token_capacity ?d = n" "pprofile ?p = prof" "plimits ?p = l"
    by (simp_all add: initial_parser_def fresh_document_def)
  show ?thesis
    using n'(2)
  proof (cases rule: keyset_init_cases [where h = h and key_of = "token_key ?d"])
    case (memory s h')
    then show ?thesis using fates by simp
  next
    case (ready s h')
    let ?q = "?p\<lparr>pkeys := s, pheap := h'\<rparr>"
    have inv: "pinv 1 ?q" by (rule pinv_initial [OF ready(2,3,5) refl n'(1) err])
    obtain q where q: "parse_root ?q = (Ret (), q)" "cells (pdocument q) = layout VALUE_NONE 0 v"
      using parse_root_complete [OF inv, of v] v pf by (auto simp: initial_parser_def fresh_document_def)
    then show ?thesis
      using ready(1) by (simp add: run_parser_def pf Let_def split: prod.splits)
  qed
qed

lemma document_token_capacity_cells:
  assumes "json_document prof bs v" "json_cells v \<le> maximum_tokens l"
  shows "json_cells v \<le> document_token_capacity (length bs) l"
proof -
  obtain t where "json_text prof t v" "length t \<le> length bs" using assms(1) by (auto simp: json_document_def)
  then have "json_cells v \<le> length bs" using json_cells_text(1) by fastforce
  then show ?thesis using assms(2) by (auto simp: document_token_capacity_def Let_def)
qed

text \<open>The parser's limits are those of the value, and the value is the only one of the text.\<close>

lemma json_document_unique:
  assumes v: "json_document prof bs v" and w: "json_document prof bs w"
    and l: "maximum_tokens l \<le> SIZE_MAX div 256" "within l prof v" "within l prof w"
  shows "v = w"
proof -
  let ?n = "document_token_capacity (length bs) l"
  let ?h = "\<lparr>fates = [], live = 0, peak = 0\<rparr>"
  have n: "?n \<le> SIZE_MAX div 256" by (rule document_token_capacity_bounds(1) [OF l(1)])
  have r: "\<exists>p. run_parser (initial_parser (fresh_document bs ?n) prof l None ?h) = (Ret (), p) \<and>
      cells (pdocument p) = layout VALUE_NONE 0 u" if "json_document prof bs u" "within l prof u" for u
    by (rule run_parser_complete [OF n _ _ that(1)])
      (use that document_token_capacity_cells [OF that(1), of l] in \<open>auto simp: within_def\<close>)
  from r [OF v l(2)] r [OF w l(3)] have "layout VALUE_NONE 0 v = layout VALUE_NONE 0 w" by auto
  then show ?thesis using layout_injective(1) by blast
qed

text \<open>A value within the limits is parsed, and a successful parse is of such a value.\<close>

lemma parse_document_exact:
  assumes l: "maximum_tokens l \<le> SIZE_MAX div 256" and err: "\<And>e. err = Some e \<Longrightarrow> err_code e = OK"
    and doc: "json_document prof bs v" "within l prof v" and fates: "fates h = []"
  shows "\<exists>d h'. parse_document bs prof l err h = (Ret d, err, h') \<and> represents d (last_wins v)"
proof -
  let ?n = "document_token_capacity (length bs) l"
  have n: "?n \<le> SIZE_MAX div 256" by (rule document_token_capacity_bounds(1) [OF l(1)])
  have c: "json_cells v \<le> ?n"
    using document_token_capacity_cells [OF doc(1)] doc(2) by (simp add: within_def)
  from allocate_document_ends [of bs l h] fates obtain h0 where h0:
    "allocate_document bs l h = (Ret (fresh_document bs ?n), h0)" "fates h0 = []"
    "live h0 = live h + base_size (length bs) ?n" by blast
  obtain p where p: "run_parser (initial_parser (fresh_document bs ?n) prof l err h0) = (Ret (), p)"
    "cells (pdocument p) = layout VALUE_NONE 0 v"
    using run_parser_complete [OF n err h0(2) doc(1) c] doc(2) by (auto simp: within_def)
  note run = run_parser_ends [OF n, where err = err and bs = bs and prof = prof and l = l and h = h0, OF err,
      unfolded p(1) run_ends_def fst_conv snd_conv Let_def]
  let ?d = "pdocument p"
  obtain u where u: "json_document prof bs u" "compactable ?d u" "json_cells u \<le> ?n" "duplicate_count ?d = card (superseded_set ?d)"
    "doc_inv ?d" "perror p = err" "fates (pheap p) = []"
    using run h0(2) by auto
  have uv: "u = v" using u(2) p(2) layout_injective(1) [of VALUE_NONE 0 u] by (simp add: compactable_def)
  have fp: "footprint ?d = base_size (length bs) ?n"
    using run by (simp add: footprint_def base_size_def children_size_def)
  have "finish_ends ?d u (pheap p) ((if duplicate_count ?d = 0 then 0 else token_capacity ?d * SIZEOF_TOKEN + arena_capacity ?d)
          + token_capacity ?d * SIZEOF_SIZE_T) (finish_document ?d (pheap p))"
  proof (rule finish_document_ends [OF u(2,4)])
    show "children ?d = None" "length (d_tokens ?d) \<le> token_capacity ?d"
      using run doc_invD(3) [OF u(5)] by simp_all
    show "arena_room (text_size (last_wins u)) \<le> arena_capacity ?d" using arena_fits [OF u(1,3)] run by simp
    show "footprint ?d \<le> live (pheap p)" using fp run h0(3) by simp
  qed
  moreover obtain r d h' where m: "finish_document ?d (pheap p) = (r, d, h')" by (metis prod_cases3)
  ultimately have "r = Ret d \<and> represents d (last_wins u)"
    using u(7) by (cases r) (auto simp: finish_ends_def)
  then show ?thesis using h0(1) p(1) m u(6) uv by (simp add: parse_document_def Let_def)
qed

end
