(* ===== verification/Reader.thy ===== *)
theory Reader
  imports Document Parser_Complete
begin

text \<open>
  What the readers of \<^verbatim>\<open>src/document.c\<close> do on a document that represents a value: the handles of
  its subvalues, what each accessor returns for one, and the integers of the number lexemes.
\<close>

section \<open>Handles and the values they denote\<close>

definition denotes :: "document \<Rightarrow> nat \<Rightarrow> json \<Rightarrow> bool" where
  "denotes d h v \<longleftrightarrow> (\<exists>root up. represents d root \<and> (up, h, v) \<in> set (subvalues VALUE_NONE 0 root))"

fun json_type_of :: "json \<Rightarrow> json_type" where
  "json_type_of JNull = TYPE_NULL"
| "json_type_of (JBool b) = TYPE_BOOLEAN"
| "json_type_of (JNum n) = TYPE_NUMBER"
| "json_type_of (JStr s) = TYPE_STRING"
| "json_type_of (JArr vs) = TYPE_ARRAY"
| "json_type_of (JObj ms) = TYPE_OBJECT"

lemma denotes_root: "represents d v \<Longrightarrow> denotes d 0 v"
  unfolding denotes_def using subvalues_root by blast

lemma denotes_element:
  "denotes d h (JArr vs) \<Longrightarrow> k < length vs \<Longrightarrow> denotes d (element_handles (h + 1) vs ! k) (vs ! k)"
  unfolding denotes_def using subvalues_element by blast

lemma denotes_member:
  "denotes d h (JObj ms) \<Longrightarrow> k < length ms \<Longrightarrow> denotes d (member_handles (h + 1) ms ! (2 * k + 1)) (snd (ms ! k))"
  unfolding denotes_def using subvalues_member by blast

text \<open>The token of a handle.\<close>

lemma denotes_cell:
  assumes "denotes d h v"
  shows "h < length (d_tokens d)" "cells d ! h = hd (layout (c_parent (cells d ! h)) h v)"
    "ttype (d_tokens d ! h) = json_type_of v"
proof -
  obtain root up where r: "represents d root" "(up, h, v) \<in> set (subvalues VALUE_NONE 0 root)"
    using assms by (auto simp: denotes_def)
  then have c: "cells d = layout VALUE_NONE 0 root" by (simp add: represents_def)
  note s = subvalue_cell [OF c r(2)]
  show "h < length (d_tokens d)" by (rule s(2))
  show "cells d ! h = hd (layout (c_parent (cells d ! h)) h v)" using s(1) layout_hd(2) by simp
  show "ttype (d_tokens d ! h) = json_type_of v"
    using s cells_type [OF s(2)] by (cases v) auto
qed

lemma denotes_text:
  assumes "denotes d h v" "json_type_of v \<in> {TYPE_STRING, TYPE_NUMBER}"
  shows "v = JStr (token_text (arena d) (d_tokens d ! h)) \<or> v = JNum (token_text (arena d) (d_tokens d ! h))"
  using denotes_cell [OF assms(1)] assms(2) by (cases v) (auto simp: cells_def cell_of_def split: option.splits if_splits)

lemma denotes_children:
  assumes "denotes d h v" "json_type_of v \<in> {TYPE_OBJECT, TYPE_ARRAY}"
  shows "child_count (links (d_tokens d ! h)) = length (child_handles h v)"
    "k < length (child_handles h v) \<Longrightarrow> child_at d (d_tokens d ! h) k = Ret (child_handles h v ! k)"
proof -
  obtain root up where r: "represents d root" "(up, h, v) \<in> set (subvalues VALUE_NONE 0 root)"
    using assms by (auto simp: denotes_def)
  then have c: "cells d = layout VALUE_NONE 0 root" "linked (d_tokens d)" "indexed d"
    by (simp_all add: represents_def)
  note h = denotes_cell [OF assms(1)]
  have ks: "kids (d_tokens d) h = child_handles h v"
    by (rule kids_subvalue [OF c(1) _ r(2)]) (use c(2) in \<open>simp add: linked_def\<close>)
  have "is_container (d_tokens d ! h)" using h(3) assms(2) by (auto simp: is_container_def)
  then obtain cs pre suf where cs: "children d = Some cs" "child_count (links (d_tokens d ! h)) = length (child_handles h v)"
    "cs = pre @ child_handles h v @ suf" "length pre = children_offset (d_tokens d ! h)"
    using c(3) h(1) ks by (auto simp: indexed_def Let_def)
  show "child_count (links (d_tokens d ! h)) = length (child_handles h v)" by (rule cs(2))
  show "k < length (child_handles h v) \<Longrightarrow> child_at d (d_tokens d ! h) k = Ret (child_handles h v ! k)"
    using cs by (simp add: child_at_def nth_append)
qed

lemma token_of_denotes:
  "denotes d h v \<Longrightarrow> token_of (Some d) h ty = (if json_type_of v = ty then Ret (d, d_tokens d ! h) else Fail ERR_TYPE)"
  using denotes_cell [of d h v] by (simp add: token_of_def)

section \<open>Containers\<close>

lemma array_size_denotes:
  "denotes d h v \<Longrightarrow> array_size (Some d) h True = (case v of JArr vs \<Rightarrow> Ret (length vs) | _ \<Rightarrow> Fail ERR_TYPE)"
  using denotes_children(1) [of d h v] by (cases v) (auto simp: array_size_def token_of_denotes)

lemma array_get_denotes:
  "denotes d h v \<Longrightarrow> array_get (Some d) h k True =
     (case v of JArr vs \<Rightarrow> if k < length vs then Ret (element_handles (h + 1) vs ! k) else Fail ERR_RANGE
      | _ \<Rightarrow> Fail ERR_TYPE)"
  using denotes_children [of d h v] by (cases v) (auto simp: array_get_def token_of_denotes)

lemma object_size_denotes:
  "denotes d h v \<Longrightarrow> object_size (Some d) h True = (case v of JObj ms \<Rightarrow> Ret (length ms) | _ \<Rightarrow> Fail ERR_TYPE)"
  using denotes_children(1) [of d h v] by (cases v) (auto simp: object_size_def token_of_denotes)

lemma key_at_denotes:
  assumes "denotes d h (JObj ms)" "k < length ms"
  shows "\<exists>t. key_at d (d_tokens d ! h) (2 * k) = Ret t \<and> token_text (arena d) t = fst (ms ! k) \<and>
    ttext_size t = length (fst (ms ! k))"
proof -
  obtain root up where r: "represents d root" "(up, h, JObj ms) \<in> set (subvalues VALUE_NONE 0 root)"
    using assms by (auto simp: denotes_def)
  then have c: "cells d = layout VALUE_NONE 0 root" "\<forall>t \<in> set (d_tokens d). text_ok (arena d) t"
    by (simp_all add: represents_def)
  let ?i = "member_handles (h + 1) ms ! (2 * k)"
  have "holds (cells d) h (layout up h (JObj ms))"
    using subvalues_holds(1) [OF r(2)] c(1) by simp
  then have "holds (cells d) (h + 1) (layout_members h (h + 1) ms)"
    using holds_split [of "cells d" h "[hd (layout up h (JObj ms))]" "layout_members h (h + 1) ms"] by simp
  from holds_trans [OF this conjunct2 [OF member_key_cell [OF assms(2)]]]
  moreover have "h + 1 + (?i - (h + 1)) = ?i" using conjunct1 [OF member_key_cell [OF assms(2), of "h + 1"]] by arith
  ultimately have "holds (cells d) ?i [key_cell h (fst (ms ! k))]" by simp
  from holds_nth [OF this, of 0] have i: "cells d ! ?i = key_cell h (fst (ms ! k))" "?i < length (d_tokens d)" by simp_all
  have ch: "child_at d (d_tokens d ! h) (2 * k) = Ret ?i"
    using denotes_children(2) [OF assms(1), of "2 * k"] assms(2) by simp
  let ?t = "d_tokens d ! ?i"
  have t: "object_key ?t" "token_text (arena d) ?t = fst (ms ! k)"
    using i by (simp_all add: cells_def cell_of_def split: option.splits if_splits)
  have "text_ok (arena d) ?t" using c(2) i(2) by simp
  moreover have "ttext ?t \<noteq> None" using i by (auto simp: cells_def cell_of_def split: option.splits if_splits)
  ultimately have "ttext_size ?t = length (fst (ms ! k))"
    by (auto simp: text_ok_def token_text_def t(2) [symmetric] split: option.splits)
  then show ?thesis using ch i(2) t by (simp add: key_at_def)
qed

lemma object_member_at_denotes:
  assumes "denotes d h v"
  shows "object_member_at (Some d) h k True =
     (case v of JObj ms \<Rightarrow> if k < length ms then Ret (fst (ms ! k), member_handles (h + 1) ms ! (2 * k + 1)) else Fail ERR_RANGE
      | _ \<Rightarrow> Fail ERR_TYPE)"
proof (cases v)
  case (JObj ms)
  have dn: "denotes d h (JObj ms)" using assms JObj by simp
  show ?thesis
  proof (cases "k < length ms")
    case True
    obtain t where t: "key_at d (d_tokens d ! h) (2 * k) = Ret t" "token_text (arena d) t = fst (ms ! k)"
      using key_at_denotes [OF dn True] by blast
    show ?thesis
      using denotes_children [OF dn] token_of_denotes [OF dn] t True JObj by (simp add: object_member_at_def)
  next
    case False
    then show ?thesis
      using denotes_children(1) [OF dn] token_of_denotes [OF dn] JObj by (simp add: object_member_at_def)
  qed
qed (use assms in \<open>simp_all add: object_member_at_def token_of_denotes\<close>)

lemma find_member_denotes:
  assumes dn: "denotes d h (JObj ms)" and key: "key_size \<noteq> 0 \<Longrightarrow> map_option (take key_size) key = Some kb"
    "key_size = 0 \<Longrightarrow> kb = []" "length kb = key_size"
  shows "i + n = length ms \<Longrightarrow> find_member d (d_tokens d ! h) key key_size i n =
    (case find (\<lambda>j. fst (ms ! j) = kb) [i..<length ms] of
       None \<Rightarrow> Fail ERR_NOT_FOUND | Some j \<Rightarrow> Ret (member_handles (h + 1) ms ! (2 * j + 1)))"
proof (induction n arbitrary: i)
  case (Suc n)
  then have i: "i < length ms" by simp
  obtain t where t: "key_at d (d_tokens d ! h) (2 * i) = Ret t" "token_text (arena d) t = fst (ms ! i)"
    "ttext_size t = length (fst (ms ! i))" using key_at_denotes [OF dn i] by blast
  have same: "(ttext_size t = key_size \<and> (key_size = 0 \<or> Some (token_text (arena d) t) = map_option (take key_size) key))
      \<longleftrightarrow> fst (ms ! i) = kb"
    using t(2,3) key by (cases "key_size = 0") auto
  have up: "[i..<length ms] = i # [Suc i..<length ms]" using i by (simp add: upt_conv_Cons)
  show ?case
  proof (cases "fst (ms ! i) = kb")
    case True
    have "child_at d (d_tokens d ! h) (2 * i + 1) = Ret (member_handles (h + 1) ms ! (2 * i + 1))"
      using denotes_children(2) [OF dn, of "2 * i + 1"] i by simp
    then show ?thesis using t(1) same True up by simp
  next
    case False
    have "find_member d (d_tokens d ! h) key key_size i (Suc n) = find_member d (d_tokens d ! h) key key_size (i + 1) n"
      by (simp only: find_member.simps t(1) bind_outcome.simps same False if_False)
    then show ?thesis using Suc.IH [of "i + 1"] Suc.prems up False by simp
  qed
qed simp

lemma find_fst: "find (\<lambda>j. fst (ms ! j) = k) [0..<length ms] =
    (if k \<in> fst ` set ms then Some (length (takeWhile (\<lambda>m. fst m \<noteq> k) ms)) else None)"
proof (cases "k \<in> fst ` set ms")
  case True
  let ?n = "length (takeWhile (\<lambda>m. fst m \<noteq> k) ms)"
  have n: "?n < length ms" using True by (induction ms) auto
  have "fst (ms ! ?n) = k" using nth_length_takeWhile [OF n] by simp
  moreover have "fst (ms ! j) \<noteq> k" if j: "j < ?n" for j
    using set_takeWhileD [OF nth_mem [OF j]] takeWhile_nth [OF j] by simp
  ultimately have "find (\<lambda>j. fst (ms ! j) = k) [0..<length ms] = Some ?n"
    unfolding find_Some_iff using n by (intro exI [of _ ?n]) simp
  then show ?thesis using True by simp
next
  case False
  then have "find (\<lambda>j. fst (ms ! j) = k) [0..<length ms] = None"
    by (auto simp: find_None_iff image_iff)
  then show ?thesis using False by simp
qed

lemma object_get_sized_denotes:
  assumes dn: "denotes d h v" and key: "n \<le> length k"
  shows "object_get_sized (Some d) h (Some k) n True =
    (case v of
       JObj ms \<Rightarrow>
         if take n k \<in> fst ` set ms
         then Ret (member_handles (h + 1) ms ! (2 * length (takeWhile (\<lambda>m. fst m \<noteq> take n k) ms) + 1))
         else Fail ERR_NOT_FOUND
     | _ \<Rightarrow> Fail ERR_TYPE)"
proof (cases v)
  case (JObj ms)
  have dn': "denotes d h (JObj ms)" using dn JObj by simp
  have "find_member d (d_tokens d ! h) (Some k) n 0 (length ms) =
    (case find (\<lambda>j. fst (ms ! j) = take n k) [0..<length ms] of
       None \<Rightarrow> Fail ERR_NOT_FOUND | Some j \<Rightarrow> Ret (member_handles (h + 1) ms ! (2 * j + 1)))"
    by (rule find_member_denotes [OF dn']) (use key in auto)
  then show ?thesis
    using denotes_children(1) [OF dn'] token_of_denotes [OF dn'] JObj
    by (simp add: object_get_sized_def find_fst)
qed (use dn in \<open>simp_all add: object_get_sized_def token_of_denotes\<close>)

section \<open>Scalars\<close>

lemma text_view_denotes:
  assumes "denotes d h v" "ty \<in> {TYPE_STRING, TYPE_NUMBER}"
  shows "text_view (Some d) h ty True =
    (case v of JStr s \<Rightarrow> if ty = TYPE_STRING then Ret s else Fail ERR_TYPE
     | JNum n \<Rightarrow> if ty = TYPE_NUMBER then Ret n else Fail ERR_TYPE | _ \<Rightarrow> Fail ERR_TYPE)"
  using assms denotes_text [OF assms(1)] by (cases v) (auto simp: text_view_def token_of_denotes)

lemma value_boolean_denotes:
  "denotes d h v \<Longrightarrow> value_boolean (Some d) h True = (case v of JBool b \<Rightarrow> Ret b | _ \<Rightarrow> Fail ERR_TYPE)"
  using denotes_cell(1,2) [of d h v]
  by (cases v) (auto simp: value_boolean_def token_of_denotes cells_def cell_of_def)

lemma value_type_denotes: "denotes d h v \<Longrightarrow> value_type (Some d) h = json_type_of v"
  using denotes_cell [of d h v] by (simp add: value_type_def)

lemma value_is_null_denotes: "denotes d h v \<Longrightarrow> value_is_null (Some d) h \<longleftrightarrow> v = JNull"
  using denotes_cell [of d h v] by (cases v) (simp_all add: value_is_null_def)

section \<open>Integers\<close>

text \<open>The integer a lexeme stands for, when it is one.\<close>

fun digits_value :: "nat \<Rightarrow> bytes \<Rightarrow> nat option" where
  "digits_value acc [] = Some acc"
| "digits_value acc (b # bs) = (if is_digit b then digits_value (acc * 10 + unat (b - 0x30)) bs else None)"

definition lexeme_integer :: "bytes \<Rightarrow> int option" where
  "lexeme_integer bs =
     (if bs \<noteq> [] \<and> bs ! 0 = MINUS then map_option (\<lambda>n. - int n) (digits_value 0 (tl bs))
      else map_option int (digits_value 0 bs))"

lemma digits_value_ge: "digits_value acc bs = Some n \<Longrightarrow> acc \<le> n"
  by (induction acc bs rule: digits_value.induct) (auto split: if_splits)

lemma digit_u64:
  fixes b :: byte
  assumes "is_digit b"
  shows "unat (ucast (b - 0x30) :: u64) = unat (b - 0x30)" "unat (b - 0x30) \<le> 9"
proof -
  show "unat (ucast (b - 0x30) :: u64) = unat (b - 0x30)"
    by (simp add: unsigned_ucast_eq take_bit_nat_eq_self unsigned_less [THEN order.strict_trans2])
  have "0x30 \<le> b" "b \<le> 0x39" using assms by (simp_all add: is_digit_def)
  then show "unat (b - 0x30) \<le> 9" by (simp add: unat_sub word_le_nat_alt)
qed

lemma magnitude_step:
  fixes m x :: u64
  assumes "unat x \<le> 9" "9 \<le> unat maximum"
  shows "m > (maximum - x) div 10 \<longleftrightarrow> unat maximum < unat m * 10 + unat x"
    "unat m * 10 + unat x \<le> unat maximum \<Longrightarrow> unat (m * 10 + x) = unat m * 10 + unat x"
proof -
  have "x \<le> maximum" using assms by (simp add: word_le_nat_alt)
  then have "unat ((maximum - x) div 10) = (unat maximum - unat x) div 10"
    by (simp add: unat_div unat_sub)
  then show "m > (maximum - x) div 10 \<longleftrightarrow> unat maximum < unat m * 10 + unat x"
    using assms by (auto simp: word_less_nat_alt div_less_iff_less_mult)
  assume "unat m * 10 + unat x \<le> unat maximum"
  then have "unat m * unat (10 :: u64) + unat x < 2 ^ LENGTH(64)" using unsigned_less [of maximum, where ?'a = nat] by simp
  then show "unat (m * 10 + x) = unat m * 10 + unat x"
    by (simp add: unat_word_ariths)
qed

lemma magnitude_loop_value:
  assumes "9 \<le> unat maximum" "unat m \<le> unat maximum"
  shows "case digits_value (unat m) bs of
     Some n \<Rightarrow> magnitude_loop maximum bs m = (if n \<le> unat maximum then Ret (of_nat n) else Fail ERR_RANGE)
   | None \<Rightarrow> magnitude_loop maximum bs m = Fail ERR_NOT_INTEGER \<or> magnitude_loop maximum bs m = Fail ERR_RANGE"
  using assms(2)
proof (induction bs arbitrary: m)
  case (Cons b bs)
  show ?case
  proof (cases "is_digit b")
    case False
    then show ?thesis by (auto simp: is_digit_def not_le)
  next
    case True
    let ?x = "ucast (b - 0x30) :: u64"
    note x = digit_u64 [OF True]
    have s: "m > (maximum - ?x) div 10 \<longleftrightarrow> unat maximum < unat m * 10 + unat ?x"
      "unat m * 10 + unat ?x \<le> unat maximum \<Longrightarrow> unat (m * 10 + ?x) = unat m * 10 + unat ?x"
      using magnitude_step [of ?x maximum m] x assms(1) by simp_all
    show ?thesis
    proof (cases "unat maximum < unat m * 10 + unat ?x")
      case big: True
      then show ?thesis
        using s(1) True x(1) digits_value_ge [of "unat m * 10 + unat ?x" bs]
        by (auto simp: is_digit_def Let_def split: option.splits)
    next
      case ok: False
      then have u: "unat (m * 10 + ?x) = unat m * 10 + unat ?x" using s(2) by simp
      show ?thesis
        using Cons.IH [of "m * 10 + ?x"] ok s(1) u True x(1)
        by (auto simp: is_digit_def Let_def not_less split: option.splits)
    qed
  qed
qed simp

lemma lexeme_magnitude_value:
  assumes "9 \<le> unat maximum"
  shows "case lexeme_integer bs of
     Some i \<Rightarrow> lexeme_magnitude bs maximum =
       (if nat \<bar>i\<bar> \<le> unat maximum then Ret (of_nat (nat \<bar>i\<bar>), bs \<noteq> [] \<and> bs ! 0 = MINUS) else Fail ERR_RANGE) \<and>
       (bs \<noteq> [] \<and> bs ! 0 = MINUS \<longrightarrow> i \<le> 0) \<and> (\<not> (bs \<noteq> [] \<and> bs ! 0 = MINUS) \<longrightarrow> 0 \<le> i)
   | None \<Rightarrow> lexeme_magnitude bs maximum = Fail ERR_NOT_INTEGER \<or> lexeme_magnitude bs maximum = Fail ERR_RANGE"
proof (cases "bs \<noteq> [] \<and> bs ! 0 = MINUS")
  case True
  then obtain ds where ds: "bs = MINUS # ds" by (cases bs) auto
  then show ?thesis
    using magnitude_loop_value [OF assms, of 0 ds]
    by (auto simp: lexeme_integer_def lexeme_magnitude_def split: option.splits)
next
  case False
  then have "lexeme_integer bs = map_option int (digits_value 0 bs)"
      "lexeme_magnitude bs maximum = bind_outcome (magnitude_loop maximum bs 0) (\<lambda>m. Ret (m, False))"
    by (simp_all only: lexeme_integer_def lexeme_magnitude_def Let_def if_False drop_0)
  then show ?thesis
    using magnitude_loop_value [OF assms, of 0 bs] False by (auto split: option.splits)
qed

lemma read_magnitude_denotes:
  assumes "denotes d h v"
  shows "read_magnitude (Some d) h m = (case v of JNum n \<Rightarrow> lexeme_magnitude n m | _ \<Rightarrow> Fail ERR_TYPE)"
  using assms denotes_text [OF assms] by (cases v) (auto simp: read_magnitude_def token_of_denotes)

lemma unat_of_nat_u64: "k < 2 ^ 64 \<Longrightarrow> unat (of_nat k :: u64) = k"
  by (simp add: unsigned_of_nat take_bit_nat_eq_self)

lemma value_u64_denotes:
  assumes "denotes d h v"
  shows "case v of
     JNum n \<Rightarrow>
       (case lexeme_integer n of
          Some i \<Rightarrow> value_u64 (Some d) h True = (if 0 \<le> i \<and> i < 2 ^ 64 then Ret (of_int i) else Fail ERR_RANGE)
        | None \<Rightarrow> value_u64 (Some d) h True \<in> {Fail ERR_NOT_INTEGER, Fail ERR_RANGE})
   | _ \<Rightarrow> value_u64 (Some d) h True = Fail ERR_TYPE"
proof (cases v)
  case (JNum n)
  have m: "unat UINT64_MAX = 2 ^ 64 - 1" by (simp add: UINT64_MAX_def)
  then have "9 \<le> unat UINT64_MAX" by simp
  note l = lexeme_magnitude_value [OF this, of n]
  have e: "value_u64 (Some d) h True = bind_outcome (lexeme_magnitude n UINT64_MAX)
      (\<lambda>(magnitude, negative). if negative \<and> magnitude \<noteq> 0 then Fail ERR_RANGE else Ret magnitude)"
    using read_magnitude_denotes [OF assms] JNum by (simp add: value_u64_def)
  show ?thesis
  proof (cases "lexeme_integer n")
    case None
    then show ?thesis using l e JNum by auto
  next
    case (Some i)
    let ?neg = "n \<noteq> [] \<and> n ! 0 = MINUS"
    have lm: "lexeme_magnitude n UINT64_MAX = (if nat \<bar>i\<bar> \<le> 2 ^ 64 - 1 then Ret (of_nat (nat \<bar>i\<bar>), ?neg) else Fail ERR_RANGE)"
        "?neg \<Longrightarrow> i \<le> 0" "\<not> ?neg \<Longrightarrow> 0 \<le> i"
      using l Some m by auto
    show ?thesis
    proof (cases "nat \<bar>i\<bar> \<le> 2 ^ 64 - 1")
      case False
      then show ?thesis using lm(1) e Some JNum by auto
    next
      case True
      have u: "unat (of_nat (nat \<bar>i\<bar>) :: u64) = nat \<bar>i\<bar>" by (rule unat_of_nat_u64) (use True in simp)
      have zero: "(of_nat (nat \<bar>i\<bar>) :: u64) = 0 \<longleftrightarrow> i = 0"
        using arg_cong [where f = unat, of "of_nat (nat \<bar>i\<bar>) :: u64" 0] unfolding u by auto
      have "value_u64 (Some d) h True = (if ?neg \<and> i \<noteq> 0 then Fail ERR_RANGE else Ret (of_nat (nat \<bar>i\<bar>)))"
        unfolding e lm(1) using True zero by simp
      moreover have "?neg \<and> i \<noteq> 0 \<longleftrightarrow> i < 0" using lm(2,3) by (cases ?neg) auto
      moreover have "0 \<le> i \<Longrightarrow> (of_nat (nat \<bar>i\<bar>) :: u64) = of_int i" by simp
      ultimately show ?thesis using True Some JNum by auto
    qed
  qed
qed (use read_magnitude_denotes [OF assms] in \<open>simp_all add: value_u64_def\<close>)

lemma value_i64_denotes:
  assumes "denotes d h v"
  shows "case v of
     JNum n \<Rightarrow>
       (case lexeme_integer n of
          Some i \<Rightarrow> value_i64 (Some d) h True = (if - (2 ^ 63) \<le> i \<and> i < 2 ^ 63 then Ret (of_int i) else Fail ERR_RANGE)
        | None \<Rightarrow> value_i64 (Some d) h True \<in> {Fail ERR_NOT_INTEGER, Fail ERR_RANGE})
   | _ \<Rightarrow> value_i64 (Some d) h True = Fail ERR_TYPE"
proof (cases v)
  case (JNum n)
  have m: "unat minimum_magnitude = 2 ^ 63" by (simp add: minimum_magnitude_def)
  then have "9 \<le> unat minimum_magnitude" by simp
  note l = lexeme_magnitude_value [OF this, of n]
  let ?rest = "\<lambda>(magnitude, negative). if \<not> negative \<and> magnitude > INT64_MAX then Fail ERR_RANGE
        else if negative \<and> magnitude = minimum_magnitude then Ret minimum_magnitude
        else Ret (if negative then - magnitude else magnitude)"
  have e: "value_i64 (Some d) h True = bind_outcome (lexeme_magnitude n minimum_magnitude) ?rest"
    using read_magnitude_denotes [OF assms] JNum by (simp add: value_i64_def)
  show ?thesis
  proof (cases "lexeme_integer n")
    case None
    then show ?thesis using l e JNum by auto
  next
    case (Some i)
    let ?neg = "n \<noteq> [] \<and> n ! 0 = MINUS"
    have lm: "lexeme_magnitude n minimum_magnitude = (if nat \<bar>i\<bar> \<le> 2 ^ 63 then Ret (of_nat (nat \<bar>i\<bar>), ?neg) else Fail ERR_RANGE)"
        "?neg \<Longrightarrow> i \<le> 0" "\<not> ?neg \<Longrightarrow> 0 \<le> i"
      using l Some m by auto
    show ?thesis
    proof (cases "nat \<bar>i\<bar> \<le> 2 ^ 63")
      case False
      then show ?thesis using lm(1) e Some JNum by auto
    next
      case True
      let ?m = "of_nat (nat \<bar>i\<bar>) :: u64"
      have u: "unat ?m = nat \<bar>i\<bar>" by (rule unat_of_nat_u64) (use True in simp)
      have big: "?m > INT64_MAX \<longleftrightarrow> 2 ^ 63 \<le> nat \<bar>i\<bar>"
        unfolding word_less_nat_alt u by (auto simp: INT64_MAX_def)
      have minus: "?neg \<Longrightarrow> - ?m = of_int i" using lm(2) by simp
      have pos: "\<not> ?neg \<Longrightarrow> ?m = of_int i" using lm(3) by simp
      have top: "minimum_magnitude = - minimum_magnitude" by (simp add: minimum_magnitude_def)
      have v: "value_i64 (Some d) h True = ?rest (?m, ?neg)" unfolding e lm(1) using True by simp
      show ?thesis
      proof (cases ?neg)
        case neg: True
        have "?rest (?m, ?neg) = Ret (- ?m)" using neg top by auto
        then have "value_i64 (Some d) h True = Ret (of_int i)" using v minus [OF neg] by (simp only: )
        then show ?thesis using lm(2) [OF neg] True Some JNum by auto
      next
        case neg: False
        then have "value_i64 (Some d) h True = (if 2 ^ 63 \<le> nat \<bar>i\<bar> then Fail ERR_RANGE else Ret (of_int i))"
          using v big pos [OF neg] by (simp only: prod.case neg simp_thms if_False)
        then show ?thesis using lm(3) [OF neg] True Some JNum by auto
      qed
    qed
  qed
qed (use read_magnitude_denotes [OF assms] in \<open>simp_all add: value_i64_def\<close>)

section \<open>Every handle\<close>

lemma layout_key_type:
  "\<forall>c \<in> set (layout up i v). c_key c \<longrightarrow> c_type c = TYPE_STRING"
  "\<forall>c \<in> set (layout_elements up i vs). c_key c \<longrightarrow> c_type c = TYPE_STRING"
  "\<forall>c \<in> set (layout_members up i ms). c_key c \<longrightarrow> c_type c = TYPE_STRING"
  by (induction up i v and up i vs and up i ms rule: layout_layout_elements_layout_members.induct) auto

lemma layout_subvalue:
  "k < json_cells v \<Longrightarrow> \<not> c_key (layout up i v ! k) \<Longrightarrow> \<exists>u w. (u, i + k, w) \<in> set (subvalues up i v)"
  "k < sum_list (map json_cells vs) \<Longrightarrow> \<not> c_key (layout_elements up i vs ! k) \<Longrightarrow>
     \<exists>u w. (u, i + k, w) \<in> set (sub_elements up i vs)"
  "k < members_size ms \<Longrightarrow> \<not> c_key (layout_members up i ms ! k) \<Longrightarrow>
     \<exists>u w. (u, i + k, w) \<in> set (sub_members up i ms)"
proof (induction up i v and up i vs and up i ms arbitrary: k and k and k rule: layout_layout_elements_layout_members.induct)
  case (5 up i vs)
  then show ?case by (cases k) fastforce+
next
  case (6 up i ms)
  then show ?case by (cases k) fastforce+
next
  case (8 up i v vs)
  show ?case
  proof (cases "k < json_cells v")
    case True
    then show ?thesis using 8(1) [of k] 8(4) by (auto simp: nth_append)
  next
    case False
    have "k - json_cells v < sum_list (map json_cells vs)" using 8(3) False by simp
    then show ?thesis using 8(2) [of "k - json_cells v"] 8(4) False by (auto simp: nth_append)
  qed
next
  case (10 up i kx v ms)
  show ?case
  proof (cases k)
    case 0
    then show ?thesis using 10(4) by simp
  next
    case (Suc j)
    show ?thesis
    proof (cases "j < json_cells v")
      case True
      then show ?thesis using 10(1) [of j] 10(4) Suc by (auto simp: nth_append)
    next
      case False
      have "j - json_cells v < members_size ms" using 10(3) False Suc by simp
      then show ?thesis using 10(2) [of "j - json_cells v"] 10(4) False Suc by (auto simp: nth_append)
    qed
  qed
qed auto

text \<open>A handle denotes a value, or is that of a key, which is a string, or is not one of the document's.\<close>

lemma handle_cases:
  assumes "represents d root"
  obtains v where "denotes d h v" | "h < length (d_tokens d)" "ttype (d_tokens d ! h) = TYPE_STRING"
  | "length (d_tokens d) \<le> h"
proof (cases "h < length (d_tokens d)")
  case True
  have c: "cells d = layout VALUE_NONE 0 root" using assms by (simp add: represents_def)
  have n: "h < json_cells root" using True c layout_size [OF c] by simp
  show ?thesis
  proof (cases "c_key (cells d ! h)")
    case key: True
    then have "c_type (cells d ! h) = TYPE_STRING"
      using layout_key_type(1) [of VALUE_NONE 0 root] True c by (metis length_cells nth_mem)
    then show ?thesis using that(2) True cells_type by metis
  next
    case False
    then have "\<exists>u w. (u, h, w) \<in> set (subvalues VALUE_NONE 0 root)"
      using layout_subvalue(1) [OF n, of VALUE_NONE 0] c by simp
    then show ?thesis using that(1) assms unfolding denotes_def by blast
  qed
qed (use that in simp)

lemma token_of_cases:
  assumes "represents d root" "ty \<noteq> TYPE_STRING"
  shows "(\<exists>e. token_of (Some d) h ty = Fail e) \<or>
    (\<exists>v. denotes d h v \<and> json_type_of v = ty \<and> token_of (Some d) h ty = Ret (d, d_tokens d ! h))"
  using assms(1)
proof (cases rule: handle_cases [where h = h])
  case (1 v)
  then show ?thesis using token_of_denotes [of d h v ty] by auto
qed (use assms(2) in \<open>auto simp: token_of_def\<close>)

lemma find_member_not_Stuck:
  assumes "denotes d h (JObj ms)"
  shows "i + n \<le> length ms \<Longrightarrow> find_member d (d_tokens d ! h) key sz i n \<noteq> Stuck"
proof (induction n arbitrary: i)
  case (Suc n)
  then have i: "i < length ms" by simp
  obtain t where "key_at d (d_tokens d ! h) (2 * i) = Ret t" using key_at_denotes [OF assms i] by blast
  moreover have "\<exists>x. child_at d (d_tokens d ! h) (2 * i + 1) = Ret x"
    using denotes_children(2) [OF assms, of "2 * i + 1"] i by simp
  ultimately show ?case using Suc by auto
qed simp

lemma readers_defined:
  assumes "represents d root"
  shows "array_size (Some d) h out \<noteq> Stuck" "array_get (Some d) h k out \<noteq> Stuck"
    "object_size (Some d) h out \<noteq> Stuck" "object_member_at (Some d) h k out \<noteq> Stuck"
    "object_get_sized (Some d) h key n out \<noteq> Stuck"
proof -
  have ty: "TYPE_ARRAY \<noteq> TYPE_STRING" "TYPE_OBJECT \<noteq> TYPE_STRING" by simp_all
  note a = token_of_cases [OF assms ty(1), of h] and o = token_of_cases [OF assms ty(2), of h]
  show "array_size (Some d) h out \<noteq> Stuck" using a by (auto simp: array_size_def)
  show "array_get (Some d) h k out \<noteq> Stuck"
    using a
  proof (elim disjE exE conjE)
    fix v assume "denotes d h v"
    from array_get_denotes [OF this, of k] show ?thesis
      by (cases out) (auto simp: array_get_def [of _ _ _ False] split: json.splits)
  qed (simp add: array_get_def)
  show "object_size (Some d) h out \<noteq> Stuck"
    using o
  proof (elim disjE exE conjE)
    fix v assume "denotes d h v"
    from object_size_denotes [OF this] show ?thesis
      by (cases out) (auto simp: object_size_def [of _ _ False] split: json.splits)
  qed (simp add: object_size_def)
  show "object_member_at (Some d) h k out \<noteq> Stuck"
    using o
  proof (elim disjE exE conjE)
    fix v assume "denotes d h v"
    from object_member_at_denotes [OF this, of k] show ?thesis
      by (cases out) (auto simp: object_member_at_def [of _ _ _ False] split: json.splits)
  qed (simp add: object_member_at_def)
  show "object_get_sized (Some d) h key n out \<noteq> Stuck"
    using o
  proof (elim disjE exE conjE)
    fix v assume v: "denotes d h v" "json_type_of v = TYPE_OBJECT" "token_of (Some d) h TYPE_OBJECT = Ret (d, d_tokens d ! h)"
    then obtain ms where ms: "denotes d h (JObj ms)" by (cases v) auto
    have "child_count (links (d_tokens d ! h)) div 2 = length ms" using denotes_children(1) [OF ms] by simp
    then show ?thesis using v(3) find_member_not_Stuck [OF ms, of 0 "length ms" key n] by (simp add: object_get_sized_def)
  qed (auto simp: object_get_sized_def)
qed

section \<open>Reading a whole document back\<close>

text \<open>A client of the public readers that copies the value of a handle out of the document.\<close>

fun read_json :: "nat \<Rightarrow> document \<Rightarrow> nat \<Rightarrow> json option" where
  "read_json 0 d h = None"
| "read_json (Suc levels) d h =
     (case value_type (Some d) h of
        TYPE_NULL \<Rightarrow> Some JNull
      | TYPE_BOOLEAN \<Rightarrow> (case value_boolean (Some d) h True of Ret b \<Rightarrow> Some (JBool b) | _ \<Rightarrow> None)
      | TYPE_NUMBER \<Rightarrow> (case value_number_text (Some d) h True of Ret n \<Rightarrow> Some (JNum n) | _ \<Rightarrow> None)
      | TYPE_STRING \<Rightarrow> (case value_string (Some d) h True of Ret s \<Rightarrow> Some (JStr s) | _ \<Rightarrow> None)
      | TYPE_ARRAY \<Rightarrow>
          (case array_size (Some d) h True of
             Ret n \<Rightarrow> map_option JArr (those (map (\<lambda>k.
               case array_get (Some d) h k True of Ret c \<Rightarrow> read_json levels d c | _ \<Rightarrow> None) [0..<n]))
           | _ \<Rightarrow> None)
      | TYPE_OBJECT \<Rightarrow>
          (case object_size (Some d) h True of
             Ret n \<Rightarrow> map_option JObj (those (map (\<lambda>k.
               case object_member_at (Some d) h k True of
                 Ret (key, c) \<Rightarrow> map_option (Pair key) (read_json levels d c) | _ \<Rightarrow> None) [0..<n]))
           | _ \<Rightarrow> None)
      | TYPE_NONE \<Rightarrow> None)"

lemma those_map: "(\<And>k. k < length xs \<Longrightarrow> f k = Some (xs ! k)) \<Longrightarrow> those (map f [0..<length xs]) = Some xs"
proof (induction xs arbitrary: f)
  case (Cons x xs)
  have "map f [0..<length (x # xs)] = f 0 # map (\<lambda>k. f (Suc k)) [0..<length xs]"
    by (simp add: upt_conv_Cons map_Suc_upt [symmetric] del: upt_Suc)
  then show ?case using Cons.IH [of "\<lambda>k. f (Suc k)"] Cons.prems [of 0] Cons.prems [of "Suc _"] by fastforce
qed simp

lemma read_json_denotes: "denotes d h v \<Longrightarrow> json_height v < levels \<Longrightarrow> read_json levels d h = Some v"
proof (induction levels arbitrary: h v)
  case (Suc levels)
  note dn = Suc.prems(1)
  have ty: "value_type (Some d) h = json_type_of v" by (rule value_type_denotes [OF dn])
  show ?case
  proof (cases v)
    case (JArr vs)
    have dn': "denotes d h (JArr vs)" using dn JArr by simp
    have "json_height (vs ! k) < levels" if "k < length vs" for k
      using json_height_le(1) [of 0 vs levels] Suc.prems(2) JArr nth_mem [OF that] by fastforce
    then have "those (map (\<lambda>k. case array_get (Some d) h k True of Ret c \<Rightarrow> read_json levels d c | _ \<Rightarrow> None) [0..<length vs]) = Some vs"
      using array_get_denotes [OF dn'] denotes_element [OF dn'] Suc.IH by (intro those_map) simp
    then show ?thesis using ty JArr array_size_denotes [OF dn'] by simp
  next
    case (JObj ms)
    have dn': "denotes d h (JObj ms)" using dn JObj by simp
    have "json_height (snd (ms ! k)) < levels" if "k < length ms" for k
      using json_height_le(2) [of 0 ms levels] Suc.prems(2) JObj nth_mem [OF that] by fastforce
    then have "those (map (\<lambda>k. case object_member_at (Some d) h k True of
        Ret (key, c) \<Rightarrow> map_option (Pair key) (read_json levels d c) | _ \<Rightarrow> None) [0..<length ms]) = Some ms"
      using object_member_at_denotes [OF dn'] denotes_member [OF dn'] Suc.IH by (intro those_map) (simp del: split_paired_All add: prod_eq_iff)
    then show ?thesis using ty JObj object_size_denotes [OF dn'] by simp
  qed (use ty text_view_denotes [OF dn] value_boolean_denotes [OF dn] in
      \<open>simp_all add: value_string_def value_number_text_def\<close>)
qed simp

lemma last_members_subset: "set (last_members ms) \<subseteq> set ms"
  by (induction ms rule: last_members.induct) auto

lemma last_wins_height: "json_height (last_wins v) \<le> json_height v"
proof (induction v)
  case (JArr vs)
  have "0 + json_height (JArr (map last_wins vs)) \<le> json_height (JArr vs)"
    unfolding json_height_le using JArr json_height_le(1) [of 0 vs "json_height (JArr vs)"] by fastforce
  then show ?case by simp
next
  case (JObj ms)
  have h: "0 < json_height (JObj ms) \<and> (\<forall>(k, v) \<in> set ms. 0 + 1 + json_height v \<le> json_height (JObj ms))"
    using json_height_le(2) [of 0 ms "json_height (JObj ms)"] by simp
  have "0 + json_height (JObj (last_members (map (\<lambda>(k, v). (k, last_wins v)) ms))) \<le> json_height (JObj ms)"
    unfolding json_height_le
  proof (intro conjI ballI)
    fix m assume "m \<in> set (last_members (map (\<lambda>(k, v). (k, last_wins v)) ms))"
    then have "m \<in> set (map (\<lambda>(k, v). (k, last_wins v)) ms)" using last_members_subset by blast
    then obtain k w where w: "(k, w) \<in> set ms" "m = (k, last_wins w)" by auto
    have "json_height (last_wins w) \<le> json_height w" using JObj [OF w(1)] by simp
    moreover have "0 + 1 + json_height w \<le> json_height (JObj ms)" using h w(1) by auto
    ultimately show "case m of (k, v) \<Rightarrow> 0 + 1 + json_height v \<le> json_height (JObj ms)" using w(2) by simp
  qed (use h in simp)
  then show ?case by simp
qed simp_all

end
