(* ===== verification/Parser_Props.thy ===== *)
theory Parser_Props
  imports Parser_Complete
begin

text \<open>
  The properties of \<open>maelys_json_document_parse\<close> (\<^verbatim>\<open>src/parser.c\<close>) as its callers see it: what it
  accepts, what document it makes, how it fails, and how much memory it holds and gives back.
\<close>

section \<open>The call and the bound\<close>

lemma bounded_sum_Ret: "acc \<le> SIZE_MAX \<Longrightarrow> bounded_sum ss acc = Ret n \<Longrightarrow> n = acc + sum_list ss \<and> n \<le> SIZE_MAX"
proof (induction ss acc rule: bounded_sum.induct)
  case (2 s ss acc)
  have s: "\<not> SIZE_MAX - acc < s" using 2(3) by (auto split: if_splits)
  have "acc + s \<le> SIZE_MAX" using s 2(2) by arith
  from 2(1) [OF s this] 2(3) s show ?case by simp
qed simp

lemma bounded_sum_cases: "bounded_sum ss acc = Fail ERR_LIMIT \<or> (\<exists>n. bounded_sum ss acc = Ret n)"
  by (induction ss acc rule: bounded_sum.induct) auto

lemma allocation_bound_Ret:
  assumes "parse_allocation_bound sz prof requested out = Ret b"
  shows "\<exists>l. limits_resolve requested = Ret l \<and> out \<and> sz \<noteq> SIZE_MAX \<and> profile_valid prof \<and> sz \<le> maximum_bytes l \<and>
    b \<le> SIZE_MAX \<and> b = storage_bound sz (document_token_capacity sz l) (copies_of prof)"
proof -
  obtain l where l: "limits_resolve requested = Ret l" "out" "sz \<noteq> SIZE_MAX" "profile_valid prof" "sz \<le> maximum_bytes l"
    using assms by (auto simp: parse_allocation_bound_def split: outcome.splits if_splits)
  let ?n = "document_token_capacity sz l"
  have "bounded_sum ([SIZEOF_DOCUMENT, sz + 1] @ replicate (copies_of prof) (?n * SIZEOF_TOKEN) @
      replicate (copies_of prof) (sz + ?n + 1) @ [keyset_capacity (?n div 2 + 1) * SIZEOF_SIZE_T, ?n * SIZEOF_SIZE_T]) 0 = Ret b"
    using assms l by (simp add: parse_allocation_bound_def copies_of_def Let_def)
  from bounded_sum_Ret [OF _ this] l show ?thesis by (simp add: storage_bound_def sum_list_replicate)
qed

lemma allocation_bound_cases:
  assumes "limits_resolve requested = Ret l" "sz \<noteq> SIZE_MAX" "profile_valid prof" "sz \<le> maximum_bytes l"
  shows "parse_allocation_bound sz prof requested True = Fail ERR_LIMIT \<or>
    (\<exists>b. parse_allocation_bound sz prof requested True = Ret b)"
  using assms bounded_sum_cases by (simp add: parse_allocation_bound_def Let_def)

text \<open>What \<open>document_parse\<close> does before it allocates anything.\<close>

lemma document_parse_cases:
  obtains (refused) code where "document_parse src sz prof requested out err h =
      (Fail code, error_set (map_option (\<lambda>_. no_error) err) code (if code = ERR_ARGUMENT then None else src)
         (if code = ERR_ARGUMENT then 0 else sz) 0, h)"
      "code = ERR_ARGUMENT \<or> code = ERR_LIMIT" "parse_allocation_bound sz prof requested out = Fail code \<or> src = None \<and> sz \<noteq> 0"
  | (parsed) l b where "document_parse src sz prof requested out err h =
      parse_document (case src of None \<Rightarrow> [] | Some s \<Rightarrow> take sz s) prof l (map_option (\<lambda>_. no_error) err) h"
      "limits_resolve requested = Ret l" "parse_allocation_bound sz prof requested out = Ret b"
      "src = None \<Longrightarrow> sz = 0"
proof (cases "\<not> out \<or> (src = None \<and> sz \<noteq> 0) \<or> sz = SIZE_MAX \<or> \<not> profile_valid prof \<or> (\<forall>l. limits_resolve requested \<noteq> Ret l)")
  case True
  have e: "document_parse src sz prof requested out err h =
      (Fail ERR_ARGUMENT, error_set (map_option (\<lambda>_. no_error) err) ERR_ARGUMENT None 0 0, h)"
    using True by (auto simp: document_parse_def Let_def split: outcome.splits)
  have "parse_allocation_bound sz prof requested out = Fail ERR_ARGUMENT \<or> src = None \<and> sz \<noteq> 0"
    using True by (auto simp: parse_allocation_bound_def split: outcome.splits)
  then show thesis using e by (intro refused [of ERR_ARGUMENT]) simp_all
next
  case False
  then obtain l where l: "limits_resolve requested = Ret l" by blast
  have big: "sz > maximum_bytes l \<Longrightarrow> parse_allocation_bound sz prof requested out = Fail ERR_LIMIT"
    using False l by (auto simp: parse_allocation_bound_def)
  have same: "parse_allocation_bound sz prof (Some l) True = parse_allocation_bound sz prof requested out"
    using False l limits_resolve_idem [OF l] by (simp add: parse_allocation_bound_def)
  show thesis
  proof (cases "sz > maximum_bytes l")
    case True
    have "document_parse src sz prof requested out err h =
        (Fail ERR_LIMIT, error_set (map_option (\<lambda>_. no_error) err) ERR_LIMIT src sz 0, h)"
      using False l True by (auto simp: document_parse_def Let_def)
    then show thesis using big [OF True] by (intro refused [of ERR_LIMIT]) simp_all
  next
    case ok: False
    have "parse_allocation_bound sz prof (Some l) True = Fail ERR_LIMIT \<or>
        (\<exists>b. parse_allocation_bound sz prof (Some l) True = Ret b)"
      by (rule allocation_bound_cases [OF limits_resolve_idem [OF l]]) (use False ok in auto)
    then show thesis
    proof (elim disjE exE)
      assume b: "parse_allocation_bound sz prof (Some l) True = Fail ERR_LIMIT"
      then have "document_parse src sz prof requested out err h =
          (Fail ERR_LIMIT, error_set (map_option (\<lambda>_. no_error) err) ERR_LIMIT src sz 0, h)"
        using False l ok by (auto simp: document_parse_def Let_def)
      then show thesis using b same by (intro refused [of ERR_LIMIT]) simp_all
    next
      fix b assume b: "parse_allocation_bound sz prof (Some l) True = Ret b"
      then have "document_parse src sz prof requested out err h =
          parse_document (case src of None \<Rightarrow> [] | Some s \<Rightarrow> take sz s) prof l (map_option (\<lambda>_. no_error) err) h"
        using False l ok by (auto simp: document_parse_def Let_def cong: option.case_cong)
      then show thesis using b same l False by (intro parsed [of l b]) auto
    qed
  qed
qed

lemma resolved_limits:
  "limits_resolve requested = Ret l \<Longrightarrow> maximum_tokens l \<le> SIZE_MAX div 256 \<and> 0 < maximum_tokens l"
  using limits_resolve_Ret_iff [of requested l] limits_resolve_positive by metis

lemma no_error_code: "map_option (\<lambda>_. no_error) err = Some e \<Longrightarrow> err_code e = OK"
  by (auto simp: no_error_def)

lemma parsed_within:
  assumes "json_document prof bs v" "json_cells v \<le> document_token_capacity (length bs) l" "0 < maximum_tokens l"
    "json_height v \<le> maximum_depth l" "prof \<noteq> RFC8259_LAST_WINS \<longrightarrow> unique_keys v"
  shows "within l prof v"
proof -
  have "bs \<noteq> []" using assms(1) json_text_start by (auto simp: json_document_def)
  then have "document_token_capacity (length bs) l \<le> maximum_tokens l"
    using assms(3) by (simp add: document_token_capacity_def Let_def)
  then show ?thesis using assms by (auto simp: within_def)
qed

lemma parse_document_resolved:
  assumes "limits_resolve requested = Ret l"
  shows "parse_ends bs prof l (map_option (\<lambda>_. no_error) err) h (parse_document bs prof l (map_option (\<lambda>_. no_error) err) h)"
  using parse_document_ends [OF conjunct1 [OF resolved_limits [OF assms]] no_error_code] .

lemma parse_ends_fst: "parse_ends bs prof l err h m \<Longrightarrow> fst m \<notin> {Stuck, Fail ERR_ARGUMENT}"
  by (cases m rule: prod_cases3) (auto simp: parse_ends_def split: outcome.splits)

lemma parse_document_resolved_exact:
  assumes "limits_resolve requested = Ret l" "json_document prof bs v" "within l prof v" "fates h = []"
  shows "\<exists>d h'. parse_document bs prof l (map_option (\<lambda>_. no_error) err) h = (Ret d, map_option (\<lambda>_. no_error) err, h') \<and>
    represents d (last_wins v)"
proof -
  have "\<And>e. map_option (\<lambda>_. no_error) err = Some e \<Longrightarrow> err_code e = OK" by (rule no_error_code)
  from parse_document_exact [OF conjunct1 [OF resolved_limits [OF assms(1)]] this assms(2-4)] show ?thesis by blast
qed

definition plenty :: heap where
  "plenty = \<lparr>fates = [], live = 0, peak = 0\<rparr>"

fun returned :: "('e, 'a) outcome \<times> 'b \<Rightarrow> bool" where
  "returned (Ret x, s) = True"
| "returned (Fail e, s) = False"
| "returned (Stuck, s) = False"

lemma returned_Ret: "returned m \<Longrightarrow> \<exists>x e h. m = (Ret x, e, h)"
  by (cases m rule: returned.cases) auto

section \<open>Properties\<close>

text \<open>C1: the parser accepts exactly the JSON texts within the limits. When the arguments are valid,
  the allocation bound is not past \<open>size_t\<close> and no allocation fails, \<open>maelys_json_document_parse\<close>
  returns a document if and only if the bytes are a text of the RFC 8259 grammar (with the string
  contents of the profile) of a value that nests at most \<open>maximum_depth\<close> deep, needs at most
  \<open>maximum_tokens\<close> tokens, and, except under the last-wins profile, repeats no key in an object.\<close>

theorem document_parse_exact:
  assumes "limits_resolve requested = Ret l" "parse_allocation_bound (length bs) prof requested True = Ret b"
    "fates h = []"
  shows "(\<exists>d err' h'. document_parse (Some bs) (length bs) prof requested True err h = (Ret d, err', h')) \<longleftrightarrow>
    (\<exists>v. json_document prof bs v \<and> json_height v \<le> maximum_depth l \<and> json_cells v \<le> maximum_tokens l \<and>
       (prof = RFC8259_LAST_WINS \<or> unique_keys v))"
proof (cases rule: document_parse_cases [of "Some bs" "length bs" prof requested True err h])
  case (refused code)
  then show ?thesis using assms(2) by simp
next
  case (parsed l' b')
  then have e: "document_parse (Some bs) (length bs) prof requested True err h =
      parse_document bs prof l (map_option (\<lambda>_. no_error) err) h" using assms(1) by simp
  note t = resolved_limits [OF assms(1)]
  note ends = parse_document_resolved [OF assms(1), of bs prof err h]
  show ?thesis
  proof
    assume "\<exists>d err' h'. document_parse (Some bs) (length bs) prof requested True err h = (Ret d, err', h')"
    then obtain d err' h' where r: "parse_document bs prof l (map_option (\<lambda>_. no_error) err) h = (Ret d, err', h')"
      unfolding e by blast
    obtain v where "json_document prof bs v" "json_height v \<le> maximum_depth l"
        "json_cells v \<le> document_token_capacity (length bs) l" "prof \<noteq> RFC8259_LAST_WINS \<longrightarrow> unique_keys v"
      using ends unfolding r parse_ends_def prod.case outcome.case by blast
    with parsed_within [of prof bs v l] conjunct2 [OF t] have "json_document prof bs v \<and> within l prof v" by blast
    then show "\<exists>v. json_document prof bs v \<and> json_height v \<le> maximum_depth l \<and> json_cells v \<le> maximum_tokens l \<and>
       (prof = RFC8259_LAST_WINS \<or> unique_keys v)" by (auto simp: within_def)
  next
    assume "\<exists>v. json_document prof bs v \<and> json_height v \<le> maximum_depth l \<and> json_cells v \<le> maximum_tokens l \<and>
       (prof = RFC8259_LAST_WINS \<or> unique_keys v)"
    then obtain v where "json_document prof bs v" "within l prof v" by (auto simp: within_def)
    from parse_document_resolved_exact [OF assms(1) this assms(3), of err]
    obtain d h' where "parse_document bs prof l (map_option (\<lambda>_. no_error) err) h = (Ret d, map_option (\<lambda>_. no_error) err, h')"
      by (elim exE conjE)
    then show "\<exists>d err' h'. document_parse (Some bs) (length bs) prof requested True err h = (Ret d, err', h')"
      unfolding e by blast
  qed
qed

theorem document_parse_exact_witness:
  "\<exists>v. json_document RFC8259 (ascii ''[1,[]]'') v \<and> json_height v \<le> 32 \<and> json_cells v \<le> 8192 \<and>
    (RFC8259 = RFC8259_LAST_WINS \<or> unique_keys v)"
proof -
  have l: "limits_resolve None = Ret \<lparr>maximum_bytes = 65535, maximum_depth = 32, maximum_tokens = 8192\<rparr>"
    by code_simp
  have b: "parse_allocation_bound (length (ascii ''[1,[]]'')) RFC8259 None True = Ret 796"
    by code_simp
  have "fates plenty = []" by (simp add: plenty_def)
  note exact = document_parse_exact [OF l b this, of None]
  have "returned (document_parse (Some (ascii ''[1,[]]'')) (length (ascii ''[1,[]]'')) RFC8259 None True None plenty)"
    by code_simp
  from returned_Ret [OF this] exact show ?thesis by simp
qed

text \<open>C2: what a successful parse returns. The document keeps the bytes and the profile, and its
  tokens, arena and child index are those of the one value the text has under the grammar, without
  the members that a later member of the same key supersedes: nothing is dropped but under the
  last-wins profile, and when \<open>duplicate_count\<close> is zero nothing is dropped at all. The error says
  OK.\<close>

theorem document_parse_value:
  assumes "document_parse (Some bs) (length bs) prof requested True err h = (Ret d, err', h')"
  shows "d_bytes d = bs \<and> d_profile d = prof \<and> err' = map_option (\<lambda>_. no_error) err \<and>
    (\<exists>v. json_document prof bs v \<and> represents d (last_wins v) \<and>
       (prof = RFC8259_LAST_WINS \<and> duplicate_count d \<noteq> 0 \<or> unique_keys v \<and> last_wins v = v))"
proof (cases rule: document_parse_cases [of "Some bs" "length bs" prof requested True err h])
  case (refused code)
  then show ?thesis using assms by simp
next
  case (parsed l b)
  then have e: "parse_document bs prof l (map_option (\<lambda>_. no_error) err) h = (Ret d, err', h')" using assms by simp
  from parse_document_resolved [OF parsed(2), of bs prof err h]
  show ?thesis using last_wins_unique unfolding e parse_ends_def by auto
qed

theorem document_parse_value_witness:
  "\<exists>d v. json_document RFC8259_LAST_WINS (ascii ''[1,[]]'') v \<and> represents d (last_wins v)"
proof -
  have "returned (document_parse (Some (ascii ''[1,[]]'')) (length (ascii ''[1,[]]'')) RFC8259_LAST_WINS None True None plenty)"
    by code_simp
  then obtain d e h where "document_parse (Some (ascii ''[1,[]]'')) (length (ascii ''[1,[]]'')) RFC8259_LAST_WINS None True None plenty =
      (Ret d, e, h)" using returned_Ret by blast
  from document_parse_value [OF this] show ?thesis by blast
qed

text \<open>C4: \<open>maelys_json_document_parse\<close> always returns, whatever the bytes, the arguments and the
  outcomes of the allocations: no assertion fails, no index is out of its array, the recursion stays
  within the nesting limit. It reports ARGUMENT exactly when an argument is invalid: no place for
  the document, NULL bytes of a nonzero size, a size of \<open>SIZE_MAX\<close>, an unknown profile or limits that do
  not resolve.\<close>

theorem document_parse_total:
  "fst (document_parse src sz prof requested out err h) \<noteq> Stuck \<and>
   (fst (document_parse src sz prof requested out err h) = Fail ERR_ARGUMENT \<longleftrightarrow>
      \<not> out \<or> (src = None \<and> sz \<noteq> 0) \<or> sz = SIZE_MAX \<or> \<not> profile_valid prof \<or>
      limits_resolve requested = Fail ERR_ARGUMENT)"
proof (cases rule: document_parse_cases [of src sz prof requested out err h])
  case (refused code)
  let ?bad = "\<not> out \<or> (src = None \<and> sz \<noteq> 0) \<or> sz = SIZE_MAX \<or> \<not> profile_valid prof \<or> limits_resolve requested = Fail ERR_ARGUMENT"
  have "?bad \<Longrightarrow> code = ERR_ARGUMENT"
    using refused(1) by (elim disjE) (simp_all add: document_parse_def Let_def split: if_splits)
  moreover have "?bad" if "code = ERR_ARGUMENT"
  proof (rule ccontr)
    assume ok: "\<not> ?bad"
    then obtain l where l: "limits_resolve requested = Ret l"
      using limits_resolve_not_Stuck limits_resolve_Fail by (cases "limits_resolve requested") auto
    have "sz \<le> maximum_bytes l \<Longrightarrow> parse_allocation_bound sz prof requested out \<noteq> Fail ERR_ARGUMENT"
      using allocation_bound_cases [OF l, of sz prof] ok by auto
    moreover have "sz > maximum_bytes l \<Longrightarrow> parse_allocation_bound sz prof requested out = Fail ERR_LIMIT"
      using ok l by (auto simp: parse_allocation_bound_def)
    ultimately show False using refused(3) that ok by (cases "sz \<le> maximum_bytes l") auto
  qed
  ultimately show ?thesis using refused(1) by auto
next
  case (parsed l b)
  have "fst (document_parse src sz prof requested out err h) \<notin> {Stuck, Fail ERR_ARGUMENT}"
    unfolding parsed(1) by (rule parse_ends_fst [OF parse_document_resolved [OF parsed(2)]])
  moreover have "out \<and> sz \<noteq> SIZE_MAX \<and> profile_valid prof"
    using allocation_bound_Ret [OF parsed(3)] by blast
  ultimately show ?thesis using parsed(2,4) by auto
qed

theorem document_parse_total_witness:
  "fst (document_parse None 3 RFC8259 None True None plenty) = Fail ERR_ARGUMENT"
  using document_parse_total [of None 3 RFC8259 None True None plenty] by simp

text \<open>C5: how a parse of actual bytes fails. The codes are ARGUMENT, LIMIT, SYNTAX, UTF8 and DUPLICATE_KEY,
  and MEMORY only when an allocation failed; everything allocated has been freed; and the error, when the
  caller gave one, holds the code and the line and column of an offset inside the input.\<close>

theorem document_parse_failure:
  assumes "document_parse (Some bs) (length bs) prof requested out err h = (Fail code, err', h')"
  shows "live h' = live h \<and>
    (code \<in> {ERR_ARGUMENT, ERR_LIMIT, ERR_SYNTAX, ERR_UTF8, ERR_DUPLICATE_KEY} \<or> code = ERR_MEMORY \<and> fates h \<noteq> []) \<and>
    (\<exists>off \<le> length bs. err' = error_set (map_option (\<lambda>_. no_error) err) code (if code = ERR_ARGUMENT then None else Some bs)
       (if code = ERR_ARGUMENT then 0 else length bs) off)"
proof (cases rule: document_parse_cases [of "Some bs" "length bs" prof requested out err h])
  case (refused code')
  then show ?thesis using assms by auto
next
  case (parsed l b)
  then have e: "parse_document bs prof l (map_option (\<lambda>_. no_error) err) h = (Fail code, err', h')" using assms by simp
  from parse_document_resolved [OF parsed(2), of bs prof err h]
  show ?thesis unfolding e parse_ends_def error_at_def by auto
qed

theorem document_parse_failure_witness:
  "\<exists>code err' h'. document_parse (Some (ascii ''[1,x]'')) (length (ascii ''[1,x]'')) RFC8259 None True (Some no_error) plenty =
     (Fail code, err', h') \<and> live h' = live plenty"
proof -
  have "fst (document_parse (Some (ascii ''[1,x]'')) (length (ascii ''[1,x]'')) RFC8259 None True (Some no_error) plenty) =
      Fail ERR_SYNTAX" by code_simp
  then obtain err' h' where p: "document_parse (Some (ascii ''[1,x]'')) (length (ascii ''[1,x]'')) RFC8259 None True (Some no_error) plenty =
      (Fail ERR_SYNTAX, err', h')" by (metis eq_fst_iff surj_pair)
  from document_parse_failure [OF p] p show ?thesis by blast
qed

text \<open>C6: the parser keeps to its announced bound. When
  \<open>maelys_json_document_parse_allocation_bound\<close> returns \<open>b\<close>, then \<open>b\<close> did not wrap, and a parse of as
  many bytes with the same profile and limits never holds more than \<open>b\<close> bytes at once,
  whatever the bytes are and whether it succeeds or fails.\<close>

theorem document_parse_bound:
  assumes "parse_allocation_bound (length bs) prof requested out = Ret b"
  shows "b \<le> SIZE_MAX \<and>
    peak (snd (snd (document_parse (Some bs) (length bs) prof requested out err h))) \<le> max (peak h) (live h + b)"
proof (cases rule: document_parse_cases [of "Some bs" "length bs" prof requested out err h])
  case (refused code')
  then show ?thesis using assms by auto
next
  case (parsed l b')
  from parse_document_resolved [OF parsed(2), of bs prof err h] allocation_bound_Ret [OF assms] parsed(1,2)
  show ?thesis by (auto simp: parse_ends_def split: prod.splits)
qed

theorem document_parse_bound_witness:
  "796 \<le> SIZE_MAX \<and>
    peak (snd (snd (document_parse (Some (ascii ''[1,[]]'')) (length (ascii ''[1,[]]'')) RFC8259 None True None plenty))) \<le> 796"
proof -
  have "parse_allocation_bound (length (ascii ''[1,[]]'')) RFC8259 None True = Ret 796" by code_simp
  from document_parse_bound [OF this, of None plenty] show ?thesis by (simp add: plenty_def)
qed

text \<open>C7: no leak. A parse followed by \<open>maelys_json_document_release\<close> of the document it returned leaves as
  many bytes allocated as there were before, under every profile, compaction included.\<close>

theorem document_parse_release:
  assumes "document_parse (Some bs) (length bs) prof requested out err h = (Ret d, err', h')"
  shows "live (document_release d h') = live h"
proof (cases rule: document_parse_cases [of "Some bs" "length bs" prof requested out err h])
  case (refused code')
  then show ?thesis using assms by auto
next
  case (parsed l b)
  then have e: "parse_document bs prof l (map_option (\<lambda>_. no_error) err) h = (Ret d, err', h')" using assms by simp
  from parse_document_resolved [OF parsed(2), of bs prof err h]
  show ?thesis unfolding e parse_ends_def by simp
qed

theorem document_parse_release_witness:
  "\<exists>d h'. 0 < live h' \<and> live (document_release d h') = 0"
proof -
  have "returned (document_parse (Some (ascii ''[1,[]]'')) (length (ascii ''[1,[]]'')) RFC8259 None True None plenty)"
    by code_simp
  then obtain d e h where p: "document_parse (Some (ascii ''[1,[]]'')) (length (ascii ''[1,[]]'')) RFC8259 None True None plenty =
      (Ret d, e, h)" using returned_Ret by blast
  have "0 < live (snd (snd (document_parse (Some (ascii ''[1,[]]'')) (length (ascii ''[1,[]]'')) RFC8259 None True None plenty)))"
    by code_simp
  with document_parse_release [OF p] p show ?thesis by (auto simp: plenty_def)
qed

end
