(* ===== verification/Reader_Props.thy ===== *)
theory Reader_Props
  imports Reader Parser_Props
begin

text \<open>
  The properties of the document readers (\<^verbatim>\<open>src/document.c\<close>, \<^verbatim>\<open>src/helpers.c\<close>) on parsed
  documents: the types they check, the members and elements they find, the integers they read, and
  the whole value read back from the bytes it was parsed from.
\<close>

section \<open>A document to read\<close>

definition sample_value :: json where
  "sample_value = JObj [([0x61], JArr [JNum [0x2d, 0x37], JStr [0x62]])]"

definition sample_text :: bytes where
  "sample_text = [LBRACE, QUOTE, 0x61, QUOTE, COLON, LBRACKET, 0x2d, 0x37, COMMA, QUOTE, 0x62, QUOTE, RBRACKET, RBRACE]"

lemma sample_document: "json_document CONTRACT_ASCII sample_text sample_value"
proof -
  have ws: "json_ws []" by (simp add: json_ws_def)
  have n: "json_text CONTRACT_ASCII [0x2d, 0x37] (JNum [0x2d, 0x37])"
    by (rule text_number) (simp add: number_syntax_grammar [symmetric], code_simp)
  have s: "json_text CONTRACT_ASCII (QUOTE # [0x62] @ [QUOTE]) (JStr [0x62])"
    by (rule text_string) (simp add: json_string_def)
  have "json_elements CONTRACT_ASCII ([] @ [0x2d, 0x37] @ [] @ COMMA # ([] @ (QUOTE # [0x62] @ [QUOTE]) @ []))
      [JNum [0x2d, 0x37], JStr [0x62]]"
    by (intro elements_more elements_one ws n s)
  from text_array [OF this] have a: "json_text CONTRACT_ASCII [LBRACKET, 0x2d, 0x37, COMMA, QUOTE, 0x62, QUOTE, RBRACKET]
      (JArr [JNum [0x2d, 0x37], JStr [0x62]])" by simp
  have k: "json_string CONTRACT_ASCII [0x61] [0x61]" by (simp add: json_string_def)
  from text_object [OF members_one [OF ws k ws ws a ws]] have "json_text CONTRACT_ASCII sample_text sample_value"
    by (simp add: sample_text_def sample_value_def)
  then show ?thesis unfolding json_document_def using ws by (intro exI [of _ "[]"] exI [of _ sample_text]) simp
qed

lemma sample_denotes:
  obtains d where "represents d sample_value" "denotes d 0 sample_value"
    "denotes d 2 (JArr [JNum [0x2d, 0x37], JStr [0x62]])" "denotes d 3 (JNum [0x2d, 0x37])"
proof -
  have l: "limits_resolve None = Ret \<lparr>maximum_bytes = 65535, maximum_depth = 32, maximum_tokens = 8192\<rparr>"
    by code_simp
  have w: "within \<lparr>maximum_bytes = 65535, maximum_depth = 32, maximum_tokens = 8192\<rparr> CONTRACT_ASCII sample_value"
    by (simp add: within_def sample_value_def)
  obtain d where d: "represents d (last_wins sample_value)"
    using parse_document_resolved_exact [OF l sample_document w, of plenty None] by (auto simp: plenty_def)
  have r: "represents d sample_value" using d by (simp add: sample_value_def)
  have "denotes d 0 sample_value" by (rule denotes_root [OF r])
  moreover have "denotes d 2 (JArr [JNum [0x2d, 0x37], JStr [0x62]])" "denotes d 3 (JNum [0x2d, 0x37])"
    using r by (auto simp: denotes_def sample_value_def)
  ultimately show thesis using that r by blast
qed

section \<open>Properties\<close>

text \<open>C8: the readers are typed. For the handle of a value, \<open>maelys_json_value_type\<close> is the type of that
  value, and each accessor returns what the value holds when it has the accessor's type and
  TYPE otherwise.\<close>

theorem readers_typed:
  assumes "denotes d h v"
  shows "value_type (Some d) h = json_type_of v \<and>
    value_string (Some d) h True = (case v of JStr s \<Rightarrow> Ret s | _ \<Rightarrow> Fail ERR_TYPE) \<and>
    value_number_text (Some d) h True = (case v of JNum n \<Rightarrow> Ret n | _ \<Rightarrow> Fail ERR_TYPE) \<and>
    value_boolean (Some d) h True = (case v of JBool b \<Rightarrow> Ret b | _ \<Rightarrow> Fail ERR_TYPE) \<and>
    (value_is_null (Some d) h \<longleftrightarrow> v = JNull) \<and>
    array_size (Some d) h True = (case v of JArr vs \<Rightarrow> Ret (length vs) | _ \<Rightarrow> Fail ERR_TYPE) \<and>
    object_size (Some d) h True = (case v of JObj ms \<Rightarrow> Ret (length ms) | _ \<Rightarrow> Fail ERR_TYPE)"
  using text_view_denotes [OF assms, of TYPE_STRING] text_view_denotes [OF assms, of TYPE_NUMBER]
  by (cases v) (simp_all add: value_type_denotes [OF assms] value_string_def value_number_text_def
      value_boolean_denotes [OF assms] value_is_null_denotes [OF assms] array_size_denotes [OF assms]
      object_size_denotes [OF assms])

theorem readers_typed_witness:
  "\<exists>d. value_type (Some d) 2 = TYPE_ARRAY \<and> array_size (Some d) 2 True = Ret 2 \<and> object_size (Some d) 2 True = Fail ERR_TYPE"
proof -
  obtain d where "denotes d 2 (JArr [JNum [0x2d, 0x37], JStr [0x62]])" using sample_denotes by blast
  from readers_typed [OF this] show ?thesis by auto
qed

text \<open>Access by position. \<open>maelys_json_array_get\<close> and \<open>maelys_json_object_member_at\<close> return for every
  index below the size a handle of the element, or the key and a handle of the value of the member,
  at that position of the text, and RANGE for every other.\<close>

theorem readers_positions:
  assumes "denotes d h v"
  shows "case v of
     JArr vs \<Rightarrow>
       (if k < length vs then \<exists>c. array_get (Some d) h k True = Ret c \<and> denotes d c (vs ! k)
        else array_get (Some d) h k True = Fail ERR_RANGE)
   | JObj ms \<Rightarrow>
       (if k < length ms then \<exists>c. object_member_at (Some d) h k True = Ret (fst (ms ! k), c) \<and> denotes d c (snd (ms ! k))
        else object_member_at (Some d) h k True = Fail ERR_RANGE)
   | _ \<Rightarrow> array_get (Some d) h k True = Fail ERR_TYPE \<and> object_member_at (Some d) h k True = Fail ERR_TYPE"
  using array_get_denotes [OF assms, of k] object_member_at_denotes [OF assms, of k] denotes_element [of d h _ k]
    denotes_member [of d h _ k] assms
  by (cases v) auto

theorem readers_positions_witness:
  "\<exists>d c. array_get (Some d) 2 0 True = Ret c \<and> denotes d c (JNum [0x2d, 0x37])"
proof -
  obtain d where "denotes d 2 (JArr [JNum [0x2d, 0x37], JStr [0x62]])" using sample_denotes by blast
  from readers_positions [OF this, of 0] show ?thesis by auto
qed

lemma map_of_takeWhile:
  "map_of ms k = (if k \<in> fst ` set ms then Some (snd (ms ! length (takeWhile (\<lambda>m. fst m \<noteq> k) ms))) else None)"
  by (induction ms) auto

lemma takeWhile_key: "k \<in> fst ` set ms \<Longrightarrow> length (takeWhile (\<lambda>m. fst m \<noteq> k) ms) < length ms"
  by (induction ms) auto

lemma c_string_prefix: "length (c_string k) \<le> length k" "take (length (c_string k)) k = c_string k"
  by (simp_all add: c_string_def length_takeWhile_le takeWhile_eq_take [symmetric])

lemma object_lookup:
  assumes "denotes d h (JObj ms)" "n \<le> length k"
  shows "case map_of ms (take n k) of
     Some w \<Rightarrow> \<exists>c. object_get_sized (Some d) h (Some k) n True = Ret c \<and> denotes d c w
   | None \<Rightarrow> object_get_sized (Some d) h (Some k) n True = Fail ERR_NOT_FOUND"
  using object_get_sized_denotes [OF assms] denotes_member [OF assms(1) takeWhile_key [of "take n k"]]
  by (auto simp: map_of_takeWhile)

text \<open>C9: access by key. \<open>maelys_json_object_get_sized\<close> finds a member exactly when the object has one whose
  key is the bytes given, NUL bytes included, and returns a handle of its value; when it has none it reports
  NOT_FOUND, and for a value that is no object TYPE. \<open>maelys_json_object_get\<close> is the same for a C string.\<close>

theorem object_get_exact:
  assumes "denotes d h v" "n \<le> length k"
  shows "case v of
     JObj ms \<Rightarrow>
       (case map_of ms (take n k) of
          Some w \<Rightarrow> \<exists>c. object_get_sized (Some d) h (Some k) n True = Ret c \<and> denotes d c w
        | None \<Rightarrow> object_get_sized (Some d) h (Some k) n True = Fail ERR_NOT_FOUND) \<and>
       (case map_of ms (c_string k) of
          Some w \<Rightarrow> \<exists>c. object_get (Some d) h (Some k) True = Ret c \<and> denotes d c w
        | None \<Rightarrow> object_get (Some d) h (Some k) True = Fail ERR_NOT_FOUND)
   | _ \<Rightarrow> object_get_sized (Some d) h (Some k) n True = Fail ERR_TYPE \<and> object_get (Some d) h (Some k) True = Fail ERR_TYPE"
proof (cases v)
  case (JObj ms)
  with assms(1) have dn: "denotes d h (JObj ms)" by simp
  show ?thesis
    using object_lookup [OF dn assms(2)] object_lookup [OF dn c_string_prefix(1), of k] JObj
    unfolding object_get_def option.case c_string_prefix(2) by simp
qed (use object_get_sized_denotes [OF assms] object_get_sized_denotes [OF assms(1) c_string_prefix(1), of k] in
    \<open>simp_all add: object_get_def\<close>)

theorem object_get_exact_witness:
  "\<exists>d c. object_get_sized (Some d) 0 (Some [0x61]) 1 True = Ret c \<and> denotes d c (JArr [JNum [0x2d, 0x37], JStr [0x62]]) \<and>
     object_get_sized (Some d) 0 (Some [0x63]) 1 True = Fail ERR_NOT_FOUND"
proof -
  obtain d where d: "denotes d 0 sample_value" using sample_denotes by blast
  from object_get_exact [OF d, of 1 "[0x61]"] object_get_exact [OF d, of 1 "[0x63]"] show ?thesis
    by (auto simp: sample_value_def)
qed

text \<open>C10: the integer readers never wrap. For a number lexeme that is a decimal integer of any length,
  \<open>maelys_json_value_u64\<close> returns the integer when it is between 0 and \<open>2^64 - 1\<close>,
  \<open>maelys_json_value_i64\<close> when it is between \<open>-2^63\<close> and \<open>2^63 - 1\<close> (as its two's complement word), and
  both report RANGE otherwise; a lexeme with a fraction or an exponent gives NOT_INTEGER, or RANGE when
  its digits before them are out of range already.\<close>

theorem integer_readers_exact:
  assumes "denotes d h (JNum n)"
  shows "case lexeme_integer n of
     Some i \<Rightarrow>
       value_u64 (Some d) h True = (if 0 \<le> i \<and> i < 2 ^ 64 then Ret (of_int i) else Fail ERR_RANGE) \<and>
       value_i64 (Some d) h True = (if - (2 ^ 63) \<le> i \<and> i < 2 ^ 63 then Ret (of_int i) else Fail ERR_RANGE)
   | None \<Rightarrow>
       value_u64 (Some d) h True \<in> {Fail ERR_NOT_INTEGER, Fail ERR_RANGE} \<and>
       value_i64 (Some d) h True \<in> {Fail ERR_NOT_INTEGER, Fail ERR_RANGE}"
  using value_u64_denotes [OF assms] value_i64_denotes [OF assms] by (auto split: option.splits)

theorem integer_readers_exact_witness:
  "\<exists>d. value_i64 (Some d) 3 True = Ret (of_int (- 7)) \<and> value_u64 (Some d) 3 True = Fail ERR_RANGE"
proof -
  obtain d where d: "denotes d 3 (JNum [0x2d, 0x37])" using sample_denotes by blast
  have "lexeme_integer [0x2d, 0x37] = Some (- 7)" by code_simp
  with integer_readers_exact [OF d] show ?thesis by auto
qed

text \<open>C11: no reader of a parsed document fails an assertion or leaves the token array or the child index,
  whatever the handle: that of a value, of an object key, or none of the document's at all.\<close>

theorem readers_safe:
  assumes "represents d root"
  shows "array_size (Some d) h out \<noteq> Stuck \<and> array_get (Some d) h k out \<noteq> Stuck \<and>
    object_size (Some d) h out \<noteq> Stuck \<and> object_member_at (Some d) h k out \<noteq> Stuck \<and>
    object_get_sized (Some d) h key n out \<noteq> Stuck \<and> object_get (Some d) h key out \<noteq> Stuck"
  using readers_defined [OF assms] by (auto simp: object_get_def split: option.splits)

theorem readers_safe_witness:
  "\<exists>d. array_get (Some d) 1 7 True \<noteq> Stuck \<and> object_get_sized (Some d) 9 None 0 True \<noteq> Stuck"
proof -
  obtain d where d: "represents d sample_value" using sample_denotes by blast
  from readers_safe [OF d] show ?thesis by blast
qed

text \<open>C3: a document gives its value back. A client that walks a parsed document from
  \<open>maelys_json_document_root\<close> with the public readers alone reads the one value the grammar gives the
  bytes, without the members superseded under the last-wins profile.\<close>

theorem parse_read_back:
  assumes "document_parse (Some bs) (length bs) prof requested True err h = (Ret d, err', h')"
  shows "\<exists>v l. limits_resolve requested = Ret l \<and> json_document prof bs v \<and> json_height (last_wins v) \<le> maximum_depth l \<and>
    read_json (maximum_depth l + 1) d (document_root (Some d)) = Some (last_wins v)"
proof (cases rule: document_parse_cases [of "Some bs" "length bs" prof requested True err h])
  case (refused code)
  then show ?thesis using assms by simp
next
  case (parsed l b)
  then have e: "parse_document bs prof l (map_option (\<lambda>_. no_error) err) h = (Ret d, err', h')" using assms by simp
  obtain v where v: "json_document prof bs v" "json_height v \<le> maximum_depth l" "represents d (last_wins v)"
    using parse_document_resolved [OF parsed(2), of bs prof err h] unfolding e parse_ends_def by auto
  note dn = denotes_root [OF v(3)]
  have "d_tokens d \<noteq> []" using denotes_cell(1) [OF dn] by auto
  then have "document_root (Some d) = 0" by (simp add: document_root_def)
  moreover have "json_height (last_wins v) \<le> maximum_depth l" using order.trans [OF last_wins_height v(2)] .
  moreover have "read_json (maximum_depth l + 1) d 0 = Some (last_wins v)"
    by (rule read_json_denotes [OF dn]) (use calculation(2) in simp)
  ultimately show ?thesis using v(1) parsed(2) by metis
qed

theorem parse_read_back_witness:
  "\<exists>d v. read_json 33 d (document_root (Some d)) = Some (last_wins v) \<and> json_document CONTRACT_ASCII sample_text v"
proof -
  have "returned (document_parse (Some sample_text) (length sample_text) CONTRACT_ASCII None True None plenty)"
    by code_simp
  then obtain d e h where p: "document_parse (Some sample_text) (length sample_text) CONTRACT_ASCII None True None plenty =
      (Ret d, e, h)" using returned_Ret by blast
  obtain v l where v: "limits_resolve None = Ret l" "json_document CONTRACT_ASCII sample_text v"
    "read_json (maximum_depth l + 1) d (document_root (Some d)) = Some (last_wins v)"
    using parse_read_back [OF p] by blast
  moreover have "limits_resolve None = Ret \<lparr>maximum_bytes = 65535, maximum_depth = 32, maximum_tokens = 8192\<rparr>"
    by code_simp
  ultimately have "l = \<lparr>maximum_bytes = 65535, maximum_depth = 32, maximum_tokens = 8192\<rparr>" by simp
  then have "maximum_depth l + 1 = 33" by simp
  with v show ?thesis by metis
qed

end
