(* ===== verification/Writer.thy ===== *)
theory Writer
  imports Document
begin

text \<open>
  \<^verbatim>\<open>src/writer.c\<close> but for \<open>finish\<close>, with the structures of \<^verbatim>\<open>src/writer_internal.h\<close>: the writer
  that builds one tree of nodes, call by call.

  A call returns an outcome and the writer after it; \<open>Ret\<close> is \<open>MAELYS_JSON_OK\<close>. Every public call
  answers \<open>ERR_ARGUMENT\<close> to a NULL writer: \<open>on_writer\<close> is that case, once for all of them. A key or
  string of \<open>n\<close> bytes is a list of that length, \<open>None\<close> when the pointer is NULL. \<open>w_stack\<close> holds
  \<open>stack[0 .. depth)\<close>, the innermost container first. The node array is modelled by the part in
  use, \<open>w_nodes\<close>, its capacity by a field of its own. A signed number is its 64-bit word in two's
  complement. \<open>Stuck\<close> is a failed assertion or an access outside an array.
\<close>

unbundle bit_operations_syntax

section \<open>Nodes and writers\<close>

record node =
  n_links :: links
  n_type :: json_type
  n_key :: "bytes option"
  n_string :: "bytes option"
  n_unsigned :: u64
  n_signed :: u64
  n_is_signed :: bool
  n_boolean :: bool

record writer =
  w_profile :: profile
  w_limits :: limits
  w_flags :: u32
  w_nodes :: "node list"
  w_capacity :: nat
  w_keys :: keyset
  w_stack :: "nat list"
  w_pending :: "bytes option"
  w_finished :: bool
  w_failure :: result
  w_heap :: heap

type_synonym 'a call = "(result, 'a) outcome \<times> writer"

definition SIZEOF_NODE :: nat where "SIZEOF_NODE = 104"
definition SIZEOF_WRITER :: nat where "SIZEOF_WRITER = 144"
definition WRITER_INITIAL_NODES :: nat where "WRITER_INITIAL_NODES = 16"
definition WRITER_INITIAL_KEYS :: nat where "WRITER_INITIAL_KEYS = 16"

definition fresh_node :: "json_type \<Rightarrow> nat \<Rightarrow> bytes option \<Rightarrow> node" where
  "fresh_node type parent key =
     \<lparr>n_links = links_init parent, n_type = type, n_key = key, n_string = None, n_unsigned = 0,
      n_signed = 0, n_is_signed = False, n_boolean = False\<rparr>"

definition node_key :: "node list \<Rightarrow> nat \<Rightarrow> keyset_key" where
  "node_key ns index =
     \<lparr>k_parent = l_parent (n_links (ns ! index)),
      k_bytes = (case n_key (ns ! index) of None \<Rightarrow> [] | Some k \<Rightarrow> k)\<rparr>"

definition writer_fail :: "writer \<Rightarrow> result \<Rightarrow> 'a call" where
  "writer_fail w code =
     (if code = OK \<or> code = ERR_ARGUMENT then (Stuck, w)
      else (Fail code, if w_failure w = OK then w\<lparr>w_failure := code\<rparr> else w))"

definition writer_ready :: "writer \<Rightarrow> result" where
  "writer_ready w = (if w_finished w \<or> w_failure w \<noteq> OK then ERR_STATE else OK)"

definition when_ready :: "writer \<Rightarrow> 'a call \<Rightarrow> 'a call" where
  "when_ready w m = (if writer_ready w \<noteq> OK then (Fail (writer_ready w), w) else m)"

definition valid_text :: "profile \<Rightarrow> bytes option \<Rightarrow> nat \<Rightarrow> bool" where
  "valid_text prof src sz =
     (if src = None \<and> sz \<noteq> 0 then False
      else
        let bs = (case src of None \<Rightarrow> [] | Some b \<Rightarrow> take sz b)
        in if prof = RFC8259 then (\<forall>b \<in> set bs. b \<noteq> 0) \<and> utf8_validate bs
           else (\<forall>b \<in> set bs. \<not> (b < 0x20 \<or> b > 0x7e \<or> b = QUOTE \<or> b = BACKSLASH)))"

text \<open>The bytes behind a pointer that \<open>valid_text\<close> let pass.\<close>

definition text_bytes :: "bytes option \<Rightarrow> nat \<Rightarrow> bytes" where
  "text_bytes src sz = (case src of None \<Rightarrow> [] | Some b \<Rightarrow> take sz b)"

text \<open>\<open>copy_bytes\<close>: a copy with a NUL.\<close>

definition copy_bytes :: "bytes \<Rightarrow> heap \<Rightarrow> bytes option \<times> heap" where
  "copy_bytes bs h =
     (case malloc (length bs + 1) h of
        (True, h) \<Rightarrow> (Some bs, h)
      | (False, h) \<Rightarrow> (None, h))"

section \<open>Attaching a node\<close>

definition grow_nodes :: "writer \<Rightarrow> unit call" where
  "grow_nodes w =
     (if length (w_nodes w) \<ge> maximum_tokens (w_limits w) then (Fail ERR_LIMIT, w)
      else if length (w_nodes w) < w_capacity w then (Ret (), w)
      else
        let doubled = (if w_capacity w \<noteq> 0 then w_capacity w * 2 else WRITER_INITIAL_NODES);
            capacity = (if doubled > maximum_tokens (w_limits w) then maximum_tokens (w_limits w)
                        else doubled)
        in case realloc (w_capacity w * SIZEOF_NODE) (capacity * SIZEOF_NODE) (w_heap w) of
             (False, h) \<Rightarrow> (Fail ERR_MEMORY, w\<lparr>w_heap := h\<rparr>)
           | (True, h) \<Rightarrow> (Ret (), w\<lparr>w_capacity := capacity, w_heap := h\<rparr>))"

definition current_container :: "writer \<Rightarrow> nat option" where
  "current_container w = (case w_stack w of [] \<Rightarrow> None | c # _ \<Rightarrow> Some c)"

definition container_type :: "writer \<Rightarrow> json_type option" where
  "container_type w = map_option (\<lambda>c. n_type (w_nodes w ! c)) (current_container w)"

text \<open>Linking the node \<open>index\<close> under its container, as \<open>link_under\<close> does for tokens.\<close>

definition link_node :: "node list \<Rightarrow> nat option \<Rightarrow> nat \<Rightarrow> node list" where
  "link_node ns container index =
     (case container of
        None \<Rightarrow> ns
      | Some c \<Rightarrow>
          let l = n_links (ns ! c);
              prev = (if last_child l = VALUE_NONE then None else Some (n_links (ns ! last_child l)));
              (l', prev') = links_append l prev index;
              ns1 = (case prev' of
                       None \<Rightarrow> ns
                     | Some p \<Rightarrow> ns[last_child l := (ns ! last_child l)\<lparr>n_links := p\<rparr>])
          in ns1[c := (ns1 ! c)\<lparr>n_links := l'\<rparr>])"

text \<open>Handing the key just attached to the key set.\<close>

definition insert_node_key :: "writer \<Rightarrow> nat \<Rightarrow> unit call" where
  "insert_node_key w index =
     (case keyset_insert (node_key (w_nodes w)) index (w_keys w, w_heap w) of
        (Ret _, keys, h) \<Rightarrow> (Ret (), w\<lparr>w_keys := keys, w_heap := h\<rparr>)
      | (Fail code, keys, h) \<Rightarrow>
          if code = ERR_DUPLICATE_KEY then (Stuck, w)
          else writer_fail (w\<lparr>w_keys := keys, w_heap := h\<rparr>) code
      | (Stuck, keys, h) \<Rightarrow> (Stuck, w))"

definition attach_node :: "writer \<Rightarrow> json_type \<Rightarrow> nat call" where
  "attach_node w type =
     (if current_container w = None \<and> w_nodes w \<noteq> [] then writer_fail w ERR_STATE
      else
        let needs_key = (container_type w = Some TYPE_OBJECT)
        in if (needs_key \<and> w_pending w = None) \<or> (\<not> needs_key \<and> w_pending w \<noteq> None)
           then writer_fail w ERR_STATE
           else case grow_nodes w of
             (Stuck, w) \<Rightarrow> (Stuck, w)
           | (Fail code, w) \<Rightarrow> writer_fail w code
           | (Ret _, w) \<Rightarrow>
               let parent = (case current_container w of None \<Rightarrow> VALUE_NONE | Some c \<Rightarrow> c);
                   index = length (w_nodes w);
                   node = fresh_node type parent (if needs_key then w_pending w else None);
                   w1 = w\<lparr>w_nodes := w_nodes w @ [node],
                          w_pending := (if needs_key then None else w_pending w)\<rparr>
               in andthen (if needs_key then insert_node_key w1 index else (Ret (), w1)) (\<lambda>_ w.
                    (Ret index, w\<lparr>w_nodes := link_node (w_nodes w) (current_container w) index\<rparr>)))"

definition update_node :: "writer \<Rightarrow> nat \<Rightarrow> (node \<Rightarrow> node) \<Rightarrow> writer" where
  "update_node w index f = w\<lparr>w_nodes := (w_nodes w)[index := f (w_nodes w ! index)]\<rparr>"

section \<open>Creation and release\<close>

text \<open>\<open>free\<close> of an optional copy: its bytes and the NUL.\<close>

definition free_copy :: "bytes option \<Rightarrow> heap \<Rightarrow> heap" where
  "free_copy c h = (case c of None \<Rightarrow> h | Some bs \<Rightarrow> mfree (length bs + 1) h)"

definition free_node :: "node \<Rightarrow> heap \<Rightarrow> heap" where
  "free_node n h = free_copy (n_string n) (free_copy (n_key n) h)"

definition release_writer :: "writer \<Rightarrow> heap" where
  "release_writer w =
     (let h = fold free_node (w_nodes w) (w_heap w);
          h = snd (keyset_release (w_keys w) h);
          h = free_copy (w_pending w) h;
          h = mfree (maximum_depth (w_limits w) * SIZEOF_SIZE_T) h;
          h = mfree (w_capacity w * SIZEOF_NODE) h
      in mfree SIZEOF_WRITER h)"

definition known_flags :: u32 where
  "known_flags = FLAG_FINAL_NEWLINE OR FLAG_INDENT OR FLAG_ASCII"

definition new_writer :: "profile \<Rightarrow> limits \<Rightarrow> u32 \<Rightarrow> keyset \<Rightarrow> heap \<Rightarrow> writer" where
  "new_writer prof l flags keys h =
     \<lparr>w_profile = prof, w_limits = l, w_flags = flags, w_nodes = [], w_capacity = 0, w_keys = keys,
      w_stack = [], w_pending = None, w_finished = False, w_failure = OK, w_heap = h\<rparr>"

definition writer_create ::
  "profile \<Rightarrow> limits option \<Rightarrow> u32 \<Rightarrow> bool \<Rightarrow> heap \<Rightarrow> (result, writer) outcome \<times> heap" where
  "writer_create prof requested flags out_given h =
     (if \<not> out_given \<or> \<not> profile_valid prof \<or> prof = RFC8259_LAST_WINS \<or>
         flags AND NOT known_flags \<noteq> 0 then (Fail ERR_ARGUMENT, h)
      else case limits_resolve requested of
        Ret l \<Rightarrow>
          (case malloc SIZEOF_WRITER h of
             (False, h) \<Rightarrow> (Fail ERR_MEMORY, h)
           | (True, h) \<Rightarrow>
               (case malloc (maximum_depth l * SIZEOF_SIZE_T) h of
                  (False, h) \<Rightarrow> (Fail ERR_MEMORY, mfree SIZEOF_WRITER h)
                | (True, h) \<Rightarrow>
                    (case keyset_init WRITER_INITIAL_KEYS h of
                       (Ret _, keys, h) \<Rightarrow> (Ret (new_writer prof l flags keys h), h)
                     | (Fail code, keys, h) \<Rightarrow>
                         (Fail ERR_MEMORY, release_writer (new_writer prof l flags keys h))
                     | (Stuck, keys, h) \<Rightarrow> (Stuck, h))))
      | _ \<Rightarrow> (Fail ERR_ARGUMENT, h))"

text \<open>The public calls on a pointer that may be NULL.\<close>

definition on_writer :: "(writer \<Rightarrow> 'a call) \<Rightarrow> writer option \<Rightarrow> (result, 'a) outcome \<times> writer option" where
  "on_writer f w =
     (case w of
        None \<Rightarrow> (Fail ERR_ARGUMENT, None)
      | Some w \<Rightarrow> (case f w of (r, w) \<Rightarrow> (r, Some w)))"

definition writer_release :: "writer option \<Rightarrow> heap \<Rightarrow> heap" where
  "writer_release w h = (case w of None \<Rightarrow> h | Some w \<Rightarrow> release_writer (w\<lparr>w_heap := h\<rparr>))"

definition writer_status :: "writer option \<Rightarrow> result" where
  "writer_status w = (case w of None \<Rightarrow> ERR_ARGUMENT | Some w \<Rightarrow> w_failure w)"

section \<open>Containers\<close>

definition container_begin :: "json_type \<Rightarrow> writer \<Rightarrow> unit call" where
  "container_begin type w =
     when_ready w
       (if length (w_stack w) \<ge> maximum_depth (w_limits w) then writer_fail w ERR_LIMIT
        else andthen (attach_node w type) (\<lambda>index w. (Ret (), w\<lparr>w_stack := index # w_stack w\<rparr>)))"

definition container_end :: "json_type \<Rightarrow> writer \<Rightarrow> unit call" where
  "container_end type w =
     when_ready w
       (if container_type w \<noteq> Some type \<or> w_pending w \<noteq> None then writer_fail w ERR_STATE
        else (Ret (), w\<lparr>w_stack := tl (w_stack w)\<rparr>))"

definition writer_object_begin :: "writer \<Rightarrow> unit call" where
  "writer_object_begin w = container_begin TYPE_OBJECT w"

definition writer_object_end :: "writer \<Rightarrow> unit call" where
  "writer_object_end w = container_end TYPE_OBJECT w"

definition writer_array_begin :: "writer \<Rightarrow> unit call" where
  "writer_array_begin w = container_begin TYPE_ARRAY w"

definition writer_array_end :: "writer \<Rightarrow> unit call" where
  "writer_array_end w = container_end TYPE_ARRAY w"

definition writer_key :: "bytes option \<Rightarrow> nat \<Rightarrow> writer \<Rightarrow> unit call" where
  "writer_key src sz w =
     (if \<not> valid_text (w_profile w) src sz then (Fail ERR_ARGUMENT, w)
      else when_ready w
        (if container_type w \<noteq> Some TYPE_OBJECT \<or> w_pending w \<noteq> None then writer_fail w ERR_STATE
         else if sz > maximum_bytes (w_limits w) then writer_fail w ERR_LIMIT
         else
           let key = text_bytes src sz;
               candidate = \<lparr>k_parent = hd (w_stack w), k_bytes = key\<rparr>
           in case keyset_contains (node_key (w_nodes w)) (w_keys w) candidate of
                None \<Rightarrow> (Stuck, w)
              | Some True \<Rightarrow> writer_fail w ERR_DUPLICATE_KEY
              | Some False \<Rightarrow>
                  (case copy_bytes key (w_heap w) of
                     (None, h) \<Rightarrow> writer_fail (w\<lparr>w_heap := h\<rparr>) ERR_MEMORY
                   | (Some copy, h) \<Rightarrow> (Ret (), w\<lparr>w_pending := Some copy, w_heap := h\<rparr>))))"

definition writer_key_cstr :: "bytes option \<Rightarrow> writer \<Rightarrow> unit call" where
  "writer_key_cstr key w =
     (case key of
        None \<Rightarrow> (Fail ERR_ARGUMENT, w)
      | Some k \<Rightarrow> writer_key key (length (c_string k)) w)"

section \<open>Scalars\<close>

text \<open>
  The tail that \<open>writer_string\<close> and \<open>write_number_lexeme\<close> share: copy the bytes, attach a node,
  give it the copy, or free the copy when attaching failed.
\<close>

definition attach_text :: "json_type \<Rightarrow> bytes \<Rightarrow> writer \<Rightarrow> unit call" where
  "attach_text type bs w =
     (case copy_bytes bs (w_heap w) of
        (None, h) \<Rightarrow> writer_fail (w\<lparr>w_heap := h\<rparr>) ERR_MEMORY
      | (Some copy, h) \<Rightarrow>
          (case attach_node (w\<lparr>w_heap := h\<rparr>) type of
             (Ret index, w) \<Rightarrow> (Ret (), update_node w index (\<lambda>n. n\<lparr>n_string := Some copy\<rparr>))
           | (Fail code, w) \<Rightarrow> (Fail code, w\<lparr>w_heap := mfree (length copy + 1) (w_heap w)\<rparr>)
           | (Stuck, w) \<Rightarrow> (Stuck, w)))"

definition writer_string :: "bytes option \<Rightarrow> nat \<Rightarrow> writer \<Rightarrow> unit call" where
  "writer_string src sz w =
     (if \<not> valid_text (w_profile w) src sz then (Fail ERR_ARGUMENT, w)
      else when_ready w
        (if sz > maximum_bytes (w_limits w) then writer_fail w ERR_LIMIT
         else attach_text TYPE_STRING (text_bytes src sz) w))"

definition writer_string_cstr :: "bytes option \<Rightarrow> writer \<Rightarrow> unit call" where
  "writer_string_cstr value w =
     (case value of
        None \<Rightarrow> (Fail ERR_ARGUMENT, w)
      | Some v \<Rightarrow> writer_string value (length (c_string v)) w)"

text \<open>\<open>attach_scalar\<close>, and what its callers write into the node.\<close>

definition attach_scalar :: "json_type \<Rightarrow> (node \<Rightarrow> node) \<Rightarrow> writer \<Rightarrow> unit call" where
  "attach_scalar type f w =
     when_ready w (andthen (attach_node w type) (\<lambda>index w. (Ret (), update_node w index f)))"

definition writer_u64 :: "u64 \<Rightarrow> writer \<Rightarrow> unit call" where
  "writer_u64 value w = attach_scalar TYPE_NUMBER (\<lambda>n. n\<lparr>n_unsigned := value\<rparr>) w"

definition writer_i64 :: "u64 \<Rightarrow> writer \<Rightarrow> unit call" where
  "writer_i64 value w =
     attach_scalar TYPE_NUMBER (\<lambda>n. n\<lparr>n_signed := value, n_is_signed := True\<rparr>) w"

definition write_number_lexeme :: "bytes option \<Rightarrow> nat \<Rightarrow> nat \<Rightarrow> writer \<Rightarrow> unit call" where
  "write_number_lexeme src sz maximum w =
     (case src of
        None \<Rightarrow> (Fail ERR_ARGUMENT, w)
      | Some b \<Rightarrow>
          if sz > maximum \<or> \<not> number_syntax (take sz b) then (Fail ERR_ARGUMENT, w)
          else when_ready w
            (if sz > maximum_bytes (w_limits w) then writer_fail w ERR_LIMIT
             else attach_text TYPE_NUMBER (take sz b) w))"

definition writer_number_text :: "bytes option \<Rightarrow> nat \<Rightarrow> writer \<Rightarrow> unit call" where
  "writer_number_text src sz w = write_number_lexeme src sz MAXIMUM_NUMBER_TEXT w"

definition writer_boolean :: "bool \<Rightarrow> writer \<Rightarrow> unit call" where
  "writer_boolean enabled w = attach_scalar TYPE_BOOLEAN (\<lambda>n. n\<lparr>n_boolean := enabled\<rparr>) w"

definition writer_null :: "writer \<Rightarrow> unit call" where
  "writer_null w = attach_scalar TYPE_NULL (\<lambda>n. n) w"

section \<open>Copying a parsed value\<close>

text \<open>A reader call inside a writer call.\<close>

definition reading :: "writer \<Rightarrow> (result, 'a) outcome \<Rightarrow> 'a call" where
  "reading w r = (r, w)"

definition copy_number :: "document option \<Rightarrow> json_value \<Rightarrow> writer \<Rightarrow> unit call" where
  "copy_number document value w =
     andthen (reading w (value_number_text document value True)) (\<lambda>lexeme w.
       let by_lexeme = write_number_lexeme (Some lexeme) (length lexeme) (maximum_bytes (w_limits w)) w
       in if lexeme \<noteq> [] \<and> lexeme ! 0 = MINUS then
            (case value_i64 document value True of
               Ret number \<Rightarrow> writer_i64 number w
             | Fail code \<Rightarrow> if code \<noteq> ERR_NOT_INTEGER then (Fail code, w) else by_lexeme
             | Stuck \<Rightarrow> (Stuck, w))
          else
            (case value_u64 document value True of
               Ret number \<Rightarrow> writer_u64 number w
             | Fail code \<Rightarrow> if code \<noteq> ERR_NOT_INTEGER then (Fail code, w) else by_lexeme
             | Stuck \<Rightarrow> (Stuck, w)))"

text \<open>
  \<open>copy_value\<close> recurses on the levels of nesting it may still open; the writer's depth limit stops
  it first. The loops over members and elements recurse on the members and elements left.
\<close>

type_synonym value_copier = "json_value \<Rightarrow> writer \<Rightarrow> unit call"

fun copy_members ::
  "value_copier \<Rightarrow> document option \<Rightarrow> json_value \<Rightarrow> nat \<Rightarrow> nat \<Rightarrow> writer \<Rightarrow> unit call" where
  "copy_members copy document object i 0 w = (Ret (), w)"
| "copy_members copy document object i (Suc remaining) w =
     andthen (reading w (object_member_at document object i True)) (\<lambda>(key, member) w.
       andthen (writer_key (Some key) (length key) w) (\<lambda>_ w.
         andthen (copy member w) (\<lambda>_ w.
           copy_members copy document object (i + 1) remaining w)))"

definition copy_object :: "value_copier \<Rightarrow> document option \<Rightarrow> json_value \<Rightarrow> writer \<Rightarrow> unit call" where
  "copy_object copy document object w =
     andthen (reading w (object_size document object True)) (\<lambda>count w.
       andthen (writer_object_begin w) (\<lambda>_ w.
         andthen (copy_members copy document object 0 count w) (\<lambda>_ w. writer_object_end w)))"

fun copy_elements ::
  "value_copier \<Rightarrow> document option \<Rightarrow> json_value \<Rightarrow> nat \<Rightarrow> nat \<Rightarrow> writer \<Rightarrow> unit call" where
  "copy_elements copy document array i 0 w = (Ret (), w)"
| "copy_elements copy document array i (Suc remaining) w =
     andthen (reading w (array_get document array i True)) (\<lambda>element w.
       andthen (copy element w) (\<lambda>_ w.
         copy_elements copy document array (i + 1) remaining w))"

definition copy_array :: "value_copier \<Rightarrow> document option \<Rightarrow> json_value \<Rightarrow> writer \<Rightarrow> unit call" where
  "copy_array copy document array w =
     andthen (reading w (array_size document array True)) (\<lambda>count w.
       andthen (writer_array_begin w) (\<lambda>_ w.
         andthen (copy_elements copy document array 0 count w) (\<lambda>_ w. writer_array_end w)))"

fun copy_value :: "nat \<Rightarrow> document option \<Rightarrow> value_copier" where
  "copy_value 0 document value w = (Stuck, w)"
| "copy_value (Suc levels) document value w =
     (case value_type document value of
        TYPE_OBJECT \<Rightarrow> copy_object (copy_value levels document) document value w
      | TYPE_ARRAY \<Rightarrow> copy_array (copy_value levels document) document value w
      | TYPE_STRING \<Rightarrow>
          andthen (reading w (value_string document value True)) (\<lambda>s w.
            writer_string (Some s) (length s) w)
      | TYPE_NUMBER \<Rightarrow> copy_number document value w
      | TYPE_BOOLEAN \<Rightarrow>
          andthen (reading w (value_boolean document value True)) (\<lambda>enabled w.
            writer_boolean enabled w)
      | TYPE_NULL \<Rightarrow> writer_null w
      | TYPE_NONE \<Rightarrow> (Fail ERR_ARGUMENT, w))"

definition copy_levels :: "writer \<Rightarrow> nat" where
  "copy_levels w = maximum_depth (w_limits w) + 1"

text \<open>\<open>copy_failed\<close>: a failure found while copying is sticky, whatever its code.\<close>

definition copy_failed :: "writer \<Rightarrow> result \<Rightarrow> unit call" where
  "copy_failed w code =
     (if code = ERR_ARGUMENT then
        (case writer_fail w ERR_STATE :: unit call of
           (Stuck, w) \<Rightarrow> (Stuck, w)
         | (_, w) \<Rightarrow> (Fail code, w))
      else writer_fail w code)"

definition or_failed :: "unit call \<Rightarrow> unit call" where
  "or_failed m =
     (case m of
        (Fail code, w) \<Rightarrow> copy_failed w code
      | _ \<Rightarrow> m)"

definition writer_value :: "document option \<Rightarrow> json_value \<Rightarrow> writer \<Rightarrow> unit call" where
  "writer_value document value w =
     (if value_type document value = TYPE_NONE then (Fail ERR_ARGUMENT, w)
      else when_ready w (or_failed (copy_value (copy_levels w) document value w)))"

definition key_excluded :: "view \<Rightarrow> bytes list \<Rightarrow> bool" where
  "key_excluded key excluded = list_ex (\<lambda>e. c_string e = key) excluded"

fun copy_kept_members ::
  "value_copier \<Rightarrow> document option \<Rightarrow> json_value \<Rightarrow> bytes list \<Rightarrow> nat \<Rightarrow> nat \<Rightarrow> writer \<Rightarrow> unit call" where
  "copy_kept_members copy document object excluded i 0 w = (Ret (), w)"
| "copy_kept_members copy document object excluded i (Suc remaining) w =
     andthen (reading w (object_member_at document object i True)) (\<lambda>(key, member) w.
       if key_excluded key excluded then copy_kept_members copy document object excluded (i + 1) remaining w
       else
         andthen (writer_key (Some key) (length key) w) (\<lambda>_ w.
           andthen (copy member w) (\<lambda>_ w.
             copy_kept_members copy document object excluded (i + 1) remaining w)))"

text \<open>The array of excluded keys may be NULL, and so may each of them.\<close>

definition writer_object_begin_except ::
  "document option \<Rightarrow> json_value \<Rightarrow> bytes option list option \<Rightarrow> nat \<Rightarrow> writer \<Rightarrow> unit call" where
  "writer_object_begin_except document object excluded_keys excluded_count w =
     (let excluded = (case excluded_keys of None \<Rightarrow> [] | Some ks \<Rightarrow> take excluded_count ks)
      in if (excluded_keys = None \<and> excluded_count \<noteq> 0) \<or> value_type document object \<noteq> TYPE_OBJECT
         then (Fail ERR_ARGUMENT, w)
         else if None \<in> set excluded then (Fail ERR_ARGUMENT, w)
         else when_ready w
           (andthen (writer_object_begin w) (\<lambda>_ w.
              or_failed
                (andthen (reading w (object_size document object True)) (\<lambda>count w.
                  copy_kept_members (copy_value (copy_levels w) document) document object
                    (map the excluded) 0 count w)))))"

end
