(* ===== verification/Serialize.thy ===== *)
theory Serialize
  imports Writer "HOL-Library.Monad_Syntax"
begin

text \<open>
  \<^verbatim>\<open>src/serialize.c\<close>, and \<open>maelys_json_writer_finish\<close> of \<^verbatim>\<open>src/writer.c\<close>: the serialization of a
  finished tree into a growing buffer, the keys of each object sorted by UTF-16 code units.

  A call that appends returns an outcome and the serializer after it. \<open>s_bytes\<close> is the part of the
  buffer in use, so \<open>size\<close> is its length; the capacity is a field. \<open>serialize_object\<close> and
  \<open>serialize_array\<close> take the serializer of nodes one level down; \<open>serialize_node\<close> recurses on the
  levels of nesting, which the writer's depth limit bounds. The loop that doubles the capacity is
  a partial function: that it returns is proved. The loop over siblings has as many turns as the
  tree has nodes.
\<close>

unbundle bit_operations_syntax

section \<open>The buffer\<close>

record serializer =
  s_nodes :: "node list"
  s_bytes :: bytes
  s_capacity :: nat
  s_maximum :: nat
  s_indent :: bool
  s_ascii :: bool
  s_heap :: heap

type_synonym emission = "(result, unit) outcome \<times> serializer"

definition INDENT_WIDTH :: nat where "INDENT_WIDTH = 2"

partial_function (option) grow_capacity :: "nat \<Rightarrow> nat \<Rightarrow> nat \<Rightarrow> nat option" where
  "grow_capacity maximum needed capacity =
     (if capacity < needed
      then grow_capacity maximum needed (if capacity > maximum div 2 then maximum else capacity * 2)
      else Some capacity)"

text \<open>
  \<open>reserve\<close>: with no buffer yet its capacity is 0 and \<open>realloc\<close> of NULL allocates. \<open>Stuck\<close> is a
  loop that does not return.
\<close>

definition buffer_area :: "serializer \<Rightarrow> nat" where
  "buffer_area s = (if s_capacity s = 0 then 0 else s_capacity s + 1)"

definition reserve :: "nat \<Rightarrow> serializer \<Rightarrow> emission" where
  "reserve extra s =
     (if extra > s_maximum s - length (s_bytes s) then (Fail ERR_LIMIT, s)
      else
        let needed = length (s_bytes s) + extra
        in if needed \<le> s_capacity s then (Ret (), s)
           else case grow_capacity (s_maximum s) needed (if s_capacity s \<noteq> 0 then s_capacity s else 128) of
             None \<Rightarrow> (Stuck, s)
           | Some capacity \<Rightarrow>
               (case realloc (buffer_area s) (capacity + 1) (s_heap s) of
                  (False, h) \<Rightarrow> (Fail ERR_MEMORY, s\<lparr>s_heap := h\<rparr>)
                | (True, h) \<Rightarrow> (Ret (), s\<lparr>s_capacity := capacity, s_heap := h\<rparr>)))"

definition append_bytes :: "bytes \<Rightarrow> serializer \<Rightarrow> emission" where
  "append_bytes bs s =
     (if length bs = 0 then (Ret (), s)
      else andthen (reserve (length bs) s) (\<lambda>_ s.
        if length (s_bytes s) + length bs \<le> s_capacity s then (Ret (), s\<lparr>s_bytes := s_bytes s @ bs\<rparr>)
        else (Stuck, s)))"

definition append_byte :: "byte \<Rightarrow> serializer \<Rightarrow> emission" where
  "append_byte b s = append_bytes [b] s"

definition append_literal :: "string \<Rightarrow> serializer \<Rightarrow> emission" where
  "append_literal t s = append_bytes (ascii t) s"

fun append_spaces :: "nat \<Rightarrow> serializer \<Rightarrow> emission" where
  "append_spaces 0 s = (Ret (), s)"
| "append_spaces (Suc n) s = andthen (append_byte SPACE s) (\<lambda>_ s. append_spaces n s)"

definition append_break :: "nat \<Rightarrow> serializer \<Rightarrow> emission" where
  "append_break level s =
     (if \<not> s_indent s then (Ret (), s)
      else andthen (append_byte LF s) (\<lambda>_ s. append_spaces (level * INDENT_WIDTH) s))"

section \<open>Scalars\<close>

definition u16_escape :: "u32 \<Rightarrow> bytes" where
  "u16_escape unit16 =
     [BACKSLASH, 0x75, hex_digit (unat (drop_bit 12 unit16 AND 0xf)),
      hex_digit (unat (drop_bit 8 unit16 AND 0xf)), hex_digit (unat (drop_bit 4 unit16 AND 0xf)),
      hex_digit (unat (unit16 AND 0xf))]"

definition append_u16_escape :: "u32 \<Rightarrow> serializer \<Rightarrow> emission" where
  "append_u16_escape unit16 s = append_bytes (u16_escape unit16) s"

definition append_point :: "u32 \<Rightarrow> serializer \<Rightarrow> emission" where
  "append_point point s =
     (if point \<ge> 0x10000 then
        let point = point - 0x10000
        in andthen (append_u16_escape (0xd800 + drop_bit 10 point) s) (\<lambda>_ s.
             append_u16_escape (0xdc00 + (point AND 0x3ff)) s)
      else append_u16_escape point s)"

lemma utf8_decode_positive: "utf8_decode bs = Some (point, n) \<Longrightarrow> 0 < n \<and> bs \<noteq> []"
  by (auto simp: utf8_decode_def Let_def split: if_splits)

text \<open>The loop of \<open>append_string\<close> over the bytes not yet written.\<close>

function append_content :: "bytes \<Rightarrow> serializer \<Rightarrow> emission" where
  "append_content bs s =
     (case bs of
        [] \<Rightarrow> (Ret (), s)
      | b # rest \<Rightarrow>
          if b \<ge> 0x80 \<and> s_ascii s then
            (case utf8_decode bs of
               None \<Rightarrow> (Stuck, s)
             | Some (point, n) \<Rightarrow> andthen (append_point point s) (\<lambda>_ s. append_content (drop n bs) s))
          else andthen (append_bytes (canonical_escape b) s) (\<lambda>_ s. append_content rest s))"
  by pat_completeness auto
termination
  by (relation "measure (\<lambda>(bs, s). length bs)") (auto dest: utf8_decode_positive)

declare append_content.simps [simp del]

definition append_string :: "bytes \<Rightarrow> serializer \<Rightarrow> emission" where
  "append_string bs s =
     andthen (append_byte QUOTE s) (\<lambda>_ s.
       andthen (append_content bs s) (\<lambda>_ s. append_byte QUOTE s))"

text \<open>\<open>snprintf\<close> into 32 bytes, and the assertion that the text fitted.\<close>

definition number_text :: "node \<Rightarrow> bytes" where
  "number_text n =
     (if n_is_signed n then decimal_int (sint (n_signed n)) else decimal (unat (n_unsigned n)))"

definition append_number :: "node \<Rightarrow> serializer \<Rightarrow> emission" where
  "append_number n s =
     (case n_string n of
        Some lexeme \<Rightarrow> append_bytes lexeme s
      | None \<Rightarrow>
          let rendered = number_text n
          in if 0 < length rendered \<and> length rendered < 32 then append_bytes rendered s else (Stuck, s))"

section \<open>Sorting the keys\<close>

definition key_bytes :: "node list \<Rightarrow> nat \<Rightarrow> bytes" where
  "key_bytes ns i = (case n_key (ns ! i) of None \<Rightarrow> [] | Some k \<Rightarrow> k)"

definition key_compare :: "node list \<Rightarrow> nat \<Rightarrow> nat \<Rightarrow> int option" where
  "key_compare ns left right = utf16_compare (key_bytes ns left) (key_bytes ns right)"

text \<open>
  The loop of \<open>merge_keys\<close>: what it writes to \<open>scratch\<close> from \<open>output\<close> on. \<open>None\<close> is a comparison
  that failed its assertion.
\<close>

function merge_loop :: "node list \<Rightarrow> nat list \<Rightarrow> nat \<Rightarrow> nat \<Rightarrow> nat \<Rightarrow> nat \<Rightarrow> nat list option" where
  "merge_loop ns values left middle right stop =
     (if left < middle \<or> right < stop then
        do {
          take_left \<leftarrow> (if right \<ge> stop then Some True
                        else if left < middle
                        then map_option (\<lambda>c. c \<le> 0) (key_compare ns (values ! left) (values ! right))
                        else Some False);
          if take_left
          then map_option ((#) (values ! left)) (merge_loop ns values (left + 1) middle right stop)
          else map_option ((#) (values ! right)) (merge_loop ns values left middle (right + 1) stop)
        }
      else Some [])"
  by pat_completeness auto
termination
  by (relation "measure (\<lambda>(ns, values, left, middle, right, stop). (middle - left) + (stop - right))")
    (auto split: if_splits)

declare merge_loop.simps [simp del]

definition merge_keys :: "node list \<Rightarrow> nat \<Rightarrow> nat \<Rightarrow> nat \<Rightarrow> nat list \<Rightarrow> nat list option" where
  "merge_keys ns start middle stop values =
     map_option (\<lambda>scratch. take start values @ scratch @ drop stop values)
       (merge_loop ns values start middle middle stop)"

function sort_keys :: "node list \<Rightarrow> nat \<Rightarrow> nat \<Rightarrow> nat list \<Rightarrow> nat list option" where
  "sort_keys ns start stop values =
     (if stop - start < 2 then Some values
      else
        let middle = start + (stop - start) div 2
        in do {
          values \<leftarrow> sort_keys ns start middle values;
          values \<leftarrow> sort_keys ns middle stop values;
          merge_keys ns start middle stop values
        })"
  by pat_completeness auto
termination
  by (relation "measure (\<lambda>(ns, start, stop, values). stop - start)") auto

declare sort_keys.simps [simp del]

section \<open>Containers\<close>

text \<open>The nodes of the sibling chain from \<open>child\<close> on.\<close>

fun node_chain :: "nat \<Rightarrow> node list \<Rightarrow> nat \<Rightarrow> nat list option" where
  "node_chain turns ns child =
     (if child = VALUE_NONE then Some []
      else case turns of
        0 \<Rightarrow> None
      | Suc n \<Rightarrow>
          if child < length ns then
            map_option ((#) child) (node_chain n ns (next_sibling (n_links (ns ! child))))
          else None)"

declare node_chain.simps [simp del]

type_synonym node_serializer = "nat \<Rightarrow> nat \<Rightarrow> serializer \<Rightarrow> emission"

text \<open>The loop over the sorted members; \<open>first\<close> is whether none was written yet.\<close>

fun serialize_members :: "node_serializer \<Rightarrow> bool \<Rightarrow> nat list \<Rightarrow> nat \<Rightarrow> serializer \<Rightarrow> emission" where
  "serialize_members node first [] level s = (Ret (), s)"
| "serialize_members node first (v # vs) level s =
     andthen (if first then (Ret (), s) else append_byte COMMA s) (\<lambda>_ s.
       andthen (append_break (level + 1) s) (\<lambda>_ s.
         andthen (append_string (key_bytes (s_nodes s) v) s) (\<lambda>_ s.
           andthen (append_literal (if s_indent s then '': '' else '':'') s) (\<lambda>_ s.
             andthen (node v (level + 1) s) (\<lambda>_ s.
               serialize_members node False vs level s)))))"

text \<open>The two arrays of \<open>serialize_object\<close> are allocated in turn and freed at its end.\<close>

definition free_arrays :: "nat \<Rightarrow> emission \<Rightarrow> emission" where
  "free_arrays count m =
     (case m of (r, s) \<Rightarrow>
        (r, s\<lparr>s_heap := mfree (count * SIZEOF_SIZE_T) (mfree (count * SIZEOF_SIZE_T) (s_heap s))\<rparr>))"

definition sorted_members :: "serializer \<Rightarrow> links \<Rightarrow> nat list option" where
  "sorted_members s l =
     do {
       values \<leftarrow> node_chain (length (s_nodes s)) (s_nodes s) (first_child l);
       if length values = child_count l then sort_keys (s_nodes s) 0 (child_count l) values else None
     }"

definition serialize_object :: "node_serializer \<Rightarrow> links \<Rightarrow> nat \<Rightarrow> serializer \<Rightarrow> emission" where
  "serialize_object node l level s =
     (let count = child_count l
      in if count = 0 then append_literal ''{}'' s
         else
           let (values_ok, h) = malloc (count * SIZEOF_SIZE_T) (s_heap s);
               (scratch_ok, h) = malloc (count * SIZEOF_SIZE_T) h
           in if \<not> values_ok \<or> \<not> scratch_ok then
                let h = (if scratch_ok then mfree (count * SIZEOF_SIZE_T) h else h);
                    h = (if values_ok then mfree (count * SIZEOF_SIZE_T) h else h)
                in (Fail ERR_MEMORY, s\<lparr>s_heap := h\<rparr>)
              else
                let s = s\<lparr>s_heap := h\<rparr>
                in case sorted_members s l of
                     None \<Rightarrow> (Stuck, s)
                   | Some values \<Rightarrow>
                       free_arrays count
                         (andthen (append_byte LBRACE s) (\<lambda>_ s.
                           andthen (serialize_members node True values level s) (\<lambda>_ s.
                             andthen (append_break level s) (\<lambda>_ s. append_byte RBRACE s)))))"

fun serialize_elements :: "node_serializer \<Rightarrow> nat \<Rightarrow> bool \<Rightarrow> nat \<Rightarrow> nat \<Rightarrow> serializer \<Rightarrow> emission" where
  "serialize_elements node turns first child level s =
     (if child = VALUE_NONE then (Ret (), s)
      else case turns of
        0 \<Rightarrow> (Stuck, s)
      | Suc n \<Rightarrow>
          if child < length (s_nodes s) then
            andthen (if first then (Ret (), s) else append_byte COMMA s) (\<lambda>_ s.
              andthen (append_break (level + 1) s) (\<lambda>_ s.
                andthen (node child (level + 1) s) (\<lambda>_ s.
                  serialize_elements node n False
                    (next_sibling (n_links (s_nodes s ! child))) level s)))
          else (Stuck, s))"

declare serialize_elements.simps [simp del]

definition serialize_array :: "node_serializer \<Rightarrow> links \<Rightarrow> nat \<Rightarrow> serializer \<Rightarrow> emission" where
  "serialize_array node l level s =
     (if child_count l = 0 then append_literal ''[]'' s
      else andthen (append_byte LBRACKET s) (\<lambda>_ s.
        andthen (serialize_elements node (length (s_nodes s)) True (first_child l) level s) (\<lambda>_ s.
          andthen (append_break level s) (\<lambda>_ s. append_byte RBRACKET s))))"

definition string_bytes :: "node \<Rightarrow> bytes" where
  "string_bytes n = (case n_string n of None \<Rightarrow> [] | Some b \<Rightarrow> b)"

fun serialize_node :: "nat \<Rightarrow> node_serializer" where
  "serialize_node 0 index level s = (Stuck, s)"
| "serialize_node (Suc levels) index level s =
     (if index \<ge> length (s_nodes s) then (Stuck, s)
      else
        let n = s_nodes s ! index
        in case n_type n of
             TYPE_OBJECT \<Rightarrow> serialize_object (serialize_node levels) (n_links n) level s
           | TYPE_ARRAY \<Rightarrow> serialize_array (serialize_node levels) (n_links n) level s
           | TYPE_STRING \<Rightarrow> append_string (string_bytes n) s
           | TYPE_NUMBER \<Rightarrow> append_number n s
           | TYPE_BOOLEAN \<Rightarrow> append_literal (if n_boolean n then ''true'' else ''false'') s
           | TYPE_NULL \<Rightarrow> append_literal ''null'' s
           | TYPE_NONE \<Rightarrow> (Stuck, s))"

section \<open>Serialization and the end of a writer\<close>

definition serialize_levels :: "limits \<Rightarrow> nat" where
  "serialize_levels l = maximum_depth l + 1"

definition new_serializer :: "writer \<Rightarrow> serializer" where
  "new_serializer w =
     \<lparr>s_nodes = w_nodes w, s_bytes = [], s_capacity = 0, s_maximum = maximum_bytes (w_limits w),
      s_indent = (w_flags w AND FLAG_INDENT \<noteq> 0), s_ascii = (w_flags w AND FLAG_ASCII \<noteq> 0),
      s_heap = w_heap w\<rparr>"

text \<open>
  \<open>maelys_json_serialize\<close>: the bytes (their size is the length) with the size of the block that
  holds them, which the caller frees, and the heap after it.
\<close>

definition serialize :: "writer \<Rightarrow> (result, bytes \<times> nat) outcome \<times> heap" where
  "serialize w =
     (case andthen (serialize_node (serialize_levels (w_limits w)) 0 0 (new_serializer w)) (\<lambda>_ s.
             if w_flags w AND FLAG_FINAL_NEWLINE \<noteq> 0 then append_byte LF s else (Ret (), s)) of
        (Ret _, s) \<Rightarrow>
          if s_capacity s \<noteq> 0 \<and> length (s_bytes s) \<le> s_capacity s then (Ret (s_bytes s, buffer_area s), s_heap s)
          else (Stuck, s_heap s)
      | (Fail code, s) \<Rightarrow> (Fail code, mfree (buffer_area s) (s_heap s))
      | (Stuck, s) \<Rightarrow> (Stuck, s_heap s))"

text \<open>\<open>outputs_given\<close> is whether neither output pointer is NULL.\<close>

definition writer_finish :: "bool \<Rightarrow> writer \<Rightarrow> (bytes \<times> nat) call" where
  "writer_finish outputs_given w =
     (if \<not> outputs_given then (Fail ERR_ARGUMENT, w)
      else when_ready w
        (if w_stack w \<noteq> [] \<or> w_pending w \<noteq> None \<or> w_nodes w = [] then writer_fail w ERR_STATE
         else case serialize w of
           (Ret block, h) \<Rightarrow> (Ret block, w\<lparr>w_finished := True, w_heap := h\<rparr>)
         | (Fail code, h) \<Rightarrow> writer_fail (w\<lparr>w_heap := h\<rparr>) code
         | (Stuck, h) \<Rightarrow> (Stuck, w\<lparr>w_heap := h\<rparr>)))"

end
