(* ===== verification/Key_Sort.thy ===== *)
theory Key_Sort
  imports Serialize Utf16 "HOL-Library.Multiset"
begin

text \<open>
  The merge sort of \<open>src/serialize.c\<close>: over a total order on the keys it returns the sorted
  permutation of what it is given. The order is a locale, \<open>key_order\<close>, and the order by UTF-16
  code units on UTF-8 texts is an instance; there a sorted list of different keys is
  determined by its members.
\<close>

section \<open>Total orders on some keys\<close>

locale key_order =
  fixes le :: "'k \<Rightarrow> 'k \<Rightarrow> bool" and known :: "'k \<Rightarrow> bool"
  assumes total: "known a \<Longrightarrow> known b \<Longrightarrow> le a b \<or> le b a"
    and trans: "known a \<Longrightarrow> known b \<Longrightarrow> known c \<Longrightarrow> le a b \<Longrightarrow> le b c \<Longrightarrow> le a c"
    and antisym: "known a \<Longrightarrow> known b \<Longrightarrow> le a b \<Longrightarrow> le b a \<Longrightarrow> a = b"

fun merge_by :: "('a \<Rightarrow> 'a \<Rightarrow> bool) \<Rightarrow> 'a list \<Rightarrow> 'a list \<Rightarrow> 'a list" where
  "merge_by r [] ys = ys"
| "merge_by r xs [] = xs"
| "merge_by r (x # xs) (y # ys) = (if r x y then x # merge_by r xs (y # ys) else y # merge_by r (x # xs) ys)"

fun insert_by :: "('a \<Rightarrow> 'a \<Rightarrow> bool) \<Rightarrow> 'a \<Rightarrow> 'a list \<Rightarrow> 'a list" where
  "insert_by r x [] = [x]"
| "insert_by r x (y # ys) = (if r x y then x # y # ys else y # insert_by r x ys)"

definition sort_by :: "('a \<Rightarrow> 'a \<Rightarrow> bool) \<Rightarrow> 'a list \<Rightarrow> 'a list" where
  "sort_by r xs = foldr (insert_by r) xs []"

lemma mset_merge_by [simp]: "mset (merge_by r xs ys) = mset xs + mset ys"
  by (induction r xs ys rule: merge_by.induct) auto

lemma merge_by_Nil [simp]: "merge_by r xs [] = xs"
  by (cases xs) simp_all

lemma set_merge_by [simp]: "set (merge_by r xs ys) = set xs \<union> set ys"
  by (metis mset_merge_by set_mset_mset set_mset_union)

lemma length_merge_by: "length (merge_by r xs ys) = length xs + length ys"
  by (metis mset_merge_by size_mset size_union)

lemma mset_insert_by [simp]: "mset (insert_by r x xs) = add_mset x (mset xs)"
  by (induction r x xs rule: insert_by.induct) auto

lemma set_insert_by [simp]: "set (insert_by r x xs) = insert x (set xs)"
  by (metis mset_insert_by set_mset_add_mset_insert set_mset_mset)

lemma mset_sort_by [simp]: "mset (sort_by r xs) = mset xs"
  unfolding sort_by_def by (induction xs) auto

lemma set_sort_by [simp]: "set (sort_by r xs) = set xs"
  by (metis mset_sort_by set_mset_mset)

lemma length_sort_by [simp]: "length (sort_by r xs) = length xs"
  by (metis mset_sort_by size_mset)

context key_order
begin

abbreviation ordered :: "('a \<Rightarrow> 'k) \<Rightarrow> 'a list \<Rightarrow> bool" where
  "ordered f xs \<equiv> sorted_wrt (\<lambda>x y. le (f x) (f y)) xs"

lemma le_all:
  assumes "le (f x) (f y)" "ordered f (y # ys)" "known (f x)" "\<forall>z \<in> set (y # ys). known (f z)"
  shows "\<forall>z \<in> set (y # ys). le (f x) (f z)"
proof
  fix z assume z: "z \<in> set (y # ys)"
  show "le (f x) (f z)"
  proof (cases "z = y")
    case False
    then have "le (f y) (f z)" using assms(2) z by simp
    then show ?thesis using trans [of "f x" "f y" "f z"] assms(1,3,4) z False by simp
  qed (use assms(1) in simp)
qed

lemma merge_ordered:
  "\<forall>x \<in> set xs \<union> set ys. known (f x) \<Longrightarrow> ordered f xs \<Longrightarrow> ordered f ys \<Longrightarrow> ordered f (merge_by (\<lambda>x y. le (f x) (f y)) xs ys)"
proof (induction "\<lambda>x y. le (f x) (f y)" xs ys rule: merge_by.induct)
  case (3 x xs y ys)
  show ?case
  proof (cases "le (f x) (f y)")
    case True
    then have "\<forall>z \<in> set (y # ys). le (f x) (f z)" using 3(3,5) by (intro le_all) auto
    then show ?thesis using 3 True by auto
  next
    case False
    then have "le (f y) (f x)" using total 3(3) by auto
    then have "\<forall>z \<in> set (x # xs). le (f y) (f z)" using 3(3,4) by (intro le_all) auto
    then show ?thesis using 3 False by auto
  qed
qed auto

lemma insert_ordered:
  "\<forall>y \<in> insert x (set xs). known (f y) \<Longrightarrow> ordered f xs \<Longrightarrow> ordered f (insert_by (\<lambda>x y. le (f x) (f y)) x xs)"
proof (induction xs)
  case (Cons y ys)
  show ?case
  proof (cases "le (f x) (f y)")
    case True
    then have "\<forall>z \<in> set (y # ys). le (f x) (f z)" using Cons.prems by (intro le_all) auto
    then show ?thesis using Cons.prems True by auto
  next
    case False
    then have "le (f y) (f x)" using total Cons.prems(1) by auto
    then show ?thesis using Cons False by auto
  qed
qed simp

lemma sort_ordered: "\<forall>x \<in> set xs. known (f x) \<Longrightarrow> ordered f (sort_by (\<lambda>x y. le (f x) (f y)) xs)"
proof (induction xs)
  case (Cons x xs)
  have "set (foldr (insert_by (\<lambda>x y. le (f x) (f y))) xs []) = set xs" using set_sort_by unfolding sort_by_def .
  then show ?case using Cons insert_ordered [of x "foldr (insert_by (\<lambda>x y. le (f x) (f y))) xs []" f] unfolding sort_by_def by simp
qed (simp add: sort_by_def)

text \<open>Different keys have one order.\<close>

lemma ordered_unique:
  "mset xs = mset ys \<Longrightarrow> ordered f xs \<Longrightarrow> ordered f ys \<Longrightarrow> \<forall>x \<in> set xs. known (f x) \<Longrightarrow> inj_on f (set xs) \<Longrightarrow> xs = ys"
proof (induction xs arbitrary: ys)
  case (Cons x xs)
  have set: "set (x # xs) = set ys" using Cons.prems(1) by (metis set_mset_mset)
  obtain y zs where ys: "ys = y # zs" using Cons.prems(1) by (cases ys) auto
  have known: "known (f x)" "known (f y)" using Cons.prems(4) set ys by auto
  have "x = y"
  proof (rule ccontr)
    assume "x \<noteq> y"
    moreover have "x \<in> set ys" "y \<in> set (x # xs)" using set ys by auto
    ultimately have "le (f y) (f x)" "le (f x) (f y)" using ys Cons.prems(2,3) by auto
    then have "f x = f y" using antisym known by blast
    then show False using Cons.prems(5) set ys \<open>x \<noteq> y\<close> by (metis inj_on_def list.set_intros(1))
  qed
  moreover have "xs = zs"
    by (rule Cons.IH) (use Cons.prems ys \<open>x = y\<close> in \<open>auto simp: inj_on_def\<close>)
  ultimately show ?case using ys by simp
qed simp

end

interpretation utf16_order: key_order key_le utf8_text
  by unfold_locales (use key_le_total key_le_trans key_le_antisym in blast)+

section \<open>The merge sort of the keys\<close>

definition slice :: "nat \<Rightarrow> nat \<Rightarrow> 'a list \<Rightarrow> 'a list" where
  "slice i j xs = take (j - i) (drop i xs)"

lemma slice_Cons: "i < j \<Longrightarrow> j \<le> length xs \<Longrightarrow> slice i j xs = xs ! i # slice (Suc i) j xs"
  by (simp add: slice_def Cons_nth_drop_Suc [symmetric] take_Cons' Suc_diff_Suc)

lemma slice_empty [simp]: "j \<le> i \<Longrightarrow> slice i j xs = []"
  by (simp add: slice_def)

lemma set_slice: "set (slice i j xs) \<subseteq> set xs"
  unfolding slice_def by (meson order.trans set_drop_subset set_take_subset)

abbreviation node_le :: "node list \<Rightarrow> nat \<Rightarrow> nat \<Rightarrow> bool" where
  "node_le ns i j \<equiv> key_le (key_bytes ns i) (key_bytes ns j)"

abbreviation known_keys :: "node list \<Rightarrow> nat list \<Rightarrow> bool" where
  "known_keys ns vs \<equiv> \<forall>i \<in> set vs. utf8_text (key_bytes ns i)"

lemma key_compare_le:
  assumes "utf8_text (key_bytes ns i)" "utf8_text (key_bytes ns j)"
  shows "map_option (\<lambda>c. c \<le> 0) (key_compare ns i j) = Some (node_le ns i j)"
  using utf16_compare_text [OF assms] key_le_refl [OF assms(1)] by (auto simp: key_compare_def)

lemma merge_loop_merges:
  "known_keys ns vs \<Longrightarrow> middle \<le> length vs \<Longrightarrow> stop \<le> length vs \<Longrightarrow>
   merge_loop ns vs left middle right stop = Some (merge_by (node_le ns) (slice left middle vs) (slice right stop vs))"
proof (induction ns vs left middle right stop rule: merge_loop.induct)
  case (1 ns vs left middle right stop)
  consider (stop) "\<not> left < middle" "\<not> right < stop" | (left) "left < middle" "\<not> right < stop"
    | (right) "\<not> left < middle" "right < stop" | (both) "left < middle" "right < stop" by blast
  then show ?case
  proof cases
    case stop
    then show ?thesis by (subst merge_loop.simps) simp
  next
    case left
    then show ?thesis using 1 by (subst merge_loop.simps) (simp add: slice_Cons)
  next
    case right
    then show ?thesis using 1 by (subst merge_loop.simps) (simp add: slice_Cons)
  next
    case both
    have "left < length vs" "right < length vs" using both 1(4,5) by linarith+
    then have k: "map_option (\<lambda>c. c \<le> 0) (key_compare ns (vs ! left) (vs ! right)) = Some (node_le ns (vs ! left) (vs ! right))"
      using 1(3) by (intro key_compare_le) auto
    then obtain z where z: "key_compare ns (vs ! left) (vs ! right) = Some z" "(z \<le> 0) = node_le ns (vs ! left) (vs ! right)" by auto
    show ?thesis
      by (cases "node_le ns (vs ! left) (vs ! right)"; subst merge_loop.simps) (use both 1 z in \<open>simp_all add: slice_Cons\<close>)
  qed
qed

text \<open>What sorting the range from \<open>start\<close> to \<open>stop\<close> does to an array.\<close>

definition range_sorted :: "node list \<Rightarrow> nat \<Rightarrow> nat \<Rightarrow> nat list \<Rightarrow> nat list \<Rightarrow> bool" where
  "range_sorted ns start stop vs result \<longleftrightarrow>
     take start result = take start vs \<and> drop stop result = drop stop vs \<and>
     mset (slice start stop result) = mset (slice start stop vs) \<and> length result = length vs \<and>
     sorted_wrt (node_le ns) (slice start stop result)"

lemma slice_split: "i \<le> j \<Longrightarrow> j \<le> k \<Longrightarrow> slice i k xs = slice i j xs @ slice j k xs"
proof -
  assume "i \<le> j" "j \<le> k"
  then have "k - i = (j - i) + (k - j)" "drop (j - i) (drop i xs) = drop j xs" by simp_all
  then show ?thesis unfolding slice_def by (simp add: take_add del: drop_drop)
qed

lemma list_slices: "i \<le> j \<Longrightarrow> xs = take i xs @ slice i j xs @ drop j xs"
proof -
  assume "i \<le> j"
  then have "drop i xs = take (j - i) (drop i xs) @ drop j xs" using append_take_drop_id [of "j - i" "drop i xs"] by simp
  then show ?thesis unfolding slice_def by (metis append_take_drop_id)
qed

lemma slice_of_take: "j \<le> k \<Longrightarrow> take k xs = take k ys \<Longrightarrow> slice i j xs = slice i j ys"
  unfolding slice_def take_drop by (metis (no_types) min.absorb1 nat_le_linear take_take le_add_diff_inverse diff_is_0_eq take_0 drop_take add.commute)

lemma slice_of_drop: "i \<le> k \<Longrightarrow> drop i xs = drop i ys \<Longrightarrow> slice k j xs = slice k j ys"
  unfolding slice_def by (metis drop_drop le_add_diff_inverse2)

lemma length_slice: "j \<le> length xs \<Longrightarrow> length (slice i j xs) = j - i"
  by (simp add: slice_def)

lemma sort_keys_sorts:
  "known_keys ns vs \<Longrightarrow> start \<le> stop \<Longrightarrow> stop \<le> length vs \<Longrightarrow>
   \<exists>result. sort_keys ns start stop vs = Some result \<and> range_sorted ns start stop vs result"
proof (induction ns start stop vs rule: sort_keys.induct)
  case (1 ns start stop vs)
  show ?case
  proof (cases "stop - start < 2")
    case True
    then have "sort_keys ns start stop vs = Some vs" by (subst sort_keys.simps) simp
    moreover have "length (slice start stop vs) \<le> 1" using True 1 by (simp add: length_slice)
    then have "sorted_wrt (node_le ns) (slice start stop vs)"
      by (cases "slice start stop vs") auto
    ultimately show ?thesis by (simp add: range_sorted_def)
  next
    case False
    define m where "m = start + (stop - start) div 2"
    have m: "start \<le> m" "m \<le> stop" using 1(4) by (auto simp: m_def)
    obtain a where a: "sort_keys ns start m vs = Some a" "range_sorted ns start m vs a"
      using 1(1) [OF False] 1(3-5) m unfolding m_def by fastforce
    have la: "length a = length vs" using a(2) by (simp add: range_sorted_def)
    have "mset a = mset vs"
      using a(2) arg_cong [OF list_slices [OF m(1), of a], of mset] arg_cong [OF list_slices [OF m(1), of vs], of mset]
      by (simp add: range_sorted_def)
    then have sa: "set a = set vs" by (metis set_mset_mset)
    obtain b where b: "sort_keys ns m stop a = Some b" "range_sorted ns m stop a b"
      using 1(2) [OF False _ , of m a] a(1) 1(3-5) m sa la unfolding m_def by (metis (no_types, lifting))
    have lb: "length b = length vs" using b(2) la by (simp add: range_sorted_def)
    have "mset b = mset a"
      using b(2) arg_cong [OF list_slices [OF m(2), of b], of mset] arg_cong [OF list_slices [OF m(2), of a], of mset]
      by (simp add: range_sorted_def)
    then have sb: "set b = set vs" using sa by (metis set_mset_mset)
    have left: "slice start m b = slice start m a" using b(2) slice_of_take [of m m b a] by (simp add: range_sorted_def)
    have mid: "slice m stop a = slice m stop vs" using a(2) slice_of_drop [of m m a vs] by (simp add: range_sorted_def)
    let ?merged = "merge_by (node_le ns) (slice start m b) (slice m stop b)"
    let ?r = "take start b @ ?merged @ drop stop b"
    have "merge_keys ns start m stop b = Some ?r"
      using merge_loop_merges [of b ns m stop start m] 1(3,5) m lb sb by (simp add: merge_keys_def)
    then have e: "sort_keys ns start stop vs = Some ?r"
      using a(1) b(1) False by (subst sort_keys.simps) (simp add: m_def [symmetric] Let_def)
    have len: "length ?merged = stop - start"
      using lb 1(5) m by (simp add: length_slice length_merge_by)
    have ts: "length (take start b) = start" using lb 1(4,5) by simp
    have sl: "slice start stop ?r = ?merged" using ts len by (simp add: slice_def)
    have "known_keys ns (slice start m b @ slice m stop b)" using 1(3) sb set_slice [of start m b] set_slice [of m stop b] by auto
    then have "sorted_wrt (node_le ns) ?merged"
      using utf16_order.merge_ordered [of "slice start m b" "slice m stop b" "key_bytes ns"] a(2) b(2) left
      by (simp add: range_sorted_def)
    moreover have "mset ?merged = mset (slice start stop vs)"
      using a(2) b(2) left mid slice_split [OF m, of vs] by (simp add: range_sorted_def)
    moreover have "take start ?r = take start vs"
      using ts a(2) b(2) m by (simp add: range_sorted_def) (metis min.absorb1 take_take)
    moreover have "drop stop ?r = drop stop vs"
      using ts len 1(4) a(2) b(2) m by (simp add: range_sorted_def) (metis drop_drop le_add_diff_inverse2)
    moreover have "length ?r = length vs" using ts len lb 1(4,5) by simp
    ultimately have "range_sorted ns start stop vs ?r"
      unfolding range_sorted_def sl by blast
    with e show ?thesis by blast
  qed
qed

lemma sort_keys_whole:
  assumes "known_keys ns vs"
  shows "\<exists>result. sort_keys ns 0 (length vs) vs = Some result \<and> mset result = mset vs \<and> sorted_wrt (node_le ns) result"
proof -
  obtain r where "sort_keys ns 0 (length vs) vs = Some r" "range_sorted ns 0 (length vs) vs r"
    using sort_keys_sorts [OF assms, of 0 "length vs"] by auto
  then show ?thesis by (auto simp: range_sorted_def slice_def)
qed

end
