(* ===== verification/Writer_Shape.thy ===== *)
theory Writer_Shape
  imports Writer Token_Tree Reader
begin

text \<open>
  The tree a writer is building, apart from the code: the values not yet closed, innermost first,
  and how they lie in the node array. A node says its parent, its key in an object, and its
  value without children; a value is laid out in preorder, so what is being written is always a
  prefix of a layout.
\<close>

section \<open>The layout of a value in nodes\<close>

type_synonym ncell = "nat \<times> bytes option \<times> json"

fun tree_size :: "json \<Rightarrow> nat" where
  "tree_size (JArr vs) = 1 + sum_list (map tree_size vs)"
| "tree_size (JObj ms) = 1 + sum_list (map (\<lambda>(k, v). tree_size v) ms)"
| "tree_size _ = 1"

fun tree_nodes :: "nat \<Rightarrow> nat \<Rightarrow> bytes option \<Rightarrow> json \<Rightarrow> ncell list"
and element_nodes :: "nat \<Rightarrow> nat \<Rightarrow> json list \<Rightarrow> ncell list"
and member_nodes :: "nat \<Rightarrow> nat \<Rightarrow> (bytes \<times> json) list \<Rightarrow> ncell list"
where
  "tree_nodes up i k (JArr vs) = (up, k, JArr []) # element_nodes i (i + 1) vs"
| "tree_nodes up i k (JObj ms) = (up, k, JObj []) # member_nodes i (i + 1) ms"
| "tree_nodes up i k JNull = [(up, k, JNull)]"
| "tree_nodes up i k (JBool b) = [(up, k, JBool b)]"
| "tree_nodes up i k (JNum n) = [(up, k, JNum n)]"
| "tree_nodes up i k (JStr s) = [(up, k, JStr s)]"
| "element_nodes up i [] = []"
| "element_nodes up i (v # vs) = tree_nodes up i None v @ element_nodes up (i + tree_size v) vs"
| "member_nodes up i [] = []"
| "member_nodes up i ((k, v) # ms) = tree_nodes up i (Some k) v @ member_nodes up (i + tree_size v) ms"

abbreviation trees_size :: "json list \<Rightarrow> nat" where
  "trees_size vs \<equiv> sum_list (map tree_size vs)"

abbreviation member_trees_size :: "(bytes \<times> json) list \<Rightarrow> nat" where
  "member_trees_size ms \<equiv> sum_list (map (\<lambda>(k, v). tree_size v) ms)"

lemma tree_nodes_length [simp]:
  "length (tree_nodes up i k v) = tree_size v"
  "length (element_nodes up i vs) = trees_size vs"
  "length (member_nodes up i ms) = member_trees_size ms"
  by (induction up i k v and up i vs and up i ms rule: tree_nodes_element_nodes_member_nodes.induct) auto

lemma tree_size_positive: "0 < tree_size v"
  by (cases v) auto

lemma element_nodes_append:
  "element_nodes up i (vs @ us) = element_nodes up i vs @ element_nodes up (i + trees_size vs) us"
  by (induction vs arbitrary: i) (simp_all add: add.assoc)

lemma member_nodes_append:
  "member_nodes up i (ms @ ns) = member_nodes up i ms @ member_nodes up (i + member_trees_size ms) ns"
  by (induction ms arbitrary: i) (auto simp: add.assoc)

lemma tree_nodes_hd: "\<exists>leaf rest. tree_nodes up i k v = (up, k, leaf) # rest \<and> json_type_of leaf = json_type_of v"
  by (cases v) auto

text \<open>The parents of a layout: the one given for its head, and inside the layout for the rest.\<close>

definition parent_within :: "nat \<Rightarrow> nat \<Rightarrow> ncell \<Rightarrow> bool" where
  "parent_within i n c \<longleftrightarrow> i \<le> fst c \<and> fst c < i + n"

lemma parent_within_widen: "parent_within i n c \<Longrightarrow> i' \<le> i \<Longrightarrow> i + n \<le> i' + n' \<Longrightarrow> parent_within i' n' c"
  by (auto simp: parent_within_def)

lemma tree_nodes_parents:
  "\<forall>c \<in> set (tl (tree_nodes up i k v)). parent_within i (tree_size v) c"
  "\<forall>c \<in> set (element_nodes up i vs). fst c = up \<or> parent_within i (trees_size vs) c"
  "\<forall>c \<in> set (member_nodes up i ms). fst c = up \<or> parent_within i (member_trees_size ms) c"
proof (induction up i k v and up i vs and up i ms rule: tree_nodes_element_nodes_member_nodes.induct)
  case (1 up i k vs)
  then show ?case by (auto simp: parent_within_def)
next
  case (2 up i k ms)
  then show ?case by (auto simp: parent_within_def)
next
  case (8 up i v vs)
  obtain leaf rest where h: "tree_nodes up i None v = (up, None, leaf) # rest" using tree_nodes_hd by blast
  show ?case
  proof
    fix c assume "c \<in> set (element_nodes up i (v # vs))"
    then consider "fst c = up" | "c \<in> set rest" | "c \<in> set (element_nodes up (i + tree_size v) vs)" using h by auto
    then show "fst c = up \<or> parent_within i (trees_size (v # vs)) c"
      using 8 h by cases (auto simp: parent_within_def)
  qed
next
  case (10 up i k v ms)
  obtain leaf rest where h: "tree_nodes up i (Some k) v = (up, Some k, leaf) # rest" using tree_nodes_hd by blast
  show ?case
  proof
    fix c assume "c \<in> set (member_nodes up i ((k, v) # ms))"
    then consider "fst c = up" | "c \<in> set rest" | "c \<in> set (member_nodes up (i + tree_size v) ms)" using h by auto
    then show "fst c = up \<or> parent_within i (member_trees_size ((k, v) # ms)) c"
      using 10 h by cases (auto simp: parent_within_def)
  qed
qed auto

section \<open>What is being written\<close>

type_synonym frame = "bytes option \<times> json"

text \<open>
  \<open>Building fs\<close>: the containers still open, innermost first, each with its key in the next one
  and what it holds so far. \<open>Complete v\<close>: the root is closed.
\<close>

datatype progress = Building "frame list" | Complete json

fun add_child :: "bytes option \<Rightarrow> json \<Rightarrow> json \<Rightarrow> json" where
  "add_child k w (JArr vs) = JArr (vs @ [w])"
| "add_child k w (JObj ms) = JObj (ms @ [(the k, w)])"
| "add_child k w v = v"

text \<open>A child with the key \<open>k\<close>, or with none, can be added to the value.\<close>

fun takes_child :: "bytes option \<Rightarrow> json \<Rightarrow> bool" where
  "takes_child k (JArr vs) \<longleftrightarrow> k = None"
| "takes_child k (JObj ms) \<longleftrightarrow> k \<noteq> None"
| "takes_child k _ \<longleftrightarrow> False"

fun frames_nodes :: "frame list \<Rightarrow> ncell list" where
  "frames_nodes [] = []"
| "frames_nodes ((k, v) # fs) =
     frames_nodes fs @
       tree_nodes (case fs of [] \<Rightarrow> VALUE_NONE | (k', v') # fs' \<Rightarrow> length (frames_nodes fs'))
         (length (frames_nodes fs)) k v"

fun frames_stack :: "frame list \<Rightarrow> nat list" where
  "frames_stack [] = []"
| "frames_stack ((k, v) # fs) = length (frames_nodes fs) # frames_stack fs"

definition top_index :: "frame list \<Rightarrow> nat" where
  "top_index fs = (case frames_stack fs of [] \<Rightarrow> VALUE_NONE | i # _ \<Rightarrow> i)"

lemma top_index_simps [simp]: "top_index [] = VALUE_NONE" "top_index ((k, v) # fs) = length (frames_nodes fs)"
  by (simp_all add: top_index_def)

lemma frames_nodes_Cons:
  "frames_nodes ((k, v) # fs) = frames_nodes fs @ tree_nodes (top_index fs) (length (frames_nodes fs)) k v"
  by (cases fs) (auto simp: top_index_def)

declare frames_nodes.simps(2) [simp del]
declare frames_nodes_Cons [simp]

lemma length_frames_stack [simp]: "length (frames_stack fs) = length fs"
  by (induction fs rule: frames_stack.induct) auto

lemma tree_nodes_add:
  "takes_child k v \<Longrightarrow> tree_nodes up i key (add_child k w v) = tree_nodes up i key v @ tree_nodes i (i + tree_size v) k w"
  by (cases v) (auto simp: element_nodes_append member_nodes_append)

lemma tree_size_add: "takes_child k v \<Longrightarrow> tree_size (add_child k w v) = tree_size v + tree_size w"
  by (cases v) auto

text \<open>Closing a container changes no node.\<close>

lemma frames_nodes_close:
  "takes_child k v' \<Longrightarrow> frames_nodes ((k, v) # (k', v') # fs) = frames_nodes ((k', add_child k v v') # fs)"
  by (simp add: tree_nodes_add)

fun frames_ok :: "frame list \<Rightarrow> bool" where
  "frames_ok [] \<longleftrightarrow> True"
| "frames_ok ((k, v) # fs) \<longleftrightarrow>
     json_type_of v \<in> {TYPE_OBJECT, TYPE_ARRAY} \<and> frames_ok fs \<and>
     (case fs of [] \<Rightarrow> k = None | (k', v') # _ \<Rightarrow> takes_child k v')"

fun progress_nodes :: "progress \<Rightarrow> ncell list" where
  "progress_nodes (Building fs) = frames_nodes fs"
| "progress_nodes (Complete v) = tree_nodes VALUE_NONE 0 None v"

fun progress_stack :: "progress \<Rightarrow> nat list" where
  "progress_stack (Building fs) = frames_stack fs"
| "progress_stack (Complete v) = []"

fun fits :: "bytes option \<Rightarrow> progress \<Rightarrow> bool" where
  "fits k (Building []) \<longleftrightarrow> k = None"
| "fits k (Building ((k', v) # fs)) \<longleftrightarrow> takes_child k v"
| "fits k (Complete v) \<longleftrightarrow> False"

text \<open>A whole value, the beginning of a container, and its end.\<close>

fun place :: "bytes option \<Rightarrow> json \<Rightarrow> progress \<Rightarrow> progress" where
  "place k v (Building []) = Complete v"
| "place k v (Building ((k', v') # fs)) = Building ((k', add_child k v v') # fs)"
| "place k v p = p"

fun open_frame :: "bytes option \<Rightarrow> json \<Rightarrow> progress \<Rightarrow> progress" where
  "open_frame k v (Building fs) = Building ((k, v) # fs)"
| "open_frame k v p = p"

fun close_frame :: "progress \<Rightarrow> progress" where
  "close_frame (Building ((k, v) # fs)) = place k v (Building fs)"
| "close_frame p = p"

lemma place_nodes:
  "fits k p \<Longrightarrow> progress_nodes (place k v p) =
     progress_nodes p @ tree_nodes (case progress_stack p of [] \<Rightarrow> VALUE_NONE | i # _ \<Rightarrow> i) (length (progress_nodes p)) k v"
  by (cases "(k, v, p)" rule: place.cases) (simp_all add: tree_nodes_add)

lemma open_nodes:
  "fits k p \<Longrightarrow> progress_nodes (open_frame k v p) =
     progress_nodes p @ tree_nodes (case progress_stack p of [] \<Rightarrow> VALUE_NONE | i # _ \<Rightarrow> i) (length (progress_nodes p)) k v"
  by (cases p) (auto simp: top_index_def)

lemma close_nodes: "frames_ok fs \<Longrightarrow> progress_nodes (close_frame (Building fs)) = progress_nodes (Building fs)"
proof (cases fs)
  case (Cons f fs')
  obtain k v where f: "f = (k, v)" by (cases f)
  assume ok: "frames_ok fs"
  show ?thesis
  proof (cases fs')
    case Nil
    with ok f Cons show ?thesis by simp
  next
    case (Cons g gs)
    obtain k' v' where g: "g = (k', v')" by (cases g)
    have "takes_child k v'" using ok f g Cons \<open>fs = f # fs'\<close> by simp
    from frames_nodes_close [OF this, of v k' gs] show ?thesis
      using f g Cons \<open>fs = f # fs'\<close> by (simp del: frames_nodes_Cons)
  qed
qed simp

lemma place_stack: "fits k p \<Longrightarrow> progress_stack (place k v p) = progress_stack p"
  by (cases "(k, v, p)" rule: place.cases) simp_all

lemma open_stack: "fits k p \<Longrightarrow> progress_stack (open_frame k v p) = length (progress_nodes p) # progress_stack p"
  by (cases p) simp_all

lemma close_stack: "fs \<noteq> [] \<Longrightarrow> progress_stack (close_frame (Building fs)) = tl (progress_stack (Building fs))"
proof (cases fs)
  case (Cons f fs')
  then show ?thesis by (cases f; cases fs') (auto split: prod.splits)
qed simp

section \<open>Keys of the open object\<close>

text \<open>The nodes under the innermost container are those of its own children.\<close>

lemma frames_parents: "length (frames_nodes fs) \<le> VALUE_NONE \<Longrightarrow> c \<in> set (frames_nodes fs) \<Longrightarrow> fst c = VALUE_NONE \<or> fst c < length (frames_nodes fs)"
proof (induction fs)
  case (Cons f fs)
  obtain k v where f: "f = (k, v)" by (cases f)
  let ?i = "length (frames_nodes fs)"
  obtain leaf rest where h: "tree_nodes (top_index fs) ?i k v = (top_index fs, k, leaf) # rest" using tree_nodes_hd by blast
  have up: "top_index fs = VALUE_NONE \<or> top_index fs < ?i"
  proof (cases fs)
    case (Cons g gs)
    then show ?thesis using tree_size_positive by (cases g) auto
  qed simp
  consider "c \<in> set (frames_nodes fs)" | "fst c = top_index fs" | "c \<in> set (tl (tree_nodes (top_index fs) ?i k v))"
    using Cons.prems(2) f h by auto
  then show ?case
  proof cases
    case 1
    then show ?thesis using Cons.IH Cons.prems(1) f by auto
  next
    case 2
    then show ?thesis using up f by auto
  next
    case 3
    then show ?thesis using tree_nodes_parents(1) [of "top_index fs" ?i k v] f by (auto simp: parent_within_def)
  qed
qed simp

lemma member_keys:
  "up < i \<Longrightarrow> (\<exists>leaf. (up, Some k, leaf) \<in> set (member_nodes up i ms)) \<longleftrightarrow> k \<in> fst ` set ms"
proof (induction ms arbitrary: i)
  case (Cons m ms)
  obtain k' v where m: "m = (k', v)" by (cases m)
  obtain leaf rest where h: "tree_nodes up i (Some k') v = (up, Some k', leaf) # rest" using tree_nodes_hd by blast
  have "\<forall>c \<in> set rest. fst c \<noteq> up"
    using tree_nodes_parents(1) [of up i "Some k'" v] h Cons.prems by (auto simp: parent_within_def)
  moreover have "up < i + tree_size v" using Cons.prems by simp
  ultimately show ?case using m h Cons.IH [of "i + tree_size v"] by auto
qed simp

lemma open_object_keys:
  assumes "length (frames_nodes ((key, JObj ms) # fs)) \<le> VALUE_NONE"
  shows "(\<exists>leaf. (length (frames_nodes fs), Some k, leaf) \<in> set (frames_nodes ((key, JObj ms) # fs))) \<longleftrightarrow> k \<in> fst ` set ms"
proof -
  let ?i = "length (frames_nodes fs)"
  have "?i < VALUE_NONE" using assms by simp
  then have "\<forall>c \<in> set (frames_nodes fs). fst c \<noteq> ?i" using frames_parents [of fs] by fastforce
  moreover have "top_index fs \<noteq> ?i"
  proof (cases fs)
    case Nil
    then show ?thesis using \<open>?i < VALUE_NONE\<close> by simp
  next
    case (Cons g gs)
    then show ?thesis using tree_size_positive [of "snd g"] by (cases g) auto
  qed
  ultimately show ?thesis using member_keys [of ?i "?i + 1" k ms] by auto
qed

end
