(* ===== verification/Writer_Inv.thy ===== *)
theory Writer_Inv
  imports Serialize Writer_Shape
begin

text \<open>
  The invariant of a writer: its nodes are the layout of what is being written, their links those
  of a tree, its key set holds the keys of the nodes, and all the memory it accounts for is
  allocated. \<open>writer_ends\<close> is the contract of a step of the writer, and \<open>writer_ends_andthen\<close> the
  rule for two of them.
\<close>

section \<open>Nodes as cells and as tokens\<close>

definition node_leaf :: "node \<Rightarrow> json" where
  "node_leaf n =
     (case n_type n of
        TYPE_OBJECT \<Rightarrow> JObj []
      | TYPE_ARRAY \<Rightarrow> JArr []
      | TYPE_STRING \<Rightarrow> JStr (string_bytes n)
      | TYPE_NUMBER \<Rightarrow> JNum (case n_string n of Some b \<Rightarrow> b | None \<Rightarrow> number_text n)
      | TYPE_BOOLEAN \<Rightarrow> JBool (n_boolean n)
      | _ \<Rightarrow> JNull)"

definition node_cell :: "node \<Rightarrow> ncell" where
  "node_cell n = (l_parent (n_links n), n_key n, node_leaf n)"

definition token_of_node :: "node \<Rightarrow> token" where
  "token_of_node n =
     \<lparr>links = n_links n, ttype = n_type n, tstart = 0, tend = 0, ttext = None, ttext_size = 0, children_offset = 0,
      object_key = False, boolean_value = False, superseded = False\<rparr>"

abbreviation node_tokens :: "node list \<Rightarrow> token list" where
  "node_tokens ns \<equiv> map token_of_node ns"

lemma token_of_node_links [simp]: "links (token_of_node n) = n_links n"
  by (simp add: token_of_node_def)

lemma node_leaf_links [simp]: "node_leaf (n\<lparr>n_links := l\<rparr>) = node_leaf n"
  by (simp add: node_leaf_def string_bytes_def number_text_def cong: json_type.case_cong option.case_cong)

lemma node_cell_links: "l_parent l = l_parent (n_links n) \<Longrightarrow> node_cell (n\<lparr>n_links := l\<rparr>) = node_cell n"
  by (simp add: node_cell_def)

definition parent_index :: "nat option \<Rightarrow> nat" where
  "parent_index c = (case c of None \<Rightarrow> VALUE_NONE | Some i \<Rightarrow> i)"

lemma link_node_tokens:
  assumes "linked (node_tokens ns)" "c = None \<or> (\<exists>i < length ns. c = Some i)" "length ns < VALUE_NONE"
  shows "node_tokens (link_node (ns @ [n]) c (length ns)) = append_token (node_tokens ns) (token_of_node n) (parent_index c)"
proof (cases c)
  case None
  then show ?thesis by (simp add: link_node_def append_token_def parent_index_def)
next
  case (Some i)
  then have i: "i < length ns" "i \<noteq> VALUE_NONE" using assms(2,3) by auto
  let ?l = "n_links (ns ! i)"
  have last: "last_child ?l \<noteq> VALUE_NONE \<Longrightarrow> last_child ?l < length ns"
    using linked_last_child(2) [OF assms(1), of i] i by simp
  have upd: "node_tokens (us[j := (us ! j)\<lparr>n_links := l\<rparr>]) = (node_tokens us)[j := (node_tokens us ! j)\<lparr>links := l\<rparr>]"
    if "j < length us" for us :: "node list" and j l
    using that by (simp add: map_update token_of_node_def)
  show ?thesis
    using i last Some
    by (auto simp: link_node_def append_token_def link_under_def parent_index_def Let_def nth_append upd
        links_append_def nth_list_update token_of_node_def map_update split: option.splits)
qed

lemma links_append_parent:
  "links_append l prev i = (l', prev') \<Longrightarrow> l_parent l' = l_parent l \<and> (\<forall>p'. prev' = Some p' \<longrightarrow> (\<exists>p. prev = Some p \<and> l_parent p' = l_parent p))"
  by (auto simp: links_append_def Let_def split: option.splits)

lemma link_node_map:
  assumes "\<And>n l. l_parent l = l_parent (n_links n) \<Longrightarrow> f (n\<lparr>n_links := l\<rparr>) = f n"
  shows "map f (link_node ns c i) = map f ns"
proof -
  have upd: "map f (us[j := (us ! j)\<lparr>n_links := l\<rparr>]) = map f us" if "l_parent l = l_parent (n_links (us ! j))" for us j l
  proof (cases "j < length us")
    case True
    then have "(map f us)[j := f (us ! j)] = map f us" using list_update_id [of "map f us" j] by simp
    then show ?thesis by (simp add: map_update assms [OF that])
  next
    case False
    then show ?thesis by (simp add: list_update_beyond)
  qed
  show ?thesis
  proof (cases c)
    case (Some k)
    let ?l = "n_links (ns ! k)"
    obtain l' prev' where a: "links_append ?l (if last_child ?l = VALUE_NONE then None else Some (n_links (ns ! last_child ?l))) i = (l', prev')"
      by fastforce
    note p = links_append_parent [OF a]
    show ?thesis
    proof (cases prev')
      case None
      then show ?thesis using a p upd [of l' ns k] Some by (simp add: link_node_def Let_def)
    next
      case (Some q)
      let ?ns = "ns[last_child ?l := (ns ! last_child ?l)\<lparr>n_links := q\<rparr>]"
      have q: "l_parent q = l_parent (n_links (ns ! last_child ?l))" using p Some by (auto split: if_splits)
      have "l_parent (n_links (?ns ! k)) = l_parent ?l"
        using q by (cases "k = last_child ?l"; cases "k < length ns") (auto simp: list_update_beyond)
      then have "map f (?ns[k := (?ns ! k)\<lparr>n_links := l'\<rparr>]) = map f ?ns" using p by (intro upd) simp
      then show ?thesis using a upd [OF q] Some \<open>c = Some k\<close> by (simp add: link_node_def Let_def)
    qed
  qed (simp add: link_node_def)
qed

lemma link_node_cells [simp]: "map node_cell (link_node ns c i) = map node_cell ns"
  by (rule link_node_map) (rule node_cell_links)

lemma length_link_node [simp]: "length (link_node ns c i) = length ns"
  by (metis length_map link_node_cells)

section \<open>Memory\<close>

definition copy_size :: "bytes option \<Rightarrow> nat" where
  "copy_size c = (case c of None \<Rightarrow> 0 | Some bs \<Rightarrow> length bs + 1)"

definition node_size :: "node \<Rightarrow> nat" where
  "node_size n = copy_size (n_key n) + copy_size (n_string n)"

definition writer_footprint :: "writer \<Rightarrow> nat" where
  "writer_footprint w =
     SIZEOF_WRITER + maximum_depth (w_limits w) * SIZEOF_SIZE_T + w_capacity w * SIZEOF_NODE +
     keyset_footprint (w_keys w) + copy_size (w_pending w) + sum_list (map node_size (w_nodes w))"

text \<open>What is allocated apart from the writer: no call changes it.\<close>

definition outside :: "writer \<Rightarrow> nat" where
  "outside w = live (w_heap w) - writer_footprint w"

lemma live_free_copy [simp]: "live (free_copy c h) = live h - copy_size c"
  by (simp add: free_copy_def copy_size_def split: option.splits)

lemma live_free_nodes: "live (fold free_node ns h) = live h - sum_list (map node_size ns)"
  by (induction ns arbitrary: h) (simp_all add: free_node_def node_size_def)

lemma release_writer_live: "live (release_writer w) = live (w_heap w) - writer_footprint w"
  by (simp add: release_writer_def Let_def live_free_nodes keyset_release_def keyset_footprint_def writer_footprint_def)

lemma node_size_links [simp]: "node_size (n\<lparr>n_links := l\<rparr>) = node_size n"
  by (simp add: node_size_def)

lemma link_node_sizes [simp]: "map node_size (link_node ns c i) = map node_size ns"
  by (rule link_node_map) simp

section \<open>The invariant\<close>

definition writer_base :: "writer \<Rightarrow> bool" where
  "writer_base w \<longleftrightarrow>
     maximum_tokens (w_limits w) \<le> SIZE_MAX div 256 \<and> 0 < maximum_depth (w_limits w) \<and>
     2 * maximum_bytes (w_limits w) + 2 \<le> SIZE_MAX \<and> 0 < maximum_bytes (w_limits w) \<and>
     length (w_nodes w) \<le> w_capacity w \<and> w_capacity w \<le> maximum_tokens (w_limits w) \<and>
     w_profile w \<in> {RFC8259, CONTRACT_ASCII} \<and>
     writer_footprint w \<le> live (w_heap w)"

lemma footprint_frame [simp]:
  "writer_footprint (w\<lparr>w_failure := c\<rparr>) = writer_footprint w" "outside (w\<lparr>w_failure := c\<rparr>) = outside w"
  "writer_footprint (w\<lparr>w_stack := s\<rparr>) = writer_footprint w" "outside (w\<lparr>w_stack := s\<rparr>) = outside w"
  by (simp_all add: writer_footprint_def outside_def)

definition valid_bytes :: "profile \<Rightarrow> bytes \<Rightarrow> bool" where
  "valid_bytes prof bs \<longleftrightarrow> valid_text prof (Some bs) (length bs)"

fun valid_json :: "profile \<Rightarrow> json \<Rightarrow> bool" where
  "valid_json prof (JNum n) \<longleftrightarrow> json_number n"
| "valid_json prof (JStr s) \<longleftrightarrow> valid_bytes prof s"
| "valid_json prof (JArr vs) \<longleftrightarrow> (\<forall>v \<in> set vs. valid_json prof v)"
| "valid_json prof (JObj ms) \<longleftrightarrow>
     distinct (map fst ms) \<and> (\<forall>(k, v) \<in> set ms. valid_bytes prof k \<and> valid_json prof v)"
| "valid_json prof _ \<longleftrightarrow> True"

text \<open>A key, or none, that may come next in a container.\<close>

definition key_fits :: "profile \<Rightarrow> bytes option \<Rightarrow> json \<Rightarrow> bool" where
  "key_fits prof k v \<longleftrightarrow>
     takes_child k v \<and> (case v of JObj ms \<Rightarrow> the k \<notin> fst ` set ms \<and> valid_bytes prof (the k) | _ \<Rightarrow> True)"

fun frames_fine :: "profile \<Rightarrow> nat \<Rightarrow> frame list \<Rightarrow> bool" where
  "frames_fine prof depth [] \<longleftrightarrow> True"
| "frames_fine prof depth ((k, v) # fs) \<longleftrightarrow>
     json_type_of v \<in> {TYPE_OBJECT, TYPE_ARRAY} \<and> valid_json prof v \<and> length fs + json_height v \<le> depth \<and>
     frames_fine prof depth fs \<and> (case fs of [] \<Rightarrow> k = None | (k', v') # _ \<Rightarrow> key_fits prof k v')"

fun progress_fine :: "profile \<Rightarrow> nat \<Rightarrow> progress \<Rightarrow> bool" where
  "progress_fine prof depth (Building fs) \<longleftrightarrow> frames_fine prof depth fs"
| "progress_fine prof depth (Complete v) \<longleftrightarrow> valid_json prof v \<and> json_height v \<le> depth"

fun pending_fine :: "profile \<Rightarrow> bytes option \<Rightarrow> progress \<Rightarrow> bool" where
  "pending_fine prof None p \<longleftrightarrow> True"
| "pending_fine prof (Some k) (Building ((key, JObj ms) # fs)) \<longleftrightarrow> k \<notin> fst ` set ms \<and> valid_bytes prof k"
| "pending_fine prof (Some k) _ \<longleftrightarrow> False"

definition writer_shape :: "writer \<Rightarrow> progress \<Rightarrow> bool" where
  "writer_shape w p \<longleftrightarrow>
     map node_cell (w_nodes w) = progress_nodes p \<and> w_stack w = progress_stack p \<and>
     linked (node_tokens (w_nodes w)) \<and> (\<forall>n \<in> set (w_nodes w). n_type n \<noteq> TYPE_NONE) \<and>
     progress_fine (w_profile w) (maximum_depth (w_limits w)) p \<and> pending_fine (w_profile w) (w_pending w) p \<and>
     keyset_inv (node_key (w_nodes w)) (w_keys w) \<and>
     keyset_entries (w_keys w) = {i. i < length (w_nodes w) \<and> n_key (w_nodes w ! i) \<noteq> None}"

definition writer_inv :: "writer \<Rightarrow> bool" where
  "writer_inv w \<longleftrightarrow> writer_base w \<and> (w_failure w = OK \<longrightarrow> (\<exists>p. writer_shape w p))"

section \<open>The contract of a step\<close>

definition same_writer :: "writer \<Rightarrow> writer \<Rightarrow> bool" where
  "same_writer w w' \<longleftrightarrow>
     w_profile w' = w_profile w \<and> w_limits w' = w_limits w \<and> w_flags w' = w_flags w \<and> w_finished w' = w_finished w \<and>
     outside w' = outside w \<and> (fates (w_heap w) = [] \<longrightarrow> fates (w_heap w') = [])"

text \<open>
  A step from a writer without failure: it ends without failure in a writer of which \<open>Q\<close> holds, or
  its failure sticks and \<open>F\<close> holds of the code.
\<close>

definition writer_ends :: "writer \<Rightarrow> (result \<Rightarrow> bool) \<Rightarrow> ('a \<Rightarrow> writer \<Rightarrow> bool) \<Rightarrow> 'a call \<Rightarrow> bool" where
  "writer_ends w F Q m \<longleftrightarrow>
     (case m of (r, w') \<Rightarrow>
        writer_base w' \<and> same_writer w w' \<and>
        (case r of
           Ret x \<Rightarrow> w_failure w' = OK \<and> Q x w'
         | Fail code \<Rightarrow> w_failure w' = code \<and> code \<noteq> OK \<and> code \<noteq> ERR_ARGUMENT \<and> F code
         | Stuck \<Rightarrow> False))"

lemma same_writer_refl [simp]: "same_writer w w"
  by (simp add: same_writer_def)

lemma same_writer_trans: "same_writer w w' \<Longrightarrow> same_writer w' w'' \<Longrightarrow> same_writer w w''"
  by (auto simp: same_writer_def)

lemma writer_ends_Ret: "writer_base w' \<Longrightarrow> same_writer w w' \<Longrightarrow> w_failure w' = OK \<Longrightarrow> Q x w' \<Longrightarrow> writer_ends w F Q (Ret x, w')"
  by (simp add: writer_ends_def)

lemma writer_ends_andthen:
  assumes "writer_ends w F Q m"
    and "\<And>x w'. writer_base w' \<Longrightarrow> same_writer w w' \<Longrightarrow> w_failure w' = OK \<Longrightarrow> Q x w' \<Longrightarrow> writer_ends w' F R (k x w')"
  shows "writer_ends w F R (andthen m k)"
proof -
  obtain r w' where m: "m = (r, w')" by (cases m)
  show ?thesis
  proof (cases r)
    case (Ret x)
    then have "writer_ends w' F R (k x w')" "same_writer w w'" using assms m by (auto simp: writer_ends_def)
    then show ?thesis using m Ret by (auto simp: writer_ends_def intro: same_writer_trans split: prod.splits)
  qed (use assms(1) m in \<open>simp_all add: writer_ends_def\<close>)
qed

lemma writer_ends_weaken:
  "writer_ends w F Q m \<Longrightarrow> (\<And>code. F code \<Longrightarrow> F' code) \<Longrightarrow> (\<And>x w'. Q x w' \<Longrightarrow> Q' x w') \<Longrightarrow> writer_ends w F' Q' m"
  unfolding writer_ends_def by (auto split: prod.splits outcome.splits)

lemma writer_ends_fail:
  assumes "writer_base w'" "same_writer w w'" "w_failure w' = OK" "code \<noteq> OK" "code \<noteq> ERR_ARGUMENT" "F code"
  shows "writer_ends w F Q (writer_fail w' code)"
proof -
  have "writer_base (w'\<lparr>w_failure := code\<rparr>)" "same_writer w (w'\<lparr>w_failure := code\<rparr>)"
    using assms(1,2) by (simp_all add: writer_base_def same_writer_def)
  then show ?thesis using assms(3-6) by (simp add: writer_fail_def writer_ends_def)
qed

end
