(* ===== verification/Node_Tree.thy ===== *)
theory Node_Tree
  imports Writer_Inv Child_Index
begin

text \<open>
  The nodes of a finished tree as the serializer meets them: where a value and its children lie in
  the node array, and that the sibling chain of a container is the list of its children.
\<close>

section \<open>Positions of children\<close>

fun positions :: "nat \<Rightarrow> json list \<Rightarrow> nat list" where
  "positions i [] = []"
| "positions i (v # vs) = i # positions (i + tree_size v) vs"

lemma length_positions [simp]: "length (positions i vs) = length vs"
  by (induction i vs rule: positions.induct) auto

text \<open>The offsets of the cells whose parent is \<open>up\<close>.\<close>

fun offsets_under :: "nat \<Rightarrow> ncell list \<Rightarrow> nat \<Rightarrow> nat list" where
  "offsets_under off [] up = []"
| "offsets_under off (c # cs) up = (if fst c = up then [off] else []) @ offsets_under (off + 1) cs up"

lemma offsets_under_append:
  "offsets_under off (xs @ ys) up = offsets_under off xs up @ offsets_under (off + length xs) ys up"
  by (induction xs arbitrary: off) auto

lemma offsets_under_none: "\<forall>c \<in> set xs. fst c \<noteq> up \<Longrightarrow> offsets_under off xs up = []"
  by (induction xs arbitrary: off) auto

lemma offsets_under_filter: "offsets_under off xs up = filter (\<lambda>j. fst (xs ! (j - off)) = up) [off..<off + length xs]"
proof (induction xs arbitrary: off)
  case (Cons c cs)
  have "filter (\<lambda>j. fst ((c # cs) ! (j - off)) = up) [Suc off..<Suc (off + length cs)] =
      filter (\<lambda>j. fst (cs ! (j - Suc off)) = up) [Suc off..<Suc (off + length cs)]"
    by (rule filter_cong) (auto simp: nth_Cons' Suc_diff_le)
  then show ?case using Cons [of "Suc off"] by (simp add: upt_conv_Cons del: upt_Suc)
qed simp

lemma tree_offsets: "up < i \<Longrightarrow> offsets_under i (tree_nodes up i k v) up = [i]"
proof -
  assume "up < i"
  obtain leaf rest where h: "tree_nodes up i k v = (up, k, leaf) # rest" using tree_nodes_hd by blast
  then have "\<forall>c \<in> set rest. fst c \<noteq> up"
    using tree_nodes_parents(1) [of up i k v] \<open>up < i\<close> by (auto simp: parent_within_def)
  then show ?thesis unfolding h by (simp add: offsets_under_none)
qed

lemma element_offsets: "up < i \<Longrightarrow> offsets_under i (element_nodes up i vs) up = positions i vs"
  by (induction vs arbitrary: i) (simp_all add: offsets_under_append tree_offsets)

lemma member_offsets: "up < i \<Longrightarrow> offsets_under i (member_nodes up i ms) up = positions i (map snd ms)"
  by (induction ms arbitrary: i) (auto simp: offsets_under_append tree_offsets)

section \<open>Blocks\<close>

text \<open>A value and its key lie in the array from \<open>i\<close> on, and nothing behind it belongs to it.\<close>

definition block :: "node list \<Rightarrow> nat \<Rightarrow> bytes option \<Rightarrow> json \<Rightarrow> bool" where
  "block ns i k v \<longleftrightarrow>
     (\<exists>up pre post. map node_cell ns = pre @ tree_nodes up i k v @ post \<and> length pre = i \<and>
        (\<forall>c \<in> set post. \<not> parent_within i (tree_size v) c))"

definition tree_array :: "node list \<Rightarrow> bool" where
  "tree_array ns \<longleftrightarrow> linked (node_tokens ns) \<and> (\<forall>n \<in> set ns. n_type n \<noteq> TYPE_NONE)"

lemma block_root: "map node_cell ns = tree_nodes VALUE_NONE 0 None v \<Longrightarrow> block ns 0 None v"
  unfolding block_def by (intro exI [of _ VALUE_NONE] exI [of _ "[]"]) simp

lemma block_node:
  assumes t: "tree_array ns" and b: "block ns i k v"
  shows "i < length ns" "n_key (ns ! i) = k" "n_type (ns ! i) = json_type_of v"
    "json_type_of v \<notin> {TYPE_OBJECT, TYPE_ARRAY} \<Longrightarrow> node_leaf (ns ! i) = v"
proof -
  obtain up pre post where c: "map node_cell ns = pre @ tree_nodes up i k v @ post" "length pre = i" using b by (auto simp: block_def)
  obtain leaf rest where h: "tree_nodes up i k v = (up, k, leaf) # rest" "json_type_of leaf = json_type_of v" using tree_nodes_hd by blast
  have "length ns = i + tree_size v + length post" using arg_cong [OF c(1), of length] c(2) by simp
  then show i: "i < length ns" using tree_size_positive [of v] by simp
  have "map node_cell ns ! i = (up, k, leaf)" using c h(1) by (simp add: nth_append)
  then have n: "node_cell (ns ! i) = (up, k, leaf)" using i by simp
  then show "n_key (ns ! i) = k" by (simp add: node_cell_def)
  have "n_type (ns ! i) \<noteq> TYPE_NONE" using t i by (auto simp: tree_array_def)
  then show "n_type (ns ! i) = json_type_of v" using n h(2) by (cases "n_type (ns ! i)") (auto simp: node_cell_def node_leaf_def)
  show "json_type_of v \<notin> {TYPE_OBJECT, TYPE_ARRAY} \<Longrightarrow> node_leaf (ns ! i) = v"
    using n h(1) by (cases v) (auto simp: node_cell_def)
qed

lemma kids_offsets: "kids (node_tokens ns) i = offsets_under 0 (map node_cell ns) i"
  unfolding kids_def offsets_under_filter by (auto intro!: filter_cong simp: node_cell_def)

lemma block_kids:
  assumes t: "tree_array ns" and b: "block ns i k v"
  shows "v = JArr vs \<Longrightarrow> kids (node_tokens ns) i = positions (i + 1) vs"
    "v = JObj ms \<Longrightarrow> kids (node_tokens ns) i = positions (i + 1) (map snd ms)"
proof -
  obtain up pre post where c: "map node_cell ns = pre @ tree_nodes up i k v @ post" "length pre = i"
    "\<forall>c \<in> set post. \<not> parent_within i (tree_size v) c" using b by (auto simp: block_def)
  have len: "length ns = i + tree_size v + length post" using arg_cong [OF c(1), of length] c(2) by simp
  have lk: "linked (node_tokens ns)" using t by (simp add: tree_array_def)
  then have bound: "length ns \<le> VALUE_NONE" by (simp add: linked_def)
  have par: "fst (map node_cell ns ! j) = VALUE_NONE \<or> fst (map node_cell ns ! j) < j" if "j < length ns" for j
    using lk that by (auto simp: linked_def parents_before_def node_cell_def)
  have i: "i \<noteq> VALUE_NONE" using len bound tree_size_positive [of v] by auto
  have "fst x \<noteq> i" if x: "x \<in> set pre" for x
  proof -
    obtain j where j: "j < i" "x = pre ! j" using x c(2) by (auto simp: in_set_conv_nth)
    then have "map node_cell ns ! j = x" using c(1,2) by (simp add: nth_append)
    then show ?thesis using par [of j] j(1) len i by auto
  qed
  then have pre: "offsets_under 0 pre i = []" by (intro offsets_under_none) auto
  have "fst x \<noteq> i" if "x \<in> set post" for x
    using c(3) that tree_size_positive [of v] by (auto simp: parent_within_def)
  then have post: "offsets_under off post i = []" for off by (intro offsets_under_none) auto
  have up: "up \<noteq> i"
  proof -
    obtain leaf rest where "tree_nodes up i k v = (up, k, leaf) # rest" using tree_nodes_hd by blast
    then have "map node_cell ns ! i = (up, k, leaf)" using c(1,2) by (simp add: nth_append)
    then show ?thesis using par [of i] len i tree_size_positive [of v] by auto
  qed
  have "kids (node_tokens ns) i = offsets_under i (tree_nodes up i k v) i"
    unfolding kids_offsets c(1) offsets_under_append pre post using c(2) by simp
  then show "v = JArr vs \<Longrightarrow> kids (node_tokens ns) i = positions (i + 1) vs"
    "v = JObj ms \<Longrightarrow> kids (node_tokens ns) i = positions (i + 1) (map snd ms)"
    using up by (simp_all add: element_offsets member_offsets)
qed

text \<open>The children of a block are blocks.\<close>

lemma positions_append: "positions i (vs @ us) = positions i vs @ positions (i + trees_size vs) us"
  by (induction i vs rule: positions.induct) (simp_all add: add.assoc)

lemma block_inside:
  assumes "map node_cell ns = pre @ (ps @ tree_nodes i j k w @ qs) @ post" "length (pre @ ps) = j" "i < j"
    and "\<forall>c \<in> set qs. fst c = i \<or> parent_within (j + tree_size w) n c"
    and "\<forall>c \<in> set post. \<not> parent_within i m c" "j + tree_size w \<le> i + m"
  shows "block ns j k w"
  unfolding block_def
proof (rule exI [of _ i], rule exI [of _ "pre @ ps"], rule exI [of _ "qs @ post"], intro conjI ballI)
  fix c assume "c \<in> set (qs @ post)"
  then show "\<not> parent_within j (tree_size w) c"
    using assms(3-6) by (fastforce simp: parent_within_def)
qed (use assms(1,2) in simp_all)

lemma block_element:
  assumes "block ns i k (JArr (us @ w # rest))"
  shows "block ns (i + 1 + trees_size us) None w"
proof -
  let ?j = "i + 1 + trees_size us"
  obtain up pre post where c: "map node_cell ns = pre @ tree_nodes up i k (JArr (us @ w # rest)) @ post" "length pre = i"
    "\<forall>c \<in> set post. \<not> parent_within i (tree_size (JArr (us @ w # rest))) c" using assms by (auto simp: block_def)
  show ?thesis
    by (rule block_inside [of ns pre "(up, k, JArr []) # element_nodes i (i + 1) us" i ?j None w
        "element_nodes i (?j + tree_size w) rest" post "trees_size rest" "tree_size (JArr (us @ w # rest))"])
      (use c tree_nodes_parents(2) [of i "?j + tree_size w" rest] in \<open>simp_all add: element_nodes_append\<close>)
qed

lemma block_member:
  assumes "block ns i k (JObj (us @ (key, w) # rest))"
  shows "block ns (i + 1 + member_trees_size us) (Some key) w"
proof -
  let ?j = "i + 1 + member_trees_size us"
  obtain up pre post where c: "map node_cell ns = pre @ tree_nodes up i k (JObj (us @ (key, w) # rest)) @ post" "length pre = i"
    "\<forall>c \<in> set post. \<not> parent_within i (tree_size (JObj (us @ (key, w) # rest))) c" using assms by (auto simp: block_def)
  show ?thesis
    by (rule block_inside [of ns pre "(up, k, JObj []) # member_nodes i (i + 1) us" i ?j "Some key" w
        "member_nodes i (?j + tree_size w) rest" post "member_trees_size rest" "tree_size (JObj (us @ (key, w) # rest))"])
      (use c tree_nodes_parents(3) [of i "?j + tree_size w" rest] in \<open>simp_all add: member_nodes_append\<close>)
qed

text \<open>Every child stands at its position.\<close>

lemma list_all2_positions:
  assumes "\<And>us w rest. vs = us @ w # rest \<Longrightarrow> P (i + trees_size us) w"
  shows "list_all2 P (positions i vs) vs"
  using assms
proof (induction vs arbitrary: i)
  case (Cons v vs)
  have "P i v" using Cons.prems [of "[]" v vs] by simp
  moreover have "list_all2 P (positions (i + tree_size v) vs) vs"
  proof (rule Cons.IH)
    fix us w rest assume "vs = us @ w # rest"
    then show "P (i + tree_size v + trees_size us) w" using Cons.prems [of "v # us" w rest] by (simp add: add.assoc)
  qed
  ultimately show ?case by simp
qed simp

lemma block_elements: "block ns i k (JArr vs) \<Longrightarrow> list_all2 (\<lambda>j v. block ns j None v) (positions (i + 1) vs) vs"
  using block_element by (intro list_all2_positions) auto

lemma list_all2_members:
  assumes "\<And>us k w rest. ms = us @ (k, w) # rest \<Longrightarrow> P (i + member_trees_size us) (k, w)"
  shows "list_all2 P (positions i (map snd ms)) ms"
  using assms
proof (induction ms arbitrary: i)
  case (Cons m ms)
  obtain k v where m: "m = (k, v)" by fastforce
  have "P i m" using Cons.prems [of "[]" k v ms] m by simp
  moreover have "list_all2 P (positions (i + tree_size v) (map snd ms)) ms"
  proof (rule Cons.IH)
    fix us k' w rest assume "ms = us @ (k', w) # rest"
    then show "P (i + tree_size v + member_trees_size us) (k', w)" using Cons.prems [of "m # us" k' w rest] m by (simp add: add.assoc)
  qed
  ultimately show ?case using m by simp
qed simp

lemma block_members: "block ns i k (JObj ms) \<Longrightarrow> list_all2 (\<lambda>j (key, v). block ns j (Some key) v) (positions (i + 1) (map snd ms)) ms"
  using block_member by (intro list_all2_members) auto

section \<open>The sibling chain\<close>

lemma node_chain_tokens: "node_chain turns ns i = child_chain turns (node_tokens ns) i"
proof (induction turns arbitrary: i)
  case 0
  then show ?case by (simp add: node_chain.simps child_chain.simps)
next
  case (Suc n)
  then show ?case by (subst node_chain.simps, subst child_chain.simps) simp
qed

lemma node_chain_kids:
  assumes "tree_array ns" "i < length ns"
  shows "node_chain (length ns) ns (first_child (n_links (ns ! i))) = Some (kids (node_tokens ns) i)"
    "child_count (n_links (ns ! i)) = length (kids (node_tokens ns) i)"
proof -
  have l: "linked (node_tokens ns)" using assms(1) by (simp add: tree_array_def)
  show "node_chain (length ns) ns (first_child (n_links (ns ! i))) = Some (kids (node_tokens ns) i)"
    using child_chain_first [OF l, of i] assms(2) by (simp add: node_chain_tokens)
  have "linked_at (node_tokens ns) i" using l assms(2) by (simp add: linked_def)
  then show "child_count (n_links (ns ! i)) = length (kids (node_tokens ns) i)"
    using assms(2) by (simp add: linked_at_def Let_def)
qed

end
