(* ===== verification/Render.thy ===== *)
theory Render
  imports Key_Sort Node_Tree
begin

text \<open>
  The text of a value: keys in UTF-16 order at every depth, optional indentation, optional
  escapes for all that is not ASCII. \<open>rendered\<close> is what the serializer is to produce; \<open>emits\<close> is
  the contract of the functions of \<open>src/serialize.c\<close> that append to the buffer.
\<close>

unbundle bit_operations_syntax

section \<open>The text of a value\<close>

record style =
  st_indent :: bool
  st_ascii :: bool

definition point_text :: "u32 \<Rightarrow> bytes" where
  "point_text point =
     (if point \<ge> 0x10000 then u16_escape (0xd800 + drop_bit 10 (point - 0x10000)) @ u16_escape (0xdc00 + ((point - 0x10000) AND 0x3ff))
      else u16_escape point)"

function content_text :: "bool \<Rightarrow> bytes \<Rightarrow> bytes" where
  "content_text asc bs =
     (case bs of
        [] \<Rightarrow> []
      | b # rest \<Rightarrow>
          if b \<ge> 0x80 \<and> asc then
            (case utf8_decode bs of
               None \<Rightarrow> []
             | Some (point, n) \<Rightarrow> point_text point @ content_text asc (drop n bs))
          else canonical_escape b @ content_text asc rest)"
  by pat_completeness auto
termination
  by (relation "measure (\<lambda>(asc, bs). length bs)") (auto dest: utf8_decode_positive)

declare content_text.simps [simp del]

definition string_text :: "style \<Rightarrow> bytes \<Rightarrow> bytes" where
  "string_text st bs = QUOTE # content_text (st_ascii st) bs @ [QUOTE]"

definition line_break :: "style \<Rightarrow> nat \<Rightarrow> bytes" where
  "line_break st level = (if st_indent st then LF # replicate (level * INDENT_WIDTH) SPACE else [])"

definition colon_text :: "style \<Rightarrow> bytes" where
  "colon_text st = (if st_indent st then [COLON, SPACE] else [COLON])"

fun value_text :: "style \<Rightarrow> nat \<Rightarrow> json \<Rightarrow> bytes"
and elements_text :: "style \<Rightarrow> nat \<Rightarrow> bool \<Rightarrow> json list \<Rightarrow> bytes"
and members_text :: "style \<Rightarrow> nat \<Rightarrow> bool \<Rightarrow> (bytes \<times> json) list \<Rightarrow> bytes"
where
  "value_text st level JNull = ascii ''null''"
| "value_text st level (JBool b) = ascii (if b then ''true'' else ''false'')"
| "value_text st level (JNum n) = n"
| "value_text st level (JStr s) = string_text st s"
| "value_text st level (JArr vs) =
     (if vs = [] then ascii ''[]''
      else LBRACKET # elements_text st level True vs @ line_break st level @ [RBRACKET])"
| "value_text st level (JObj ms) =
     (if ms = [] then ascii ''{}''
      else LBRACE # members_text st level True ms @ line_break st level @ [RBRACE])"
| "elements_text st level first [] = []"
| "elements_text st level first (v # vs) =
     (if first then [] else [COMMA]) @ line_break st (level + 1) @ value_text st (level + 1) v @
     elements_text st level False vs"
| "members_text st level first [] = []"
| "members_text st level first ((k, v) # ms) =
     (if first then [] else [COMMA]) @ line_break st (level + 1) @ string_text st k @ colon_text st @
     value_text st (level + 1) v @ members_text st level False ms"

definition member_le :: "bytes \<times> json \<Rightarrow> bytes \<times> json \<Rightarrow> bool" where
  "member_le m n \<longleftrightarrow> key_le (fst m) (fst n)"

fun key_sorted :: "json \<Rightarrow> json" where
  "key_sorted (JArr vs) = JArr (map key_sorted vs)"
| "key_sorted (JObj ms) = JObj (sort_by member_le (map (\<lambda>(k, v). (k, key_sorted v)) ms))"
| "key_sorted v = v"

definition rendered :: "style \<Rightarrow> nat \<Rightarrow> json \<Rightarrow> bytes" where
  "rendered st level v = value_text st level (key_sorted v)"

section \<open>The contract of an emission\<close>

definition serializer_outside :: "serializer \<Rightarrow> nat" where
  "serializer_outside s = live (s_heap s) - buffer_area s"

definition serializer_ok :: "serializer \<Rightarrow> bool" where
  "serializer_ok s \<longleftrightarrow>
     length (s_bytes s) \<le> s_capacity s \<and> length (s_bytes s) \<le> s_maximum s \<and> 2 * s_maximum s + 2 \<le> SIZE_MAX \<and>
     buffer_area s \<le> live (s_heap s)"

definition same_serializer :: "serializer \<Rightarrow> serializer \<Rightarrow> bool" where
  "same_serializer s s' \<longleftrightarrow>
     s_nodes s' = s_nodes s \<and> s_maximum s' = s_maximum s \<and> s_indent s' = s_indent s \<and> s_ascii s' = s_ascii s \<and>
     serializer_outside s' = serializer_outside s \<and> (fates (s_heap s) = [] \<longrightarrow> fates (s_heap s') = [])"

lemma same_serializer_refl [simp]: "same_serializer s s"
  by (simp add: same_serializer_def)

lemma same_serializer_trans: "same_serializer s s' \<Longrightarrow> same_serializer s' s'' \<Longrightarrow> same_serializer s s''"
  by (auto simp: same_serializer_def)

text \<open>The bytes are appended, or they do not fit, or an allocation failed.\<close>

definition emits :: "serializer \<Rightarrow> bytes \<Rightarrow> emission \<Rightarrow> bool" where
  "emits s bs m \<longleftrightarrow>
     (case m of (r, s') \<Rightarrow>
        serializer_ok s' \<and> same_serializer s s' \<and>
        (case r of
           Ret _ \<Rightarrow> s_bytes s' = s_bytes s @ bs
         | Fail code \<Rightarrow>
             code = ERR_LIMIT \<and> s_maximum s < length (s_bytes s) + length bs \<or>
             code = ERR_MEMORY \<and> fates (s_heap s) \<noteq> []
         | Stuck \<Rightarrow> False))"

lemma emits_nothing: "serializer_ok s \<Longrightarrow> emits s [] (Ret (), s)"
  by (simp add: emits_def)

lemma emits_andthen:
  assumes "emits s bs m"
    and "\<And>x s'. serializer_ok s' \<Longrightarrow> same_serializer s s' \<Longrightarrow> s_bytes s' = s_bytes s @ bs \<Longrightarrow> emits s' cs (k x s')"
  shows "emits s (bs @ cs) (andthen m k)"
proof -
  obtain r s' where m: "m = (r, s')" by (cases m)
  show ?thesis
  proof (cases r)
    case (Ret x)
    then have s': "serializer_ok s'" "same_serializer s s'" "s_bytes s' = s_bytes s @ bs" using assms(1) m by (simp_all add: emits_def)
    obtain r2 s2 where k: "k x s' = (r2, s2)" by fastforce
    have e: "emits s' cs (r2, s2)" using assms(2) [OF s'] k by metis
    have "s_maximum s' = s_maximum s" "fates (s_heap s') \<noteq> [] \<longrightarrow> fates (s_heap s) \<noteq> []" using s'(2) by (auto simp: same_serializer_def)
    then have "emits s (bs @ cs) (r2, s2)"
      using e s' by (cases r2) (auto simp: emits_def intro: same_serializer_trans)
    then show ?thesis using m Ret k by simp
  next
    case (Fail code)
    then show ?thesis using assms(1) m by (auto simp: emits_def)
  next
    case Stuck
    then show ?thesis using assms(1) m by (simp add: emits_def)
  qed
qed

section \<open>The buffer\<close>

text \<open>The doubling loop returns.\<close>

lemma grow_capacity_returns:
  assumes "needed \<le> maximum" "0 < capacity"
  shows "\<exists>c. grow_capacity maximum needed capacity = Some c \<and> needed \<le> c \<and> capacity \<le> c"
  using assms
proof (induction "needed - capacity" arbitrary: capacity rule: less_induct)
  case less
  show ?case
  proof (cases "capacity < needed")
    case False
    then show ?thesis by (subst grow_capacity.simps) simp
  next
    case True
    let ?next = "if capacity > maximum div 2 then maximum else capacity * 2"
    have "capacity < ?next" using True less.prems by auto
    moreover from this have "needed - ?next < needed - capacity" using True by linarith
    ultimately obtain c where "grow_capacity maximum needed ?next = Some c" "needed \<le> c" "?next \<le> c"
      using less.hyps [of ?next] less.prems by (metis less_imp_le_nat order.strict_trans1 zero_less_iff_neq_zero)
    then show ?thesis using True \<open>capacity < ?next\<close> by (subst grow_capacity.simps) auto
  qed
qed

lemma realloc_area:
  assumes "realloc old new h = (b, h')" "old \<le> live h"
  shows "live h' = (if b then live h - old + new else live h)" "fates h = [] \<Longrightarrow> b \<and> fates h' = []"
  using assms(2) malloc_facts [of new h "fst (malloc new h)" "snd (malloc new h)"] assms(1)
  by (auto simp: realloc_def split: prod.splits bool.splits)

lemma reserve_cases:
  assumes ok: "serializer_ok s"
  obtains (limit) "reserve extra s = (Fail ERR_LIMIT, s)" "s_maximum s < length (s_bytes s) + extra"
  | (memory) h where "reserve extra s = (Fail ERR_MEMORY, s\<lparr>s_heap := h\<rparr>)" "fates (s_heap s) \<noteq> []"
      "serializer_ok (s\<lparr>s_heap := h\<rparr>)" "same_serializer s (s\<lparr>s_heap := h\<rparr>)"
  | (room) c h where "reserve extra s = (Ret (), s\<lparr>s_capacity := c, s_heap := h\<rparr>)" "length (s_bytes s) + extra \<le> c"
      "length (s_bytes s) + extra \<le> s_maximum s"
      "serializer_ok (s\<lparr>s_capacity := c, s_heap := h\<rparr>)" "same_serializer s (s\<lparr>s_capacity := c, s_heap := h\<rparr>)"
proof (cases "extra > s_maximum s - length (s_bytes s)")
  case True
  then show thesis using ok by (intro limit) (auto simp: reserve_def serializer_ok_def)
next
  case False
  then have fit: "length (s_bytes s) + extra \<le> s_maximum s" using ok by (auto simp: serializer_ok_def)
  show thesis
  proof (cases "length (s_bytes s) + extra \<le> s_capacity s")
    case True
    then show thesis using False fit ok by (intro room [of "s_heap s" "s_capacity s"]) (simp_all add: reserve_def)
  next
    case big: False
    let ?from = "if s_capacity s \<noteq> 0 then s_capacity s else 128"
    have pos: "0 < ?from" by simp
    obtain c where c: "grow_capacity (s_maximum s) (length (s_bytes s) + extra) ?from = Some c"
      "length (s_bytes s) + extra \<le> c" "?from \<le> c"
      using grow_capacity_returns [OF fit pos] by blast
    obtain b h where r: "realloc (buffer_area s) (c + 1) (s_heap s) = (b, h)" by fastforce
    have area: "buffer_area s \<le> live (s_heap s)" using ok by (simp add: serializer_ok_def)
    note f = realloc_area [OF r area]
    have e: "reserve extra s = (if b then (Ret (), s\<lparr>s_capacity := c, s_heap := h\<rparr>) else (Fail ERR_MEMORY, s\<lparr>s_heap := h\<rparr>))"
      unfolding reserve_def Let_def using False big c(1) r by simp
    have nz: "c \<noteq> 0" using c(3) by (auto split: if_splits)
    have ba: "buffer_area (s\<lparr>s_capacity := c, s_heap := h\<rparr>) = c + 1" "buffer_area (s\<lparr>s_heap := h\<rparr>) = buffer_area s"
      using nz by (simp_all add: buffer_area_def)
    show thesis
    proof (cases b)
      case True
      have "serializer_outside (s\<lparr>s_capacity := c, s_heap := h\<rparr>) = serializer_outside s" "c + 1 \<le> live h"
        using f(1) True area unfolding serializer_outside_def ba by simp_all
      then show thesis using e True c(2) fit ok f(2)
        by (intro room [of h c]) (auto simp: serializer_ok_def same_serializer_def ba)
    next
      case fail: False
      have "serializer_outside (s\<lparr>s_heap := h\<rparr>) = serializer_outside s"
        using f(1) fail unfolding serializer_outside_def ba by simp
      then show thesis using e fail ok f
        by (intro memory [of h]) (auto simp: serializer_ok_def same_serializer_def ba)
    qed
  qed
qed

lemma append_bytes_emits:
  assumes "serializer_ok s"
  shows "emits s bs (append_bytes bs s)"
proof (cases "bs = []")
  case True
  then show ?thesis using assms by (simp add: append_bytes_def emits_def)
next
  case False
  show ?thesis
  proof (cases rule: reserve_cases [OF assms, of "length bs"])
    case 1
    then show ?thesis using False assms by (simp add: append_bytes_def emits_def)
  next
    case (2 h)
    then show ?thesis using False by (simp add: append_bytes_def emits_def)
  next
    case (3 c h)
    let ?s = "s\<lparr>s_capacity := c, s_heap := h\<rparr>" and ?t = "s\<lparr>s_capacity := c, s_heap := h, s_bytes := s_bytes s @ bs\<rparr>"
    have "append_bytes bs s = (Ret (), ?t)" using 3(1,2) False by (simp add: append_bytes_def)
    moreover have "buffer_area ?t = buffer_area ?s" by (simp add: buffer_area_def)
    then have "serializer_ok ?t" "same_serializer s ?t"
      using 3 by (simp_all add: serializer_ok_def same_serializer_def serializer_outside_def)
    ultimately show ?thesis by (simp add: emits_def)
  qed
qed

section \<open>Scalars\<close>

lemma emits_eq: "emits s bs m \<Longrightarrow> bs = cs \<Longrightarrow> emits s cs m"
  by simp

lemma append_byte_emits: "serializer_ok s \<Longrightarrow> emits s [b] (append_byte b s)"
  unfolding append_byte_def by (rule append_bytes_emits)

lemma append_literal_emits: "serializer_ok s \<Longrightarrow> emits s (ascii t) (append_literal t s)"
  unfolding append_literal_def by (rule append_bytes_emits)

lemma append_spaces_emits: "serializer_ok s \<Longrightarrow> emits s (replicate n SPACE) (append_spaces n s)"
proof (induction n arbitrary: s)
  case (Suc n)
  have "emits s ([SPACE] @ replicate n SPACE) (andthen (append_byte SPACE s) (\<lambda>_ s. append_spaces n s))"
    by (rule emits_andthen [OF append_byte_emits [OF Suc.prems]]) (rule Suc.IH)
  then show ?case by simp
qed (simp add: emits_def)

definition style_of :: "serializer \<Rightarrow> style" where
  "style_of s = \<lparr>st_indent = s_indent s, st_ascii = s_ascii s\<rparr>"

lemma style_same: "same_serializer s s' \<Longrightarrow> style_of s' = style_of s"
  by (simp add: same_serializer_def style_of_def)

lemma append_break_emits: "serializer_ok s \<Longrightarrow> emits s (line_break (style_of s) level) (append_break level s)"
proof (cases "s_indent s")
  case True
  assume ok: "serializer_ok s"
  have "emits s ([LF] @ replicate (level * INDENT_WIDTH) SPACE) (andthen (append_byte LF s) (\<lambda>_ s. append_spaces (level * INDENT_WIDTH) s))"
    by (rule emits_andthen [OF append_byte_emits [OF ok]]) (rule append_spaces_emits)
  then show ?thesis using True by (simp add: append_break_def line_break_def style_of_def)
qed (simp add: append_break_def line_break_def style_of_def emits_def)

lemma append_point_emits: "serializer_ok s \<Longrightarrow> emits s (point_text point) (append_point point s)"
  by (simp add: append_point_def point_text_def append_u16_escape_def Let_def append_bytes_emits emits_andthen)

text \<open>Every tail of a UTF-8 text at a lead byte is one.\<close>

lemma utf8_text_split:
  assumes "utf8_text bs" "bs \<noteq> []"
  obtains cp rest where "scalar_value cp" "bs = utf8_enc cp @ rest" "utf8_text rest"
proof -
  obtain cps where c: "list_all scalar_value cps" "bs = utf8_encode cps" using assms(1) by (auto simp: utf8_text_def)
  then obtain cp r where "cps = cp # r" using assms(2) by (cases cps) auto
  then show thesis using c by (intro that [of cp "utf8_encode r"]) (auto simp: utf8_text_def)
qed

lemma utf8_text_decode:
  assumes "utf8_text bs" "bs \<noteq> []"
  obtains point n where "utf8_decode bs = Some (point, n)" "utf8_text (drop n bs)"
proof -
  obtain cp rest where "scalar_value cp" "bs = utf8_enc cp @ rest" "utf8_text rest" using utf8_text_split [OF assms] .
  then show thesis using that utf8_decode_enc [of cp rest] by simp
qed

lemma utf8_text_tail: "utf8_text (b # rest) \<Longrightarrow> \<not> b \<ge> 0x80 \<Longrightarrow> utf8_text rest"
proof -
  assume a: "utf8_text (b # rest)" "\<not> b \<ge> 0x80"
  obtain cp r where c: "scalar_value cp" "b # rest = utf8_enc cp @ r" "utf8_text r" using utf8_text_split [OF a(1)] by auto
  have "cp < 0x80"
  proof (rule ccontr)
    assume "\<not> cp < 0x80"
    then have "hd (utf8_enc cp) \<ge> 0x80" using c(1)
      by (auto simp: utf8_enc_def scalar_value_def word_le_nat_alt unat_of_nat_byte simp del: of_nat_add)
    then show False using a(2) c(2) by (cases "utf8_enc cp") (auto simp: utf8_enc_nonempty)
  qed
  then show ?thesis using c by (simp add: utf8_enc_def)
qed

lemma append_content_emits:
  "serializer_ok s \<Longrightarrow> s_ascii s = asc \<Longrightarrow> (asc \<Longrightarrow> utf8_text bs) \<Longrightarrow> emits s (content_text asc bs) (append_content bs s)"
proof (induction asc bs arbitrary: s rule: content_text.induct)
  case (1 asc bs)
  show ?case
  proof (cases bs)
    case Nil
    then show ?thesis using 1(3) by (simp add: append_content.simps content_text.simps emits_def)
  next
    case (Cons b rest)
    show ?thesis
    proof (cases "b \<ge> 0x80 \<and> asc")
      case True
      obtain point n where d: "utf8_decode bs = Some (point, n)" "utf8_text (drop n bs)"
        using utf8_text_decode [of bs] 1(5) True Cons by blast
      have "emits s (point_text point @ content_text asc (drop n bs)) (andthen (append_point point s) (\<lambda>_ s. append_content (drop n bs) s))"
        by (rule emits_andthen [OF append_point_emits [OF 1(3)]], rule 1(1) [OF Cons True d(1)])
          (use d(2) 1(4) in \<open>auto simp: same_serializer_def\<close>)
      then show ?thesis using True Cons d(1) 1(4)
        by (subst append_content.simps, subst content_text.simps) simp
    next
      case False
      have "emits s (canonical_escape b @ content_text asc rest) (andthen (append_bytes (canonical_escape b) s) (\<lambda>_ s. append_content rest s))"
        by (rule emits_andthen [OF append_bytes_emits [OF 1(3)]], rule 1(2) [OF Cons False])
          (use utf8_text_tail [of b rest] 1(4,5) False Cons in \<open>auto simp: same_serializer_def\<close>)
      then show ?thesis using False Cons 1(4)
        by (subst append_content.simps, subst content_text.simps) auto
    qed
  qed
qed

lemma append_string_emits:
  assumes "serializer_ok s" "utf8_text bs"
  shows "emits s (string_text (style_of s) bs) (append_string bs s)"
proof -
  have "emits s ([QUOTE] @ content_text (s_ascii s) bs @ [QUOTE]) (append_string bs s)"
    unfolding append_string_def
  proof (rule emits_andthen [OF append_byte_emits [OF assms(1)]])
    fix s' assume s': "serializer_ok s'" "same_serializer s s'"
    then have "s_ascii s' = s_ascii s" by (simp add: same_serializer_def)
    from append_content_emits [OF s'(1) this] assms(2)
    show "emits s' (content_text (s_ascii s) bs @ [QUOTE]) (andthen (append_content bs s') (\<lambda>_ s. append_byte QUOTE s))"
      by (intro emits_andthen append_byte_emits) auto
  qed
  then show ?thesis by (simp add: string_text_def style_of_def)
qed

lemma decimal_length: "n < 2 ^ 64 \<Longrightarrow> length (decimal n) \<le> 20"
proof -
  have small: "m < 10 ^ Suc k \<Longrightarrow> length (decimal m) \<le> Suc k" for m k
  proof (induction k arbitrary: m)
    case 0
    then show ?case by (subst decimal.simps) simp
  next
    case (Suc k)
    then have "m div 10 < 10 ^ Suc k" by (simp add: less_mult_imp_div_less mult.commute)
    from Suc.IH [OF this] show ?case by (subst decimal.simps) simp
  qed
  assume "n < 2 ^ 64"
  then have "n < 10 ^ Suc 19" by (rule order.strict_trans2) simp
  from small [OF this] show ?thesis by simp
qed

lemma number_text_length: "length (number_text n) \<le> 21"
proof -
  have u: "length (decimal (unat x)) \<le> 20" for x :: u64
    using unsigned_less [of x, where ?'a = nat] by (intro decimal_length) simp
  have s: "nat \<bar>sint x\<bar> < 2 ^ 64" for x :: u64
    using sint_range_size [of x] by (simp add: word_size) linarith
  have "length (decimal_int (sint x)) \<le> 21" for x :: u64
    using decimal_length [OF s [of x]] by (auto simp: decimal_int_def)
  then show ?thesis using u [of "n_unsigned n"] by (simp add: number_text_def)
qed

lemma append_number_emits:
  "serializer_ok s \<Longrightarrow> n_type n = TYPE_NUMBER \<Longrightarrow> node_leaf n = JNum bs \<Longrightarrow> emits s bs (append_number n s)"
proof -
  assume a: "serializer_ok s" "n_type n = TYPE_NUMBER" "node_leaf n = JNum bs"
  have "number_text n \<noteq> []" by (auto simp: number_text_def decimal_int_def)
  then show ?thesis using a number_text_length [of n] append_bytes_emits [OF a(1)]
    by (cases "n_string n") (auto simp: append_number_def node_leaf_def Let_def)
qed

end
