(* ===== verification/Writer_Steps.thy ===== *)
theory Writer_Steps
  imports Writer_Inv
begin

text \<open>
  What the calls of the writer that do not read a document do to a writer that satisfies the
  invariant: the node attached, the container opened or closed, the key kept, and the code of
  every failure.
\<close>

section \<open>The shape of a writer\<close>

lemma writer_shapeD:
  assumes "writer_shape w p"
  shows "map node_cell (w_nodes w) = progress_nodes p" "w_stack w = progress_stack p"
    "linked (node_tokens (w_nodes w))" "\<And>n. n \<in> set (w_nodes w) \<Longrightarrow> n_type n \<noteq> TYPE_NONE"
    "progress_fine (w_profile w) (maximum_depth (w_limits w)) p" "pending_fine (w_profile w) (w_pending w) p"
    "keyset_inv (node_key (w_nodes w)) (w_keys w)"
    "keyset_entries (w_keys w) = {i. i < length (w_nodes w) \<and> n_key (w_nodes w ! i) \<noteq> None}"
    "length (w_nodes w) = length (progress_nodes p)"
proof -
  show m: "map node_cell (w_nodes w) = progress_nodes p" using assms by (simp add: writer_shape_def)
  show "length (w_nodes w) = length (progress_nodes p)" using arg_cong [OF m, of length] by simp
qed (use assms in \<open>simp_all add: writer_shape_def\<close>)

lemma node_leaf_type: "n_type n \<noteq> TYPE_NONE \<Longrightarrow> json_type_of (node_leaf n) = n_type n"
  by (cases "n_type n") (simp_all add: node_leaf_def)

text \<open>The innermost open container.\<close>

fun top_value :: "progress \<Rightarrow> json option" where
  "top_value (Building ((k, v) # fs)) = Some v"
| "top_value p = None"

fun top_position :: "progress \<Rightarrow> nat option" where
  "top_position (Building ((k, v) # fs)) = Some (length (frames_nodes fs))"
| "top_position p = None"

lemma progress_cases:
  obtains (top) k v fs where "p = Building ((k, v) # fs)" | (start) "p = Building []" | (complete) v where "p = Complete v"
  by (cases p rule: top_value.cases) auto

lemma current_container_shape: "writer_shape w p \<Longrightarrow> current_container w = top_position p"
  by (cases p rule: top_position.cases) (simp_all add: writer_shapeD(2) current_container_def)

lemma top_position_bound: "writer_shape w p \<Longrightarrow> top_position p = Some i \<Longrightarrow> i < length (w_nodes w)"
  using tree_size_positive by (cases p rule: top_position.cases) (auto simp: writer_shapeD(9))

lemma container_type_shape:
  assumes "writer_shape w p"
  shows "container_type w = map_option json_type_of (top_value p)"
proof (cases p rule: progress_cases)
  case (top k v fs)
  let ?i = "length (frames_nodes fs)"
  have i: "?i < length (w_nodes w)" using top_position_bound [OF assms] top by simp
  have "node_cell (w_nodes w ! ?i) = progress_nodes p ! ?i"
    using writer_shapeD(1) [OF assms] i by (metis nth_map)
  moreover obtain leaf rest where "tree_nodes (top_index fs) ?i k v = (top_index fs, k, leaf) # rest"
    "json_type_of leaf = json_type_of v" using tree_nodes_hd by blast
  ultimately have "json_type_of (node_leaf (w_nodes w ! ?i)) = json_type_of v"
    using top by (simp add: nth_append node_cell_def)
  then have "n_type (w_nodes w ! ?i) = json_type_of v"
    using node_leaf_type writer_shapeD(4) [OF assms nth_mem [OF i]] by simp
  then show ?thesis using current_container_shape [OF assms] top by (simp add: container_type_def)
qed (simp_all add: container_type_def current_container_shape [OF assms])

lemma progress_nodes_empty: "progress_nodes p = [] \<longleftrightarrow> p = Building []"
proof (cases p rule: progress_cases)
  case (top k v fs)
  have "length (tree_nodes (top_index fs) (length (frames_nodes fs)) k v) \<noteq> 0" using tree_size_positive [of v] by simp
  then have "tree_nodes (top_index fs) (length (frames_nodes fs)) k v \<noteq> []" by fastforce
  then show ?thesis using top by simp
next
  case (complete v)
  then show ?thesis using tree_nodes_hd [of VALUE_NONE 0 None v] by auto
qed simp_all

text \<open>When a node may be attached.\<close>

lemma attach_condition:
  assumes "writer_shape w p"
  shows "fits (w_pending w) p \<longleftrightarrow>
    \<not> (current_container w = None \<and> w_nodes w \<noteq> []) \<and>
    \<not> ((container_type w = Some TYPE_OBJECT \<and> w_pending w = None) \<or> (container_type w \<noteq> Some TYPE_OBJECT \<and> w_pending w \<noteq> None))"
proof -
  have e: "w_nodes w = [] \<longleftrightarrow> p = Building []"
    using progress_nodes_empty [of p] writer_shapeD(1) [OF assms] by auto
  show ?thesis
  proof (cases p rule: progress_cases)
    case (top k v fs)
    have "json_type_of v \<in> {TYPE_OBJECT, TYPE_ARRAY}" using writer_shapeD(5) [OF assms] top by simp
    then show ?thesis
      using top container_type_shape [OF assms] current_container_shape [OF assms] by (cases v) auto
  next
    case start
    then show ?thesis
      using e container_type_shape [OF assms] current_container_shape [OF assms] by (cases "w_pending w") auto
  next
    case (complete v)
    then show ?thesis using e current_container_shape [OF assms] by simp
  qed
qed

lemma needs_key_shape: "writer_shape w p \<Longrightarrow> fits (w_pending w) p \<Longrightarrow> (container_type w = Some TYPE_OBJECT) \<longleftrightarrow> w_pending w \<noteq> None"
  using attach_condition by auto

section \<open>The node array\<close>

lemma realloc_facts:
  assumes "realloc old new h = (b, h')"
  shows "live h' = (if b then live h + new - old else live h)" "fates h = [] \<Longrightarrow> b \<and> fates h' = []"
  using assms malloc_facts [of new h "fst (malloc new h)" "snd (malloc new h)"]
  by (auto simp: realloc_def split: prod.splits bool.splits)

definition node_room :: "writer \<Rightarrow> nat \<Rightarrow> heap \<Rightarrow> writer" where
  "node_room w c h = w\<lparr>w_capacity := c, w_heap := h\<rparr>"

lemma grow_nodes_cases:
  assumes "writer_base w"
  obtains (full) "grow_nodes w = (Fail ERR_LIMIT, w)" "maximum_tokens (w_limits w) \<le> length (w_nodes w)"
  | (memory) h where "grow_nodes w = (Fail ERR_MEMORY, w\<lparr>w_heap := h\<rparr>)" "fates (w_heap w) \<noteq> []"
      "writer_base (w\<lparr>w_heap := h\<rparr>)" "same_writer w (w\<lparr>w_heap := h\<rparr>)" "length (w_nodes w) < maximum_tokens (w_limits w)"
  | (room) c h where "grow_nodes w = (Ret (), node_room w c h)" "length (w_nodes w) < c"
      "writer_base (node_room w c h)" "same_writer w (node_room w c h)" "length (w_nodes w) < maximum_tokens (w_limits w)"
proof (cases "maximum_tokens (w_limits w) \<le> length (w_nodes w)")
  case True
  then show thesis using full by (simp add: grow_nodes_def)
next
  case small: False
  show thesis
  proof (cases "length (w_nodes w) < w_capacity w")
    case True
    then show thesis
      using small assms by (intro room [of "w_capacity w" "w_heap w"]) (simp_all add: grow_nodes_def node_room_def)
  next
    case False
    define d where "d = (if w_capacity w \<noteq> 0 then w_capacity w * 2 else WRITER_INITIAL_NODES)"
    define c where "c = (if d > maximum_tokens (w_limits w) then maximum_tokens (w_limits w) else d)"
    obtain b h where r: "realloc (w_capacity w * SIZEOF_NODE) (c * SIZEOF_NODE) (w_heap w) = (b, h)" by fastforce
    note f = realloc_facts [OF r]
    have "grow_nodes w = (case realloc (w_capacity w * SIZEOF_NODE) (c * SIZEOF_NODE) (w_heap w) of
        (False, h) \<Rightarrow> (Fail ERR_MEMORY, w\<lparr>w_heap := h\<rparr>) | (True, h) \<Rightarrow> (Ret (), w\<lparr>w_capacity := c, w_heap := h\<rparr>))"
      unfolding grow_nodes_def Let_def by (simp only: small False if_False c_def d_def)
    then have g: "grow_nodes w = (if b then (Ret (), node_room w c h) else (Fail ERR_MEMORY, w\<lparr>w_heap := h\<rparr>))"
      using r by (simp add: node_room_def)
    have fp: "writer_footprint w = (writer_footprint w - w_capacity w * SIZEOF_NODE) + w_capacity w * SIZEOF_NODE"
      by (simp add: writer_footprint_def)
    show thesis
    proof (cases b)
      case True
      have c: "length (w_nodes w) < c" "c \<le> maximum_tokens (w_limits w)"
        using small False assms by (auto simp: writer_base_def WRITER_INITIAL_NODES_def c_def d_def)
      have n: "writer_footprint (node_room w c h) = (writer_footprint w - w_capacity w * SIZEOF_NODE) + c * SIZEOF_NODE"
        by (simp add: writer_footprint_def node_room_def)
      have lv: "live h = live (w_heap w) + c * SIZEOF_NODE - w_capacity w * SIZEOF_NODE" using f(1) True by simp
      have le: "writer_footprint w \<le> live (w_heap w)" using assms by (simp add: writer_base_def)
      have o: "outside (node_room w c h) = outside w" "writer_footprint (node_room w c h) \<le> live h"
        unfolding outside_def n using lv le fp by (simp_all add: node_room_def)
      show thesis
        by (rule room [of c h])
          (use o c small g True f(2) assms in \<open>simp_all add: node_room_def writer_base_def same_writer_def\<close>)
    next
      case fail: False
      have lv: "live h = live (w_heap w)" using f(1) fail by simp
      show thesis
        by (rule memory [of h])
          (use lv small g fail f(2) assms in \<open>auto simp: writer_base_def same_writer_def outside_def writer_footprint_def\<close>)
    qed
  qed
qed

section \<open>Attaching a node\<close>

definition attach_fails :: "writer \<Rightarrow> progress \<Rightarrow> result \<Rightarrow> bool" where
  "attach_fails w p code \<longleftrightarrow>
     (code = ERR_STATE \<and> \<not> fits (w_pending w) p) \<or>
     (code = ERR_LIMIT \<and> fits (w_pending w) p \<and> maximum_tokens (w_limits w) \<le> length (w_nodes w)) \<or>
     (code = ERR_MEMORY \<and> fates (w_heap w) \<noteq> [])"

text \<open>
  The writer after a node was attached, before the caller completes it: the node is last, with the
  key that was pending, linked under the innermost container.
\<close>

definition top_parent :: "progress \<Rightarrow> nat" where
  "top_parent p = (case progress_stack p of [] \<Rightarrow> VALUE_NONE | i # _ \<Rightarrow> i)"

definition attached :: "writer \<Rightarrow> progress \<Rightarrow> json_type \<Rightarrow> writer \<Rightarrow> bool" where
  "attached w p type w' \<longleftrightarrow>
     fits (w_pending w) p \<and> length (w_nodes w) < maximum_tokens (w_limits w) \<and>
     length (w_nodes w') = length (w_nodes w) + 1 \<and>
     map node_cell (butlast (w_nodes w')) = progress_nodes p \<and>
     last (w_nodes w') = fresh_node type (top_parent p) (w_pending w) \<and>
     linked (node_tokens (w_nodes w')) \<and> (\<forall>n \<in> set (butlast (w_nodes w')). n_type n \<noteq> TYPE_NONE) \<and>
     w_stack w' = progress_stack p \<and> w_pending w' = None \<and>
     keyset_inv (node_key (w_nodes w')) (w_keys w') \<and>
     keyset_entries (w_keys w') = {i. i < length (w_nodes w') \<and> n_key (w_nodes w' ! i) \<noteq> None}"

lemma key_cells:
  assumes "writer_shape w p"
  shows "node_key (w_nodes w) ` keyset_entries (w_keys w) =
    {\<lparr>k_parent = up, k_bytes = k\<rparr> | up k. \<exists>leaf. (up, Some k, leaf) \<in> set (progress_nodes p)}"
proof (rule set_eqI)
  fix x
  have "x \<in> node_key (w_nodes w) ` keyset_entries (w_keys w) \<longleftrightarrow>
      (\<exists>n \<in> set (w_nodes w). \<exists>k. n_key n = Some k \<and> x = \<lparr>k_parent = l_parent (n_links n), k_bytes = k\<rparr>)"
  proof
    assume "x \<in> node_key (w_nodes w) ` keyset_entries (w_keys w)"
    then obtain i where i: "i < length (w_nodes w)" "n_key (w_nodes w ! i) \<noteq> None" "x = node_key (w_nodes w) i"
      unfolding writer_shapeD(8) [OF assms] by auto
    then show "\<exists>n \<in> set (w_nodes w). \<exists>k. n_key n = Some k \<and> x = \<lparr>k_parent = l_parent (n_links n), k_bytes = k\<rparr>"
      by (intro bexI [of _ "w_nodes w ! i"]) (auto simp: node_key_def)
  next
    assume "\<exists>n \<in> set (w_nodes w). \<exists>k. n_key n = Some k \<and> x = \<lparr>k_parent = l_parent (n_links n), k_bytes = k\<rparr>"
    then obtain i k where i: "i < length (w_nodes w)" "n_key (w_nodes w ! i) = Some k"
      "x = \<lparr>k_parent = l_parent (n_links (w_nodes w ! i)), k_bytes = k\<rparr>" by (auto simp: in_set_conv_nth)
    then show "x \<in> node_key (w_nodes w) ` keyset_entries (w_keys w)"
      unfolding writer_shapeD(8) [OF assms] by (intro image_eqI [of _ _ i]) (simp_all add: node_key_def)
  qed
  also have "\<dots> \<longleftrightarrow> (\<exists>c \<in> node_cell ` set (w_nodes w). \<exists>k. fst (snd c) = Some k \<and> x = \<lparr>k_parent = fst c, k_bytes = k\<rparr>)"
    by (auto simp: node_cell_def)
  also have "\<dots> \<longleftrightarrow> (\<exists>c \<in> set (progress_nodes p). \<exists>k. fst (snd c) = Some k \<and> x = \<lparr>k_parent = fst c, k_bytes = k\<rparr>)"
    using arg_cong [OF writer_shapeD(1) [OF assms], of set] by simp
  also have "\<dots> \<longleftrightarrow> x \<in> {\<lparr>k_parent = up, k_bytes = k\<rparr> | up k. \<exists>leaf. (up, Some k, leaf) \<in> set (progress_nodes p)}"
    by (auto; force)
  finally show "x \<in> node_key (w_nodes w) ` keyset_entries (w_keys w) \<longleftrightarrow>
    x \<in> {\<lparr>k_parent = up, k_bytes = k\<rparr> | up k. \<exists>leaf. (up, Some k, leaf) \<in> set (progress_nodes p)}" .
qed

text \<open>A pending key is not the key of a node under the innermost container.\<close>

lemma top_keys:
  assumes "writer_shape w p" "top_value p = Some (JObj ms)"
  shows "\<lparr>k_parent = top_parent p, k_bytes = k\<rparr> \<in> node_key (w_nodes w) ` keyset_entries (w_keys w) \<longleftrightarrow> k \<in> fst ` set ms"
proof -
  obtain key fs where p: "p = Building ((key, JObj ms) # fs)" using assms(2) by (cases p rule: top_value.cases) auto
  have "length (w_nodes w) \<le> VALUE_NONE" using writer_shapeD(3) [OF assms(1)] by (simp add: linked_def)
  then have "length (frames_nodes ((key, JObj ms) # fs)) \<le> VALUE_NONE"
    using writer_shapeD(9) [OF assms(1)] p by simp
  from open_object_keys [OF this, of k] show ?thesis
    unfolding key_cells [OF assms(1)] using p by (simp add: top_parent_def del: frames_nodes_Cons)
qed

end
