(* ===== verification/Writer_Calls.thy ===== *)
theory Writer_Calls
  imports Writer_Steps
begin

text \<open>
  The calls of the writer against the shape of what is written: attaching a node, the scalars, the
  containers and the keys. Each is a step of \<open>progress\<close>, or fails with the code its contract says.
\<close>

section \<open>Attaching a node\<close>

lemma count_bound: "keyset_inv key_of s \<Longrightarrow> keyset_entries s \<subseteq> {..<n} \<Longrightarrow> ks_count s \<le> n"
  using card_mono [of "{..<n}" "keyset_entries s"] by (simp add: keyset_count)

lemma malloc_fates: "fates h = [] \<Longrightarrow> fates (snd (malloc n h)) = []"
  by (simp add: malloc_reliable)

lemma keyset_grow_fates:
  assumes "fates h = []"
  shows "fates (snd (snd (keyset_grow key_of (s, h)))) = []"
proof -
  obtain b h' where m: "malloc (ks_capacity s * 2 * SIZEOF_SIZE_T) h = (b, h')" by fastforce
  then have "fates h' = []" using malloc_fates [OF assms] by (metis snd_conv)
  then show ?thesis using assms m
    by (cases b) (auto simp: keyset_grow_def allocate_slots_def Let_def split: option.splits)
qed

lemma keyset_insert_fates:
  assumes "fates h = []" "keyset_insert_with r key_of x (s, h) = (res, s', h')"
  shows "fates h' = []"
proof (cases "slots s = [] \<or> x = VALUE_NONE \<or> find_slot key_of (slots s) (ks_capacity s) (key_of x) = None")
  case True
  then show ?thesis using assms by (auto simp: keyset_insert_with_def Let_def split: if_splits)
next
  case False
  then obtain slot found where f: "find_slot key_of (slots s) (ks_capacity s) (key_of x) = Some (slot, found)" by fastforce
  show ?thesis
  proof (cases "found \<or> \<not> (ks_count s + 1) * 2 > ks_capacity s")
    case True
    then show ?thesis using assms f False by (auto simp: keyset_insert_with_def split: if_splits)
  next
    case small: False
    obtain r' s2 h2 where g: "keyset_grow key_of (s, h) = (r', s2, h2)" by (metis surj_pair)
    then have "fates h2 = []" using keyset_grow_fates [OF assms(1), of key_of s] by simp
    then show ?thesis using assms f False small g
      by (cases r') (auto simp: keyset_insert_with_def split: option.splits bool.splits)
  qed
qed

lemma insert_node_key_ends:
  assumes base: "writer_base w" "w_failure w = OK" and nodes: "w_nodes w = ns @ [n]"
    and inv: "keyset_inv (node_key ns) (w_keys w)" and entries: "keyset_entries (w_keys w) \<subseteq> {..<length ns}"
    and new: "node_key (ns @ [n]) (length ns) \<notin> node_key ns ` keyset_entries (w_keys w)"
  shows "writer_ends w (\<lambda>c. c = ERR_MEMORY \<and> fates (w_heap w) \<noteq> [])
    (\<lambda>_ w'. \<exists>ks h. w' = w\<lparr>w_keys := ks, w_heap := h\<rparr> \<and> keyset_inv (node_key (ns @ [n])) ks \<and>
        keyset_entries ks = insert (length ns) (keyset_entries (w_keys w)))
    (insert_node_key w (length ns))"
proof -
  let ?key = "node_key (ns @ [n])" and ?x = "length ns"
  have key: "?key i = node_key ns i" if "i \<in> keyset_entries (w_keys w)" for i
    using that entries by (auto simp: node_key_def nth_append)
  have inv': "keyset_inv ?key (w_keys w)" by (rule keyset_inv_cong [OF _ inv]) (simp add: key)
  have absent: "?key ?x \<notin> ?key ` keyset_entries (w_keys w)" using new key by (auto simp: image_iff)
  have few: "?x < SIZE_MAX div 256" using base(1) nodes by (simp add: writer_base_def)
  then have x: "?x \<noteq> VALUE_NONE" by (simp add: VALUE_NONE_def SIZE_MAX_def)
  have fp: "writer_footprint (w\<lparr>w_keys := ks, w_heap := h\<rparr>) + keyset_footprint (w_keys w) = writer_footprint w + keyset_footprint ks" for ks h
    by (simp add: writer_footprint_def)
  have own: "keyset_footprint (w_keys w) \<le> writer_footprint w" by (simp add: writer_footprint_def)
  have live: "writer_footprint w \<le> live (w_heap w)" using base(1) by (simp add: writer_base_def)
  from inv' x show ?thesis
  proof (cases rule: keyset_insert_cases [where h = "w_heap w" and replace = False])
    case (present p s')
    then show ?thesis using absent by (auto simp: image_iff)
  next
    case (added s' h')
    let ?w = "w\<lparr>w_keys := s', w_heap := h'\<rparr>"
    have "insert_node_key w ?x = (Ret (), ?w)"
      using added(2) by (simp add: insert_node_key_def keyset_insert_def nodes)
    moreover have "writer_footprint ?w \<le> live h'" "outside ?w = outside w"
      using fp [of h' s'] own live added(6) by (simp_all add: outside_def)
    moreover have "fates (w_heap w) = [] \<longrightarrow> fates h' = []"
      using keyset_insert_fates [OF _ added(2)] by blast
    ultimately show ?thesis
      using base added(3,4) by (simp add: writer_ends_def writer_base_def same_writer_def; blast)
  next
    case (memory h')
    let ?w = "w\<lparr>w_keys := w_keys w, w_heap := h'\<rparr>"
    have "ks_count (w_keys w) \<le> ?x" using count_bound [OF inv' entries] .
    then have "ks_capacity (w_keys w) < (?x + 1) * 2" using memory(5) by (meson add_le_mono1 less_le_trans mult_le_mono1)
    then have "\<not> SIZE_MAX div 2 div SIZEOF_SIZE_T < ks_capacity (w_keys w)"
      using few by (simp add: SIZE_MAX_def SIZEOF_SIZE_T_def)
    then have fates: "fates (w_heap w) \<noteq> []" using memory(6) by blast
    have "insert_node_key w ?x = writer_fail ?w ERR_MEMORY"
      using memory(2) by (simp add: insert_node_key_def keyset_insert_def nodes)
    moreover have "writer_base ?w" "same_writer w ?w"
      using fp [of h' "w_keys w"] live memory(3) base fates by (simp_all add: writer_base_def same_writer_def outside_def)
    moreover have "w_failure ?w = OK" using base(2) by simp
    ultimately show ?thesis using fates by (simp only: writer_ends_fail) (rule writer_ends_fail; simp)
  qed
qed

lemma writer_ends_from: "writer_ends w' F Q m \<Longrightarrow> same_writer w w' \<Longrightarrow> writer_ends w F Q m"
  unfolding writer_ends_def by (auto intro: same_writer_trans split: prod.splits outcome.splits)

lemma top_parent_shape: "writer_shape w p \<Longrightarrow> top_parent p = parent_index (current_container w)"
  by (simp add: top_parent_def parent_index_def current_container_def writer_shapeD(2) split: list.splits)

text \<open>The writer between the two halves of \<open>attach_node\<close>: the node is there, not yet linked.\<close>

definition with_node :: "writer \<Rightarrow> node \<Rightarrow> writer" where
  "with_node w n = w\<lparr>w_nodes := w_nodes w @ [n], w_pending := None\<rparr>"

lemma with_node_fields [simp]:
  "w_nodes (with_node w n) = w_nodes w @ [n]" "w_keys (with_node w n) = w_keys w" "w_pending (with_node w n) = None"
  "w_failure (with_node w n) = w_failure w" "w_heap (with_node w n) = w_heap w" "w_limits (with_node w n) = w_limits w"
  "w_profile (with_node w n) = w_profile w" "w_capacity (with_node w n) = w_capacity w"
  "w_stack (with_node w n) = w_stack w" "w_flags (with_node w n) = w_flags w" "w_finished (with_node w n) = w_finished w"
  by (simp_all add: with_node_def)

lemma node_room_fields [simp]:
  "w_nodes (node_room w c h) = w_nodes w" "w_keys (node_room w c h) = w_keys w" "w_pending (node_room w c h) = w_pending w"
  "w_failure (node_room w c h) = w_failure w" "w_heap (node_room w c h) = h" "w_limits (node_room w c h) = w_limits w"
  "w_profile (node_room w c h) = w_profile w" "w_capacity (node_room w c h) = c" "w_stack (node_room w c h) = w_stack w"
  "w_flags (node_room w c h) = w_flags w" "w_finished (node_room w c h) = w_finished w"
  by (simp_all add: node_room_def)

lemma attach_node_room:
  assumes "writer_shape w p" "fits (w_pending w) p" "grow_nodes w = (Ret (), node_room w c h)"
  shows "attach_node w type =
    andthen (if w_pending w \<noteq> None
             then insert_node_key (with_node (node_room w c h) (fresh_node type (top_parent p) (w_pending w))) (length (w_nodes w))
             else (Ret (), with_node (node_room w c h) (fresh_node type (top_parent p) (w_pending w))))
      (\<lambda>_ w'. (Ret (length (w_nodes w)), w'\<lparr>w_nodes := link_node (w_nodes w') (current_container w') (length (w_nodes w))\<rparr>))"
proof -
  note nk = needs_key_shape [OF assms(1,2)]
  have par: "(case current_container w of None \<Rightarrow> VALUE_NONE | Some c \<Rightarrow> c) = top_parent p"
    using top_parent_shape [OF assms(1)] by (simp add: parent_index_def)
  have c: "(current_container w = None \<and> w_nodes w \<noteq> []) = False"
    "((container_type w = Some TYPE_OBJECT \<and> w_pending w = None) \<or> (container_type w \<noteq> Some TYPE_OBJECT \<and> w_pending w \<noteq> None)) = False"
    using attach_condition [OF assms(1)] assms(2) by auto
  have cc: "current_container (node_room w c h) = current_container w" by (simp add: current_container_def)
  have pend: "(if w_pending w \<noteq> None then w_pending w else None) = w_pending w"
    "(if w_pending w \<noteq> None then None else w_pending w) = None"
    "(w_pending w \<noteq> None \<and> w_pending w = None \<or> \<not> w_pending w \<noteq> None \<and> w_pending w \<noteq> None) = False" by auto
  show ?thesis
    unfolding attach_node_def Let_def c if_False assms(3) nk
    by (simp only: prod.case outcome.case node_room_fields cc par pend with_node_def if_False)
qed

text \<open>The key set takes the key of a node under an object.\<close>

lemma attach_key_ends:
  assumes base: "writer_base w" "w_failure w = OK" and shape: "writer_shape w p" "fits (w_pending w) p"
    and room: "writer_base (node_room w c h)" "same_writer w (node_room w c h)" "length (w_nodes w) < c"
    and n: "n = fresh_node type (top_parent p) (w_pending w)"
  shows "writer_ends (with_node (node_room w c h) n) (\<lambda>code. code = ERR_MEMORY \<and> fates (w_heap w) \<noteq> [])
    (\<lambda>_ w'. \<exists>ks h'. w' = (with_node (node_room w c h) n)\<lparr>w_keys := ks, w_heap := h'\<rparr> \<and>
        keyset_inv (node_key (w_nodes w @ [n])) ks \<and>
        keyset_entries ks = {i. i < length (w_nodes w @ [n]) \<and> n_key ((w_nodes w @ [n]) ! i) \<noteq> None})
    (if w_pending w \<noteq> None then insert_node_key (with_node (node_room w c h) n) (length (w_nodes w))
     else (Ret (), with_node (node_room w c h) n))"
proof -
  let ?w = "with_node (node_room w c h) n" and ?ns = "w_nodes w"
  have frame: "w_nodes ?w = ?ns @ [n]" "w_keys ?w = w_keys w" "w_failure ?w = OK" using base(2) by simp_all
  have size: "node_size n = copy_size (w_pending w)" by (simp add: n node_size_def fresh_node_def copy_size_def)
  have fp: "writer_footprint ?w = writer_footprint (node_room w c h)"
    using size by (simp add: with_node_def node_room_def writer_footprint_def copy_size_def)
  have base1: "writer_base ?w"
    using room fp by (simp add: writer_base_def)
  note entries = writer_shapeD(8) [OF shape(1)]
  have old: "{i. i < length (?ns @ [n]) \<and> n_key ((?ns @ [n]) ! i) \<noteq> None} =
      keyset_entries (w_keys w) \<union> (if w_pending w \<noteq> None then {length ?ns} else {})"
    unfolding entries by (auto simp: nth_append less_Suc_eq n fresh_node_def)
  have range: "keyset_entries (w_keys w) \<subseteq> {..<length ?ns}" unfolding entries by auto
  show ?thesis
  proof (cases "w_pending w")
    case None
    have "keyset_inv (node_key (?ns @ [n])) (w_keys w)"
      by (rule keyset_inv_cong [OF _ writer_shapeD(7) [OF shape(1)]]) (use range in \<open>auto simp: node_key_def nth_append\<close>)
    moreover have "?w = ?w\<lparr>w_keys := w_keys w, w_heap := h\<rparr>" by (cases w) (simp add: with_node_def node_room_def)
    ultimately have "\<exists>ks h'. ?w = ?w\<lparr>w_keys := ks, w_heap := h'\<rparr> \<and> keyset_inv (node_key (?ns @ [n])) ks \<and>
        keyset_entries ks = {i. i < length (?ns @ [n]) \<and> n_key ((?ns @ [n]) ! i) \<noteq> None}"
      using old None by (intro exI [of _ "w_keys w"] exI [of _ h]) simp
    then show ?thesis using None base1 frame(3) by (simp add: writer_ends_Ret)
  next
    case (Some k)
    obtain key ms fs where p: "p = Building ((key, JObj ms) # fs)" and k: "k \<notin> fst ` set ms"
      using writer_shapeD(6) [OF shape(1)] Some
      by (cases "(w_profile w, Some k, p)" rule: pending_fine.cases) auto
    have "node_key (?ns @ [n]) (length ?ns) = \<lparr>k_parent = top_parent p, k_bytes = k\<rparr>"
      by (simp add: node_key_def n fresh_node_def Some links_init_def)
    then have new: "node_key (?ns @ [n]) (length ?ns) \<notin> node_key ?ns ` keyset_entries (w_keys ?w)"
      using top_keys [OF shape(1), of ms k] k p by (simp add: frame)
    have "fates h \<noteq> [] \<Longrightarrow> fates (w_heap w) \<noteq> []" using room(2) by (auto simp: same_writer_def node_room_def)
    then show ?thesis
      using insert_node_key_ends [OF base1 frame(3,1), unfolded frame(2), OF writer_shapeD(7) [OF shape(1)] range] new Some
      unfolding old by simp (erule writer_ends_weaken; simp; blast?)
  qed
qed

lemma link_node_snoc:
  assumes "linked (node_tokens ns)" "c = None \<or> (\<exists>i < length ns. c = Some i)" "length ns < VALUE_NONE"
  obtains us where "link_node (ns @ [n]) c (length ns) = us @ [n]" "map node_cell us = map node_cell ns" "map n_type us = map n_type ns"
proof -
  have "\<exists>us. link_node (ns @ [n]) c (length ns) = us @ [n]"
  proof (cases c)
    case (Some i)
    then have i: "i < length ns" "i \<noteq> VALUE_NONE" using assms(2,3) by auto
    let ?l = "n_links (ns ! i)"
    have last: "last_child ?l \<noteq> VALUE_NONE \<Longrightarrow> last_child ?l < length ns"
      using linked_last_child(2) [OF assms(1), of i] i by simp
    show ?thesis using i last Some
      by (auto simp: link_node_def Let_def links_append_def list_update_append nth_append split: option.splits)
  qed (simp add: link_node_def)
  then obtain us where us: "link_node (ns @ [n]) c (length ns) = us @ [n]" by blast
  moreover have "map node_cell (us @ [n]) = map node_cell (ns @ [n])" unfolding us [symmetric] by simp
  moreover have "map n_type (us @ [n]) = map n_type (ns @ [n])"
    unfolding us [symmetric] by (rule link_node_map) simp
  ultimately show thesis using that by simp
qed

lemma attach_node_ends:
  assumes base: "writer_base w" "w_failure w = OK" and shape: "writer_shape w p"
  shows "writer_ends w (attach_fails w p) (\<lambda>i w'. i = length (w_nodes w) \<and> attached w p type w') (attach_node w type)"
proof (cases "fits (w_pending w) p")
  case False
  then have "attach_node w type = writer_fail w ERR_STATE"
    using attach_condition [OF shape] unfolding attach_node_def by (auto simp: Let_def)
  then show ?thesis using False base by (simp add: writer_ends_fail attach_fails_def)
next
  case fits: True
  have cond: "\<not> (current_container w = None \<and> w_nodes w \<noteq> [])"
    "\<not> ((container_type w = Some TYPE_OBJECT \<and> w_pending w = None) \<or> (container_type w \<noteq> Some TYPE_OBJECT \<and> w_pending w \<noteq> None))"
    using attach_condition [OF shape] fits by simp_all
  show ?thesis
  proof (cases rule: grow_nodes_cases [OF base(1)])
    case 1
    then have "attach_node w type = writer_fail w ERR_LIMIT"
      using cond unfolding attach_node_def by (simp only: Let_def if_False prod.case outcome.case)
    then show ?thesis using 1 fits base by (simp add: writer_ends_fail attach_fails_def)
  next
    case (2 h)
    then have "attach_node w type = writer_fail (w\<lparr>w_heap := h\<rparr>) ERR_MEMORY"
      using cond unfolding attach_node_def by (simp only: Let_def if_False prod.case outcome.case)
    then show ?thesis using 2 base by (simp add: writer_ends_fail attach_fails_def)
  next
    case (3 c h)
    let ?n = "fresh_node type (top_parent p) (w_pending w)"
    let ?w = "with_node (node_room w c h) ?n" and ?ns = "w_nodes w @ [?n]"
    have same: "same_writer w ?w"
    proof -
      have "writer_footprint ?w = writer_footprint (node_room w c h)"
        by (simp add: with_node_def node_room_def writer_footprint_def copy_size_def node_size_def fresh_node_def)
      then show ?thesis using 3(4) by (simp add: same_writer_def outside_def)
    qed
    have small: "length (w_nodes w) < VALUE_NONE"
      using 3(5) base(1) by (simp add: writer_base_def SIZE_MAX_def VALUE_NONE_def)
    have up: "current_container w = None \<or> (\<exists>i < length (w_nodes w). current_container w = Some i)"
      using current_container_shape [OF shape] top_position_bound [OF shape] by (cases "top_position p") auto
    let ?linked = "link_node ?ns (current_container w) (length (w_nodes w))"
    have tokens: "node_tokens ?linked = append_token (node_tokens (w_nodes w)) (token_of_node ?n) (top_parent p)"
      using link_node_tokens [OF writer_shapeD(3) [OF shape] up small] top_parent_shape [OF shape] by simp
    have "can_append (node_tokens (w_nodes w)) (token_of_node ?n) (top_parent p)"
      using writer_shapeD(3) [OF shape] up top_parent_shape [OF shape]
      by (auto simp: can_append_def parent_index_def fresh_node_def)
    then have linked: "linked (node_tokens ?linked)"
      unfolding tokens using small by (intro append_token_linked) simp_all
    let ?kept = "\<lambda>w'. \<exists>ks h'. w' = ?w\<lparr>w_keys := ks, w_heap := h'\<rparr> \<and> keyset_inv (node_key ?ns) ks \<and>
        keyset_entries ks = {i. i < length ?ns \<and> n_key (?ns ! i) \<noteq> None}"
    have "writer_ends ?w (attach_fails w p) (\<lambda>_. ?kept)
        (if w_pending w \<noteq> None then insert_node_key ?w (length (w_nodes w)) else (Ret (), ?w))"
      by (rule writer_ends_weaken [OF attach_key_ends [OF base shape fits 3(3,4,2) refl]])
        (auto simp: attach_fails_def)
    then show ?thesis
      unfolding attach_node_room [OF shape fits 3(1)]
    proof (rule writer_ends_from [OF writer_ends_andthen same])
      fix x w' assume w': "writer_base w'" "w_failure w' = OK" "?kept w'"
      let ?w' = "w'\<lparr>w_nodes := link_node (w_nodes w') (current_container w') (length (w_nodes w))\<rparr>"
      obtain ks h' where e: "w' = ?w\<lparr>w_keys := ks, w_heap := h'\<rparr>" and ki: "keyset_inv (node_key ?ns) ks"
        and ke: "keyset_entries ks = {i. i < length ?ns \<and> n_key (?ns ! i) \<noteq> None}" using w'(3) by blast
      have frame: "w_nodes w' = ?ns" "w_stack w' = w_stack w" "w_pending w' = None" "w_keys w' = ks" using e by simp_all
      then have cc: "current_container w' = current_container w" by (simp add: current_container_def)
      have fp: "writer_footprint ?w' = writer_footprint w'" by (simp add: writer_footprint_def)
      obtain us where us: "?linked = us @ [?n]" "map node_cell us = map node_cell (w_nodes w)" "map n_type us = map n_type (w_nodes w)"
        using link_node_snoc [OF writer_shapeD(3) [OF shape] up small] .
      have keys: "node_key ?linked i = node_key ?ns i" "n_key (?linked ! i) = n_key (?ns ! i)" if "i < length ?ns" for i
      proof -
        have "map node_cell ?linked = map node_cell ?ns" by simp
        then have "node_cell (?linked ! i) = node_cell (?ns ! i)" using that by (metis length_link_node nth_map)
        then show "node_key ?linked i = node_key ?ns i" "n_key (?linked ! i) = n_key (?ns ! i)"
          by (simp_all add: node_cell_def node_key_def)
      qed
      have inv: "keyset_inv (node_key ?linked) ks"
        by (rule keyset_inv_cong [OF _ ki]) (use keys(1) ke in auto)
      have ents: "keyset_entries ks = {i. i < length ?linked \<and> n_key (?linked ! i) \<noteq> None}"
        using ke keys(2) by auto
      have len: "length us = length (w_nodes w)" using us(2) map_eq_imp_length_eq by blast
      have types: "\<forall>n \<in> set us. n_type n \<noteq> TYPE_NONE"
        using arg_cong [OF us(3), of set] writer_shapeD(4) [OF shape] by (metis imageE imageI list.set_map)
      have "attached w p type ?w'"
        unfolding attached_def
        using fits 3(5) linked inv ents us types frame cc len writer_shapeD(1,2) [OF shape] by simp
      then show "writer_ends w' (attach_fails w p) (\<lambda>i w'. i = length (w_nodes w) \<and> attached w p type w')
          (Ret (length (w_nodes w)), ?w')"
        using w'(1,2) fp frame by (simp add: writer_ends_def writer_base_def same_writer_def outside_def)
    qed
  qed
qed

section \<open>Steps of what is written\<close>

lemma fold_max_below: "fold max xs a \<le> (n :: nat) \<longleftrightarrow> a \<le> n \<and> (\<forall>x \<in> set xs. x \<le> n)"
  by (induction xs arbitrary: a) auto

lemma json_height_bound:
  "json_height (JArr vs) \<le> n \<longleftrightarrow> 0 < n \<and> (\<forall>v \<in> set vs. json_height v < n)"
  "json_height (JObj ms) \<le> n \<longleftrightarrow> 0 < n \<and> (\<forall>(k, v) \<in> set ms. json_height v < n)"
proof -
  have "json_height (JArr vs) \<le> n \<longleftrightarrow> 0 < n \<and> (\<forall>x \<in> set (map json_height vs). x \<le> n - 1)" for vs
    using fold_max_below [of "map json_height vs" 0 "n - 1"] by (cases n) auto
  then show "json_height (JArr vs) \<le> n \<longleftrightarrow> 0 < n \<and> (\<forall>v \<in> set vs. json_height v < n)" by auto
  have "json_height (JObj ms) \<le> n \<longleftrightarrow> 0 < n \<and> (\<forall>x \<in> set (map (\<lambda>(k, v). json_height v) ms). x \<le> n - 1)" for ms
    using fold_max_below [of "map (\<lambda>(k, v). json_height v) ms" 0 "n - 1"] by (cases n) auto
  then show "json_height (JObj ms) \<le> n \<longleftrightarrow> 0 < n \<and> (\<forall>(k, v) \<in> set ms. json_height v < n)" by (auto; fastforce)
qed

lemma add_child_fine:
  assumes "key_fits prof k v" "valid_json prof v" "valid_json prof w"
  shows "valid_json prof (add_child k w v)" "json_type_of (add_child k w v) = json_type_of v"
  using assms by (cases v; auto simp: key_fits_def)+

lemma add_child_height:
  assumes "m + json_height v \<le> n" "Suc (m + json_height w) \<le> n" "takes_child k v"
  shows "m + json_height (add_child k w v) \<le> n"
proof -
  have "json_height v \<le> n - m" "json_height w < n - m" using assms(1,2) by auto
  then have "json_height (add_child k w v) \<le> n - m"
    using assms(3) by (cases v) (auto simp: json_height_bound simp del: json_height.simps)
  then show ?thesis using assms(1) by linarith
qed

lemma key_fits_takes: "key_fits prof k v \<Longrightarrow> takes_child k v"
  by (simp add: key_fits_def)

lemma pending_key_fits:
  "pending_fine prof k (Building ((key, v) # fs)) \<Longrightarrow> takes_child k v \<Longrightarrow> key_fits prof k v"
  by (cases "(prof, k, Building ((key, v) # fs))" rule: pending_fine.cases) (auto simp: key_fits_def split: json.splits)

lemma fine_place:
  assumes "progress_fine prof depth p" "fits k p" "pending_fine prof k p" "valid_json prof v"
    "length (progress_stack p) + json_height v \<le> depth"
  shows "progress_fine prof depth (place k v p)"
proof (cases p rule: progress_cases)
  case (top key u fs)
  then have kf: "key_fits prof k u" using pending_key_fits assms(2,3) by fastforce
  then show ?thesis
    using add_child_fine [OF kf _ assms(4)] add_child_height [of "length fs" u depth v k] assms(1,5) top key_fits_takes [OF kf] by simp
qed (use assms in auto)

lemma fine_open:
  assumes "progress_fine prof depth p" "fits k p" "pending_fine prof k p" "valid_json prof v"
    "json_type_of v \<in> {TYPE_OBJECT, TYPE_ARRAY}" "length (progress_stack p) + json_height v \<le> depth"
  shows "progress_fine prof depth (open_frame k v p)"
proof (cases p rule: progress_cases)
  case (top key u fs)
  then have "key_fits prof k u" using pending_key_fits assms(2,3) by fastforce
  then show ?thesis using assms top by auto
qed (use assms in auto)

lemma fine_close:
  assumes "frames_fine prof depth fs" "fs \<noteq> []"
  shows "progress_fine prof depth (close_frame (Building fs))"
proof -
  obtain k v gs where fs: "fs = (k, v) # gs" using assms(2) by (cases fs) auto
  show ?thesis
  proof (cases gs)
    case Nil
    then show ?thesis using assms fs by simp
  next
    case (Cons g hs)
    obtain key u where g: "g = (key, u)" by (cases g)
    have "key_fits prof k u" "valid_json prof u" "valid_json prof v" "length hs + json_height u \<le> depth"
      "Suc (length hs) + json_height v \<le> depth" using assms fs g Cons by auto
    then show ?thesis
      using add_child_fine [of prof k u v] add_child_height [of "length hs" u depth v k] key_fits_takes assms fs g Cons by simp
  qed
qed

text \<open>Completing the node just attached.\<close>

lemma attached_shape:
  assumes att: "attached w p type w'" and type: "type \<noteq> TYPE_NONE"
    and f: "\<And>n. n_links (f n) = n_links n" "\<And>n. n_type (f n) = n_type n" "\<And>n. n_key (f n) = n_key n"
    and q: "progress_nodes q = progress_nodes p @
      [(top_parent p, w_pending w, node_leaf (f (fresh_node type (top_parent p) (w_pending w))))]"
      "progress_fine (w_profile w') (maximum_depth (w_limits w')) q"
  shows "writer_shape ((update_node w' (length (w_nodes w)) f)\<lparr>w_stack := progress_stack q\<rparr>) q"
proof -
  let ?n = "fresh_node type (top_parent p) (w_pending w)" and ?k = "length (w_nodes w)"
  define us where "us = butlast (w_nodes w')"
  have l: "last (w_nodes w') = ?n" "w_nodes w' \<noteq> []" "length us = ?k" using att by (auto simp: us_def attached_def)
  have ns: "w_nodes w' = us @ [?n]" "length us = ?k"
    unfolding us_def l(1) [symmetric] using l(3) by (simp_all add: l(2) us_def)
  let ?ns = "us @ [f ?n]"
  have nodes: "w_nodes (update_node w' ?k f) = ?ns" using ns by (simp add: update_node_def nth_append list_update_append)
  have keys: "node_key ?ns i = node_key (w_nodes w') i" "n_key (?ns ! i) = n_key (w_nodes w' ! i)" if "i < Suc (length us)" for i
    using that ns(1) f by (auto simp: node_key_def nth_append)
  have "map links (node_tokens ?ns) = map links (node_tokens (w_nodes w'))" using f ns(1) by simp
  from linked_cong [OF this] have "linked (node_tokens ?ns)" using att unfolding attached_def by blast
  moreover have "map node_cell ?ns = progress_nodes q"
    using att f q(1) by (simp add: us_def attached_def node_cell_def fresh_node_def links_init_def)
  moreover have "\<forall>n \<in> set ?ns. n_type n \<noteq> TYPE_NONE" using att f type by (simp add: us_def attached_def fresh_node_def)
  moreover have "keyset_inv (node_key ?ns) (w_keys w')"
    by (rule keyset_inv_cong [of _ "node_key (w_nodes w')"]) (use att keys(1) ns in \<open>auto simp: attached_def\<close>)
  moreover have "keyset_entries (w_keys w') = {i. i < length ?ns \<and> n_key (?ns ! i) \<noteq> None}"
    using att keys(2) ns by (auto simp: attached_def)
  ultimately show ?thesis using att q(2) nodes
    by (simp add: writer_shape_def attached_def update_node_def)
qed

section \<open>Scalars\<close>

lemma stack_depth: "progress_fine prof depth p \<Longrightarrow> length (progress_stack p) \<le> depth"
  by (cases p rule: progress_cases; auto; case_tac v; auto)

lemma ready_iff [simp]: "w_failure w = OK \<Longrightarrow> \<not> w_finished w \<Longrightarrow> when_ready w m = m"
  by (simp add: when_ready_def writer_ready_def)

text \<open>
  A call that writes: when it returns \<open>G\<close> held, \<open>q\<close> is written and the key \<open>k\<close> is pending; \<open>F\<close> is
  what its failures say.
\<close>

definition writes :: "writer \<Rightarrow> (result \<Rightarrow> bool) \<Rightarrow> bool \<Rightarrow> progress \<Rightarrow> bytes option \<Rightarrow> 'a call \<Rightarrow> bool" where
  "writes w F G q k m \<longleftrightarrow> writer_ends w F (\<lambda>_ w'. G \<and> writer_shape w' q \<and> w_pending w' = k) m"

definition scalar_json :: "json \<Rightarrow> bool" where
  "scalar_json v \<longleftrightarrow> json_type_of v \<notin> {TYPE_OBJECT, TYPE_ARRAY}"

lemma scalar_json_simps [simp]:
  "scalar_json (JStr s)" "scalar_json (JNum n)" "scalar_json (JBool b)" "scalar_json JNull"
  "\<not> scalar_json (JArr vs)" "\<not> scalar_json (JObj ms)"
  by (simp_all add: scalar_json_def)

lemma scalar_nodes: "scalar_json v \<Longrightarrow> tree_nodes up i k v = [(up, k, v)] \<and> json_height v = 0"
  by (cases v) simp_all

lemma attached_place:
  assumes "writer_shape w p" "attached w p type w'" "scalar_json v" "valid_json (w_profile w) v" "type \<noteq> TYPE_NONE"
    and same: "same_writer w w'"
    and f: "\<And>n. n_links (f n) = n_links n" "\<And>n. n_type (f n) = n_type n" "\<And>n. n_key (f n) = n_key n"
      "node_leaf (f (fresh_node type (top_parent p) (w_pending w))) = v"
  shows "writer_shape (update_node w' (length (w_nodes w)) f) (place (w_pending w) v p)"
    "w_pending (update_node w' (length (w_nodes w)) f) = None"
proof -
  let ?q = "place (w_pending w) v p"
  have fits: "fits (w_pending w) p" and st: "w_stack w' = progress_stack p" using assms(2) by (simp_all add: attached_def)
  have "length (progress_stack p) + json_height v \<le> maximum_depth (w_limits w)"
    using scalar_nodes [OF assms(3)] stack_depth [OF writer_shapeD(5) [OF assms(1)]] by simp
  then have "progress_fine (w_profile w') (maximum_depth (w_limits w')) ?q"
    using fine_place [OF writer_shapeD(5) [OF assms(1)] fits writer_shapeD(6) [OF assms(1)] assms(4)] same
    by (simp add: same_writer_def)
  then have "writer_shape ((update_node w' (length (w_nodes w)) f)\<lparr>w_stack := progress_stack ?q\<rparr>) ?q"
    by (intro attached_shape [OF assms(2,5) f(1-3)])
      (use f(4) scalar_nodes [OF assms(3)] place_nodes [OF fits, of v] in \<open>simp_all add: top_parent_def\<close>)
  moreover have "(update_node w' (length (w_nodes w)) f)\<lparr>w_stack := progress_stack ?q\<rparr> = update_node w' (length (w_nodes w)) f"
    using place_stack [OF fits, of v] st by (simp add: update_node_def)
  ultimately show "writer_shape (update_node w' (length (w_nodes w)) f) ?q" by simp
  show "w_pending (update_node w' (length (w_nodes w)) f) = None"
    using assms(2) by (simp add: update_node_def attached_def)
qed

lemma updated_size:
  assumes "attached w p type w'" "\<And>n. n_key (f n) = n_key n"
  shows "sum_list (map node_size (w_nodes (update_node w' (length (w_nodes w)) f))) =
    sum_list (map node_size (w_nodes w')) + copy_size (n_string (f (fresh_node type (top_parent p) (w_pending w))))"
proof -
  let ?n = "fresh_node type (top_parent p) (w_pending w)"
  define us where "us = butlast (w_nodes w')"
  have l: "last (w_nodes w') = ?n" "w_nodes w' \<noteq> []" "length us = length (w_nodes w)"
    using assms(1) by (auto simp: us_def attached_def)
  have ns: "w_nodes w' = us @ [?n]" unfolding us_def l(1) [symmetric] by (simp add: l(2))
  show ?thesis unfolding update_node_def using l(3)
    by (simp add: ns nth_append list_update_append node_size_def assms(2)) (simp add: fresh_node_def copy_size_def)
qed

lemma attach_scalar_writes:
  assumes w: "writer_base w" "w_failure w = OK" "\<not> w_finished w" "writer_shape w p"
    and v: "scalar_json v" "valid_json (w_profile w) v" "type \<noteq> TYPE_NONE"
    and f: "\<And>n. n_links (f n) = n_links n" "\<And>n. n_type (f n) = n_type n" "\<And>n. n_key (f n) = n_key n"
      "\<And>n. n_string (f n) = n_string n" "node_leaf (f (fresh_node type (top_parent p) (w_pending w))) = v"
  shows "writes w (attach_fails w p) (fits (w_pending w) p) (place (w_pending w) v p) None (attach_scalar type f w)"
  unfolding writes_def attach_scalar_def ready_iff [OF w(2,3)]
proof (rule writer_ends_andthen [OF attach_node_ends [OF w(1,2,4)]])
  fix i w' assume w': "writer_base w'" "same_writer w w'" "w_failure w' = OK" "i = length (w_nodes w) \<and> attached w p type w'"
  then have a: "attached w p type w'" by simp
  have fits: "fits (w_pending w) p" using a by (simp add: attached_def)
  have "copy_size (n_string (f (fresh_node type (top_parent p) (w_pending w)))) = 0"
    by (simp add: f(4) fresh_node_def copy_size_def)
  then have fp: "writer_footprint (update_node w' (length (w_nodes w)) f) = writer_footprint w'"
    using updated_size [OF a, of f] f(3) by (simp add: writer_footprint_def update_node_def)
  then have "writer_base (update_node w' (length (w_nodes w)) f)" "same_writer w' (update_node w' (length (w_nodes w)) f)"
    using w'(1) by (simp_all add: writer_base_def same_writer_def outside_def) (simp_all add: update_node_def)
  then show "writer_ends w' (attach_fails w p) (\<lambda>_ w'. fits (w_pending w) p \<and> writer_shape w' (place (w_pending w) v p) \<and> w_pending w' = None)
      (Ret (), update_node w' i f)"
    using attached_place [OF w(4) a v w'(2) f(1-3,5)] w'(3,4) fits by (simp add: writer_ends_Ret update_node_def)
qed

text \<open>\<open>attach_text\<close> owns the copy until the node has it.\<close>

lemma attach_fails_heap: "attach_fails (w\<lparr>w_heap := h\<rparr>) p code \<Longrightarrow> (fates (w_heap w) = [] \<longrightarrow> fates h = []) \<Longrightarrow> attach_fails w p code"
  by (auto simp: attach_fails_def)

lemma attach_text_writes:
  assumes w: "writer_base w" "w_failure w = OK" "writer_shape w p"
    and v: "type = TYPE_STRING \<and> v = JStr bs \<or> type = TYPE_NUMBER \<and> v = JNum bs" "valid_json (w_profile w) v"
  shows "writes w (attach_fails w p) (fits (w_pending w) p) (place (w_pending w) v p) None (attach_text type bs w)"
proof -
  obtain b h where m: "malloc (length bs + 1) (w_heap w) = (b, h)" by fastforce
  note f = malloc_facts [OF m]
  have fp: "writer_footprint (w\<lparr>w_heap := h\<rparr>) = writer_footprint w" by (simp add: writer_footprint_def)
  show ?thesis
  proof (cases b)
    case False
    then have e: "attach_text type bs w = writer_fail (w\<lparr>w_heap := h\<rparr>) ERR_MEMORY"
      using m by (simp add: attach_text_def copy_bytes_def)
    show ?thesis
      unfolding writes_def e using False f fp w
      by (intro writer_ends_fail) (auto simp: attach_fails_def writer_base_def same_writer_def outside_def)
  next
    case True
    let ?w = "w\<lparr>w_heap := h\<rparr>"
    have lv: "live h = live (w_heap w) + (length bs + 1)" and ft: "fates (w_heap w) = [] \<longrightarrow> fates h = []" using True f by auto
    have base: "writer_base ?w" using w(1) lv fp by (simp add: writer_base_def)
    have shape: "writer_shape ?w p" using w(3) by (simp add: writer_shape_def)
    have out: "outside ?w = outside w + (length bs + 1)" using lv fp w(1) unfolding outside_def writer_base_def by simp arith
    obtain r w' where a: "attach_node ?w type = (r, w')" by fastforce
    have ends: "writer_ends ?w (attach_fails ?w p) (\<lambda>i w'. i = length (w_nodes ?w) \<and> attached ?w p type w') (r, w')"
      using attach_node_ends [OF base _ shape, of type] w(2) a by simp
    show ?thesis
    proof (cases r)
      case Stuck
      then show ?thesis using ends by (simp add: writer_ends_def)
    next
      case (Fail code)
      let ?u = "w'\<lparr>w_heap := mfree (length bs + 1) (w_heap w')\<rparr>"
      have c: "writer_base w'" "same_writer ?w w'" "w_failure w' = code" "code \<noteq> OK" "code \<noteq> ERR_ARGUMENT" "attach_fails w p code"
        using ends Fail ft by (auto simp: writer_ends_def intro: attach_fails_heap)
      have "writer_footprint ?u = writer_footprint w'" by (simp add: writer_footprint_def)
      then have "writer_base ?u" "same_writer w ?u"
        using c(1,2) out ft by (auto simp: writer_base_def same_writer_def outside_def)
      moreover have "attach_text type bs w = (Fail code, ?u)"
        using m True a Fail by (simp add: attach_text_def copy_bytes_def)
      ultimately show ?thesis using c by (simp add: writes_def writer_ends_def)
    next
      case (Ret i)
      let ?f = "\<lambda>n. n\<lparr>n_string := Some bs\<rparr>"
      let ?u = "update_node w' (length (w_nodes ?w)) ?f"
      have c: "writer_base w'" "same_writer ?w w'" "w_failure w' = OK" "i = length (w_nodes ?w)" "attached ?w p type w'"
        using ends Ret by (auto simp: writer_ends_def)
      have e: "attach_text type bs w = (Ret (), ?u)"
        using m True a Ret c(4) by (simp add: attach_text_def copy_bytes_def)
      have fu: "writer_footprint ?u = writer_footprint w' + (length bs + 1)"
        using updated_size [OF c(5), of ?f] by (simp add: writer_footprint_def update_node_def copy_size_def)
      have ho: "w_heap ?u = w_heap w'" "w_limits ?u = w_limits w'" "w_profile ?u = w_profile w'" "w_capacity ?u = w_capacity w'"
        "length (w_nodes ?u) = length (w_nodes w')" "w_flags ?u = w_flags w'" "w_finished ?u = w_finished w'" "w_failure ?u = w_failure w'"
        by (simp_all add: update_node_def)
      have room: "writer_footprint w' + (length bs + 1) \<le> live (w_heap w')"
        using c(1,2) out by (auto simp: writer_base_def same_writer_def outside_def)
      then have "writer_base ?u" "same_writer w ?u"
        using c(1,2) out ft fu ho by (auto simp: writer_base_def same_writer_def outside_def)
      moreover have "node_leaf (?f (fresh_node type (top_parent p) (w_pending w))) = v" "scalar_json v" "type \<noteq> TYPE_NONE"
        using v(1) by (auto simp: node_leaf_def fresh_node_def string_bytes_def)
      then have "writer_shape ?u (place (w_pending ?w) v p)" "w_pending ?u = None"
        by (intro attached_place [OF shape c(5) _ _ _ c(2)]; use v in simp)+
      ultimately show ?thesis unfolding e writes_def using c(3,5) ho by (intro writer_ends_Ret) (simp_all add: attached_def)
    qed
  qed
qed

section \<open>Containers\<close>

lemma frames_fine_ok: "frames_fine prof depth fs \<Longrightarrow> frames_ok fs"
  by (induction fs rule: frames_ok.induct) (auto simp: key_fits_def split: list.splits)

definition empty_container :: "json_type \<Rightarrow> json" where
  "empty_container type = (if type = TYPE_OBJECT then JObj [] else JArr [])"

definition begin_fails :: "writer \<Rightarrow> progress \<Rightarrow> result \<Rightarrow> bool" where
  "begin_fails w p code \<longleftrightarrow>
     (if maximum_depth (w_limits w) \<le> length (progress_stack p) then code = ERR_LIMIT else attach_fails w p code)"

lemma container_begin_writes:
  assumes w: "writer_base w" "w_failure w = OK" "\<not> w_finished w" "writer_shape w p" and type: "type \<in> {TYPE_OBJECT, TYPE_ARRAY}"
  shows "writes w (begin_fails w p) (fits (w_pending w) p) (open_frame (w_pending w) (empty_container type) p) None (container_begin type w)"
proof (cases "maximum_depth (w_limits w) \<le> length (progress_stack p)")
  case True
  then have "container_begin type w = writer_fail w ERR_LIMIT"
    using w by (simp add: container_begin_def writer_shapeD(2))
  then show ?thesis using True w by (simp add: writes_def writer_ends_fail begin_fails_def)
next
  case False
  let ?v = "empty_container type" and ?q = "open_frame (w_pending w) (empty_container type) p"
  have e: "container_begin type w = andthen (attach_node w type) (\<lambda>index w. (Ret (), w\<lparr>w_stack := index # w_stack w\<rparr>))"
    using False w by (simp add: container_begin_def writer_shapeD(2))
  have f: "begin_fails w p = attach_fails w p" using False by (intro ext) (simp add: begin_fails_def)
  show ?thesis
    unfolding e writes_def f
  proof (rule writer_ends_andthen [OF attach_node_ends [OF w(1,2,4)]])
    fix i w' assume w': "writer_base w'" "same_writer w w'" "w_failure w' = OK" "i = length (w_nodes w) \<and> attached w p type w'"
    have fits: "fits (w_pending w) p" and st: "w_stack w' = progress_stack p" and pend: "w_pending w' = None"
      using w'(4) by (simp_all add: attached_def)
    have v: "valid_json (w_profile w) ?v" "json_type_of ?v \<in> {TYPE_OBJECT, TYPE_ARRAY}" "json_height ?v = 1"
      "node_leaf (fresh_node type (top_parent p) (w_pending w)) = ?v" "\<And>up i k. tree_nodes up i k ?v = [(up, k, ?v)]" "type \<noteq> TYPE_NONE"
      using type by (auto simp: empty_container_def node_leaf_def fresh_node_def)
    have "progress_fine (w_profile w') (maximum_depth (w_limits w')) ?q"
      using fine_open [OF writer_shapeD(5) [OF w(4)] fits writer_shapeD(6) [OF w(4)] v(1,2)] False v(3) w'(2)
      by (simp add: same_writer_def)
    then have "writer_shape ((update_node w' (length (w_nodes w)) (\<lambda>n. n))\<lparr>w_stack := progress_stack ?q\<rparr>) ?q"
      by (intro attached_shape [of w p type]) (use w'(4) v open_nodes [OF fits, of ?v] in \<open>simp_all add: top_parent_def\<close>)
    moreover have "(update_node w' (length (w_nodes w)) (\<lambda>n. n))\<lparr>w_stack := progress_stack ?q\<rparr> = w'\<lparr>w_stack := i # w_stack w'\<rparr>"
      using w'(4) open_stack [OF fits, of ?v] st writer_shapeD(9) [OF w(4)] by (simp add: update_node_def)
    ultimately have "writer_shape (w'\<lparr>w_stack := i # w_stack w'\<rparr>) ?q" by simp
    then show "writer_ends w' (attach_fails w p) (\<lambda>_ w'. fits (w_pending w) p \<and> writer_shape w' ?q \<and> w_pending w' = None) (Ret (), w'\<lparr>w_stack := i # w_stack w'\<rparr>)"
      using w' pend fits by (intro writer_ends_Ret) (auto simp: writer_base_def same_writer_def)
  qed
qed

text \<open>The container that a call may close: the innermost one, of the type named, with no key pending.\<close>

definition closable :: "writer \<Rightarrow> progress \<Rightarrow> json_type \<Rightarrow> bool" where
  "closable w p type \<longleftrightarrow> w_pending w = None \<and> map_option json_type_of (top_value p) = Some type"

lemma container_end_writes:
  assumes w: "writer_base w" "w_failure w = OK" "\<not> w_finished w" "writer_shape w p"
  shows "writes w (\<lambda>code. code = ERR_STATE \<and> \<not> closable w p type) (closable w p type) (close_frame p) None (container_end type w)"
proof (cases "closable w p type")
  case False
  then have "container_end type w = writer_fail w ERR_STATE"
    using w container_type_shape [OF w(4)] by (auto simp: container_end_def closable_def)
  then show ?thesis using False w by (simp add: writes_def writer_ends_fail)
next
  case True
  then obtain fs where p: "p = Building fs" "fs \<noteq> []"
    by (cases p rule: progress_cases) (auto simp: closable_def)
  have e: "container_end type w = (Ret (), w\<lparr>w_stack := tl (w_stack w)\<rparr>)"
    using True w container_type_shape [OF w(4)] by (auto simp: container_end_def closable_def)
  have "frames_ok fs" using writer_shapeD(5) [OF w(4)] p(1) by (simp add: frames_fine_ok)
  then have "writer_shape (w\<lparr>w_stack := tl (w_stack w)\<rparr>) (close_frame p)"
    using w(4) True close_nodes [of fs] close_stack [OF p(2)] fine_close [OF _ p(2)] p
    by (simp add: writer_shape_def closable_def)
  then show ?thesis
    unfolding e writes_def using w True by (intro writer_ends_Ret) (auto simp: writer_base_def same_writer_def closable_def)
qed

section \<open>Keys and text\<close>

fun top_members :: "progress \<Rightarrow> bytes list" where
  "top_members (Building ((key, JObj ms) # fs)) = map fst ms"
| "top_members p = []"

definition key_fails :: "writer \<Rightarrow> progress \<Rightarrow> nat \<Rightarrow> bytes \<Rightarrow> result \<Rightarrow> bool" where
  "key_fails w p sz key code \<longleftrightarrow>
     (if \<not> closable w p TYPE_OBJECT then code = ERR_STATE
      else if maximum_bytes (w_limits w) < sz then code = ERR_LIMIT
      else if key \<in> set (top_members p) then code = ERR_DUPLICATE_KEY
      else code = ERR_MEMORY \<and> fates (w_heap w) \<noteq> [])"

definition key_taken :: "writer \<Rightarrow> progress \<Rightarrow> nat \<Rightarrow> bytes \<Rightarrow> bool" where
  "key_taken w p sz key \<longleftrightarrow>
     closable w p TYPE_OBJECT \<and> sz \<le> maximum_bytes (w_limits w) \<and> key \<notin> set (top_members p)"

lemma open_object_cases:
  assumes "closable w p TYPE_OBJECT"
  obtains key ms fs where "p = Building ((key, JObj ms) # fs)" "w_pending w = None"
  using assms by (cases p rule: top_members.cases) (auto simp: closable_def)

lemma valid_bytes_iff:
  "valid_bytes prof bs \<longleftrightarrow>
     (if prof = RFC8259 then (\<forall>b \<in> set bs. b \<noteq> 0) \<and> utf8_validate bs
      else (\<forall>b \<in> set bs. \<not> (b < 0x20 \<or> b > 0x7e \<or> b = QUOTE \<or> b = BACKSLASH)))"
  by (simp add: valid_bytes_def valid_text_def Let_def)

lemma valid_text_bytes: "valid_text prof src sz \<Longrightarrow> valid_bytes prof (text_bytes src sz)"
  unfolding valid_bytes_iff by (cases src) (simp_all add: valid_text_def text_bytes_def Let_def split: if_splits)

lemma writer_key_writes:
  assumes w: "writer_base w" "w_failure w = OK" "\<not> w_finished w" "writer_shape w p" and ok: "valid_text (w_profile w) src sz"
  shows "writes w (key_fails w p sz (text_bytes src sz)) (key_taken w p sz (text_bytes src sz)) p (Some (text_bytes src sz)) (writer_key src sz w)"
proof (cases "closable w p TYPE_OBJECT")
  case False
  then have "writer_key src sz w = writer_fail w ERR_STATE"
    using w ok container_type_shape [OF w(4)] by (auto simp: writer_key_def closable_def)
  then show ?thesis using False w by (simp add: writes_def writer_ends_fail key_fails_def)
next
  case True
  then obtain key ms fs where p: "p = Building ((key, JObj ms) # fs)" and pend: "w_pending w = None"
    by (rule open_object_cases)
  let ?key = "text_bytes src sz"
  have guard: "\<not> (container_type w \<noteq> Some TYPE_OBJECT \<or> w_pending w \<noteq> None)"
    using pend p container_type_shape [OF w(4)] by simp
  have hd: "hd (w_stack w) = top_parent p" using p by (simp add: writer_shapeD(2) [OF w(4)] top_parent_def)
  show ?thesis
  proof (cases "maximum_bytes (w_limits w) < sz")
    case big: True
    then have "writer_key src sz w = writer_fail w ERR_LIMIT" using w ok guard by (simp add: writer_key_def)
    then show ?thesis using True big w by (simp add: writes_def writer_ends_fail key_fails_def)
  next
    case small: False
    have contains: "keyset_contains (node_key (w_nodes w)) (w_keys w) \<lparr>k_parent = hd (w_stack w), k_bytes = ?key\<rparr> = Some (?key \<in> fst ` set ms)"
      unfolding hd keyset_contains_iff [OF writer_shapeD(7) [OF w(4)]] using top_keys [OF w(4), of ms ?key] p by simp
    show ?thesis
    proof (cases "?key \<in> fst ` set ms")
      case dup: True
      then have "writer_key src sz w = writer_fail w ERR_DUPLICATE_KEY"
        using w ok guard small contains by (simp add: writer_key_def)
      then show ?thesis using True small dup w p by (simp add: writes_def writer_ends_fail key_fails_def)
    next
      case new: False
      obtain b h where m: "malloc (length ?key + 1) (w_heap w) = (b, h)" by fastforce
      note f = malloc_facts [OF m]
      have fp: "writer_footprint (w\<lparr>w_heap := h\<rparr>) = writer_footprint w"
        "writer_footprint (w\<lparr>w_pending := Some ?key, w_heap := h\<rparr>) = writer_footprint w + (length ?key + 1)"
        by (simp_all add: writer_footprint_def pend copy_size_def)
      show ?thesis
      proof (cases b)
        case False
        then have e: "writer_key src sz w = writer_fail (w\<lparr>w_heap := h\<rparr>) ERR_MEMORY"
          using w ok guard small contains new m by (simp add: writer_key_def copy_bytes_def)
        show ?thesis unfolding writes_def e using False f fp w new p small True
          by (intro writer_ends_fail) (auto simp: key_fails_def writer_base_def same_writer_def outside_def)
      next
        case got: True
        let ?w = "w\<lparr>w_pending := Some ?key, w_heap := h\<rparr>"
        have e: "writer_key src sz w = (Ret (), ?w)"
          using w ok guard small contains new m got by (simp add: writer_key_def copy_bytes_def)
        have lv: "live h = live (w_heap w) + (length ?key + 1)" using f(1) got by simp
        have "writer_base ?w" "same_writer w ?w"
          using w(1) fp(2) lv f(3) unfolding writer_base_def same_writer_def outside_def by simp_all
        moreover have "writer_shape ?w p" using w(4) p new valid_text_bytes [OF ok] by (auto simp: writer_shape_def)
        ultimately show ?thesis unfolding writes_def e using w(2) True small new p by (intro writer_ends_Ret) (simp_all add: key_taken_def)
      qed
    qed
  qed
qed

definition text_fails :: "writer \<Rightarrow> progress \<Rightarrow> nat \<Rightarrow> result \<Rightarrow> bool" where
  "text_fails w p sz code \<longleftrightarrow> (if maximum_bytes (w_limits w) < sz then code = ERR_LIMIT else attach_fails w p code)"

lemma writer_string_writes:
  assumes w: "writer_base w" "w_failure w = OK" "\<not> w_finished w" "writer_shape w p" and ok: "valid_text (w_profile w) src sz"
  shows "writes w (text_fails w p sz) (fits (w_pending w) p) (place (w_pending w) (JStr (text_bytes src sz)) p) None (writer_string src sz w)"
proof (cases "maximum_bytes (w_limits w) < sz")
  case True
  then have "writer_string src sz w = writer_fail w ERR_LIMIT" using w ok by (simp add: writer_string_def)
  then show ?thesis using True w by (simp add: writes_def writer_ends_fail text_fails_def)
next
  case False
  then have e: "writer_string src sz w = attach_text TYPE_STRING (text_bytes src sz) w" using w ok by (simp add: writer_string_def)
  have "text_fails w p sz = attach_fails w p" using False by (intro ext) (simp add: text_fails_def)
  then show ?thesis unfolding e
    using attach_text_writes [OF w(1,2,4), of TYPE_STRING "JStr (text_bytes src sz)" "text_bytes src sz"] valid_text_bytes [OF ok] by simp
qed

lemma number_lexeme_writes:
  assumes w: "writer_base w" "w_failure w = OK" "\<not> w_finished w" "writer_shape w p"
    and ok: "sz \<le> maximum" "number_syntax (take sz b)"
  shows "writes w (text_fails w p sz) (fits (w_pending w) p) (place (w_pending w) (JNum (take sz b)) p) None
    (write_number_lexeme (Some b) sz maximum w)"
proof (cases "maximum_bytes (w_limits w) < sz")
  case True
  then have "write_number_lexeme (Some b) sz maximum w = writer_fail w ERR_LIMIT" using w ok by (simp add: write_number_lexeme_def)
  then show ?thesis using True w by (simp add: writes_def writer_ends_fail text_fails_def)
next
  case False
  then have e: "write_number_lexeme (Some b) sz maximum w = attach_text TYPE_NUMBER (take sz b) w"
    using w ok by (simp add: write_number_lexeme_def)
  have "text_fails w p sz = attach_fails w p" using False by (intro ext) (simp add: text_fails_def)
  then show ?thesis unfolding e
    using attach_text_writes [OF w(1,2,4), of TYPE_NUMBER "JNum (take sz b)" "take sz b"] number_syntax_grammar [of "take sz b"] ok(2)
    by simp
qed

section \<open>Creation\<close>

text \<open>A writer as created, and the arguments \<open>maelys_json_writer_create\<close> takes.\<close>

definition fresh_writer :: "profile \<Rightarrow> limits \<Rightarrow> u32 \<Rightarrow> heap \<Rightarrow> writer \<Rightarrow> bool" where
  "fresh_writer prof l flags h w \<longleftrightarrow>
     writer_base w \<and> w_failure w = OK \<and> \<not> w_finished w \<and> writer_shape w (Building []) \<and> w_pending w = None \<and>
     w_profile w = prof \<and> w_limits w = l \<and> w_flags w = flags \<and> outside w = live h \<and>
     (fates h = [] \<longrightarrow> fates (w_heap w) = [])"

definition writer_arguments :: "profile \<Rightarrow> limits option \<Rightarrow> u32 \<Rightarrow> bool \<Rightarrow> limits \<Rightarrow> bool" where
  "writer_arguments prof requested flags out_given l \<longleftrightarrow>
     out_given \<and> prof \<in> {RFC8259, CONTRACT_ASCII} \<and> flags AND NOT known_flags = 0 \<and> limits_resolve requested = Ret l"

lemma new_writer_fields:
  "writer_footprint (new_writer prof l flags keys h) =
     SIZEOF_WRITER + maximum_depth l * SIZEOF_SIZE_T + keyset_footprint keys"
  by (simp add: writer_footprint_def new_writer_def copy_size_def)

lemma new_writer_fresh:
  assumes l: "limits_resolve requested = Ret l" and prof: "prof \<in> {RFC8259, CONTRACT_ASCII}"
    and keys: "keyset_inv (node_key []) keys" "keyset_entries keys = {}"
    and live: "live h' = live h + (SIZEOF_WRITER + maximum_depth l * SIZEOF_SIZE_T + keyset_footprint keys)"
    and fates: "fates h = [] \<longrightarrow> fates h' = []"
  shows "fresh_writer prof l flags h (new_writer prof l flags keys h')"
proof -
  let ?w = "new_writer prof l flags keys h'"
  have "maximum_tokens l \<le> SIZE_MAX div 256" "2 * maximum_bytes l + 2 \<le> SIZE_MAX" "0 < maximum_depth l" "0 < maximum_bytes l"
    using l limits_resolve_positive [OF l] by (auto simp: limits_resolve_Ret_iff SIZE_MAX_def)
  then have "writer_base ?w"
    using prof live unfolding writer_base_def new_writer_fields by (auto simp: new_writer_def)
  moreover have "linked []" by (simp add: linked_def parents_before_def)
  then have "writer_shape ?w (Building [])"
    using keys by (simp add: writer_shape_def new_writer_def)
  moreover have "outside ?w = live h" using live unfolding outside_def new_writer_fields by (simp add: new_writer_def)
  ultimately show ?thesis using fates by (simp add: fresh_writer_def new_writer_def)
qed

lemma release_new_writer:
  "keyset_footprint keys = 0 \<Longrightarrow> live (release_writer (new_writer prof l flags keys h)) =
     live h - (SIZEOF_WRITER + maximum_depth l * SIZEOF_SIZE_T)"
  unfolding release_writer_live new_writer_fields by (simp add: new_writer_def)

lemma writer_create_ends:
  shows "case writer_create prof requested flags out_given h of
     (Ret w, h') \<Rightarrow> (\<exists>l. writer_arguments prof requested flags out_given l \<and> fresh_writer prof l flags h w) \<and> h' = w_heap w
   | (Fail code, h') \<Rightarrow> live h' = live h \<and>
       (if \<exists>l. writer_arguments prof requested flags out_given l then code = ERR_MEMORY \<and> fates h \<noteq> [] else code = ERR_ARGUMENT)
   | (Stuck, _) \<Rightarrow> False"
proof (cases "\<exists>l. writer_arguments prof requested flags out_given l")
  case False
  then have "writer_create prof requested flags out_given h = (Fail ERR_ARGUMENT, h)"
    using limits_resolve_not_Stuck [of requested]
    by (cases prof; cases "limits_resolve requested") (auto simp: writer_create_def writer_arguments_def)
  then show ?thesis using False by simp
next
  case True
  then obtain l where a: "writer_arguments prof requested flags out_given l" by blast
  then have l: "limits_resolve requested = Ret l" and prof: "prof \<in> {RFC8259, CONTRACT_ASCII}" by (simp_all add: writer_arguments_def)
  have guard: "\<not> (\<not> out_given \<or> \<not> profile_valid prof \<or> prof = RFC8259_LAST_WINS \<or> flags AND NOT known_flags \<noteq> 0)"
    using a by (auto simp: writer_arguments_def)
  obtain b1 h1 where m1: "malloc SIZEOF_WRITER h = (b1, h1)" by fastforce
  note f1 = malloc_facts [OF m1]
  show ?thesis
  proof (cases b1)
    case False
    then show ?thesis using m1 f1 guard l True by (simp add: writer_create_def) blast
  next
    case b1: True
    obtain b2 h2 where m2: "malloc (maximum_depth l * SIZEOF_SIZE_T) h1 = (b2, h2)" by fastforce
    note f2 = malloc_facts [OF m2]
    show ?thesis
    proof (cases b2)
      case False
      then show ?thesis using m1 m2 f1 f2 b1 guard l True by (simp add: writer_create_def) blast
    next
      case b2: True
      have "WRITER_INITIAL_KEYS \<le> SIZE_MAX div 4" by (simp add: WRITER_INITIAL_KEYS_def SIZE_MAX_def)
      then show ?thesis
      proof (cases rule: keyset_init_cases [where h = h2 and key_of = "node_key []"])
        case (memory s h')
        have "writer_create prof requested flags out_given h = (Fail ERR_MEMORY, release_writer (new_writer prof l flags s h'))"
          using m1 m2 b1 b2 guard l memory(1) by (simp add: writer_create_def)
        moreover have "live (release_writer (new_writer prof l flags s h')) = live h"
          unfolding release_new_writer [OF memory(4)] using memory(2) f1 f2 b1 b2 by simp
        ultimately show ?thesis using True memory(5) f1 f2 b1 b2 by auto
      next
        case (ready s h')
        have "writer_create prof requested flags out_given h = (Ret (new_writer prof l flags s h'), h')"
          using m1 m2 b1 b2 guard l ready(1) by (simp add: writer_create_def)
        moreover have "malloc (keyset_footprint s) h2 = (True, h')" using ready(6,7) by (metis prod.collapse)
        note f3 = malloc_facts [OF this]
        have "fresh_writer prof l flags h (new_writer prof l flags s h')"
          by (rule new_writer_fresh [OF l prof ready(2,3)]) (use f1 f2 f3 b1 b2 in auto)
        ultimately show ?thesis using a by (auto simp: new_writer_def)
      qed
    qed
  qed
qed

end
