(* ===== verification/Serialize_Correct.thy ===== *)
theory Serialize_Correct
  imports Render Writer_Calls
begin

text \<open>
  \<open>serialize_node\<close> appends the text of the value whose block a node begins, or fails because it
  does not fit or an allocation failed; \<open>serialize\<close> returns that text.
\<close>

unbundle bit_operations_syntax

section \<open>Values that can be serialized\<close>

text \<open>Keys and strings are UTF-8, and no object has a key twice.\<close>

fun utf8_json :: "json \<Rightarrow> bool" where
  "utf8_json (JStr s) \<longleftrightarrow> utf8_text s"
| "utf8_json (JArr vs) \<longleftrightarrow> (\<forall>v \<in> set vs. utf8_json v)"
| "utf8_json (JObj ms) \<longleftrightarrow> distinct (map fst ms) \<and> (\<forall>(k, v) \<in> set ms. utf8_text k \<and> utf8_json v)"
| "utf8_json v \<longleftrightarrow> True"

lemma ascii_utf8_text: "\<forall>b \<in> set bs. b < 0x80 \<Longrightarrow> utf8_text bs"
proof (induction bs)
  case (Cons b bs)
  then obtain cps where c: "list_all scalar_value cps" "bs = utf8_encode cps" by (auto simp: utf8_text_def)
  have "unat b < 0x80" using Cons.prems by (simp add: word_less_nat_alt)
  then have "utf8_encode (unat b # cps) = b # bs" "list_all scalar_value (unat b # cps)"
    using c by (simp_all add: utf8_enc_def scalar_value_def)
  then show ?case unfolding utf8_text_def by metis
qed (simp add: utf8_text_def, intro exI [of _ "[]"], simp)

lemma valid_bytes_utf8: "prof \<in> {RFC8259, CONTRACT_ASCII} \<Longrightarrow> valid_bytes prof bs \<Longrightarrow> utf8_text bs"
proof (cases "prof = RFC8259")
  case True
  then show "valid_bytes prof bs \<Longrightarrow> utf8_text bs" by (simp add: valid_bytes_def valid_text_def utf8_validate_iff Let_def)
next
  case False
  have "b < 0x80" if "\<not> b > 0x7e" for b :: byte using that by (simp add: word_less_nat_alt)
  then show "valid_bytes prof bs \<Longrightarrow> utf8_text bs"
    using False by (intro ascii_utf8_text) (auto simp: valid_bytes_def valid_text_def Let_def)
qed

lemma valid_json_utf8: "prof \<in> {RFC8259, CONTRACT_ASCII} \<Longrightarrow> valid_json prof v \<Longrightarrow> utf8_json v"
proof (induction v)
  case (JObj ms)
  then show ?case using valid_bytes_utf8 [of prof] by fastforce
qed (simp_all add: valid_bytes_utf8)

section \<open>Sorting the members\<close>

lemma image_map_of_zip:
  assumes "distinct xs" "length xs = length ys"
  shows "map (\<lambda>x. the (map_of (zip xs ys) x)) xs = ys"
  using assms by (intro nth_equalityI) (auto simp: map_of_zip_nth)

definition sorted_member :: "bytes \<times> json \<Rightarrow> bytes \<times> json" where
  "sorted_member m = (fst m, key_sorted (snd m))"

lemma key_sorted_members: "key_sorted (JObj ms) = JObj (sort_by member_le (map sorted_member ms))"
  unfolding sorted_member_def [abs_def] by (simp add: case_prod_beta')

text \<open>The members in key order are determined by the members.\<close>

lemma sort_members_unique:
  assumes "mset ps = mset ms" "sorted_wrt member_le ps" "distinct (map fst ms)" "\<forall>m \<in> set ms. utf8_text (fst m)"
  shows "sort_by member_le (map sorted_member ms) = map sorted_member ps"
proof -
  let ?xs = "sort_by member_le (map sorted_member ms)" and ?ys = "map sorted_member ps"
  have le: "member_le = (\<lambda>x y. key_le (fst x) (fst y))" by (intro ext) (simp add: member_le_def)
  have fst: "fst (sorted_member m) = fst m" for m by (simp add: sorted_member_def)
  have known: "\<forall>x \<in> set (map sorted_member ms). utf8_text (fst x)" using assms(4) fst by auto
  have "mset ?xs = mset ?ys" using assms(1) by (simp add: mset_map [symmetric] del: mset_map) (simp add: assms(1))
  moreover have "sorted_wrt member_le ?xs" using utf16_order.sort_ordered [OF known] unfolding le .
  moreover have "sorted_wrt member_le ?ys"
    using assms(2) by (simp add: sorted_wrt_map le fst)
  moreover have "distinct (map fst (map sorted_member ms))" using assms(3) by (simp add: comp_def fst)
  then have "inj_on fst (set ?xs)" unfolding set_sort_by by (simp only: distinct_map [of fst])
  moreover have "\<forall>x \<in> set ?xs. utf8_text (fst x)" using known by simp
  ultimately show ?thesis unfolding le by (intro utf16_order.ordered_unique [where f = fst])
qed

definition member_of :: "nat list \<Rightarrow> (bytes \<times> json) list \<Rightarrow> nat \<Rightarrow> bytes \<times> json" where
  "member_of is ms j = the (map_of (zip is ms) j)"

lemma sorted_members_order:
  assumes t: "tree_array (s_nodes s)" and b: "block (s_nodes s) i k (JObj ms)" and v: "utf8_json (JObj ms)"
  shows "\<exists>r ps. sorted_members s (n_links (s_nodes s ! i)) = Some r \<and>
    sort_by member_le (map sorted_member ms) = map sorted_member ps \<and> set ps = set ms \<and>
    list_all2 (\<lambda>j m. block (s_nodes s) j (Some (fst m)) (snd m)) r ps"
proof -
  let ?ns = "s_nodes s" and ?is = "positions (i + 1) (map snd ms)"
  have i: "i < length ?ns" using block_node(1) [OF t b] .
  have kids: "kids (node_tokens ?ns) i = ?is" using block_kids(2) [OF t b refl] .
  note chain = node_chain_kids [OF t i, unfolded kids]
  have dist: "distinct ?is" using sorted_kids(2) [of "node_tokens ?ns" i] unfolding kids .
  define f where "f = member_of ?is ms"
  have f: "map f ?is = ms" unfolding f_def member_of_def using dist by (intro image_map_of_zip) simp_all
  have blocks: "block ?ns j (Some (fst (f j))) (snd (f j))" if mem: "j \<in> set ?is" for j
  proof -
    obtain n where n: "n < length ?is" "j = ?is ! n" using mem unfolding in_set_conv_nth by blast
    have "f j = ms ! n" using f n by (metis length_map nth_map)
    moreover have "n < length ms" using n(1) by simp
    ultimately show ?thesis using list_all2_nthD [OF block_members [OF b] n(1)] n(2) by (simp add: case_prod_beta)
  qed
  have key: "key_bytes ?ns j = fst (f j)" if "j \<in> set ?is" for j
    using block_node(2) [OF t blocks [OF that]] by (simp add: key_bytes_def)
  have fm: "f j \<in> set ms" if "j \<in> set ?is" for j using f that by (metis image_eqI list.set_map)
  have "known_keys ?ns ?is" using key fm v by (fastforce simp: case_prod_beta)
  then obtain r where r: "sort_keys ?ns 0 (length ?is) ?is = Some r" "mset r = mset ?is" "sorted_wrt (node_le ?ns) r"
    using sort_keys_whole by blast
  have sr: "set r = set ?is" using r(2) by (metis set_mset_mset)
  have "mset (map f r) = mset ms" using r(2) f by (metis mset_map)
  moreover have "sorted_wrt member_le (map f r)"
    unfolding sorted_wrt_map by (rule sorted_wrt_mono_rel [OF _ r(3)]) (use sr key in \<open>simp add: member_le_def\<close>)
  ultimately have "sort_by member_le (map sorted_member ms) = map sorted_member (map f r)" "set (map f r) = set ms"
    using v sort_members_unique [of "map f r" ms] mset_eq_setD [of "map f r" ms] by (simp_all add: case_prod_beta)
  moreover have "sorted_members s (n_links (?ns ! i)) = Some r"
    unfolding sorted_members_def using chain r(1) by simp
  moreover have "list_all2 (\<lambda>j m. block ?ns j (Some (fst m)) (snd m)) r (map f r)"
    unfolding list_all2_map2 by (rule list_all2_all_nthI) (use blocks sr nth_mem in \<open>auto simp del: map_map\<close>)
  ultimately show ?thesis by blast
qed

section \<open>Containers\<close>

lemma list_all2_mono_in:
  "list_all2 P xs ys \<Longrightarrow> (\<And>x y. y \<in> set ys \<Longrightarrow> P x y \<Longrightarrow> Q x y) \<Longrightarrow> list_all2 Q xs ys"
  by (induction rule: list_all2_induct) auto

text \<open>What the serializer of nodes one level down does.\<close>

definition node_emits :: "node_serializer \<Rightarrow> node list \<Rightarrow> style \<Rightarrow> nat \<Rightarrow> nat \<Rightarrow> json \<Rightarrow> bool" where
  "node_emits node ns st level j v \<longleftrightarrow>
     (\<forall>s. serializer_ok s \<longrightarrow> s_nodes s = ns \<longrightarrow> style_of s = st \<longrightarrow> emits s (rendered st level v) (node j level s))"

lemma separator_emits: "serializer_ok s \<Longrightarrow> emits s (if first then [] else [COMMA]) (if first then (Ret (), s) else append_byte COMMA s)"
  by (simp add: emits_nothing append_byte_emits)

lemma colon_emits: "serializer_ok s \<Longrightarrow> style_of s = st \<Longrightarrow> emits s (colon_text st) (append_literal (if s_indent s then '': '' else '':'') s)"
  using append_literal_emits [of s "'': ''"] append_literal_emits [of s "'':''"]
  by (auto simp: colon_text_def style_of_def ascii_def)

text \<open>The state that stays the same along an emission.\<close>

definition kept :: "node list \<Rightarrow> style \<Rightarrow> serializer \<Rightarrow> bool" where
  "kept ns st s \<longleftrightarrow> serializer_ok s \<and> s_nodes s = ns \<and> style_of s = st"

lemma kept_step: "kept ns st s \<Longrightarrow> serializer_ok s' \<Longrightarrow> same_serializer s s' \<Longrightarrow> kept ns st s'"
  using style_same [of s s'] by (simp add: kept_def same_serializer_def)

lemma emits_kept:
  assumes "emits s bs m" "kept ns st s" "\<And>x s'. kept ns st s' \<Longrightarrow> emits s' cs (k x s')"
  shows "emits s (bs @ cs) (andthen m k)"
  using assms(1) by (rule emits_andthen) (use kept_step [OF assms(2)] assms(3) in blast)

lemma keptD: "kept ns st s \<Longrightarrow> serializer_ok s" "kept ns st s \<Longrightarrow> s_nodes s = ns" "kept ns st s \<Longrightarrow> style_of s = st"
  by (simp_all add: kept_def)

lemma serialize_members_emits:
  "kept ns st s \<Longrightarrow> list_all2 (\<lambda>j m. key_bytes ns j = fst m \<and> utf8_text (fst m) \<and> node_emits node ns st (level + 1) j (snd m)) js ps \<Longrightarrow>
   emits s (members_text st level first (map sorted_member ps)) (serialize_members node first js level s)"
proof (induction js arbitrary: ps s first)
  case Nil
  then show ?case by (simp add: emits_nothing keptD)
next
  case (Cons j js)
  obtain k v qs where ps: "ps = (k, v) # qs" using Cons.prems(2) by (cases ps) auto
  have j: "key_bytes ns j = k" "utf8_text k" "node_emits node ns st (level + 1) j v"
    and rest: "list_all2 (\<lambda>j m. key_bytes ns j = fst m \<and> utf8_text (fst m) \<and> node_emits node ns st (level + 1) j (snd m)) js qs"
    using Cons.prems(2) ps by auto
  have "emits s ((if first then [] else [COMMA]) @ line_break st (level + 1) @ string_text st k @ colon_text st @
      rendered st (level + 1) v @ members_text st level False (map sorted_member qs)) (serialize_members node first (j # js) level s)"
    unfolding serialize_members.simps
  proof (rule emits_kept [OF separator_emits [OF keptD(1) [OF Cons.prems(1)]] Cons.prems(1)], rule emits_kept)
    fix s assume s: "kept ns st s"
    then show "emits s (line_break st (level + 1)) (append_break (level + 1) s)" "kept ns st s"
      using append_break_emits [of s "level + 1"] by (simp_all add: keptD)
  next
    fix s assume s: "kept ns st s"
    show "emits s (string_text st k @ colon_text st @ rendered st (level + 1) v @ members_text st level False (map sorted_member qs))
      (andthen (append_string (key_bytes (s_nodes s) j) s) (\<lambda>_ s. andthen (append_literal (if s_indent s then '': '' else '':'') s)
        (\<lambda>_ s. andthen (node j (level + 1) s) (\<lambda>_ s. serialize_members node False js level s))))"
    proof (rule emits_kept [OF _ s], goal_cases)
      case 1
      then show ?case using append_string_emits [OF keptD(1) [OF s] j(2)] s j(1) by (simp add: keptD)
    next
      case (2 x s)
      show ?case
      proof (rule emits_kept [OF colon_emits [OF keptD(1,3) [OF 2]] 2], rule emits_kept)
        fix s assume s: "kept ns st s"
        then show "emits s (rendered st (level + 1) v) (node j (level + 1) s)" "kept ns st s"
          using j(3) by (simp_all add: node_emits_def keptD)
      next
        fix s assume s: "kept ns st s"
        then show "emits s (members_text st level False (map sorted_member qs)) (serialize_members node False js level s)"
          using Cons.IH rest by blast
      qed
    qed
  qed
  moreover have "members_text st level first (map sorted_member ps) = (if first then [] else [COMMA]) @ line_break st (level + 1) @ string_text st k @ colon_text st @
      rendered st (level + 1) v @ members_text st level False (map sorted_member qs)"
    by (simp add: ps sorted_member_def rendered_def)
  ultimately show ?case by metis
qed

lemma positions_first: "positions i vs = [] \<longleftrightarrow> vs = []"
  by (cases vs) auto

lemma serialize_elements_emits:
  assumes t: "linked (node_tokens ns)" "i < length ns" "kids (node_tokens ns) i = ks"
  shows "kept ns st s \<Longrightarrow> list_all2 (node_emits node ns st (level + 1)) (drop n ks) vs \<Longrightarrow> length (drop n ks) \<le> turns \<Longrightarrow>
    emits s (elements_text st level first (map key_sorted vs)) (serialize_elements node turns first (first_of (drop n ks)) level s)"
proof (induction turns arbitrary: n vs s first)
  case 0
  then show ?case by (simp add: serialize_elements.simps emits_nothing keptD)
next
  case (Suc turns)
  show ?case
  proof (cases "n < length ks")
    case False
    then show ?thesis using Suc.prems by (simp add: serialize_elements.simps emits_nothing keptD)
  next
    case True
    then have d: "drop n ks = ks ! n # drop (Suc n) ks" by (simp add: Cons_nth_drop_Suc)
    have mem: "ks ! n \<in> set (kids (node_tokens ns) i)" using True t(3) by simp
    note kid = kid_not_none [OF t(1) mem]
    have sib: "next_sibling (n_links (ns ! (ks ! n))) = first_of (drop (Suc n) ks)"
      using next_sibling_kid [OF t(1), of i n] t(2,3) True kid by simp
    obtain v us where vs: "vs = v # us" "node_emits node ns st (level + 1) (ks ! n) v" "list_all2 (node_emits node ns st (level + 1)) (drop (Suc n) ks) us"
      using Suc.prems(2) unfolding d by (cases vs) auto
    have e: "serialize_elements node (Suc turns) first (first_of (drop n ks)) level s =
      andthen (if first then (Ret (), s) else append_byte COMMA s) (\<lambda>_ s. andthen (append_break (level + 1) s) (\<lambda>_ s.
        andthen (node (ks ! n) (level + 1) s) (\<lambda>_ s. serialize_elements node turns False (next_sibling (n_links (s_nodes s ! (ks ! n)))) level s)))"
      using kid keptD(2) [OF Suc.prems(1)] unfolding d by (subst serialize_elements.simps) simp
    have "emits s ((if first then [] else [COMMA]) @ line_break st (level + 1) @ rendered st (level + 1) v @ elements_text st level False (map key_sorted us))
      (serialize_elements node (Suc turns) first (first_of (drop n ks)) level s)"
      unfolding e
    proof (rule emits_kept [OF separator_emits [OF keptD(1) [OF Suc.prems(1)]] Suc.prems(1)], rule emits_kept)
      fix s assume s: "kept ns st s"
      then show "emits s (line_break st (level + 1)) (append_break (level + 1) s)" "kept ns st s"
        using append_break_emits [of s "level + 1"] by (simp_all add: keptD)
    next
      fix s assume s: "kept ns st s"
      show "emits s (rendered st (level + 1) v @ elements_text st level False (map key_sorted us))
        (andthen (node (ks ! n) (level + 1) s) (\<lambda>_ s. serialize_elements node turns False (next_sibling (n_links (s_nodes s ! (ks ! n)))) level s))"
      proof (rule emits_kept [OF _ s])
        show "emits s (rendered st (level + 1) v) (node (ks ! n) (level + 1) s)"
          using vs(2) s by (simp add: node_emits_def keptD)
      next
        fix s assume s: "kept ns st s"
        show "emits s (elements_text st level False (map key_sorted us))
          (serialize_elements node turns False (next_sibling (n_links (s_nodes s ! (ks ! n)))) level s)"
          unfolding keptD(2) [OF s] sib using Suc.IH [OF s vs(3)] Suc.prems(3) d by simp
      qed
    qed
    then show ?thesis by (simp add: vs(1) rendered_def)
  qed
qed

text \<open>The two arrays of \<open>serialize_object\<close> are freed on every path.\<close>

lemma free_arrays_emits:
  assumes m: "emits (s\<lparr>s_heap := h\<rparr>) bs m" and h: "live h = live (s_heap s) + 2 * (n * SIZEOF_SIZE_T)" "fates (s_heap s) = [] \<longrightarrow> fates h = []"
    and ok: "serializer_ok s"
  shows "emits s bs (free_arrays n m)"
proof -
  obtain r s1 where e: "m = (r, s1)" by (cases m)
  let ?s = "s\<lparr>s_heap := h\<rparr>" and ?t = "s1\<lparr>s_heap := mfree (n * SIZEOF_SIZE_T) (mfree (n * SIZEOF_SIZE_T) (s_heap s1))\<rparr>"
  have a: "serializer_ok s1" "same_serializer ?s s1" using m e by (simp_all add: emits_def)
  have ba: "buffer_area ?t = buffer_area s1" "buffer_area ?s = buffer_area s" by (simp_all add: buffer_area_def)
  have out: "serializer_outside ?s = serializer_outside s + 2 * (n * SIZEOF_SIZE_T)"
    using h(1) ok unfolding serializer_outside_def ba serializer_ok_def by simp
  have live: "buffer_area s1 + 2 * (n * SIZEOF_SIZE_T) \<le> live (s_heap s1)"
    using a out unfolding serializer_ok_def same_serializer_def serializer_outside_def by linarith
  have "serializer_ok ?t" using a(1) live ba by (simp add: serializer_ok_def)
  moreover have "serializer_outside ?t = serializer_outside s"
  proof -
    have "live (s_heap ?t) = live (s_heap s1) - n * SIZEOF_SIZE_T - n * SIZEOF_SIZE_T" by simp
    then show ?thesis using a(2) out live unfolding same_serializer_def serializer_outside_def ba by linarith
  qed
  then have "same_serializer s ?t" using a(2) h(2) by (auto simp: same_serializer_def)
  ultimately show ?thesis using m e h(2) by (cases r) (auto simp: emits_def free_arrays_def)
qed

lemma serialize_object_emits:
  assumes s: "kept ns st s" and t: "tree_array ns" and b: "block ns i k (JObj ms)" and v: "utf8_json (JObj ms)"
    and node: "\<And>j key v. block ns j key v \<Longrightarrow> v \<in> snd ` set ms \<Longrightarrow> node_emits node ns st (level + 1) j v"
  shows "emits s (rendered st level (JObj ms)) (serialize_object node (n_links (ns ! i)) level s)"
proof -
  let ?n = "length ms" and ?l = "n_links (ns ! i)"
  have ok: "serializer_ok s" and sn: "s_nodes s = ns" using s by (simp_all add: keptD)
  have count: "child_count ?l = ?n"
    using node_chain_kids(2) [OF t block_node(1) [OF t b]] block_kids(2) [OF t b refl] by simp
  show ?thesis
  proof (cases "ms = []")
    case True
    then show ?thesis using append_literal_emits [OF ok, of "''{}''"] count
      by (simp add: serialize_object_def rendered_def sort_by_def)
  next
    case False
    obtain b1 h1 where m1: "malloc (?n * SIZEOF_SIZE_T) (s_heap s) = (b1, h1)" by fastforce
    obtain b2 h2 where m2: "malloc (?n * SIZEOF_SIZE_T) h1 = (b2, h2)" by fastforce
    note f1 = malloc_facts [OF m1] and f2 = malloc_facts [OF m2]
    show ?thesis
    proof (cases "b1 \<and> b2")
      case fail: False
      let ?h = "(if b1 then mfree (?n * SIZEOF_SIZE_T) (if b2 then mfree (?n * SIZEOF_SIZE_T) h2 else h2)
          else (if b2 then mfree (?n * SIZEOF_SIZE_T) h2 else h2))"
      have "serialize_object node ?l level s = (Fail ERR_MEMORY, s\<lparr>s_heap := ?h\<rparr>)"
        using fail False count m1 m2 unfolding serialize_object_def Let_def by auto
      moreover have "live ?h = live (s_heap s)" using fail f1(1) f2(1) by auto
      moreover have "fates (s_heap s) \<noteq> []" using fail f1(3) f2(3) by auto
      moreover have "buffer_area (s\<lparr>s_heap := h\<rparr>) = buffer_area s" for h by (simp add: buffer_area_def)
      ultimately show ?thesis using ok
        by (simp add: emits_def serializer_ok_def same_serializer_def serializer_outside_def)
    next
      case True
      let ?s = "s\<lparr>s_heap := h2\<rparr>"
      obtain r ps where r: "sorted_members ?s (n_links (s_nodes ?s ! i)) = Some r"
        "sort_by member_le (map sorted_member ms) = map sorted_member ps" "set ps = set ms"
        "list_all2 (\<lambda>j m. block (s_nodes ?s) j (Some (fst m)) (snd m)) r ps"
        using sorted_members_order [of ?s i k ms] t b v sn by auto
      let ?body = "andthen (append_byte LBRACE ?s) (\<lambda>_ s. andthen (serialize_members node True r level s) (\<lambda>_ s.
          andthen (append_break level s) (\<lambda>_ s. append_byte RBRACE s)))"
      have e: "serialize_object node ?l level s = free_arrays ?n ?body"
        using True False count m1 m2 r(1) sn unfolding serialize_object_def Let_def by simp
      have kept: "kept ns st ?s"
      proof -
        have "buffer_area ?s = buffer_area s" "live (s_heap s) \<le> live h2" using f1(1) f2(1) True by (simp_all add: buffer_area_def)
        then show ?thesis using s by (simp add: kept_def serializer_ok_def style_of_def)
      qed
      have all: "list_all2 (\<lambda>j m. key_bytes ns j = fst m \<and> utf8_text (fst m) \<and> node_emits node ns st (level + 1) j (snd m)) r ps"
        using r(4)
      proof (rule list_all2_mono_in)
        fix j m assume "m \<in> set ps" and bm: "block (s_nodes ?s) j (Some (fst m)) (snd m)"
        then have "m \<in> set ms" using r(3) by simp
        then have "utf8_text (fst m)" "snd m \<in> snd ` set ms" using v by auto
        then show "key_bytes ns j = fst m \<and> utf8_text (fst m) \<and> node_emits node ns st (level + 1) j (snd m)"
          using block_node(2) [OF t, of j "Some (fst m)" "snd m"] bm sn node by (simp add: key_bytes_def)
      qed
      have "emits ?s ([LBRACE] @ members_text st level True (map sorted_member ps) @ line_break st level @ [RBRACE]) ?body"
      proof (rule emits_kept [OF append_byte_emits [OF keptD(1) [OF kept]] kept])
        fix s assume s: "kept ns st s"
        show "emits s (members_text st level True (map sorted_member ps) @ line_break st level @ [RBRACE])
          (andthen (serialize_members node True r level s) (\<lambda>_ s. andthen (append_break level s) (\<lambda>_ s. append_byte RBRACE s)))"
        proof (rule emits_kept [OF serialize_members_emits [OF s all] s])
          fix s assume s: "kept ns st s"
          show "emits s (line_break st level @ [RBRACE]) (andthen (append_break level s) (\<lambda>_ s. append_byte RBRACE s))"
            using append_break_emits [OF keptD(1) [OF s], of level]
            by (intro emits_kept [OF _ s]) (simp_all add: keptD(3) [OF s] keptD append_byte_emits)
        qed
      qed
      moreover have "rendered st level (JObj ms) = [LBRACE] @ members_text st level True (map sorted_member ps) @ line_break st level @ [RBRACE]"
      proof -
        have "ps \<noteq> []" using r(3) False by auto
        then show ?thesis unfolding rendered_def key_sorted_members r(2) by simp
      qed
      ultimately have "emits ?s (rendered st level (JObj ms)) ?body" by simp
      then show ?thesis
        unfolding e using f1(1,3) f2(1,3) True ok by (intro free_arrays_emits) auto
    qed
  qed
qed

lemma serialize_array_emits:
  assumes s: "kept ns st s" and t: "tree_array ns" and b: "block ns i k (JArr vs)"
    and node: "\<And>j key v. block ns j key v \<Longrightarrow> v \<in> set vs \<Longrightarrow> node_emits node ns st (level + 1) j v"
  shows "emits s (rendered st level (JArr vs)) (serialize_array node (n_links (ns ! i)) level s)"
proof -
  let ?l = "n_links (ns ! i)" and ?ks = "positions (i + 1) vs"
  have ok: "serializer_ok s" and sn: "s_nodes s = ns" using s by (simp_all add: keptD)
  have i: "i < length ns" using block_node(1) [OF t b] .
  have lk: "linked (node_tokens ns)" using t by (simp add: tree_array_def)
  have kids: "kids (node_tokens ns) i = ?ks" using block_kids(1) [OF t b refl] .
  have count: "child_count ?l = length vs" using node_chain_kids(2) [OF t i] kids by simp
  have first: "first_child ?l = first_of ?ks" using first_child_kid [OF lk, of i] i kids by simp
  have len: "length ?ks \<le> length ns" using length_kids [of "node_tokens ns" i] kids by simp
  show ?thesis
  proof (cases "vs = []")
    case True
    then show ?thesis using append_literal_emits [OF ok, of "''[]''"] count
      by (simp add: serialize_array_def rendered_def)
  next
    case False
    have all: "list_all2 (node_emits node ns st (level + 1)) (drop 0 ?ks) vs"
      unfolding drop_0 using block_elements [OF b] by (rule list_all2_mono_in) (use node in blast)
    have "emits s ([LBRACKET] @ elements_text st level True (map key_sorted vs) @ line_break st level @ [RBRACKET])
      (serialize_array node ?l level s)"
      using False count unfolding serialize_array_def
    proof (simp only: length_0_conv if_False, intro emits_kept [OF append_byte_emits [OF ok] s])
      fix s assume s: "kept ns st s"
      show "emits s (elements_text st level True (map key_sorted vs) @ line_break st level @ [RBRACKET])
        (andthen (serialize_elements node (length (s_nodes s)) True (first_child ?l) level s)
          (\<lambda>_ s. andthen (append_break level s) (\<lambda>_ s. append_byte RBRACKET s)))"
        unfolding first keptD(2) [OF s]
      proof (rule emits_kept [OF _ s])
        show "emits s (elements_text st level True (map key_sorted vs)) (serialize_elements node (length ns) True (first_of ?ks) level s)"
          using serialize_elements_emits [OF lk i kids s all] len by simp
      next
        fix s assume s: "kept ns st s"
        show "emits s (line_break st level @ [RBRACKET]) (andthen (append_break level s) (\<lambda>_ s. append_byte RBRACKET s))"
          using append_break_emits [OF keptD(1) [OF s], of level]
          by (intro emits_kept [OF _ s]) (simp_all add: keptD(3) [OF s] keptD append_byte_emits)
      qed
    qed
    then show ?thesis using False by (simp add: rendered_def)
  qed
qed

lemma serialize_node_emits:
  "tree_array ns \<Longrightarrow> block ns i k v \<Longrightarrow> utf8_json v \<Longrightarrow> json_height v < levels \<Longrightarrow> node_emits (serialize_node levels) ns st level i v"
proof (induction levels arbitrary: i k v level)
  case (Suc levels)
  note t = Suc.prems(1) and b = Suc.prems(2)
  note n = block_node [OF t b]
  show ?case
    unfolding node_emits_def
  proof (intro allI impI)
    fix s assume "serializer_ok s" "s_nodes s = ns" "style_of s = st"
    then have s: "kept ns st s" by (simp add: kept_def)
    note ok = keptD(1) [OF s] and sn = keptD(2) [OF s] and st = keptD(3) [OF s]
    have in_range: "\<not> length (s_nodes s) \<le> i" using n(1) sn by simp
    show "emits s (rendered st level v) (serialize_node (Suc levels) i level s)"
    proof (cases v)
      case JNull
      then show ?thesis using n(3) sn in_range append_literal_emits [OF ok, of "''null''"] by (simp add: rendered_def)
    next
      case (JBool x)
      then have "n_boolean (ns ! i) = x" using n(3,4) by (simp add: node_leaf_def)
      then show ?thesis using JBool n(3) sn in_range append_literal_emits [OF ok] by (simp add: rendered_def)
    next
      case (JNum x)
      then have "node_leaf (ns ! i) = JNum x" using n(4) by simp
      then show ?thesis using JNum n(3) sn in_range append_number_emits [OF ok, of "ns ! i" x] by (simp add: rendered_def)
    next
      case (JStr x)
      then have "string_bytes (ns ! i) = x" using n(3,4) by (simp add: node_leaf_def)
      then show ?thesis using JStr n(3) sn in_range append_string_emits [OF ok, of x] Suc.prems(3) st by (simp add: rendered_def)
    next
      case (JArr vs)
      have "node_emits (serialize_node levels) ns st (level + 1) j v" if "block ns j key v" "v \<in> set vs" for j key v
        using Suc.IH [OF t that(1)] Suc.prems(3,4) that(2) JArr json_height_bound(1) [of vs levels]
        by (auto simp del: json_height.simps)
      then show ?thesis using serialize_array_emits [OF s t b [unfolded JArr]] n(3) sn in_range JArr by simp
    next
      case (JObj ms)
      have "node_emits (serialize_node levels) ns st (level + 1) j v" if m: "block ns j key v" "v \<in> snd ` set ms" for j key v
      proof -
        obtain x where x: "(x, v) \<in> set ms" using m(2) by auto
        have "json_height (JObj ms) \<le> levels" using Suc.prems(4) JObj by (simp del: json_height.simps)
        then have "json_height v < levels" using x unfolding json_height_bound(2) by auto
        then show ?thesis using Suc.IH [OF t m(1)] Suc.prems(3) x JObj by auto
      qed
      then show ?thesis using serialize_object_emits [OF s t b [unfolded JObj]] Suc.prems(3) n(3) sn in_range JObj by simp
    qed
  qed
qed simp

section \<open>The end of a writer\<close>

definition writer_style :: "writer \<Rightarrow> style" where
  "writer_style w = \<lparr>st_indent = (w_flags w AND FLAG_INDENT \<noteq> 0), st_ascii = (w_flags w AND FLAG_ASCII \<noteq> 0)\<rparr>"

definition output_text :: "writer \<Rightarrow> json \<Rightarrow> bytes" where
  "output_text w v = rendered (writer_style w) 0 v @ (if w_flags w AND FLAG_FINAL_NEWLINE \<noteq> 0 then [LF] else [])"

lemma string_text_nonempty: "string_text st bs \<noteq> []"
  by (simp add: string_text_def)

lemma rendered_nonempty: "valid_json prof v \<Longrightarrow> rendered st level v \<noteq> []"
  by (cases v) (auto simp: rendered_def ascii_def string_text_nonempty json_number_def number_int_def)

lemma serialize_ends:
  assumes base: "writer_base w" and shape: "writer_shape w (Complete v)"
  shows "case serialize w of
     (Ret (bs, area), h) \<Rightarrow>
       bs = output_text w v \<and> length bs \<le> maximum_bytes (w_limits w) \<and> length bs < area \<and>
       live h = live (w_heap w) + area \<and> (fates (w_heap w) = [] \<longrightarrow> fates h = [])
   | (Fail code, h) \<Rightarrow>
       (code = ERR_LIMIT \<and> maximum_bytes (w_limits w) < length (output_text w v) \<or> code = ERR_MEMORY \<and> fates (w_heap w) \<noteq> []) \<and>
       live h = live (w_heap w) \<and> (fates (w_heap w) = [] \<longrightarrow> fates h = [])
   | (Stuck, _) \<Rightarrow> False"
proof -
  note fine = writer_shapeD(5) [OF shape, simplified]
  let ?s = "new_serializer w" and ?n = "serialize_node (serialize_levels (w_limits w)) 0 0 (new_serializer w)"
  have prof: "w_profile w \<in> {RFC8259, CONTRACT_ASCII}" using base by (simp add: writer_base_def)
  have ok: "serializer_ok ?s" using base by (simp add: serializer_ok_def new_serializer_def buffer_area_def writer_base_def)
  have out: "serializer_outside ?s = live (w_heap w)" by (simp add: serializer_outside_def new_serializer_def buffer_area_def)
  have t: "tree_array (w_nodes w)" using writer_shapeD(3,4) [OF shape] by (simp add: tree_array_def)
  have b: "block (w_nodes w) 0 None v" using writer_shapeD(1) [OF shape] by (intro block_root) simp
  have "json_height v < serialize_levels (w_limits w)" using fine by (simp add: serialize_levels_def)
  from serialize_node_emits [OF t b valid_json_utf8 [OF prof] this] fine
  have n: "emits ?s (rendered (writer_style w) 0 v) ?n"
    using ok by (simp add: node_emits_def new_serializer_def style_of_def writer_style_def)
  let ?m = "andthen ?n (\<lambda>_ s. if w_flags w AND FLAG_FINAL_NEWLINE \<noteq> 0 then append_byte LF s else (Ret (), s))"
  have m: "emits ?s (output_text w v) ?m"
    unfolding output_text_def by (rule emits_andthen [OF n]) (simp add: append_byte_emits emits_nothing)
  obtain r s where e: "?m = (r, s)" by (cases ?m)
  have s: "serializer_ok s" "same_serializer ?s s" using m e by (simp_all add: emits_def)
  have live: "live (s_heap s) = live (w_heap w) + buffer_area s"
    using s out by (auto simp: serializer_ok_def same_serializer_def serializer_outside_def)
  have fates: "fates (w_heap w) = [] \<longrightarrow> fates (s_heap s) = []" using s(2) by (simp add: same_serializer_def new_serializer_def)
  have max: "s_maximum s = maximum_bytes (w_limits w)" using s(2) by (simp add: same_serializer_def new_serializer_def)
  have ser: "serialize w = (case (r, s) of
        (Ret _, s) \<Rightarrow>
          if s_capacity s \<noteq> 0 \<and> length (s_bytes s) \<le> s_capacity s then (Ret (s_bytes s, buffer_area s), s_heap s)
          else (Stuck, s_heap s)
      | (Fail code, s) \<Rightarrow> (Fail code, mfree (buffer_area s) (s_heap s))
      | (Stuck, s) \<Rightarrow> (Stuck, s_heap s))"
    unfolding serialize_def e ..
  show ?thesis
  proof (cases r)
    case (Ret x)
    have bs: "s_bytes s = output_text w v" using m e Ret by (simp add: emits_def new_serializer_def)
    then have "s_bytes s \<noteq> []" using rendered_nonempty [of "w_profile w" v] fine by (simp add: output_text_def)
    then have c: "s_capacity s \<noteq> 0" "length (s_bytes s) \<le> s_capacity s" "length (s_bytes s) \<le> s_maximum s"
      using s(1) by (cases "s_capacity s"; simp add: serializer_ok_def)+
    then have "buffer_area s = s_capacity s + 1" by (simp add: buffer_area_def)
    then show ?thesis using ser Ret c bs live fates max by simp
  next
    case (Fail code)
    then have f: "code = ERR_LIMIT \<and> maximum_bytes (w_limits w) < length (output_text w v) \<or> code = ERR_MEMORY \<and> fates (w_heap w) \<noteq> []"
      using m e by (simp add: emits_def new_serializer_def)
    have "serialize w = (Fail code, mfree (buffer_area s) (s_heap s))" using ser Fail by simp
    then show ?thesis using f live fates by simp
  next
    case Stuck
    then show ?thesis using m e by (simp add: emits_def)
  qed
qed

text \<open>
  \<open>maelys_json_writer_finish\<close>: the output of a complete value, which the caller then owns, or the
  failure that sticks.
\<close>

definition finish_fails :: "writer \<Rightarrow> progress \<Rightarrow> result \<Rightarrow> bool" where
  "finish_fails w p code \<longleftrightarrow>
     (case p of
        Building fs \<Rightarrow> code = ERR_STATE
      | Complete v \<Rightarrow>
          code = ERR_LIMIT \<and> maximum_bytes (w_limits w) < length (output_text w v) \<or> code = ERR_MEMORY \<and> fates (w_heap w) \<noteq> [])"

lemma complete_pending: "writer_shape w (Complete v) \<Longrightarrow> w_pending w = None"
  using writer_shapeD(6) [of w "Complete v"] by (cases "w_pending w") auto

lemma writer_finish_ends:
  assumes w: "writer_base w" "w_failure w = OK" "\<not> w_finished w" "writer_shape w p"
  shows "case writer_finish True w of
     (Ret (bs, area), w') \<Rightarrow> (\<exists>v. p = Complete v \<and> bs = output_text w v) \<and> length bs \<le> maximum_bytes (w_limits w) \<and> length bs < area \<and>
       w' = w\<lparr>w_finished := True, w_heap := w_heap w'\<rparr> \<and> live (w_heap w') = live (w_heap w) + area
   | (Fail code, w') \<Rightarrow> finish_fails w p code \<and> w_failure w' = code \<and> writer_base w' \<and> same_writer w w'
   | (Stuck, _) \<Rightarrow> False"
proof (cases p)
  case (Building fs)
  have "w_stack w \<noteq> [] \<or> w_pending w \<noteq> None \<or> w_nodes w = []"
    using writer_shapeD(1,2) [OF w(4)] Building by (cases fs) auto
  then have "writer_finish True w = (Fail ERR_STATE, w\<lparr>w_failure := ERR_STATE\<rparr>)"
    using w by (simp add: writer_finish_def writer_fail_def)
  moreover have "writer_base (w\<lparr>w_failure := ERR_STATE\<rparr>)" "same_writer w (w\<lparr>w_failure := ERR_STATE\<rparr>)"
    using w(1) by (simp_all add: writer_base_def same_writer_def)
  ultimately show ?thesis using Building by (simp add: finish_fails_def)
next
  case (Complete v)
  have shape: "writer_shape w (Complete v)" using w(4) Complete by simp
  have "w_nodes w \<noteq> []" using writer_shapeD(1) [OF shape] tree_nodes_hd [of VALUE_NONE 0 None v] by auto
  then have guard: "\<not> (w_stack w \<noteq> [] \<or> w_pending w \<noteq> None \<or> w_nodes w = [])"
    using writer_shapeD(2) [OF shape] complete_pending [OF shape] by simp
  obtain r h where s: "serialize w = (r, h)" by fastforce
  note ends = serialize_ends [OF w(1) shape, unfolded s]
  have fp: "writer_footprint (w\<lparr>w_heap := h\<rparr>) = writer_footprint w" by (simp add: writer_footprint_def)
  show ?thesis
  proof (cases r)
    case (Ret ba)
    obtain bs area where ba: "ba = (bs, area)" by fastforce
    have "writer_finish True w = (Ret (bs, area), w\<lparr>w_finished := True, w_heap := h\<rparr>)"
      using guard w(2,3) s Ret ba by (simp add: writer_finish_def)
    then show ?thesis using ends Ret ba Complete by auto
  next
    case (Fail code)
    then have c: "code \<noteq> OK" "code \<noteq> ERR_ARGUMENT" "finish_fails w p code" "live h = live (w_heap w)" "fates (w_heap w) = [] \<longrightarrow> fates h = []"
      using ends Complete by (auto simp: finish_fails_def)
    have e: "writer_finish True w = (Fail code, w\<lparr>w_heap := h, w_failure := code\<rparr>)"
      using guard w(2,3) s Fail c(1,2) by (simp add: writer_finish_def writer_fail_def)
    have "writer_footprint (w\<lparr>w_heap := h, w_failure := code\<rparr>) = writer_footprint w" by (simp add: writer_footprint_def)
    then have "writer_base (w\<lparr>w_heap := h, w_failure := code\<rparr>)" "same_writer w (w\<lparr>w_heap := h, w_failure := code\<rparr>)"
      using w(1) c(4,5) by (simp_all add: writer_base_def same_writer_def outside_def)
    then show ?thesis using e c(3) by simp
  next
    case Stuck
    then show ?thesis using ends by simp
  qed
qed

end
