(* ===== verification/Output_Text.thy ===== *)
theory Output_Text
  imports Serialize_Correct Parser_Complete
begin

text \<open>
  The output of the writer is a JSON text of its profile for the value written: every escape is one
  of the grammar and stands for the bytes it was made from.
\<close>

unbundle bit_operations_syntax

section \<open>Escapes\<close>

lemma hex_digit_value: "n < 16 \<Longrightarrow> hex_nat (hex_digit n) = Some n"
proof -
  have "\<forall>n \<in> set [0..<16]. hex_nat (hex_digit n) = Some n" by code_simp
  then show "n < 16 \<Longrightarrow> hex_nat (hex_digit n) = Some n" by simp
qed

lemma unat_low_digit: "unat (x AND 0xf :: 'a::len word) = unat x mod 16"
proof -
  have "(0xf :: 'a word) = mask 4" by (simp add: mask_eq_exp_minus_1)
  then show ?thesis using unat_and_mask [of x 4] by simp
qed

lemma hex4_digits: "v < 65536 \<Longrightarrow>
  hex4 [hex_digit (v div 4096 mod 16), hex_digit (v div 256 mod 16), hex_digit (v div 16 mod 16), hex_digit (v mod 16)] v"
proof -
  assume "v < 65536"
  then have top: "v div 4096 mod 16 = v div 4096" by simp
  have d: "v div 256 = v div 16 div 16" "v div 4096 = v div 256 div 16" by (simp_all add: div_mult2_eq [symmetric])
  have "v = ((v div 4096 * 16 + v div 256 mod 16) * 16 + v div 16 mod 16) * 16 + v mod 16"
    using div_mult_mod_eq [of v 16] div_mult_mod_eq [of "v div 16" 16] div_mult_mod_eq [of "v div 256" 16] unfolding d by metis
  then have "v = ((v div 4096 mod 16 * 16 + v div 256 mod 16) * 16 + v div 16 mod 16) * 16 + v mod 16" unfolding top .
  then have v: "v = ((v div 4096 mod 16 * 16 + v div 256 mod 16) * 16 + v div 16 mod 16) * 16 + v mod 16" .
  have h: "hex_nat (hex_digit (x mod 16)) = Some (x mod 16)" for x by (rule hex_digit_value) simp
  show ?thesis unfolding hex4_def by (intro exI conjI, rule refl, rule h, rule h, rule h, rule h, rule v)
qed

lemma u16_escape_hex4:
  assumes "unat u < 65536"
  obtains hs where "u16_escape u = BACKSLASH # 0x75 # hs" "hex4 hs (unat u)"
proof (rule that)
  show "u16_escape u = BACKSLASH # 0x75 # drop 2 (u16_escape u)" by (simp add: u16_escape_def)
  show "hex4 (drop 2 (u16_escape u)) (unat u)"
    using hex4_digits [OF assms] by (simp add: u16_escape_def unat_low_digit unat_drop_bit)
qed

lemma scalar_u32: "scalar_value cp \<Longrightarrow> unat (of_nat cp :: u32) = cp"
  by (rule unat_of_nat_u32) (auto simp: scalar_value_def)

lemma point_text_chars:
  assumes cp: "scalar_value cp" "0x80 \<le> cp" and rest: "string_chars raw out"
  shows "string_chars (point_text (of_nat cp) @ raw) (utf8_enc cp @ out)"
proof -
  note u = scalar_u32 [OF cp(1)]
  show ?thesis
  proof (cases "cp < 0x10000")
    case True
    then have "\<not> (of_nat cp :: u32) \<ge> 0x10000" using u by (simp add: word_le_nat_alt)
    moreover obtain hs where hs: "u16_escape (of_nat cp) = BACKSLASH # 0x75 # hs" "hex4 hs cp"
      using u16_escape_hex4 [of "of_nat cp"] True u by auto
    moreover have "unicode_escape hs cp" using hs(2) cp by (intro single) (auto simp: scalar_value_def)
    ultimately show ?thesis using chars_unicode [OF _ rest, of hs cp] by (simp add: point_text_def)
  next
    case False
    have c: "cp < 0x110000" using cp(1) by (auto simp: scalar_value_def)
    let ?hi = "0xd800 + (cp - 0x10000) div 1024" and ?lo = "0xdc00 + (cp - 0x10000) mod 1024"
    have w: "unat (0xd800 + drop_bit 10 (of_nat cp - 0x10000) :: u32) = ?hi"
      "unat (0xdc00 + (of_nat cp - 0x10000 AND 0x3ff) :: u32) = ?lo"
      using surrogate_words [of cp] False c by simp_all
    have r: "?hi \<le> 0xdbff" "?lo \<le> 0xdfff" using c False by auto
    obtain hs where hs: "u16_escape (0xd800 + drop_bit 10 (of_nat cp - 0x10000)) = BACKSLASH # 0x75 # hs" "hex4 hs ?hi"
      using u16_escape_hex4 [of "0xd800 + drop_bit 10 (of_nat cp - 0x10000)"] w(1) r(1) by auto
    obtain ls where ls: "u16_escape (0xdc00 + (of_nat cp - 0x10000 AND 0x3ff)) = BACKSLASH # 0x75 # ls" "hex4 ls ?lo"
      using u16_escape_hex4 [of "0xdc00 + (of_nat cp - 0x10000 AND 0x3ff)"] w(2) r(2) by auto
    have "unicode_escape (hs @ [BACKSLASH, 0x75] @ ls) (0x10000 + (?hi - 0xd800) * 1024 + (?lo - 0xdc00))"
      using hs(2) ls(2) r by (intro surrogates) auto
    moreover have "0x10000 + (?hi - 0xd800) * 1024 + (?lo - 0xdc00) = cp" using False by simp
    ultimately have e: "unicode_escape (hs @ [BACKSLASH, 0x75] @ ls) cp" by metis
    have "(of_nat cp :: u32) \<ge> 0x10000" using u False by (simp add: word_le_nat_alt)
    then have "point_text (of_nat cp) = BACKSLASH # 0x75 # (hs @ [BACKSLASH, 0x75] @ ls)"
      using hs(1) ls(1) by (simp add: point_text_def)
    then show ?thesis using chars_unicode [OF e rest] by simp
  qed
qed

lemma enc_ascii: "unat b < 0x80 \<Longrightarrow> utf8_enc (unat b) = [b]"
  by (simp add: utf8_enc_def)

lemma escape_chars:
  assumes b: "b \<noteq> 0" "unat b < 0x80" and rest: "string_chars raw out"
  shows "string_chars (canonical_escape b @ raw) (b # out)"
proof -
  have short: "string_chars (BACKSLASH # e # raw) (c # out)" if "(e, c) \<in> short_escapes" for e c using chars_short [OF that rest] .
  consider "b = QUOTE" | "b = BACKSLASH" | "b = BS" | "b = FF" | "b = LF" | "b = CR" | "b = TAB"
    | (plain) "0x20 \<le> b" "b \<noteq> QUOTE" "b \<noteq> BACKSLASH" | (control) "\<not> 0x20 \<le> b" "b \<noteq> BS" "b \<noteq> FF" "b \<noteq> LF" "b \<noteq> CR" "b \<noteq> TAB" by blast
  then show ?thesis
  proof cases
    case plain
    then have "canonical_escape b = [b]" by (auto simp: canonical_escape_def)
    moreover have "scalar_value (unat b)" "0x20 \<le> unat b" using b(2) plain(1) by (simp_all add: scalar_value_def word_le_nat_alt)
    moreover have "unat b \<noteq> 0x22" "unat b \<noteq> 0x5c" using plain(2,3) word_unat_eq_iff [of b QUOTE] word_unat_eq_iff [of b BACKSLASH] by simp_all
    ultimately show ?thesis using chars_plain [OF _ _ _ _ rest, of "unat b"] enc_ascii [OF b(2)] by simp
  next
    case control
    have c: "unat b < 32" using control(1) by (simp add: word_le_nat_alt)
    let ?es = "[0x30, 0x30, hex_digit (unat (drop_bit 4 b AND 0xf)), hex_digit (unat (b AND 0xf))]"
    have "b \<noteq> QUOTE" "b \<noteq> BACKSLASH" using control(1) by (auto simp: word_le_nat_alt)
    then have e: "canonical_escape b = BACKSLASH # 0x75 # ?es" using control by (simp add: canonical_escape_def)
    have z: "hex_digit 0 = 0x30" by code_simp
    have "hex4 ?es (unat b)"
      using hex4_digits [of "unat b"] c z by (simp add: unat_low_digit unat_drop_bit)
    moreover have "unat b \<noteq> 0" using b(1) by (simp add: unat_eq_0)
    ultimately have "unicode_escape ?es (unat b)" using c by (intro single) simp_all
    from chars_unicode [OF this rest] show ?thesis using e enc_ascii [OF b(2)] by simp
  qed (use short in \<open>simp_all add: canonical_escape_def short_escapes_def\<close>)
qed

section \<open>Strings\<close>

lemma content_text_plain: "content_text False bs = concat (map canonical_escape bs)"
  by (induction bs) (subst content_text.simps; simp)+

lemma escape_high: "b \<ge> 0x80 \<Longrightarrow> canonical_escape b = [b]"
proof -
  assume b: "b \<ge> 0x80"
  have "b \<noteq> QUOTE" "b \<noteq> BACKSLASH" "b \<noteq> BS" "b \<noteq> FF" "b \<noteq> LF" "b \<noteq> CR" "b \<noteq> TAB" "0x20 \<le> b"
    using b by (auto simp: word_le_nat_alt)
  then show "canonical_escape b = [b]" by (simp add: canonical_escape_def)
qed

lemma enc_high: "scalar_value cp \<Longrightarrow> 0x80 \<le> cp \<Longrightarrow> b \<in> set (utf8_enc cp) \<Longrightarrow> b \<ge> 0x80"
  by (auto simp: utf8_enc_def scalar_value_def word_le_nat_alt unat_of_nat_byte simp del: of_nat_add split: if_splits)

lemma escape_all_high: "\<forall>b \<in> set bs. b \<ge> 0x80 \<Longrightarrow> concat (map canonical_escape bs) = bs"
  by (induction bs) (simp_all add: escape_high)

lemma content_text_step:
  assumes "scalar_value cp"
  shows "content_text asc (utf8_enc cp @ rest) =
    (if cp < 0x80 then canonical_escape (of_nat cp) else if asc then point_text (of_nat cp) else utf8_enc cp) @ content_text asc rest"
proof (cases "cp < 0x80")
  case True
  have "unat (of_nat cp :: byte) = cp" using True by (intro unat_of_nat_byte) simp
  then have "\<not> (of_nat cp :: byte) \<ge> 0x80" using True by (simp add: word_le_nat_alt)
  then show ?thesis using True by (simp add: utf8_enc_def) (subst content_text.simps, simp)
next
  case False
  then have high: "\<forall>b \<in> set (utf8_enc cp). b \<ge> 0x80" using enc_high [OF assms] by simp
  show ?thesis
  proof (cases asc)
    case True
    obtain b bs where b: "utf8_enc cp = b # bs" using utf8_enc_nonempty by (cases "utf8_enc cp") auto
    then have "b \<ge> 0x80" using high by simp
    moreover have d: "utf8_decode (b # bs @ rest) = Some (of_nat cp, length (b # bs))"
      using utf8_decode_enc [OF assms, of rest] unfolding b by simp
    ultimately have "content_text True ((b # bs) @ rest) = point_text (of_nat cp) @ content_text True rest"
      by (subst content_text.simps) simp
    then show ?thesis using False True by (simp add: b)
  next
    case plain: False
    have "concat (map canonical_escape (utf8_enc cp)) = utf8_enc cp"
      using high by (rule escape_all_high)
    then show ?thesis using False plain by (simp add: content_text_plain)
  qed
qed

lemma content_text_chars:
  assumes "utf8_text bs" "\<forall>b \<in> set bs. b \<noteq> 0"
  shows "string_chars (content_text asc bs) bs"
proof -
  obtain cps where c: "list_all scalar_value cps" "bs = utf8_encode cps" using assms(1) by (auto simp: utf8_text_def)
  have "list_all scalar_value cps \<Longrightarrow> \<forall>b \<in> set (utf8_encode cps). b \<noteq> 0 \<Longrightarrow> string_chars (content_text asc (utf8_encode cps)) (utf8_encode cps)"
  proof (induction cps)
    case Nil
    then show ?case by (simp add: content_text.simps chars_end)
  next
    case (Cons cp cps)
    then have sv: "scalar_value cp" and ih: "string_chars (content_text asc (utf8_encode cps)) (utf8_encode cps)" by simp_all
    show ?case
    proof (cases "cp < 0x80")
      case True
      have u: "unat (of_nat cp :: byte) = cp" using True by (intro unat_of_nat_byte) simp
      have e: "utf8_enc cp = [of_nat cp]" using True by (simp add: utf8_enc_def)
      have "(of_nat cp :: byte) \<noteq> 0" using Cons.prems(2) e by simp
      then show ?thesis using escape_chars [OF _ _ ih, of "of_nat cp"] content_text_step [OF sv, of asc "utf8_encode cps"] True e u by simp
    next
      case False
      show ?thesis
      proof (cases asc)
        case True
        then show ?thesis using point_text_chars [OF sv _ ih] content_text_step [OF sv, of asc "utf8_encode cps"] False by simp
      next
        case plain: False
        have "string_chars (utf8_enc cp @ content_text asc (utf8_encode cps)) (utf8_enc cp @ utf8_encode cps)"
          by (rule chars_plain [OF sv _ _ _ ih]) (use False in auto)
        then show ?thesis using content_text_step [OF sv, of asc "utf8_encode cps"] False plain by simp
      qed
    qed
  qed
  then show ?thesis using c assms(2) by simp
qed

lemma content_text_ascii:
  "\<forall>b \<in> set bs. \<not> (b < 0x20 \<or> b > 0x7e \<or> b = QUOTE \<or> b = BACKSLASH) \<Longrightarrow> content_text asc bs = bs"
proof (induction bs)
  case (Cons b bs)
  then have b: "\<not> b \<ge> 0x80" "0x20 \<le> b" "b \<noteq> QUOTE" "b \<noteq> BACKSLASH" by (auto simp: word_le_nat_alt word_less_nat_alt)
  then have "canonical_escape b = [b]" by (auto simp: canonical_escape_def)
  then show ?case using Cons b by (subst content_text.simps) simp
qed (simp add: content_text.simps)

lemma content_text_string:
  assumes "prof \<in> {RFC8259, CONTRACT_ASCII}" "valid_bytes prof s"
  shows "json_string prof (content_text asc s) s"
proof (cases "prof = RFC8259")
  case True
  then show ?thesis using assms(2) content_text_chars [of s asc] by (simp add: json_string_def valid_bytes_iff utf8_validate_iff)
next
  case False
  then show ?thesis using assms content_text_ascii [of s asc] by (auto simp: json_string_def valid_bytes_iff)
qed

section \<open>Values\<close>

lemma ws_line_break: "json_ws (line_break st level)"
  by (auto simp: json_ws_def line_break_def)

lemma ws_empty: "json_ws []"
  by (simp add: json_ws_def)

lemma elements_first: "elements_text st level True (v # vs) = line_break st (level + 1) @ value_text st (level + 1) v @ elements_text st level False vs"
  by simp

lemma value_text_grammar:
  "prof \<in> {RFC8259, CONTRACT_ASCII} \<Longrightarrow> valid_json prof v \<Longrightarrow> json_text prof (value_text st level v) v"
  "prof \<in> {RFC8259, CONTRACT_ASCII} \<Longrightarrow> \<forall>v \<in> set vs. valid_json prof v \<Longrightarrow> vs \<noteq> [] \<Longrightarrow>
     \<exists>bs. elements_text st level first vs @ line_break st level = (if first then [] else [COMMA]) @ bs \<and> json_elements prof bs vs"
  "prof \<in> {RFC8259, CONTRACT_ASCII} \<Longrightarrow> \<forall>(k, v) \<in> set ms. valid_bytes prof k \<and> valid_json prof v \<Longrightarrow> ms \<noteq> [] \<Longrightarrow>
     \<exists>bs. members_text st level first ms @ line_break st level = (if first then [] else [COMMA]) @ bs \<and> json_members prof bs ms"
proof (induction st level v and st level first vs and st level first ms rule: value_text_elements_text_members_text.induct)
  case (1 st level)
  then show ?case by (simp add: text_null)
next
  case (2 st level b)
  then show ?case by (cases b) (simp_all add: text_true text_false)
next
  case (3 st level n)
  then show ?case by (simp add: text_number)
next
  case (4 st level s)
  then show ?case using text_string [OF content_text_string, of prof s "st_ascii st"] by (simp add: string_text_def)
next
  case (5 st level vs)
  show ?case
  proof (cases "vs = []")
    case True
    then show ?thesis using text_empty_array [OF ws_empty, of prof] by (simp add: ascii_def)
  next
    case False
    then obtain bs where bs: "elements_text st level True vs @ line_break st level = bs" "json_elements prof bs vs"
      using 5 by auto
    then show ?thesis using text_array [OF bs(2)] False by (simp add: append_assoc [symmetric] del: append_assoc)
  qed
next
  case (6 st level ms)
  show ?case
  proof (cases "ms = []")
    case True
    then show ?thesis using text_empty_object [OF ws_empty, of prof] by (simp add: ascii_def)
  next
    case False
    then obtain bs where bs: "members_text st level True ms @ line_break st level = bs" "json_members prof bs ms"
      using 6 by auto
    then show ?thesis using text_object [OF bs(2)] False by (simp add: append_assoc [symmetric] del: append_assoc)
  qed
next
  case (8 st level first v vs)
  have v: "json_text prof (value_text st (level + 1) v) v" using 8 by simp
  show ?case
  proof (cases "vs = []")
    case True
    then show ?thesis using elements_one [OF ws_line_break v ws_line_break, of st "level + 1" st level] by auto
  next
    case False
    then obtain bs where bs: "elements_text st level False vs @ line_break st level = COMMA # bs" "json_elements prof bs vs"
      using 8 by auto
    then show ?thesis using elements_more [OF ws_line_break v ws_empty bs(2), of st "level + 1"] by auto
  qed
next
  case (10 st level first k v ms)
  have v: "json_text prof (value_text st (level + 1) v) v" using 10 by simp
  have k: "json_string prof (content_text (st_ascii st) k) k" using 10 content_text_string by simp
  have colon: "colon_text st = COLON # (if st_indent st then [SPACE] else [])" by (simp add: colon_text_def)
  have ws: "json_ws (if st_indent st then [SPACE] else [])" by (simp add: json_ws_def)
  show ?case
  proof (cases "ms = []")
    case True
    then show ?thesis
      using members_one [OF ws_line_break k ws_empty ws v ws_line_break, of st "level + 1" st level]
      by (auto simp: colon string_text_def)
  next
    case False
    then obtain bs where bs: "members_text st level False ms @ line_break st level = COMMA # bs" "json_members prof bs ms"
      using 10 by auto
    then show ?thesis
      using members_more [OF ws_line_break k ws_empty ws v ws_empty bs(2), of st "level + 1"]
      by (auto simp: colon string_text_def)
  qed
qed auto


section \<open>Sorting the keys of a value\<close>

lemma distinct_sort_by [simp]: "distinct (map f (sort_by r xs)) \<longleftrightarrow> distinct (map f xs)"
  by (rule mset_eq_imp_distinct_iff) (simp add: mset_map)

lemma sum_sort_by [simp]: "sum_list (map f (sort_by r xs)) = (sum_list (map f xs) :: nat)"
proof -
  have "mset (map f (sort_by r xs)) = mset (map f xs)" by (simp add: mset_map)
  then show ?thesis by (metis sum_mset_sum_list)
qed

lemma height_sort_by [simp]: "fold max (map f (sort_by r xs)) 0 = fold max (map f xs) (0::nat)"
proof -
  have "fold max ys 0 = Max (insert 0 (set ys))" for ys :: "nat list" using Max.set_eq_fold [of 0 ys] by simp
  then show ?thesis by simp
qed

lemma fst_sorted [simp]: "map fst (map (\<lambda>(k, v). (k, f v)) ms) = map fst ms"
  by (induction ms) auto

lemma valid_key_sorted: "valid_json prof v \<Longrightarrow> valid_json prof (key_sorted v)"
proof (induction v)
  case (JObj ms)
  have "distinct (map fst (sort_by member_le (map (\<lambda>(k, v). (k, key_sorted v)) ms)))"
    unfolding distinct_sort_by fst_sorted using JObj.prems by simp
  then show ?case using JObj by (fastforce simp del: distinct_sort_by)
qed auto

lemma unique_key_sorted: "valid_json prof v \<Longrightarrow> unique_keys v"
  by (induction v) fastforce+

lemma cells_key_sorted [simp]: "json_cells (key_sorted v) = json_cells v"
proof (induction v)
  case (JArr vs)
  then show ?case by (simp add: comp_def cong: map_cong)
next
  case (JObj ms)
  have "json_cells (key_sorted (snd m)) = json_cells (snd m)" if "m \<in> set ms" for m
    using JObj [OF that, of "snd m"] by (cases m) simp
  then have "map (\<lambda>(k, v). 1 + json_cells v) (map (\<lambda>(k, v). (k, key_sorted v)) ms) = map (\<lambda>(k, v). 1 + json_cells v) ms"
    by (auto simp: case_prod_beta)
  then show ?case by (simp del: map_map)
qed simp_all

lemma height_key_sorted [simp]: "json_height (key_sorted v) = json_height v"
proof (induction v)
  case (JArr vs)
  then show ?case by (simp add: comp_def cong: map_cong)
next
  case (JObj ms)
  have "json_height (key_sorted (snd m)) = json_height (snd m)" if "m \<in> set ms" for m
    using JObj [OF that, of "snd m"] by (cases m) simp
  then have "map (\<lambda>(k, v). json_height v) (map (\<lambda>(k, v). (k, key_sorted v)) ms) = map (\<lambda>(k, v). json_height v) ms"
    by (auto simp: case_prod_beta)
  then show ?case by (simp del: map_map)
qed simp_all

section \<open>The output\<close>

text \<open>What the writer hands out is a text of its profile for the value with its keys in order.\<close>

lemma output_text_grammar:
  assumes "w_profile w \<in> {RFC8259, CONTRACT_ASCII}" "valid_json (w_profile w) v"
  shows "json_document (w_profile w) (output_text w v) (key_sorted v)"
  unfolding json_document_def output_text_def rendered_def
  by (intro exI [of _ "[]"] exI, intro conjI, unfold append_Nil, rule refl)
    (use value_text_grammar(1) [OF assms(1) valid_key_sorted [OF assms(2)]] in \<open>simp_all add: json_ws_def\<close>)

lemma within_key_sorted:
  assumes "valid_json prof v" "json_height v \<le> maximum_depth l" "json_cells v \<le> maximum_tokens l"
  shows "within l prof (key_sorted v)" "last_wins (key_sorted v) = key_sorted v"
  using assms unique_key_sorted [OF valid_key_sorted [OF assms(1)]] last_wins_unique by (simp_all add: within_def)
end
