(* ===== verification/Number_Copy.thy ===== *)
theory Number_Copy
  imports Writer_Calls
begin

text \<open>
  Which number lexemes of a document a writer carries, and as what: an integer is rendered again
  from its 64-bit word, any other lexeme is copied. Both give back the lexeme, except for
  \<open>-0\<close>.
\<close>

section \<open>The integer part of a lexeme\<close>

definition lexeme_negative :: "bytes \<Rightarrow> bool" where
  "lexeme_negative n \<longleftrightarrow> n \<noteq> [] \<and> n ! 0 = MINUS"

definition unsigned_part :: "bytes \<Rightarrow> bytes" where
  "unsigned_part n = (if lexeme_negative n then tl n else n)"

definition integer_part :: "bytes \<Rightarrow> nat" where
  "integer_part n = the (Reader.digits_value 0 (takeWhile is_digit (unsigned_part n)))"

definition integral_lexeme :: "bytes \<Rightarrow> bool" where
  "integral_lexeme n \<longleftrightarrow> takeWhile is_digit (unsigned_part n) = unsigned_part n"

definition carried :: "bytes \<Rightarrow> bool" where
  "carried n \<longleftrightarrow> (if lexeme_negative n then integer_part n \<le> 2 ^ 63 else integer_part n < 2 ^ 64)"

definition copied_lexeme :: "bytes \<Rightarrow> bytes" where
  "copied_lexeme n = (if n = [MINUS, 0x30] then [0x30] else n)"

lemma digits_value_defined: "\<forall>b \<in> set ds. is_digit b \<Longrightarrow> \<exists>k. Reader.digits_value a ds = Some k"
  by (induction ds arbitrary: a) auto

lemma digits_value_append:
  "Reader.digits_value a (ds @ es) = (case Reader.digits_value a ds of None \<Rightarrow> None | Some k \<Rightarrow> Reader.digits_value k es)"
  by (induction ds arbitrary: a) auto

lemma magnitude_loop_exact:
  assumes "9 \<le> unat maximum" "unat m \<le> unat maximum" "Reader.digits_value (unat m) (takeWhile is_digit bs) = Some k"
  shows "magnitude_loop maximum bs m =
    (if unat maximum < k then Fail ERR_RANGE else if takeWhile is_digit bs = bs then Ret (of_nat k) else Fail ERR_NOT_INTEGER)"
  using assms(2,3)
proof (induction bs arbitrary: m)
  case (Cons b bs)
  show ?case
  proof (cases "is_digit b")
    case False
    then have "b < 0x30 \<or> b > 0x39" "takeWhile is_digit (b # bs) = []" by (auto simp: is_digit_def not_le)
    moreover have "k = unat m" using Cons.prems(2) calculation(2) by simp
    ultimately show ?thesis using Cons.prems(1) by simp
  next
    case True
    let ?x = "ucast (b - 0x30) :: u64"
    note x = digit_u64 [OF True]
    have s: "m > (maximum - ?x) div 10 \<longleftrightarrow> unat maximum < unat m * 10 + unat ?x"
      "unat m * 10 + unat ?x \<le> unat maximum \<Longrightarrow> unat (m * 10 + ?x) = unat m * 10 + unat ?x"
      using magnitude_step [of ?x maximum m] x assms(1) by simp_all
    have k: "Reader.digits_value (unat m * 10 + unat ?x) (takeWhile is_digit bs) = Some k"
      using Cons.prems(2) True x(1) by simp
    show ?thesis
    proof (cases "unat maximum < unat m * 10 + unat ?x")
      case big: True
      then show ?thesis using s(1) True Reader.digits_value_ge [OF k] by (auto simp: is_digit_def Let_def)
    next
      case ok: False
      then have u: "unat (m * 10 + ?x) = unat m * 10 + unat ?x" using s(2) by simp
      have "magnitude_loop maximum (b # bs) m = magnitude_loop maximum bs (m * 10 + ?x)"
      proof -
        have "\<not> b < 0x30" "\<not> b > 0x39" "\<not> m > (maximum - ?x) div 10" using ok s(1) True by (auto simp: is_digit_def)
        then show ?thesis by (simp add: Let_def)
      qed
      moreover have "unat (m * 10 + ?x) \<le> unat maximum" "Reader.digits_value (unat (m * 10 + ?x)) (takeWhile is_digit bs) = Some k"
        using ok k unfolding u by simp_all
      ultimately show ?thesis using Cons.IH [of "m * 10 + ?x"] True by simp
    qed
  qed
next
  case Nil
  then have "k = unat m" by simp
  then show ?case using Nil.prems(1) by simp
qed

lemma integer_part_value: "Reader.digits_value 0 (takeWhile is_digit (unsigned_part n)) = Some (integer_part n)"
proof -
  have "\<forall>b \<in> set (takeWhile is_digit (unsigned_part n)). is_digit b" by (auto dest: set_takeWhileD)
  from digits_value_defined [OF this, of 0] show ?thesis by (auto simp: integer_part_def)
qed

lemma lexeme_magnitude_exact:
  assumes "9 \<le> unat maximum"
  shows "lexeme_magnitude n maximum =
    (if unat maximum < integer_part n then Fail ERR_RANGE
     else if integral_lexeme n then Ret (of_nat (integer_part n), lexeme_negative n)
     else Fail ERR_NOT_INTEGER)"
proof -
  have d: "drop (if n \<noteq> [] \<and> n ! 0 = MINUS then 1 else 0) n = unsigned_part n"
    by (auto simp: unsigned_part_def lexeme_negative_def drop_Suc)
  show ?thesis
    using magnitude_loop_exact [OF assms, of 0 "unsigned_part n" "integer_part n"] integer_part_value [of n]
    unfolding lexeme_magnitude_def Let_def d integral_lexeme_def by (simp add: lexeme_negative_def)
qed

section \<open>Rendering an integer again\<close>

lemma of_nat_digit: "is_digit b \<Longrightarrow> (of_nat (48 + unat (b - 0x30)) :: byte) = b \<and> unat (b - 0x30) < 10"
proof -
  assume d: "is_digit b"
  have "unat (b - 0x30) \<le> 9" using digit_u64 [OF d] by simp
  moreover have "(of_nat (48 + unat (b - 0x30)) :: byte) = b" by simp
  ultimately show ?thesis by simp
qed

lemma decimal_of_digits:
  "\<forall>b \<in> set ds. is_digit b \<Longrightarrow> ds \<noteq> [] \<Longrightarrow> ds = [0x30] \<or> hd ds \<noteq> 0x30 \<Longrightarrow> Reader.digits_value 0 ds = Some k \<Longrightarrow> decimal k = ds"
proof (induction ds arbitrary: k rule: rev_induct)
  case (snoc b ds)
  have b: "is_digit b" using snoc.prems by simp
  note d = of_nat_digit [OF b]
  obtain j where j: "Reader.digits_value 0 ds = Some j" using digits_value_defined [of ds 0] snoc.prems by auto
  have k: "k = j * 10 + unat (b - 0x30)" using snoc.prems(4) j b by (simp add: digits_value_append)
  show ?case
  proof (cases "ds = []")
    case True
    then have "k = unat (b - 0x30)" using k j by simp
    then show ?thesis using d True by (subst decimal.simps) simp
  next
    case False
    then have "hd ds \<noteq> 0x30" using snoc.prems(3) by (cases ds) auto
    then have ds: "decimal j = ds" using snoc.IH [OF _ False _ j] snoc.prems(1) by simp
    have "j \<noteq> 0"
    proof
      assume "j = 0"
      then have "ds = [0x30]" using ds by (simp add: decimal.simps)
      then show False using \<open>hd ds \<noteq> 0x30\<close> by simp
    qed
    then have "\<not> k < 10" "k div 10 = j" "k mod 10 = unat (b - 0x30)" using k d by auto
    then show ?thesis using ds d by (subst decimal.simps) simp
  qed
qed simp

lemma number_int_digits: "number_int i \<Longrightarrow> i \<noteq> [] \<and> (\<forall>b \<in> set i. is_digit b) \<and> (i = [0x30] \<or> hd i \<noteq> 0x30)"
  by (cases i) (auto simp: number_int_def is_digit_def word_le_nat_alt)

lemma json_number_integer:
  assumes "json_number n" "integral_lexeme n"
  shows "decimal (integer_part n) = unsigned_part n"
    "n = (if lexeme_negative n then [MINUS] else []) @ decimal (integer_part n)"
proof -
  obtain s i f e where n: "n = s @ i @ f @ e" "s = [] \<or> s = [MINUS]" "number_int i" "number_frac f" "number_exp e"
    using assms(1) by (auto simp: json_number_def)
  note i = number_int_digits [OF n(3)]
  have neg: "lexeme_negative n \<longleftrightarrow> s = [MINUS]"
    using n(1,2) i by (cases i) (auto simp: lexeme_negative_def is_digit_def)
  then have u: "unsigned_part n = i @ f @ e" "n = s @ unsigned_part n" using n(1,2) by (auto simp: unsigned_part_def)
  have "\<forall>b \<in> set (f @ e). is_digit b" using assms(2) u(1) unfolding integral_lexeme_def by (metis Un_iff set_append set_takeWhileD)
  then have "f @ e = []" using number_tail_start(1) [OF n(4,5)] by (cases "f @ e") auto
  then have ui: "unsigned_part n = i" using u(1) by simp
  have tw: "takeWhile is_digit i = i" using i by simp
  show d: "decimal (integer_part n) = unsigned_part n"
    unfolding ui by (rule decimal_of_digits [OF _ _ _ integer_part_value [of n, unfolded ui tw]]) (use i in auto)
  show "n = (if lexeme_negative n then [MINUS] else []) @ decimal (integer_part n)"
    using u(2) neg n(2) unfolding d by auto
qed

end
