(* ===== verification/Writer_Copy.thy ===== *)
theory Writer_Copy
  imports Number_Copy
begin

text \<open>
  \<open>copy_value\<close> against the value a handle denotes: it places the value, its \<open>-0\<close> written as \<open>0\<close>, or
  fails; it returns whenever the value fits the limits and the profile and no allocation fails.
\<close>

section \<open>Integers, booleans and null\<close>

lemma number_int_decimal: "number_int (decimal k) \<and> (0 < k \<longrightarrow> hd (decimal k) \<noteq> 0x30)"
proof (induction k rule: decimal.induct)
  case (1 k)
  show ?case
  proof (cases "k < 10")
    case True
    have d: "is_digit (of_nat (48 + k))" using True is_digit_of_nat [of k] by (simp add: is_digit_def is_digit_byte_def)
    have u: "unat (of_nat (48 + k) :: byte) = 48 + k" using True by (rule unat_digit)
    have "k = 0 \<or> (0x31 \<le> (of_nat (48 + k) :: byte) \<and> (of_nat (48 + k) :: byte) \<noteq> 0x30)"
      using u by (auto simp: word_le_nat_alt simp del: of_nat_add; metis Suc_leI add_diff_cancel_left')
    then show ?thesis using True d by (subst (1 2) decimal.simps) (auto simp: number_int_def is_digit_def simp del: of_nat_add)
  next
    case False
    then have h: "number_int (decimal (k div 10))" "hd (decimal (k div 10)) \<noteq> 0x30" using 1 by auto
    have "is_digit (of_nat (48 + k mod 10))" using is_digit_of_nat [of "k mod 10"] by (simp add: is_digit_def is_digit_byte_def del: of_nat_add)
    then have "number_int (decimal (k div 10) @ [of_nat (48 + k mod 10)])"
      using h by (cases "decimal (k div 10)") (auto simp: number_int_def simp del: of_nat_add)
    then show ?thesis using False h(2) by (subst (1 2) decimal.simps) (auto simp del: of_nat_add)
  qed
qed

lemma json_number_decimal: "json_number (decimal k)" "json_number (MINUS # decimal k)"
  using number_int_decimal [of k] unfolding json_number_def
  by (intro exI [of _ "[]"] exI [of _ "decimal k"], simp add: number_frac_def number_exp_def)
    (intro exI [of _ "[MINUS]"] exI [of _ "decimal k"] exI [of _ "[]"], simp add: number_frac_def number_exp_def number_int_decimal)

lemma json_number_decimal_int: "json_number (decimal_int z)"
  by (simp add: decimal_int_def json_number_decimal)

lemma writer_u64_writes:
  assumes "writer_base w" "w_failure w = OK" "\<not> w_finished w" "writer_shape w p"
  shows "writes w (attach_fails w p) (fits (w_pending w) p) (place (w_pending w) (JNum (decimal (unat x))) p) None (writer_u64 x w)"
  unfolding writer_u64_def
  by (rule attach_scalar_writes [OF assms]) (simp_all add: json_number_decimal node_leaf_def fresh_node_def number_text_def)

lemma writer_i64_writes:
  assumes "writer_base w" "w_failure w = OK" "\<not> w_finished w" "writer_shape w p"
  shows "writes w (attach_fails w p) (fits (w_pending w) p) (place (w_pending w) (JNum (decimal_int (sint x))) p) None (writer_i64 x w)"
  unfolding writer_i64_def
  by (rule attach_scalar_writes [OF assms]) (simp_all add: json_number_decimal_int node_leaf_def fresh_node_def number_text_def)

lemma writer_boolean_writes:
  assumes "writer_base w" "w_failure w = OK" "\<not> w_finished w" "writer_shape w p"
  shows "writes w (attach_fails w p) (fits (w_pending w) p) (place (w_pending w) (JBool b) p) None (writer_boolean b w)"
  unfolding writer_boolean_def
  by (rule attach_scalar_writes [OF assms]) (simp_all add: node_leaf_def fresh_node_def)

lemma writer_null_writes:
  assumes "writer_base w" "w_failure w = OK" "\<not> w_finished w" "writer_shape w p"
  shows "writes w (attach_fails w p) (fits (w_pending w) p) (place (w_pending w) JNull p) None (writer_null w)"
  unfolding writer_null_def
  by (rule attach_scalar_writes [OF assms]) (simp_all add: node_leaf_def fresh_node_def)

section \<open>The contract of a copy\<close>

text \<open>
  A step of a copy fails only if it had no room; an error of a reader, or a text the profile
  cannot carry, leaves it to the caller to mark the writer failed.
\<close>

definition copies :: "writer \<Rightarrow> bool \<Rightarrow> progress \<Rightarrow> 'a call \<Rightarrow> bool" where
  "copies w room q m \<longleftrightarrow>
     (case m of (r, w') \<Rightarrow>
        writer_base w' \<and> same_writer w w' \<and>
        (case r of
           Ret x \<Rightarrow> w_failure w' = OK \<and> writer_shape w' q \<and> w_pending w' = None
         | Fail code \<Rightarrow> \<not> room \<and> code \<noteq> OK \<and> (w_failure w' = OK \<or> w_failure w' = code \<and> code \<noteq> ERR_ARGUMENT)
         | Stuck \<Rightarrow> False))"

lemma copies_of_writes: "writes w F G q None m \<Longrightarrow> (\<And>code. room \<Longrightarrow> \<not> F code) \<Longrightarrow> copies w room q m"
  unfolding writes_def writer_ends_def copies_def by (auto split: prod.splits outcome.splits)

lemma copies_andthen:
  assumes "copies w room q m"
    and "\<And>x w'. writer_base w' \<Longrightarrow> same_writer w w' \<Longrightarrow> w_failure w' = OK \<Longrightarrow> writer_shape w' q \<Longrightarrow> w_pending w' = None \<Longrightarrow>
      copies w' room q' (k x w')"
  shows "copies w room q' (andthen m k)"
proof -
  obtain r w' where m: "m = (r, w')" by (cases m)
  show ?thesis
  proof (cases r)
    case (Ret x)
    then have "copies w' room q' (k x w')" "same_writer w w'" using assms m by (auto simp: copies_def)
    then show ?thesis using m Ret by (auto simp: copies_def intro: same_writer_trans split: prod.splits outcome.splits)
  qed (use assms(1) m in \<open>simp_all add: copies_def\<close>)
qed

lemma copies_writes_andthen:
  assumes "writes w F G q k m" "\<And>code. room \<Longrightarrow> \<not> F code"
    and "\<And>x w'. writer_base w' \<Longrightarrow> same_writer w w' \<Longrightarrow> w_failure w' = OK \<Longrightarrow> G \<Longrightarrow> writer_shape w' q \<Longrightarrow> w_pending w' = k \<Longrightarrow>
      copies w' room q' (f x w')"
  shows "copies w room q' (andthen m f)"
proof -
  obtain r w' where m: "m = (r, w')" by (cases m)
  show ?thesis
  proof (cases r)
    case (Ret x)
    then have "copies w' room q' (f x w')" "same_writer w w'" using assms m by (auto simp: writes_def writer_ends_def)
    then show ?thesis using m Ret by (auto simp: copies_def intro: same_writer_trans split: prod.splits outcome.splits)
  qed (use assms(1,2) m in \<open>auto simp: copies_def writes_def writer_ends_def\<close>)
qed

section \<open>What has room\<close>

text \<open>The value as the writer writes it.\<close>

fun copied :: "json \<Rightarrow> json" where
  "copied (JNum n) = JNum (copied_lexeme n)"
| "copied (JArr vs) = JArr (map copied vs)"
| "copied (JObj ms) = JObj (map (\<lambda>(k, v). (k, copied v)) ms)"
| "copied v = v"

fun portable :: "profile \<Rightarrow> nat \<Rightarrow> json \<Rightarrow> bool" where
  "portable prof n (JNum x) \<longleftrightarrow> carried x \<and> length x \<le> n"
| "portable prof n (JStr s) \<longleftrightarrow> valid_bytes prof s \<and> length s \<le> n"
| "portable prof n (JArr vs) \<longleftrightarrow> (\<forall>v \<in> set vs. portable prof n v)"
| "portable prof n (JObj ms) \<longleftrightarrow>
     distinct (map fst ms) \<and> (\<forall>(k, v) \<in> set ms. valid_bytes prof k \<and> length k \<le> n \<and> portable prof n v)"
| "portable prof n _ \<longleftrightarrow> True"

definition has_room :: "writer \<Rightarrow> progress \<Rightarrow> nat \<Rightarrow> nat \<Rightarrow> bool" where
  "has_room w p nodes height \<longleftrightarrow>
     fates (w_heap w) = [] \<and> length (progress_nodes p) + nodes \<le> maximum_tokens (w_limits w) \<and>
     length (progress_stack p) + height \<le> maximum_depth (w_limits w)"

definition copy_room :: "writer \<Rightarrow> progress \<Rightarrow> json \<Rightarrow> bool" where
  "copy_room w p v \<longleftrightarrow>
     fits (w_pending w) p \<and> has_room w p (tree_size v) (json_height v) \<and>
     portable (w_profile w) (maximum_bytes (w_limits w)) v"

lemma tree_size_copied [simp]: "tree_size (copied v) = tree_size v"
proof (induction v)
  case (JArr vs)
  then show ?case by (simp add: comp_def cong: map_cong)
next
  case (JObj ms)
  then have "map (\<lambda>(k, v). tree_size v) (map (\<lambda>(k, v). (k, copied v)) ms) = map (\<lambda>(k, v). tree_size v) ms"
    by (auto simp: comp_def)
  then show ?case by (simp only: copied.simps tree_size.simps)
qed simp_all

lemma json_height_copied [simp]: "json_height (copied v) = json_height v"
proof (induction v)
  case (JArr vs)
  then have "map json_height (map copied vs) = map json_height vs" by auto
  then show ?case by (simp only: copied.simps json_height.simps)
next
  case (JObj ms)
  then have "map (\<lambda>(k, v). json_height v) (map (\<lambda>(k, v). (k, copied v)) ms) = map (\<lambda>(k, v). json_height v) ms"
    by (auto simp: comp_def)
  then show ?case by (simp only: copied.simps json_height.simps)
qed simp_all

lemma json_type_of_copied [simp]: "json_type_of (copied v) = json_type_of v"
  by (cases v) simp_all

section \<open>Values of a document\<close>

text \<open>The lexemes of a value are numbers of the grammar, as those of every parsed document are.\<close>

fun grammatical :: "json \<Rightarrow> bool" where
  "grammatical (JNum n) \<longleftrightarrow> json_number n"
| "grammatical (JArr vs) \<longleftrightarrow> (\<forall>v \<in> set vs. grammatical v)"
| "grammatical (JObj ms) \<longleftrightarrow> (\<forall>(k, v) \<in> set ms. grammatical v)"
| "grammatical v \<longleftrightarrow> True"

lemma json_text_grammatical:
  "json_text prof bs v \<Longrightarrow> grammatical v"
  "json_elements prof bs vs \<Longrightarrow> \<forall>v \<in> set vs. grammatical v"
  "json_members prof bs ms \<Longrightarrow> \<forall>(k, v) \<in> set ms. grammatical v"
  by (induction rule: json_text_json_elements_json_members.inducts) auto

lemma last_wins_grammatical: "grammatical v \<Longrightarrow> grammatical (last_wins v)"
proof (induction v)
  case (JObj ms)
  have "set (last_members (map (\<lambda>(k, v). (k, last_wins v)) ms)) \<subseteq> set (map (\<lambda>(k, v). (k, last_wins v)) ms)"
    by (rule last_members_subset)
  then show ?case using JObj by fastforce
qed auto

lemma json_document_grammatical: "json_document prof bs v \<Longrightarrow> grammatical (last_wins v)"
  by (auto simp: json_document_def intro: last_wins_grammatical json_text_grammatical(1))

definition holds_value :: "document \<Rightarrow> nat \<Rightarrow> json \<Rightarrow> bool" where
  "holds_value d h v \<longleftrightarrow> denotes d h v \<and> grammatical v"

lemma holds_element: "holds_value d h (JArr vs) \<Longrightarrow> k < length vs \<Longrightarrow> holds_value d (element_handles (h + 1) vs ! k) (vs ! k)"
  using denotes_element [of d h vs k] by (simp add: holds_value_def)

lemma holds_member:
  assumes "holds_value d h (JObj ms)" "k < length ms"
  shows "holds_value d (member_handles (h + 1) ms ! (2 * k + 1)) (snd (ms ! k))"
proof -
  have "ms ! k \<in> set ms" using assms(2) by simp
  then have "grammatical (snd (ms ! k))" using assms(1) by (simp add: holds_value_def case_prod_beta)
  then show ?thesis using assms denotes_member [of d h ms k] by (simp add: holds_value_def)
qed

lemma copies_fail:
  "writer_base w \<Longrightarrow> w_failure w = OK \<Longrightarrow> \<not> room \<Longrightarrow> code \<noteq> OK \<Longrightarrow> copies w room q (Fail code, w)"
  by (simp add: copies_def)

section \<open>Numbers\<close>

lemma attach_room: "writer_shape w p \<Longrightarrow> fits (w_pending w) p \<Longrightarrow> has_room w p n h \<Longrightarrow> 0 < n \<Longrightarrow> \<not> attach_fails w p code"
  by (simp add: attach_fails_def has_room_def writer_shapeD(9))

lemma text_has_room:
  "writer_shape w p \<Longrightarrow> fits (w_pending w) p \<Longrightarrow> has_room w p n h \<Longrightarrow> 0 < n \<Longrightarrow> sz \<le> maximum_bytes (w_limits w) \<Longrightarrow> \<not> text_fails w p sz code"
  by (simp add: text_fails_def attach_room)

lemma sint_of_int_u64: "- (2 ^ 63) \<le> i \<Longrightarrow> i < 2 ^ 63 \<Longrightarrow> sint (of_int i :: u64) = i"
  by (simp add: signed_of_int signed_take_bit_int_eq_self)

lemma value_number_denotes: "denotes d h (JNum n) \<Longrightarrow> value_number_text (Some d) h True = Ret n"
  using text_view_denotes [of d h "JNum n" TYPE_NUMBER] by (simp add: value_number_text_def)

text \<open>The two readers on a number the writer carries, and on one it does not.\<close>

lemma copy_reader_unsigned:
  assumes "denotes d h (JNum n)" "\<not> lexeme_negative n"
  shows "value_u64 (Some d) h True =
    (if \<not> carried n then Fail ERR_RANGE
     else if integral_lexeme n then Ret (of_nat (integer_part n)) else Fail ERR_NOT_INTEGER)"
proof -
  have m: "unat UINT64_MAX = 2 ^ 64 - 1" by (simp add: UINT64_MAX_def)
  then have c: "unat UINT64_MAX < integer_part n \<longleftrightarrow> \<not> carried n" using assms(2) by (auto simp: carried_def)
  have "9 \<le> unat UINT64_MAX" unfolding m by simp
  from lexeme_magnitude_exact [OF this, of n] show ?thesis
    unfolding c using read_magnitude_denotes [OF assms(1), of UINT64_MAX] assms(2) by (simp add: value_u64_def)
qed

lemma copy_reader_signed:
  assumes "denotes d h (JNum n)" "lexeme_negative n"
  shows "value_i64 (Some d) h True =
    (if \<not> carried n then Fail ERR_RANGE
     else if integral_lexeme n then Ret (of_int (- int (integer_part n))) else Fail ERR_NOT_INTEGER)"
proof -
  have m: "unat minimum_magnitude = 2 ^ 63" by (simp add: minimum_magnitude_def)
  then have c: "unat minimum_magnitude < integer_part n \<longleftrightarrow> \<not> carried n" using assms(2) by (auto simp: carried_def)
  have nine: "9 \<le> unat minimum_magnitude" unfolding m by simp
  have "- minimum_magnitude = minimum_magnitude" by (simp add: minimum_magnitude_def)
  then have neg: "(if x = minimum_magnitude then Ret minimum_magnitude else Ret (- x)) = (Ret (- x) :: (result, u64) outcome)" for x by auto
  show ?thesis
    using lexeme_magnitude_exact [OF nine, of n] read_magnitude_denotes [OF assms(1), of minimum_magnitude] assms(2)
    unfolding c by (simp add: value_i64_def neg cong: if_cong)
qed

text \<open>An integer rendered again is its lexeme, but for \<open>-0\<close>.\<close>

lemma rendered_unsigned:
  assumes "json_number n" "integral_lexeme n" "carried n" "\<not> lexeme_negative n"
  shows "decimal (unat (of_nat (integer_part n) :: u64)) = n" "copied_lexeme n = n"
proof -
  have "unat (of_nat (integer_part n) :: u64) = integer_part n"
    using assms(3,4) unfolding carried_def by (intro unat_of_nat_u64) simp
  then show "decimal (unat (of_nat (integer_part n) :: u64)) = n"
    using json_number_integer [OF assms(1,2)] assms(4) by simp
  show "copied_lexeme n = n" using assms(4) by (auto simp: copied_lexeme_def lexeme_negative_def)
qed

lemma rendered_signed:
  assumes "json_number n" "integral_lexeme n" "carried n" "lexeme_negative n"
  shows "decimal_int (sint (of_int (- int (integer_part n)) :: u64)) = copied_lexeme n"
proof -
  note i = json_number_integer [OF assms(1,2)]
  have s: "sint (of_int (- int (integer_part n)) :: u64) = - int (integer_part n)"
    using assms(3,4) unfolding carried_def by (intro sint_of_int_u64) simp_all
  show ?thesis
  proof (cases "integer_part n = 0")
    case True
    then have "n = [MINUS, 0x30]" using i(2) assms(4) by (simp add: decimal.simps)
    then show ?thesis using True s by (simp add: copied_lexeme_def decimal_int_def decimal.simps)
  next
    case False
    have "n \<noteq> [MINUS, 0x30]" using i(2) assms(4) False digits_value_decimal [of "integer_part n"]
      by (auto simp: Prelude.digits_value_def digit_value_def)
    then show ?thesis using False i(2) assms(4) s by (simp add: copied_lexeme_def decimal_int_def)
  qed
qed

lemma copy_number_copies:
  assumes w: "writer_base w" "w_failure w = OK" "\<not> w_finished w" "writer_shape w p" and v: "holds_value d h (JNum n)"
  shows "copies w (copy_room w p (JNum n)) (place (w_pending w) (JNum (copied_lexeme n)) p) (copy_number (Some d) h w)"
proof -
  have dn: "denotes d h (JNum n)" and g: "json_number n" using v by (simp_all add: holds_value_def)
  have neg: "n \<noteq> [] \<and> n ! 0 = MINUS \<longleftrightarrow> lexeme_negative n" by (simp add: lexeme_negative_def)
  let ?lex = "write_number_lexeme (Some n) (length n) (maximum_bytes (w_limits w)) w"
  have e: "copy_number (Some d) h w =
    (if lexeme_negative n then (case value_i64 (Some d) h True of
        Ret x \<Rightarrow> writer_i64 x w | Fail code \<Rightarrow> if code \<noteq> ERR_NOT_INTEGER then (Fail code, w) else ?lex | Stuck \<Rightarrow> (Stuck, w))
     else (case value_u64 (Some d) h True of
        Ret x \<Rightarrow> writer_u64 x w | Fail code \<Rightarrow> if code \<noteq> ERR_NOT_INTEGER then (Fail code, w) else ?lex | Stuck \<Rightarrow> (Stuck, w)))"
    unfolding copy_number_def reading_def value_number_denotes [OF dn] andthen.simps Let_def neg ..
  have lex: "copies w (copy_room w p (JNum n)) (place (w_pending w) (JNum n) p) ?lex"
  proof (cases "length n \<le> maximum_bytes (w_limits w)")
    case True
    then show ?thesis
      by (intro copies_of_writes [OF number_lexeme_writes [OF w True, of n, unfolded take_all [OF order.refl]]])
        (use g w(4) text_has_room in \<open>auto simp: number_syntax_grammar copy_room_def\<close>)
  next
    case False
    then show ?thesis using w by (simp add: write_number_lexeme_def copies_def copy_room_def)
  qed
  have room: "\<And>code. copy_room w p (JNum n) \<Longrightarrow> \<not> attach_fails w p code"
    using attach_room [OF w(4)] by (auto simp: copy_room_def)
  show ?thesis
  proof (cases "carried n")
    case False
    then have "copy_number (Some d) h w = (Fail ERR_RANGE, w)"
      unfolding e using copy_reader_signed [OF dn] copy_reader_unsigned [OF dn] by simp
    then show ?thesis using w False by (simp add: copies_def copy_room_def)
  next
    case c: True
    show ?thesis
    proof (cases "integral_lexeme n")
      case False
      then have "copied_lexeme n = n" by (auto simp: copied_lexeme_def integral_lexeme_def unsigned_part_def lexeme_negative_def is_digit_def)
      moreover have "copy_number (Some d) h w = ?lex"
        unfolding e using copy_reader_signed [OF dn] copy_reader_unsigned [OF dn] c False by simp
      ultimately show ?thesis using lex by simp
    next
      case True
      show ?thesis
      proof (cases "lexeme_negative n")
        case False
        have "copy_number (Some d) h w = writer_u64 (of_nat (integer_part n)) w"
          unfolding e using copy_reader_unsigned [OF dn False] c False True by simp
        then show ?thesis
          using copies_of_writes [OF writer_u64_writes [OF w, where x = "of_nat (integer_part n)"] room] rendered_unsigned [OF g True c False]
          by simp
      next
        case neg: True
        have "copy_number (Some d) h w = writer_i64 (of_int (- int (integer_part n))) w"
          unfolding e using copy_reader_signed [OF dn neg] c neg True by simp
        then show ?thesis
          using copies_of_writes [OF writer_i64_writes [OF w, where x = "of_int (- int (integer_part n))"] room]
          unfolding rendered_signed [OF g True c neg] by (simp only:)
      qed
    qed
  qed
qed

section \<open>Containers\<close>

lemma copies_mono: "copies w room q m \<Longrightarrow> (room' \<Longrightarrow> room) \<Longrightarrow> copies w room' q m"
  by (auto simp: copies_def split: prod.splits outcome.splits)

lemma has_room_step:
  assumes "has_room w p (a + b) h" "same_writer w w'"
    "length (progress_nodes q) = length (progress_nodes p) + a" "length (progress_stack q) + h' \<le> length (progress_stack p) + h"
  shows "has_room w' q b h'"
  using assms by (simp add: has_room_def same_writer_def)

lemma has_room_less: "has_room w p n h \<Longrightarrow> n' \<le> n \<Longrightarrow> h' \<le> h \<Longrightarrow> has_room w p n' h'"
  by (simp add: has_room_def)

lemma place_size:
  "fits k p \<Longrightarrow> length (progress_nodes (place k v p)) = length (progress_nodes p) + tree_size v"
  "fits k p \<Longrightarrow> length (progress_stack (place k v p)) = length (progress_stack p)"
  by (simp_all add: place_nodes place_stack)

text \<open>The writer a step of a copy starts from.\<close>

definition at :: "writer \<Rightarrow> progress \<Rightarrow> nat \<Rightarrow> bool" where
  "at w p levels \<longleftrightarrow> writer_base w \<and> w_failure w = OK \<and> \<not> w_finished w \<and> writer_shape w p \<and>
     maximum_depth (w_limits w) < length (progress_stack p) + levels"

lemma atD: "at w p levels \<Longrightarrow> writer_base w" "at w p levels \<Longrightarrow> w_failure w = OK" "at w p levels \<Longrightarrow> \<not> w_finished w"
  "at w p levels \<Longrightarrow> writer_shape w p"
  by (simp_all add: at_def)

lemma at_step:
  "at w p levels \<Longrightarrow> writer_base w' \<Longrightarrow> same_writer w w' \<Longrightarrow> w_failure w' = OK \<Longrightarrow> writer_shape w' q \<Longrightarrow>
   length (progress_stack p) + levels \<le> length (progress_stack q) + levels' \<Longrightarrow> at w' q levels'"
  by (simp add: at_def same_writer_def)

definition copier :: "document \<Rightarrow> nat \<Rightarrow> value_copier \<Rightarrow> bool" where
  "copier d levels copy \<longleftrightarrow>
     (\<forall>h v w p. holds_value d h v \<longrightarrow> at w p levels \<longrightarrow>
        copies w (copy_room w p v) (place (w_pending w) (copied v) p) (copy h w))"

lemma copierD:
  assumes "copier d levels copy" "holds_value d h v" "at w p levels" "room \<Longrightarrow> copy_room w p v"
  shows "copies w room (place (w_pending w) (copied v) p) (copy h w)"
  using assms copies_mono unfolding copier_def by blast

definition elements_room :: "writer \<Rightarrow> progress \<Rightarrow> json list \<Rightarrow> nat \<Rightarrow> bool" where
  "elements_room w p vs height \<longleftrightarrow>
     has_room w p (trees_size vs) height \<and>
     (\<forall>v \<in> set vs. json_height v \<le> height \<and> portable (w_profile w) (maximum_bytes (w_limits w)) v)"

lemma copy_elements_copies:
  assumes copy: "copier d levels copy" and v: "holds_value d h (JArr vs)"
  shows "i + n = length vs \<Longrightarrow> at w (Building ((k, JArr us) # fs)) levels \<Longrightarrow> w_pending w = None \<Longrightarrow>
    (room \<Longrightarrow> elements_room w (Building ((k, JArr us) # fs)) (drop i vs) height) \<Longrightarrow>
    copies w room (Building ((k, JArr (us @ map copied (drop i vs))) # fs)) (copy_elements copy (Some d) h i n w)"
proof (induction n arbitrary: i w us)
  case 0
  then show ?case by (simp add: copies_def at_def)
next
  case (Suc n)
  let ?p = "Building ((k, JArr us) # fs)" and ?v = "vs ! i" and ?h = "element_handles (h + 1) vs ! i"
  have i: "i < length vs" using Suc.prems(1) by simp
  have dn: "denotes d h (JArr vs)" using v by (simp add: holds_value_def)
  have split: "drop i vs = ?v # drop (i + 1) vs" using i by (simp add: Cons_nth_drop_Suc)
  have e: "copy_elements copy (Some d) h i (Suc n) w = andthen (copy ?h w) (\<lambda>_ w. copy_elements copy (Some d) h (i + 1) n w)"
    using array_get_denotes [OF dn, of i] i by (simp add: reading_def)
  have one: "copies w room (place (w_pending w) (copied ?v) ?p) (copy ?h w)"
    by (rule copierD [OF copy holds_element [OF v i] Suc.prems(2)])
      (use Suc.prems(3,4) split in \<open>auto simp: copy_room_def elements_room_def intro: has_room_less\<close>)
  let ?q = "Building ((k, JArr (us @ [copied ?v])) # fs)"
  have q: "place (w_pending w) (copied ?v) ?p = ?q" using Suc.prems(3) by simp
  show ?case
    unfolding e
  proof (rule copies_andthen [OF one [unfolded q]])
    fix x w' assume w': "writer_base w'" "same_writer w w'" "w_failure w' = OK" "writer_shape w' ?q" "w_pending w' = None"
    have "at w' ?q levels" by (rule at_step [OF Suc.prems(2) w'(1-4)]) simp
    moreover have "elements_room w' ?q (drop (i + 1) vs) height" if room
    proof -
      have "elements_room w ?p (?v # drop (i + 1) vs) height" using Suc.prems(4) [OF that] split by simp
      then show ?thesis using w'(2)
        by (auto simp: elements_room_def same_writer_def element_nodes_append elim!: has_room_step [OF _ w'(2)])
    qed
    ultimately have "copies w' room (Building ((k, JArr ((us @ [copied ?v]) @ map copied (drop (i + 1) vs))) # fs))
        (copy_elements copy (Some d) h (i + 1) n w')"
      using Suc.prems(1) w'(5) by (intro Suc.IH) simp_all
    then show "copies w' room (Building ((k, JArr (us @ map copied (drop i vs))) # fs)) (copy_elements copy (Some d) h (i + 1) n w')"
      using split by simp
  qed
qed

definition members_room :: "writer \<Rightarrow> progress \<Rightarrow> (bytes \<times> json) list \<Rightarrow> nat \<Rightarrow> bool" where
  "members_room w p ms height \<longleftrightarrow>
     has_room w p (member_trees_size ms) height \<and> distinct (top_members p @ map fst ms) \<and>
     (\<forall>(k, v) \<in> set ms. json_height v \<le> height \<and> valid_bytes (w_profile w) k \<and> length k \<le> maximum_bytes (w_limits w) \<and>
        portable (w_profile w) (maximum_bytes (w_limits w)) v)"

text \<open>A key and its member.\<close>

lemma copy_member_copies:
  assumes copy: "copier d levels copy" and c: "holds_value d c v"
    and w: "at w (Building ((k, JObj us) # fs)) levels" "w_pending w = None"
    and room: "room \<Longrightarrow> members_room w (Building ((k, JObj us) # fs)) ((key, v) # ms) height"
    and rest: "\<And>w'. at w' (Building ((k, JObj (us @ [(key, copied v)])) # fs)) levels \<Longrightarrow> same_writer w w' \<Longrightarrow> w_pending w' = None \<Longrightarrow>
      (room \<Longrightarrow> members_room w' (Building ((k, JObj (us @ [(key, copied v)])) # fs)) ms height) \<Longrightarrow> copies w' room q (f w')"
  shows "copies w room q
    (andthen (writer_key (Some key) (length key) w) (\<lambda>_ w. andthen (copy c w) (\<lambda>_ w. f w)))"
proof -
  let ?p = "Building ((k, JObj us) # fs)" and ?q = "Building ((k, JObj (us @ [(key, copied v)])) # fs)"
  show ?thesis
  proof (cases "valid_text (w_profile w) (Some key) (length key)")
    case False
    then have "writer_key (Some key) (length key) w = (Fail ERR_ARGUMENT, w)" by (simp add: writer_key_def)
    moreover have "\<not> room" using room False by (auto simp: members_room_def valid_bytes_def)
    ultimately show ?thesis using w by (simp add: copies_def at_def)
  next
    case True
    note kw = writer_key_writes [OF atD [OF w(1)] True]
    have ky: "text_bytes (Some key) (length key) = key" by (simp add: text_bytes_def)
    show ?thesis
    proof (rule copies_writes_andthen [OF kw [unfolded ky]])
      fix code assume room
      from room [OF this] show "\<not> key_fails w ?p (length key) key code"
        using w(2) by (auto simp: key_fails_def members_room_def closable_def has_room_def)
    next
      fix x w1 assume w1: "writer_base w1" "same_writer w w1" "w_failure w1 = OK" "writer_shape w1 ?p" "w_pending w1 = Some key"
      have at1: "at w1 ?p levels" by (rule at_step [OF w(1) w1(1-4)]) simp
      have "copies w1 room (place (w_pending w1) (copied v) ?p) (copy c w1)"
      proof (rule copierD [OF copy c at1])
        assume room
        note r = room [OF this]
        have "has_room w1 ?p (member_trees_size ((key, v) # ms)) height"
          using r w1(2) by (simp add: members_room_def has_room_def same_writer_def)
        then show "copy_room w1 ?p v" using r w1(2,5)
          by (auto simp: copy_room_def members_room_def same_writer_def intro: has_room_less)
      qed
      then have one: "copies w1 room ?q (copy c w1)" using w1(5) by simp
      show "copies w1 room q (andthen (copy c w1) (\<lambda>_ w. f w))"
      proof (rule copies_andthen [OF one])
        fix x w2 assume w2: "writer_base w2" "same_writer w1 w2" "w_failure w2 = OK" "writer_shape w2 ?q" "w_pending w2 = None"
        note same = same_writer_trans [OF w1(2) w2(2)]
        have "at w2 ?q levels" by (rule at_step [OF at1 w2(1-4)]) simp
        moreover have "members_room w2 ?q ms height" if room
          using room [OF that] same
          by (auto simp: members_room_def same_writer_def member_nodes_append elim!: has_room_step [OF _ same])
        ultimately show "copies w2 room q (f w2)" using rest same w2(5) by blast
      qed
    qed
  qed
qed

lemma copy_members_copies:
  assumes copy: "copier d levels copy" and v: "holds_value d h (JObj ms)"
  shows "i + n = length ms \<Longrightarrow> at w (Building ((k, JObj us) # fs)) levels \<Longrightarrow> w_pending w = None \<Longrightarrow>
    (room \<Longrightarrow> members_room w (Building ((k, JObj us) # fs)) (drop i ms) height) \<Longrightarrow>
    copies w room (Building ((k, JObj (us @ map (\<lambda>(k, v). (k, copied v)) (drop i ms))) # fs)) (copy_members copy (Some d) h i n w)"
proof (induction n arbitrary: i w us)
  case 0
  then show ?case by (simp add: copies_def at_def)
next
  case (Suc n)
  obtain key v where kv: "ms ! i = (key, v)" by fastforce
  let ?c = "member_handles (h + 1) ms ! (2 * i + 1)"
  have i: "i < length ms" using Suc.prems(1) by simp
  have dn: "denotes d h (JObj ms)" using v by (simp add: holds_value_def)
  have split: "drop i ms = (key, v) # drop (i + 1) ms" using i kv by (metis Cons_nth_drop_Suc Suc_eq_plus1)
  have e: "copy_members copy (Some d) h i (Suc n) w =
    andthen (writer_key (Some key) (length key) w) (\<lambda>_ w. andthen (copy ?c w) (\<lambda>_ w. copy_members copy (Some d) h (i + 1) n w))"
    using object_member_at_denotes [OF dn, of i] i kv by (simp add: reading_def)
  have c: "holds_value d ?c v" using holds_member [OF v i] kv by simp
  show ?case
    unfolding e
  proof (rule copy_member_copies [OF copy c Suc.prems(2,3)])
    show "members_room w (Building ((k, JObj us) # fs)) ((key, v) # drop (i + 1) ms) height" if room
      using Suc.prems(4) [OF that] split by simp
  next
    fix w' assume w': "at w' (Building ((k, JObj (us @ [(key, copied v)])) # fs)) levels" "w_pending w' = None"
      "room \<Longrightarrow> members_room w' (Building ((k, JObj (us @ [(key, copied v)])) # fs)) (drop (i + 1) ms) height"
    have "copies w' room (Building ((k, JObj ((us @ [(key, copied v)]) @ map (\<lambda>(k, v). (k, copied v)) (drop (i + 1) ms))) # fs))
        (copy_members copy (Some d) h (i + 1) n w')"
      using Suc.prems(1) w' by (intro Suc.IH) simp_all
    then show "copies w' room (Building ((k, JObj (us @ map (\<lambda>(k, v). (k, copied v)) (drop i ms))) # fs))
        (copy_members copy (Some d) h (i + 1) n w')"
      using split by simp
  qed
qed

text \<open>Opening a container, its children, and its end.\<close>

lemma container_copies:
  assumes w: "at w p (Suc levels)" and type: "type \<in> {TYPE_OBJECT, TYPE_ARRAY}" "json_type_of v = type"
    and room: "room \<Longrightarrow> fits (w_pending w) p \<and> has_room w p (1 + n) (1 + height)"
    and body: "\<And>w' fs. p = Building fs \<Longrightarrow> fits (w_pending w) p \<Longrightarrow>
      at w' (Building ((w_pending w, empty_container type) # fs)) levels \<Longrightarrow> same_writer w w' \<Longrightarrow> w_pending w' = None \<Longrightarrow>
      (room \<Longrightarrow> has_room w' (Building ((w_pending w, empty_container type) # fs)) n height) \<Longrightarrow>
      copies w' room (Building ((w_pending w, v) # fs)) (m w')"
  shows "copies w room (place (w_pending w) v p)
    (andthen (container_begin type w) (\<lambda>_ w. andthen (m w) (\<lambda>_ w. container_end type w)))"
proof (rule copies_writes_andthen [OF container_begin_writes [OF atD [OF w] type(1)]])
  fix code assume room
  note r = room [OF this]
  then show "\<not> begin_fails w p code"
    using attach_room [OF atD(4) [OF w], of "1 + n" "1 + height"] by (auto simp: begin_fails_def has_room_def)
next
  fix x w' assume w': "writer_base w'" "same_writer w w'" "w_failure w' = OK" "fits (w_pending w) p"
    "writer_shape w' (open_frame (w_pending w) (empty_container type) p)" "w_pending w' = None"
  obtain fs where p: "p = Building fs" using w'(4) by (cases p) auto
  let ?q = "Building ((w_pending w, empty_container type) # fs)" and ?r = "Building ((w_pending w, v) # fs)"
  have shape: "writer_shape w' ?q" using w'(5) p by simp
  have "at w' ?q levels" by (rule at_step [OF w w'(1-3) shape]) (simp add: p)
  moreover have "has_room w' ?q n height" if room
    using room [OF that] by (intro has_room_step [OF _ w'(2), of p 1 n "1 + height"]) (auto simp: p empty_container_def)
  ultimately have one: "copies w' room ?r (m w')" using p w' by (intro body) simp_all
  show "copies w' room (place (w_pending w) v p) (andthen (m w') (\<lambda>_ w. container_end type w))"
  proof (rule copies_andthen [OF one])
    fix y w2 assume w2: "writer_base w2" "same_writer w' w2" "w_failure w2 = OK" "writer_shape w2 ?r" "w_pending w2 = None"
    have fin: "\<not> w_finished w2" using atD(3) [OF w] w'(2) w2(2) by (simp add: same_writer_def)
    have "closable w2 ?r type" using w2(5) type(2) by (simp add: closable_def)
    then have "copies w2 room (close_frame ?r) (container_end type w2)"
      by (intro copies_of_writes [OF container_end_writes [OF w2(1,3) fin w2(4)]]) simp
    then show "copies w2 room (place (w_pending w) v p) (container_end type w2)" using p by simp
  qed
qed

text \<open>A handle of a string, be it the key of a member.\<close>

lemma copy_string_copies:
  assumes "value_type (Some d) h = TYPE_STRING" "value_string (Some d) h True = Ret s" "at w p (Suc levels)"
  shows "copies w (copy_room w p (JStr s)) (place (w_pending w) (JStr s) p) (copy_value (Suc levels) (Some d) h w)"
proof -
  have "copies w (copy_room w p (JStr s)) (place (w_pending w) (JStr s) p) (writer_string (Some s) (length s) w)"
  proof (cases "valid_text (w_profile w) (Some s) (length s)")
    case True
    show ?thesis
      by (rule copies_of_writes [OF writer_string_writes [OF atD [OF assms(3)] True, unfolded text_bytes_def option.case take_all [OF order.refl]]])
        (use atD(4) [OF assms(3)] text_has_room in \<open>auto simp: copy_room_def\<close>)
  next
    case False
    then show ?thesis using assms(3) by (simp add: writer_string_def copies_def at_def copy_room_def valid_bytes_def)
  qed
  then show ?thesis using assms(1,2) by (simp add: reading_def)
qed

lemma copier_levels: "copier d levels (copy_value levels (Some d))"
proof (induction levels)
  case 0
  have False if "at w p 0" for w p
    using that stack_depth [OF writer_shapeD(5) [OF atD(4) [OF that]]] by (simp add: at_def)
  then show ?case by (auto simp: copier_def)
next
  case (Suc levels)
  show ?case
    unfolding copier_def
  proof (intro allI impI)
    fix h v w p assume v: "holds_value d h v" and w: "at w p (Suc levels)"
    have dn: "denotes d h v" using v by (simp add: holds_value_def)
    note ty = value_type_denotes [OF dn]
    have room: "\<not> attach_fails w p code" if "copy_room w p v" for code
      using that attach_room [OF atD(4) [OF w]] tree_size_positive [of v] by (auto simp: copy_room_def)
    show "copies w (copy_room w p v) (place (w_pending w) (copied v) p) (copy_value (Suc levels) (Some d) h w)"
    proof (cases v)
      case JNull
      then show ?thesis using copies_of_writes [OF writer_null_writes [OF atD [OF w]] room] ty by simp
    next
      case (JBool b)
      have "value_boolean (Some d) h True = Ret b" using value_boolean_denotes [OF dn] JBool by simp
      then show ?thesis
        using copies_of_writes [OF writer_boolean_writes [OF atD [OF w], where b = b] room] ty JBool by (simp add: reading_def)
    next
      case (JNum n)
      then show ?thesis using copy_number_copies [OF atD [OF w], of d h n] v ty by simp
    next
      case (JStr s)
      have s: "value_string (Some d) h True = Ret s"
        using text_view_denotes [OF dn, of TYPE_STRING] JStr by (simp add: value_string_def)
      then show ?thesis using copy_string_copies [OF _ s w] ty JStr by simp
    next
      case (JArr vs)
      let ?H = "json_height (JArr vs) - 1"
      have hs: "\<forall>v \<in> set vs. json_height v \<le> ?H" "json_height (JArr vs) = 1 + ?H"
        using json_height_bound(1) [of vs "json_height (JArr vs)"] by auto
      have e: "copy_value (Suc levels) (Some d) h w =
        andthen (container_begin TYPE_ARRAY w) (\<lambda>_ w. andthen (copy_elements (copy_value levels (Some d)) (Some d) h 0 (length vs) w)
          (\<lambda>_ w. container_end TYPE_ARRAY w))"
        using ty array_size_denotes [OF dn] JArr
        by (simp add: copy_array_def reading_def writer_array_begin_def writer_array_end_def)
      show ?thesis
        unfolding e
      proof (rule container_copies [OF w, where n = "trees_size vs" and height = ?H])
        assume r: "copy_room w p v"
        show "fits (w_pending w) p \<and> has_room w p (1 + trees_size vs) (1 + ?H)"
          using r unfolding JArr copy_room_def hs(2) [symmetric] by simp
      next
        fix w' fs assume "at w' (Building ((w_pending w, empty_container TYPE_ARRAY) # fs)) levels" "same_writer w w'" "w_pending w' = None"
          "copy_room w p v \<Longrightarrow> has_room w' (Building ((w_pending w, empty_container TYPE_ARRAY) # fs)) (trees_size vs) ?H"
        then show "copies w' (copy_room w p v) (Building ((w_pending w, copied v) # fs))
            (copy_elements (copy_value levels (Some d)) (Some d) h 0 (length vs) w')"
          using copy_elements_copies [OF Suc.IH v [unfolded JArr], of 0 "length vs" w' "w_pending w" "[]" fs "copy_room w p v" ?H] hs(1)
          by (simp add: empty_container_def JArr elements_room_def copy_room_def same_writer_def)
      qed (simp_all add: JArr)
    next
      case (JObj ms)
      let ?H = "json_height (JObj ms) - 1"
      have hs: "\<forall>(k, v) \<in> set ms. json_height v \<le> ?H" "json_height (JObj ms) = 1 + ?H"
        using json_height_bound(2) [of ms "json_height (JObj ms)"] by auto
      have e: "copy_value (Suc levels) (Some d) h w =
        andthen (container_begin TYPE_OBJECT w) (\<lambda>_ w. andthen (copy_members (copy_value levels (Some d)) (Some d) h 0 (length ms) w)
          (\<lambda>_ w. container_end TYPE_OBJECT w))"
        using ty object_size_denotes [OF dn] JObj
        by (simp add: copy_object_def reading_def writer_object_begin_def writer_object_end_def)
      show ?thesis
        unfolding e
      proof (rule container_copies [OF w, where n = "member_trees_size ms" and height = ?H])
        assume r: "copy_room w p v"
        show "fits (w_pending w) p \<and> has_room w p (1 + member_trees_size ms) (1 + ?H)"
          using r unfolding JObj copy_room_def hs(2) [symmetric] by simp
      next
        fix w' fs assume "at w' (Building ((w_pending w, empty_container TYPE_OBJECT) # fs)) levels" "same_writer w w'" "w_pending w' = None"
          "copy_room w p v \<Longrightarrow> has_room w' (Building ((w_pending w, empty_container TYPE_OBJECT) # fs)) (member_trees_size ms) ?H"
        then show "copies w' (copy_room w p v) (Building ((w_pending w, copied v) # fs))
            (copy_members (copy_value levels (Some d)) (Some d) h 0 (length ms) w')"
          using copy_members_copies [OF Suc.IH v [unfolded JObj], of 0 "length ms" w' "w_pending w" "[]" fs "copy_room w p v" ?H] hs(1)
          by (fastforce simp: empty_container_def JObj members_room_def copy_room_def same_writer_def)
      qed (simp_all add: JObj)
    qed
  qed
qed

section \<open>The public copies\<close>

text \<open>What a handle of a parsed document names: a value, or the key of a member.\<close>

definition parsed_document :: "document \<Rightarrow> bool" where
  "parsed_document d \<longleftrightarrow> (\<exists>root. represents d root \<and> grammatical root)"

definition names_value :: "document \<Rightarrow> nat \<Rightarrow> json \<Rightarrow> bool" where
  "names_value d h v \<longleftrightarrow>
     holds_value d h v \<or>
     h < length (d_tokens d) \<and> ttype (d_tokens d ! h) = TYPE_STRING \<and> v = JStr (token_text (arena d) (d_tokens d ! h))"

lemma grammatical_subvalues:
  "(up', h, w) \<in> set (subvalues up i v) \<Longrightarrow> grammatical v \<Longrightarrow> grammatical w"
  "(up', h, w) \<in> set (sub_elements up i vs) \<Longrightarrow> \<forall>v \<in> set vs. grammatical v \<Longrightarrow> grammatical w"
  "(up', h, w) \<in> set (sub_members up i ms) \<Longrightarrow> \<forall>(k, v) \<in> set ms. grammatical v \<Longrightarrow> grammatical w"
  by (induction up i v and up i vs and up i ms rule: layout_layout_elements_layout_members.induct) auto

lemma names_value_exists:
  assumes "parsed_document d" "value_type (Some d) h \<noteq> TYPE_NONE"
  shows "\<exists>v. names_value d h v"
proof -
  obtain root where r: "represents d root" "grammatical root" using assms(1) by (auto simp: parsed_document_def)
  show ?thesis
    using r(1)
  proof (cases rule: handle_cases [where h = h])
    case (1 v)
    then obtain root' up where r': "represents d root'" "(up, h, v) \<in> set (subvalues VALUE_NONE 0 root')" by (auto simp: denotes_def)
    have "root' = root" using r(1) r'(1) represents_unique by blast
    then have "grammatical v" using r'(2) r(2) grammatical_subvalues(1) by blast
    then show ?thesis using 1 by (auto simp: names_value_def holds_value_def)
  next
    case 2
    then show ?thesis by (auto simp: names_value_def)
  next
    case 3
    then show ?thesis using assms(2) by (simp add: value_type_def)
  qed
qed

lemma names_value_copies:
  assumes "names_value d h v" "at w p (Suc levels)"
  shows "copies w (copy_room w p v) (place (w_pending w) (copied v) p) (copy_value (Suc levels) (Some d) h w)"
proof (cases "holds_value d h v")
  case True
  then show ?thesis using copier_levels [of d "Suc levels"] assms(2) unfolding copier_def by blast
next
  case False
  then have h: "h < length (d_tokens d)" "ttype (d_tokens d ! h) = TYPE_STRING" "v = JStr (token_text (arena d) (d_tokens d ! h))"
    using assms(1) by (auto simp: names_value_def)
  have "value_type (Some d) h = TYPE_STRING" "value_string (Some d) h True = Ret (token_text (arena d) (d_tokens d ! h))"
    using h(1,2) by (simp_all add: value_type_def value_string_def text_view_def token_of_def)
  from copy_string_copies [OF this assms(2)] show ?thesis using h(3) by simp
qed

text \<open>After a copy that failed the writer is failed, whatever the code.\<close>

definition copies_or_fails :: "writer \<Rightarrow> bool \<Rightarrow> progress \<Rightarrow> unit call \<Rightarrow> bool" where
  "copies_or_fails w room q m \<longleftrightarrow>
     (case m of (r, w') \<Rightarrow>
        writer_base w' \<and> same_writer w w' \<and>
        (case r of
           Ret x \<Rightarrow> w_failure w' = OK \<and> writer_shape w' q \<and> w_pending w' = None
         | Fail code \<Rightarrow> \<not> room \<and> code \<noteq> OK \<and> w_failure w' = (if code = ERR_ARGUMENT then ERR_STATE else code)
         | Stuck \<Rightarrow> False))"

lemma copies_or_fails:
  assumes "copies w room q m"
  shows "copies_or_fails w room q (or_failed m)"
proof -
  obtain r w' where m: "m = (r, w')" by (cases m)
  show ?thesis
  proof (cases r)
    case (Fail code)
    have c: "writer_base w'" "same_writer w w'" "\<not> room" "code \<noteq> OK" "w_failure w' = OK \<or> w_failure w' = code \<and> code \<noteq> ERR_ARGUMENT"
      using assms m Fail by (simp_all add: copies_def)
    have "writer_base (w'\<lparr>w_failure := x\<rparr>)" "same_writer w (w'\<lparr>w_failure := x\<rparr>)" for x
      using c(1,2) by (simp_all add: writer_base_def same_writer_def)
    then show ?thesis using c m Fail
      by (auto simp: copies_or_fails_def or_failed_def copy_failed_def writer_fail_def)
  qed (use assms m in \<open>simp_all add: copies_def copies_or_fails_def or_failed_def\<close>)
qed

lemma at_levels: "writer_base w \<Longrightarrow> w_failure w = OK \<Longrightarrow> \<not> w_finished w \<Longrightarrow> writer_shape w p \<Longrightarrow> at w p (copy_levels w)"
  by (simp add: at_def copy_levels_def)

lemma writer_value_copies:
  assumes w: "writer_base w" "w_failure w = OK" "\<not> w_finished w" "writer_shape w p"
    and v: "names_value d h v" "value_type (Some d) h \<noteq> TYPE_NONE"
  shows "copies_or_fails w (copy_room w p v) (place (w_pending w) (copied v) p) (writer_value (Some d) h w)"
  using copies_or_fails [OF names_value_copies [OF v(1), of w p "maximum_depth (w_limits w)"]] at_levels [OF w] v(2) w(2,3)
  by (simp add: writer_value_def copy_levels_def)

definition kept_members :: "bytes list \<Rightarrow> (bytes \<times> json) list \<Rightarrow> (bytes \<times> json) list" where
  "kept_members excluded ms = filter (\<lambda>(k, v). \<not> key_excluded k excluded) ms"

lemma copy_kept_members_copies:
  assumes copy: "copier d levels copy" and v: "holds_value d h (JObj ms)"
  shows "i + n = length ms \<Longrightarrow> at w (Building ((k, JObj us) # fs)) levels \<Longrightarrow> w_pending w = None \<Longrightarrow>
    (room \<Longrightarrow> members_room w (Building ((k, JObj us) # fs)) (kept_members excluded (drop i ms)) height) \<Longrightarrow>
    copies w room (Building ((k, JObj (us @ map (\<lambda>(k, v). (k, copied v)) (kept_members excluded (drop i ms)))) # fs))
      (copy_kept_members copy (Some d) h excluded i n w)"
proof (induction n arbitrary: i w us)
  case 0
  then show ?case by (simp add: copies_def at_def kept_members_def)
next
  case (Suc n)
  obtain key v where kv: "ms ! i = (key, v)" by fastforce
  let ?c = "member_handles (h + 1) ms ! (2 * i + 1)"
  have i: "i < length ms" using Suc.prems(1) by simp
  have dn: "denotes d h (JObj ms)" using v by (simp add: holds_value_def)
  have split: "drop i ms = (key, v) # drop (i + 1) ms" using i kv by (metis Cons_nth_drop_Suc Suc_eq_plus1)
  have e: "copy_kept_members copy (Some d) h excluded i (Suc n) w =
    (if key_excluded key excluded then copy_kept_members copy (Some d) h excluded (i + 1) n w
     else andthen (writer_key (Some key) (length key) w) (\<lambda>_ w. andthen (copy ?c w) (\<lambda>_ w. copy_kept_members copy (Some d) h excluded (i + 1) n w)))"
    using object_member_at_denotes [OF dn, of i] i kv by (simp add: reading_def)
  have c: "holds_value d ?c v" using holds_member [OF v i] kv by simp
  show ?case
  proof (cases "key_excluded key excluded")
    case True
    then have k: "kept_members excluded (drop i ms) = kept_members excluded (drop (i + 1) ms)" using split by (simp add: kept_members_def)
    show ?thesis unfolding e using True Suc.prems unfolding k by (simp add: Suc.IH)
  next
    case False
    then have k: "kept_members excluded (drop i ms) = (key, v) # kept_members excluded (drop (i + 1) ms)" using split by (simp add: kept_members_def)
    show ?thesis
      unfolding e if_not_P [OF False]
    proof (rule copy_member_copies [OF copy c Suc.prems(2,3)])
      show "members_room w (Building ((k, JObj us) # fs)) ((key, v) # kept_members excluded (drop (i + 1) ms)) height" if room
        using Suc.prems(4) [OF that] k by simp
    next
      fix w' assume w': "at w' (Building ((k, JObj (us @ [(key, copied v)])) # fs)) levels" "w_pending w' = None"
        "room \<Longrightarrow> members_room w' (Building ((k, JObj (us @ [(key, copied v)])) # fs)) (kept_members excluded (drop (i + 1) ms)) height"
      have "copies w' room (Building ((k, JObj ((us @ [(key, copied v)]) @ map (\<lambda>(k, v). (k, copied v)) (kept_members excluded (drop (i + 1) ms)))) # fs))
          (copy_kept_members copy (Some d) h excluded (i + 1) n w')"
        using Suc.prems(1) w' by (intro Suc.IH) simp_all
      then show "copies w' room (Building ((k, JObj (us @ map (\<lambda>(k, v). (k, copied v)) (kept_members excluded (drop i ms)))) # fs))
          (copy_kept_members copy (Some d) h excluded (i + 1) n w')"
        using k by simp
    qed
  qed
qed

lemma object_begin_except_copies:
  assumes w: "writer_base w" "w_failure w = OK" "\<not> w_finished w" "writer_shape w p" and v: "holds_value d h (JObj ms)"
    and keys: "\<not> (excluded_keys = None \<and> n \<noteq> 0)"
      "excluded = (case excluded_keys of None \<Rightarrow> [] | Some ks \<Rightarrow> take n ks)" "None \<notin> set excluded"
  shows "copies_or_fails w (copy_room w p (JObj (kept_members (map the excluded) ms)))
    (open_frame (w_pending w) (copied (JObj (kept_members (map the excluded) ms))) p)
    (writer_object_begin_except (Some d) h excluded_keys n w)"
proof -
  let ?ex = "map the excluded" and ?kept = "kept_members (map the excluded) ms"
  have dn: "denotes d h (JObj ms)" using v by (simp add: holds_value_def)
  have ty: "value_type (Some d) h = TYPE_OBJECT" using value_type_denotes [OF dn] by simp
  let ?fill = "\<lambda>w. copy_kept_members (copy_value (copy_levels w) (Some d)) (Some d) h ?ex 0 (length ms) w"
  have e: "writer_object_begin_except (Some d) h excluded_keys n w =
    andthen (container_begin TYPE_OBJECT w) (\<lambda>_ w. or_failed (?fill w))"
    using keys(1,3) ty w(2,3) object_size_denotes [OF dn]
    unfolding writer_object_begin_except_def Let_def keys(2) [symmetric] by (auto simp: reading_def writer_object_begin_def)
  obtain r w' where b: "container_begin TYPE_OBJECT w = (r, w')" by fastforce
  have begun: "writes w (begin_fails w p) (fits (w_pending w) p) (open_frame (w_pending w) (JObj []) p) None (r, w')"
    using container_begin_writes [OF w, of TYPE_OBJECT] b by (simp add: empty_container_def)
  let ?H = "json_height (JObj ?kept) - 1"
  have hs: "\<forall>(k, v) \<in> set ?kept. json_height v \<le> ?H" "json_height (JObj ?kept) = 1 + ?H"
    using json_height_bound(2) [of ?kept "json_height (JObj ?kept)"] by auto
  show ?thesis
  proof (cases r)
    case Stuck
    then show ?thesis using begun by (simp add: writes_def writer_ends_def)
  next
    case (Fail code)
    then have c: "writer_base w'" "same_writer w w'" "w_failure w' = code" "code \<noteq> OK" "code \<noteq> ERR_ARGUMENT" "begin_fails w p code"
      using begun by (simp_all add: writes_def writer_ends_def)
    have "\<not> copy_room w p (JObj ?kept)"
    proof
      assume r: "copy_room w p (JObj ?kept)"
      then have "has_room w p (1 + member_trees_size ?kept) (1 + ?H)" unfolding copy_room_def hs(2) [symmetric] by simp
      then show False using c(6) r attach_room [OF w(4), of "1 + member_trees_size ?kept" "1 + ?H" code]
        by (auto simp: begin_fails_def has_room_def copy_room_def split: if_splits)
    qed
    then show ?thesis using c unfolding e b Fail by (simp add: copies_or_fails_def)
  next
    case (Ret x)
    have c: "writer_base w'" "same_writer w w'" "w_failure w' = OK" "fits (w_pending w) p" "w_pending w' = None"
      "writer_shape w' (open_frame (w_pending w) (JObj []) p)"
      using begun Ret by (simp_all add: writes_def writer_ends_def)
    obtain fs where p: "p = Building fs" using c(4) by (cases p) auto
    let ?q = "Building ((w_pending w, JObj []) # fs)"
    have shape: "writer_shape w' ?q" using c(6) p by simp
    have fin: "\<not> w_finished w'" using w(3) c(2) by (simp add: same_writer_def)
    have "members_room w' ?q ?kept ?H" if r: "copy_room w p (JObj ?kept)"
    proof -
      have "has_room w p (1 + member_trees_size ?kept) (1 + ?H)" using r unfolding copy_room_def hs(2) [symmetric] by simp
      then have "has_room w' ?q (member_trees_size ?kept) ?H"
        by (rule has_room_step [OF _ c(2)]) (simp_all add: p)
      then show ?thesis using r hs(1) c(2) by (fastforce simp: members_room_def copy_room_def same_writer_def)
    qed
    then have "copies w' (copy_room w p (JObj ?kept)) (Building ((w_pending w, copied (JObj ?kept)) # fs)) (?fill w')"
      using copy_kept_members_copies [OF copier_levels v, of 0 "length ms" w' "w_pending w" "[]" fs "copy_levels w'" "copy_room w p (JObj ?kept)" ?ex ?H]
        at_levels [OF c(1,3) fin shape] c(5) by simp
    from copies_or_fails [OF this] show ?thesis
      using c(2) p unfolding e b Ret by (auto simp: copies_or_fails_def intro: same_writer_trans split: prod.splits outcome.splits)
  qed
qed

end
