(* ===== verification/Writer_Machine.thy ===== *)
theory Writer_Machine
  imports Writer_Copy Serialize_Correct
begin

text \<open>
  The writer as a state machine. \<open>writer_call\<close> is a public call, \<open>perform\<close> the code's answer to it,
  and \<open>writer_step\<close> the abstract machine, whose state is what is written and the pending key. A call
  on a usable writer is a step of that machine or fails for a reason the contract names; a failed
  or finished writer never changes again.
\<close>

section \<open>Calls\<close>

datatype writer_call =
    Object_begin
  | Object_end
  | Array_begin
  | Array_end
  | Key "bytes option" nat
  | Key_cstr "bytes option"
  | Text "bytes option" nat
  | Text_cstr "bytes option"
  | Unsigned u64
  | Signed u64
  | Number_text "bytes option" nat
  | Boolean bool
  | Null
  | Copy "document option" json_value
  | Copy_except "document option" json_value "bytes option list option" nat
  | Finish bool

definition discard :: "'a call \<Rightarrow> unit call" where
  "discard m = (case m of (Ret _, w) \<Rightarrow> (Ret (), w) | (Fail code, w) \<Rightarrow> (Fail code, w) | (Stuck, w) \<Rightarrow> (Stuck, w))"

fun perform :: "writer_call \<Rightarrow> writer \<Rightarrow> unit call" where
  "perform Object_begin w = writer_object_begin w"
| "perform Object_end w = writer_object_end w"
| "perform Array_begin w = writer_array_begin w"
| "perform Array_end w = writer_array_end w"
| "perform (Key src sz) w = writer_key src sz w"
| "perform (Key_cstr src) w = writer_key_cstr src w"
| "perform (Text src sz) w = writer_string src sz w"
| "perform (Text_cstr src) w = writer_string_cstr src w"
| "perform (Unsigned x) w = writer_u64 x w"
| "perform (Signed x) w = writer_i64 x w"
| "perform (Number_text src sz) w = writer_number_text src sz w"
| "perform (Boolean b) w = writer_boolean b w"
| "perform Null w = writer_null w"
| "perform (Copy d h) w = writer_value d h w"
| "perform (Copy_except d h keys n) w = writer_object_begin_except d h keys n w"
| "perform (Finish given) w = discard (writer_finish given w)"

text \<open>A document handed to a call was parsed.\<close>

fun call_ok :: "writer_call \<Rightarrow> bool" where
  "call_ok (Copy (Some d) h) \<longleftrightarrow> parsed_document d"
| "call_ok (Copy_except (Some d) h keys n) \<longleftrightarrow> parsed_document d"
| "call_ok c \<longleftrightarrow> True"

section \<open>The abstract machine\<close>

type_synonym written = "progress \<times> bytes option"

inductive writer_step :: "profile \<Rightarrow> writer_call \<Rightarrow> written \<Rightarrow> written \<Rightarrow> bool" for prof where
  step_object: "fits k p \<Longrightarrow> writer_step prof Object_begin (p, k) (open_frame k (JObj []) p, None)"
| step_array: "fits k p \<Longrightarrow> writer_step prof Array_begin (p, k) (open_frame k (JArr []) p, None)"
| step_object_end: "top_value p = Some (JObj ms) \<Longrightarrow> writer_step prof Object_end (p, None) (close_frame p, None)"
| step_array_end: "top_value p = Some (JArr vs) \<Longrightarrow> writer_step prof Array_end (p, None) (close_frame p, None)"
| step_key: "top_value p = Some (JObj ms) \<Longrightarrow> text_bytes src sz \<notin> fst ` set ms \<Longrightarrow> valid_text prof src sz \<Longrightarrow>
    writer_step prof (Key src sz) (p, None) (p, Some (text_bytes src sz))"
| step_key_cstr: "writer_step prof (Key (Some k) (length (c_string k))) s s' \<Longrightarrow> writer_step prof (Key_cstr (Some k)) s s'"
| step_text: "fits k p \<Longrightarrow> valid_text prof src sz \<Longrightarrow> writer_step prof (Text src sz) (p, k) (place k (JStr (text_bytes src sz)) p, None)"
| step_text_cstr: "writer_step prof (Text (Some t) (length (c_string t))) s s' \<Longrightarrow> writer_step prof (Text_cstr (Some t)) s s'"
| step_unsigned: "fits k p \<Longrightarrow> writer_step prof (Unsigned x) (p, k) (place k (JNum (decimal (unat x))) p, None)"
| step_signed: "fits k p \<Longrightarrow> writer_step prof (Signed x) (p, k) (place k (JNum (decimal_int (sint x))) p, None)"
| step_number: "fits k p \<Longrightarrow> json_number (take sz b) \<Longrightarrow> sz \<le> MAXIMUM_NUMBER_TEXT \<Longrightarrow>
    writer_step prof (Number_text (Some b) sz) (p, k) (place k (JNum (take sz b)) p, None)"
| step_boolean: "fits k p \<Longrightarrow> writer_step prof (Boolean b) (p, k) (place k (JBool b) p, None)"
| step_null: "fits k p \<Longrightarrow> writer_step prof Null (p, k) (place k JNull p, None)"
| step_copy: "fits k p \<Longrightarrow> names_value d h v \<Longrightarrow> writer_step prof (Copy (Some d) h) (p, k) (place k (copied v) p, None)"
| step_copy_except: "fits k p \<Longrightarrow> holds_value d h (JObj ms) \<Longrightarrow>
    excluded = (case keys of None \<Rightarrow> [] | Some ks \<Rightarrow> take n ks) \<Longrightarrow>
    writer_step prof (Copy_except (Some d) h keys n) (p, k)
      (open_frame k (copied (JObj (kept_members (map the excluded) ms))) p, None)"

text \<open>The writer represents a state of the abstract machine.\<close>

definition represents_written :: "writer \<Rightarrow> written \<Rightarrow> bool" where
  "represents_written w s \<longleftrightarrow>
     writer_base w \<and> w_failure w = OK \<and> \<not> w_finished w \<and> writer_shape w (fst s) \<and> w_pending w = snd s"

text \<open>Why a call may fail on a usable writer.\<close>

fun refusal :: "writer \<Rightarrow> written \<Rightarrow> writer_call \<Rightarrow> result \<Rightarrow> bool" where
  "refusal w (p, k) Object_begin code \<longleftrightarrow> begin_fails w p code"
| "refusal w (p, k) Array_begin code \<longleftrightarrow> begin_fails w p code"
| "refusal w (p, k) Object_end code \<longleftrightarrow> code = ERR_STATE \<and> \<not> closable w p TYPE_OBJECT"
| "refusal w (p, k) Array_end code \<longleftrightarrow> code = ERR_STATE \<and> \<not> closable w p TYPE_ARRAY"
| "refusal w (p, k) (Key src sz) code \<longleftrightarrow> key_fails w p sz (text_bytes src sz) code"
| "refusal w (p, k) (Key_cstr src) code \<longleftrightarrow>
     key_fails w p (length (c_string (the src))) (text_bytes src (length (c_string (the src)))) code"
| "refusal w (p, k) (Text src sz) code \<longleftrightarrow> text_fails w p sz code"
| "refusal w (p, k) (Text_cstr src) code \<longleftrightarrow> text_fails w p (length (c_string (the src))) code"
| "refusal w (p, k) (Number_text src sz) code \<longleftrightarrow> text_fails w p sz code"
| "refusal w (p, k) (Copy d h) code \<longleftrightarrow> (\<forall>v. names_value (the d) h v \<longrightarrow> \<not> copy_room w p v)"
| "refusal w (p, k) (Copy_except d h keys n) code \<longleftrightarrow>
     (\<forall>ms. holds_value (the d) h (JObj ms) \<longrightarrow>
        \<not> copy_room w p (JObj (kept_members (map the (case keys of None \<Rightarrow> [] | Some ks \<Rightarrow> take n ks)) ms)))"
| "refusal w (p, k) (Finish given) code \<longleftrightarrow> finish_fails w p code"
| "refusal w (p, k) c code \<longleftrightarrow> attach_fails w p code"

text \<open>
  How a call other than \<open>Finish\<close> ends on a usable writer: a step; \<open>ERR_ARGUMENT\<close> with the writer
  untouched; or a failure that sticks, a copy that meets a text the profile cannot carry as
  \<open>ERR_STATE\<close>.
\<close>

definition copying :: "writer_call \<Rightarrow> bool" where
  "copying c \<longleftrightarrow> (case c of Copy d h \<Rightarrow> True | Copy_except d h keys n \<Rightarrow> True | _ \<Rightarrow> False)"

definition call_ends :: "writer \<Rightarrow> written \<Rightarrow> writer_call \<Rightarrow> unit call \<Rightarrow> bool" where
  "call_ends w s c m \<longleftrightarrow>
     (case m of
        (Ret _, w') \<Rightarrow> same_writer w w' \<and> (\<exists>s'. writer_step (w_profile w) c s s' \<and> represents_written w' s')
      | (Fail code, w') \<Rightarrow>
          code = ERR_ARGUMENT \<and> w' = w \<or>
          writer_base w' \<and> same_writer w w' \<and> refusal w s c code \<and> code \<noteq> OK \<and>
          w_failure w' = (if code = ERR_ARGUMENT then ERR_STATE else code) \<and> (code = ERR_ARGUMENT \<longrightarrow> copying c)
      | (Stuck, _) \<Rightarrow> False)"

lemma call_ends_argument: "call_ends w s c (Fail ERR_ARGUMENT, w)"
  by (simp add: call_ends_def)

lemma call_ends_writes:
  assumes "represents_written w (p, k)" "writes w F G q k' m" "\<And>code. F code \<Longrightarrow> refusal w (p, k) c code"
    "G \<Longrightarrow> writer_step (w_profile w) c (p, k) (q, k')"
  shows "call_ends w (p, k) c m"
  using assms unfolding call_ends_def writes_def writer_ends_def represents_written_def
  by (auto simp: same_writer_def split: prod.splits outcome.splits)

text \<open>A copy that returns was allowed where it was made.\<close>

lemma writes_returned: "writes w F G q k m \<Longrightarrow> m = (Ret x, w') \<Longrightarrow> G"
  by (simp add: writes_def writer_ends_def)

lemma lexeme_fits:
  assumes w: "writer_base w" "w_failure w = OK" "\<not> w_finished w" "writer_shape w p"
    and r: "write_number_lexeme (Some b) sz maximum w = (Ret x, w')"
  shows "fits (w_pending w) p"
proof -
  have "sz \<le> maximum" "number_syntax (take sz b)" using r by (auto simp: write_number_lexeme_def split: if_splits)
  from writes_returned [OF number_lexeme_writes [OF w this] r] show ?thesis .
qed

lemma copy_value_fits:
  assumes w: "writer_base w" "w_failure w = OK" "\<not> w_finished w" "writer_shape w p"
    and r: "copy_value levels d h w = (Ret x, w')"
  shows "fits (w_pending w) p"
proof (cases levels)
  case 0
  then show ?thesis using r by simp
next
  case (Suc n)
  note g = r [unfolded Suc copy_value.simps]
  have begun: "fits (w_pending w) p" if "container_begin ty w = (Ret y, u)" "ty \<in> {TYPE_OBJECT, TYPE_ARRAY}" for ty y u
    using writes_returned [OF container_begin_writes [OF w that(2)] that(1)] .
  show ?thesis
  proof (cases "value_type d h")
    case TYPE_OBJECT
    then show ?thesis using g begun [of TYPE_OBJECT] by (auto simp: copy_object_def outcome_iff reading_def writer_object_begin_def)
  next
    case TYPE_ARRAY
    then show ?thesis using g begun [of TYPE_ARRAY] by (auto simp: copy_array_def outcome_iff reading_def writer_array_begin_def)
  next
    case TYPE_STRING
    then obtain s where s: "writer_string (Some s) (length s) w = (Ret x, w')" using g by (auto simp: outcome_iff reading_def)
    then have "valid_text (w_profile w) (Some s) (length s)" by (auto simp: writer_string_def split: if_splits)
    from writes_returned [OF writer_string_writes [OF w this] s] show ?thesis .
  next
    case TYPE_NUMBER
    then obtain lx where "(if lx \<noteq> [] \<and> lx ! 0 = MINUS then (case value_i64 d h True of
          Ret number \<Rightarrow> writer_i64 number w
        | Fail code \<Rightarrow> if code \<noteq> ERR_NOT_INTEGER then (Fail code, w)
            else write_number_lexeme (Some lx) (length lx) (maximum_bytes (w_limits w)) w
        | Stuck \<Rightarrow> (Stuck, w))
      else (case value_u64 d h True of
          Ret number \<Rightarrow> writer_u64 number w
        | Fail code \<Rightarrow> if code \<noteq> ERR_NOT_INTEGER then (Fail code, w)
            else write_number_lexeme (Some lx) (length lx) (maximum_bytes (w_limits w)) w
        | Stuck \<Rightarrow> (Stuck, w))) = (Ret x, w')"
      using g by (auto simp: copy_number_def outcome_iff reading_def Let_def)
    then show ?thesis
      using writes_returned [OF writer_i64_writes [OF w]] writes_returned [OF writer_u64_writes [OF w]] lexeme_fits [OF w]
      by (auto split: if_splits outcome.splits)
  next
    case TYPE_BOOLEAN
    then obtain b where "writer_boolean b w = (Ret x, w')" using g by (auto simp: outcome_iff reading_def)
    from writes_returned [OF writer_boolean_writes [OF w] this] show ?thesis .
  next
    case TYPE_NULL
    then have "writer_null w = (Ret x, w')" using g by simp
    from writes_returned [OF writer_null_writes [OF w] this] show ?thesis .
  qed (use g in simp)
qed

lemma call_ends_copies:
  assumes "represents_written w (p, k)" "copies_or_fails w room q m" "copying c" "\<And>code. \<not> room \<Longrightarrow> refusal w (p, k) c code"
    "\<And>x w'. m = (Ret x, w') \<Longrightarrow> fits k p" "fits k p \<Longrightarrow> writer_step (w_profile w) c (p, k) (q, None)"
  shows "call_ends w (p, k) c m"
  using assms unfolding call_ends_def copies_or_fails_def represents_written_def
  by (auto simp: same_writer_def split: prod.splits outcome.splits if_splits)

lemma or_failed_Ret: "or_failed m = (Ret x, w') \<Longrightarrow> m = (Ret x, w')"
  by (auto simp: or_failed_def copy_failed_def writer_fail_def split: outcome.splits prod.splits if_splits)

lemma call_ends_copy:
  assumes r: "represents_written w (p, k)" and ok: "call_ok (Copy d h)"
  shows "call_ends w (p, k) (Copy d h) (perform (Copy d h) w)"
proof (cases "value_type d h = TYPE_NONE")
  case True
  then show ?thesis by (simp add: writer_value_def call_ends_argument)
next
  case False
  then obtain d' where d: "d = Some d'" by (cases d) (auto simp: value_type_def)
  obtain v where v: "names_value d' h v" using names_value_exists [of d' h] ok False d by auto
  have w: "writer_base w" "w_failure w = OK" "\<not> w_finished w" "writer_shape w p" "w_pending w = k"
    using r by (simp_all add: represents_written_def)
  have c: "copies_or_fails w (\<exists>v. names_value d' h v \<and> copy_room w p v) (place k (copied v) p) (writer_value (Some d') h w)"
  proof -
    have "copies_or_fails w (copy_room w p u) (place k (copied u) p) (writer_value (Some d') h w)" if "names_value d' h u" for u
      using writer_value_copies [OF w(1-4) that] False d w(5) by simp
    then show ?thesis using v unfolding copies_or_fails_def by (auto split: prod.splits outcome.splits) blast+
  qed
  show ?thesis
    unfolding perform.simps d
  proof (rule call_ends_copies [OF r c])
    fix x w' assume "writer_value (Some d') h w = (Ret x, w')"
    then have "copy_value (copy_levels w) (Some d') h w = (Ret x, w')"
      using w(2,3) by (auto simp: writer_value_def split: if_splits dest: or_failed_Ret)
    from copy_value_fits [OF w(1-4) this] show "fits k p" using w(5) by simp
  qed (use v in \<open>auto simp: copying_def intro: step_copy\<close>)
qed

lemma call_ends_copy_except:
  assumes r: "represents_written w (p, k)" and ok: "call_ok (Copy_except d h keys n)"
  shows "call_ends w (p, k) (Copy_except d h keys n) (perform (Copy_except d h keys n) w)"
proof -
  define excluded where "excluded = (case keys of None \<Rightarrow> [] | Some ks \<Rightarrow> take n ks)"
  have w: "writer_base w" "w_failure w = OK" "\<not> w_finished w" "writer_shape w p" "w_pending w = k"
    using r by (simp_all add: represents_written_def)
  show ?thesis
  proof (cases "(keys = None \<and> n \<noteq> 0) \<or> value_type d h \<noteq> TYPE_OBJECT \<or> None \<in> set excluded")
    case True
    then have "writer_object_begin_except d h keys n w = (Fail ERR_ARGUMENT, w)"
      unfolding writer_object_begin_except_def Let_def excluded_def by auto
    then show ?thesis by (simp add: call_ends_argument)
  next
    case False
    then obtain d' where d: "d = Some d'" by (cases d) (auto simp: value_type_def)
    obtain v where v: "names_value d' h v" using names_value_exists [of d' h] ok False d by auto
    then have hv: "holds_value d' h v" using False d by (auto simp: names_value_def value_type_def)
    then have "json_type_of v = TYPE_OBJECT" using value_type_denotes [of d' h v] False d by (simp add: holds_value_def)
    then obtain ms where ms: "v = JObj ms" by (cases v) auto
    let ?kept = "\<lambda>ms. JObj (kept_members (map the excluded) ms)"
    have c: "copies_or_fails w (\<exists>ms. holds_value d' h (JObj ms) \<and> copy_room w p (?kept ms)) (open_frame k (copied (?kept ms)) p)
        (writer_object_begin_except (Some d') h keys n w)"
    proof -
      have "copies_or_fails w (copy_room w p (?kept us)) (open_frame k (copied (?kept us)) p) (writer_object_begin_except (Some d') h keys n w)"
        if "holds_value d' h (JObj us)" for us
        using object_begin_except_copies [OF w(1-4) that _ excluded_def] False w(5) by simp
      then show ?thesis using hv ms unfolding copies_or_fails_def by (auto split: prod.splits outcome.splits) blast+
    qed
    show ?thesis
      unfolding perform.simps d
    proof (rule call_ends_copies [OF r c])
      fix x w' assume "writer_object_begin_except (Some d') h keys n w = (Ret x, w')"
      then obtain y u where "container_begin TYPE_OBJECT w = (Ret y, u)"
        using False w(2,3) unfolding writer_object_begin_except_def Let_def
        by (auto simp: outcome_iff writer_object_begin_def split: if_splits)
      from writes_returned [OF container_begin_writes [OF w(1-4)] this] show "fits k p" using w(5) by simp
    next
      assume "fits k p"
      then show "writer_step (w_profile w) (Copy_except (Some d') h keys n) (p, k) (open_frame k (copied (?kept ms)) p, None)"
        using hv ms excluded_def by (intro step_copy_except) simp_all
    qed (auto simp: copying_def excluded_def)
  qed
qed

section \<open>Every call on a usable writer\<close>

lemma closable_members: "closable w p TYPE_OBJECT \<longleftrightarrow> w_pending w = None \<and> (\<exists>ms. top_value p = Some (JObj ms))"
  "closable w p TYPE_ARRAY \<longleftrightarrow> w_pending w = None \<and> (\<exists>vs. top_value p = Some (JArr vs))"
proof -
  have "json_type_of v = TYPE_OBJECT \<longleftrightarrow> (\<exists>ms. v = JObj ms)" "json_type_of v = TYPE_ARRAY \<longleftrightarrow> (\<exists>vs. v = JArr vs)" for v
    by (cases v; simp)+
  then show "closable w p TYPE_OBJECT \<longleftrightarrow> w_pending w = None \<and> (\<exists>ms. top_value p = Some (JObj ms))"
    "closable w p TYPE_ARRAY \<longleftrightarrow> w_pending w = None \<and> (\<exists>vs. top_value p = Some (JArr vs))"
    by (cases "top_value p"; auto simp: closable_def)+
qed

lemma top_members_value: "top_value p = Some (JObj ms) \<Longrightarrow> top_members p = map fst ms"
  by (cases p rule: top_members.cases) auto

lemma call_ends_key:
  assumes r: "represents_written w (p, k)"
  shows "call_ends w (p, k) (Key src sz) (writer_key src sz w)"
proof (cases "valid_text (w_profile w) src sz")
  case False
  then show ?thesis by (simp add: writer_key_def call_ends_argument)
next
  case True
  have w: "writer_base w" "w_failure w = OK" "\<not> w_finished w" "writer_shape w p" "w_pending w = k"
    using r by (simp_all add: represents_written_def)
  show ?thesis
  proof (rule call_ends_writes [OF r writer_key_writes [OF w(1-4) True]])
    assume t: "key_taken w p sz (text_bytes src sz)"
    then obtain ms where ms: "top_value p = Some (JObj ms)" "k = None" using closable_members(1) w(5) by (auto simp: key_taken_def)
    then show "writer_step (w_profile w) (Key src sz) (p, k) (p, Some (text_bytes src sz))"
      using t True top_members_value [OF ms(1)] by (auto simp: key_taken_def intro: step_key)
  qed simp
qed

lemma call_ends_text:
  assumes r: "represents_written w (p, k)"
  shows "call_ends w (p, k) (Text src sz) (writer_string src sz w)"
proof (cases "valid_text (w_profile w) src sz")
  case False
  then show ?thesis by (simp add: writer_string_def call_ends_argument)
next
  case True
  have w: "writer_base w" "w_failure w = OK" "\<not> w_finished w" "writer_shape w p" "w_pending w = k"
    using r by (simp_all add: represents_written_def)
  show ?thesis
    by (rule call_ends_writes [OF r writer_string_writes [OF w(1-4) True, unfolded w(5)]]) (auto intro: step_text True)
qed

text \<open>A call that is another call with the length of a C string.\<close>

lemma call_ends_cstr:
  assumes "call_ends w s c m" "\<And>code. refusal w s c code \<Longrightarrow> refusal w s c' code" "\<not> copying c"
    "\<And>s'. writer_step (w_profile w) c s s' \<Longrightarrow> writer_step (w_profile w) c' s s'"
  shows "call_ends w s c' m"
  using assms unfolding call_ends_def by (auto split: prod.splits outcome.splits if_splits; blast)

lemma call_ends_number:
  assumes r: "represents_written w (p, k)"
  shows "call_ends w (p, k) (Number_text src sz) (writer_number_text src sz w)"
proof (cases src)
  case None
  then show ?thesis by (simp add: writer_number_text_def write_number_lexeme_def call_ends_argument)
next
  case (Some b)
  have w: "writer_base w" "w_failure w = OK" "\<not> w_finished w" "writer_shape w p" "w_pending w = k"
    using r by (simp_all add: represents_written_def)
  show ?thesis
  proof (cases "sz \<le> MAXIMUM_NUMBER_TEXT \<and> number_syntax (take sz b)")
    case True
    then have ok: "sz \<le> MAXIMUM_NUMBER_TEXT" "number_syntax (take sz b)" by simp_all
    show ?thesis
      unfolding Some writer_number_text_def
      by (rule call_ends_writes [OF r number_lexeme_writes [OF w(1-4) ok, unfolded w(5)]])
        (use ok in \<open>auto intro: step_number simp: number_syntax_grammar\<close>)
  next
    case False
    then show ?thesis using Some by (auto simp: writer_number_text_def write_number_lexeme_def call_ends_argument)
  qed
qed

lemma perform_ends:
  assumes r: "represents_written w s" and ok: "call_ok c" and c: "\<nexists>given. c = Finish given"
  shows "call_ends w s c (perform c w)"
proof -
  obtain p k where s: "s = (p, k)" by fastforce
  note r' = r [unfolded s]
  have w: "writer_base w" "w_failure w = OK" "\<not> w_finished w" "writer_shape w p" "w_pending w = k"
    using r' by (simp_all add: represents_written_def)
  have containers: "TYPE_OBJECT \<in> {TYPE_OBJECT, TYPE_ARRAY}" "TYPE_ARRAY \<in> {TYPE_OBJECT, TYPE_ARRAY}" by simp_all
  show ?thesis
    unfolding s
  proof (cases c)
    case Object_begin
    show "call_ends w (p, k) c (perform c w)"
      unfolding Object_begin perform.simps writer_object_begin_def
      by (rule call_ends_writes [OF r' container_begin_writes [OF w(1-4) containers(1), unfolded w(5)]])
        (auto simp: empty_container_def intro: step_object)
  next
    case Array_begin
    show "call_ends w (p, k) c (perform c w)"
      unfolding Array_begin perform.simps writer_array_begin_def
      by (rule call_ends_writes [OF r' container_begin_writes [OF w(1-4) containers(2), unfolded w(5)]])
        (auto simp: empty_container_def intro: step_array)
  next
    case Object_end
    show "call_ends w (p, k) c (perform c w)"
      unfolding Object_end perform.simps writer_object_end_def
      by (rule call_ends_writes [OF r' container_end_writes [OF w(1-4), of TYPE_OBJECT]])
        (use w(5) in \<open>auto simp: closable_members intro: step_object_end\<close>)
  next
    case Array_end
    show "call_ends w (p, k) c (perform c w)"
      unfolding Array_end perform.simps writer_array_end_def
      by (rule call_ends_writes [OF r' container_end_writes [OF w(1-4), of TYPE_ARRAY]])
        (use w(5) in \<open>auto simp: closable_members intro: step_array_end\<close>)
  next
    case (Key src sz)
    then show "call_ends w (p, k) c (perform c w)" using call_ends_key [OF r'] by simp
  next
    case (Key_cstr src)
    show "call_ends w (p, k) c (perform c w)"
    proof (cases src)
      case None
      then show ?thesis using Key_cstr by (simp add: writer_key_cstr_def call_ends_argument)
    next
      case (Some b)
      show ?thesis
        unfolding Key_cstr Some perform.simps writer_key_cstr_def option.case
        by (rule call_ends_cstr [OF call_ends_key [OF r']]) (auto simp: copying_def intro: step_key_cstr)
    qed
  next
    case (Text src sz)
    then show "call_ends w (p, k) c (perform c w)" using call_ends_text [OF r'] by simp
  next
    case (Text_cstr src)
    show "call_ends w (p, k) c (perform c w)"
    proof (cases src)
      case None
      then show ?thesis using Text_cstr by (simp add: writer_string_cstr_def call_ends_argument)
    next
      case (Some b)
      show ?thesis
        unfolding Text_cstr Some perform.simps writer_string_cstr_def option.case
        by (rule call_ends_cstr [OF call_ends_text [OF r']]) (auto simp: copying_def intro: step_text_cstr)
    qed
  next
    case (Unsigned x)
    show "call_ends w (p, k) c (perform c w)"
      unfolding Unsigned perform.simps
      by (rule call_ends_writes [OF r' writer_u64_writes [OF w(1-4), unfolded w(5)]]) (auto intro: step_unsigned)
  next
    case (Signed x)
    show "call_ends w (p, k) c (perform c w)"
      unfolding Signed perform.simps
      by (rule call_ends_writes [OF r' writer_i64_writes [OF w(1-4), unfolded w(5)]]) (auto intro: step_signed)
  next
    case (Number_text src sz)
    then show "call_ends w (p, k) c (perform c w)" using call_ends_number [OF r'] by simp
  next
    case (Boolean b)
    show "call_ends w (p, k) c (perform c w)"
      unfolding Boolean perform.simps
      by (rule call_ends_writes [OF r' writer_boolean_writes [OF w(1-4), unfolded w(5)]]) (auto intro: step_boolean)
  next
    case Null
    show "call_ends w (p, k) c (perform c w)"
      unfolding Null perform.simps
      by (rule call_ends_writes [OF r' writer_null_writes [OF w(1-4), unfolded w(5)]]) (auto intro: step_null)
  next
    case (Copy d h)
    then show "call_ends w (p, k) c (perform c w)" using call_ends_copy [OF r', of d h] ok by simp
  next
    case (Copy_except d h keys n)
    then show "call_ends w (p, k) c (perform c w)" using call_ends_copy_except [OF r', of d h keys n] ok by simp
  qed (use c in auto)
qed

section \<open>Reachable writers\<close>

text \<open>A failed or a finished writer only refuses.\<close>

lemma when_ready_refuses: "writer_ready w \<noteq> OK \<Longrightarrow> when_ready w m = (Fail ERR_STATE, w)"
  by (simp add: when_ready_def writer_ready_def split: if_splits)

lemma perform_refuses:
  assumes "writer_ready w \<noteq> OK"
  shows "perform c w = (Fail ERR_STATE, w) \<or> perform c w = (Fail ERR_ARGUMENT, w)"
proof -
  note r = when_ready_refuses [OF assms]
  have key: "writer_key src sz w \<in> {(Fail ERR_STATE, w), (Fail ERR_ARGUMENT, w)}" for src sz
    by (simp add: writer_key_def r)
  have str: "writer_string src sz w \<in> {(Fail ERR_STATE, w), (Fail ERR_ARGUMENT, w)}" for src sz
    by (simp add: writer_string_def r)
  show ?thesis
  proof (cases c)
    case (Key_cstr src)
    then show ?thesis using key by (cases src) (simp_all add: writer_key_cstr_def)
  next
    case (Text_cstr src)
    then show ?thesis using str by (cases src) (simp_all add: writer_string_cstr_def)
  next
    case (Number_text src sz)
    then show ?thesis by (cases src) (simp_all add: writer_number_text_def write_number_lexeme_def r)
  next
    case (Copy_except d h keys n)
    then show ?thesis by (simp add: writer_object_begin_except_def Let_def r)
  qed (use key str in \<open>auto simp: r writer_object_begin_def writer_array_begin_def writer_object_end_def writer_array_end_def
      container_begin_def container_end_def writer_u64_def writer_i64_def writer_boolean_def writer_null_def attach_scalar_def
      writer_value_def writer_finish_def discard_def\<close>)
qed

section \<open>Memory of a writer\<close>

text \<open>
  What is allocated apart from the writer: what there was at creation, and the block that \<open>finish\<close>
  hands over.
\<close>

lemma represents_created: "fresh_writer prof l flags h w \<Longrightarrow> represents_written w (Building [], None)"
  by (simp add: fresh_writer_def represents_written_def)

lemma represents_inv: "represents_written w s \<Longrightarrow> writer_inv w"
  by (auto simp: represents_written_def writer_inv_def)

lemma finished_footprint: "writer_footprint (w\<lparr>w_finished := f, w_heap := h\<rparr>) = writer_footprint w"
  by (simp add: writer_footprint_def)

lemma finish_result:
  assumes "represents_written w s"
  obtains (finished) v bs area w' where "s = (Complete v, None)" "writer_finish True w = (Ret (bs, area), w')"
      "bs = output_text w v" "length bs \<le> maximum_bytes (w_limits w)" "length bs < area" "w' = w\<lparr>w_finished := True, w_heap := w_heap w'\<rparr>"
      "writer_base w'" "writer_footprint w' = writer_footprint w" "outside w' = outside w + area" "w_finished w'"
  | (failed) code w' where "writer_finish True w = (Fail code, w')" "finish_fails w (fst s) code" "w_failure w' = code" "code \<noteq> OK"
      "writer_base w'" "same_writer w w'"
proof -
  have w: "writer_base w" "w_failure w = OK" "\<not> w_finished w" "writer_shape w (fst s)" "w_pending w = snd s"
    using assms by (simp_all add: represents_written_def)
  obtain r w' where f: "writer_finish True w = (r, w')" by fastforce
  note ends = writer_finish_ends [OF w(1-4), unfolded f]
  show thesis
  proof (cases r)
    case (Ret ba)
    obtain bs area where ba: "ba = (bs, area)" by fastforce
    obtain v where v: "fst s = Complete v" "bs = output_text w v" "length bs \<le> maximum_bytes (w_limits w)" "length bs < area"
      and w': "w' = w\<lparr>w_finished := True, w_heap := w_heap w'\<rparr>" and lv: "live (w_heap w') = live (w_heap w) + area"
      using ends Ret ba by auto
    have "w_pending w = None" using complete_pending [of w v] w(4) v(1) by simp
    then have s: "s = (Complete v, None)" using v(1) w(5) by (cases s) simp
    have fp: "writer_footprint w' = writer_footprint w" by (subst w', rule finished_footprint)
    have le: "writer_footprint w \<le> live (w_heap w)" using w(1) by (simp add: writer_base_def)
    have "outside w' = outside w + area" using fp lv le unfolding outside_def by simp
    moreover have "w_limits w' = w_limits w" "w_nodes w' = w_nodes w" "w_capacity w' = w_capacity w" "w_profile w' = w_profile w" "w_finished w'"
      by (subst w', simp)+
    then have "writer_base w'" "w_finished w'" using w(1) fp lv le unfolding writer_base_def by simp_all
    ultimately show thesis using finished [OF s _ v(2-4) w' _ fp] f Ret ba by blast
  next
    case (Fail code)
    then have "finish_fails w (fst s) code" "w_failure w' = code" "writer_base w'" "same_writer w w'" using ends by simp_all
    moreover from this(1) have "code \<noteq> OK" by (cases "fst s") (auto simp: finish_fails_def)
    ultimately show thesis using failed f Fail by blast
  next
    case Stuck
    then show thesis using ends by simp
  qed
qed

text \<open>The state of every reachable writer: usable, failed or finished.\<close>

definition writer_state :: "writer \<Rightarrow> bool" where
  "writer_state w \<longleftrightarrow> writer_base w \<and> ((\<exists>s. represents_written w s) \<or> writer_ready w \<noteq> OK)"

definition handed_over :: "writer_call \<Rightarrow> writer \<Rightarrow> nat" where
  "handed_over c w = (case c of Finish given \<Rightarrow> (case fst (writer_finish given w) of Ret (bs, area) \<Rightarrow> area | _ \<Rightarrow> 0) | _ \<Rightarrow> 0)"

lemma ready_failed: "w_failure w \<noteq> OK \<Longrightarrow> writer_ready w \<noteq> OK"
  by (simp add: writer_ready_def)

lemma perform_state:
  assumes w: "writer_state w" and ok: "call_ok c" and p: "perform c w = (r, w')"
  shows "r \<noteq> Stuck" "writer_state w'" "outside w' = outside w + handed_over c w"
proof -
  have "r \<noteq> Stuck \<and> writer_state w' \<and> outside w' = outside w + handed_over c w"
  proof (cases "writer_ready w = OK")
    case False
    have "fst (writer_finish given w) \<noteq> Ret ba" for given ba
      by (simp add: writer_finish_def when_ready_refuses [OF False])
    then have "handed_over c w = 0" by (auto simp: handed_over_def split: writer_call.splits outcome.splits)
    then show ?thesis using perform_refuses [OF False, of c] p w by auto
  next
    case True
    then obtain s where s: "represents_written w s" using w by (auto simp: writer_state_def)
    show ?thesis
    proof (cases "\<exists>given. c = Finish given")
      case False
      then have h: "handed_over c w = 0" by (auto simp: handed_over_def split: writer_call.splits)
      note e = perform_ends [OF s ok False, unfolded p]
      show ?thesis
      proof (cases r)
        case (Ret x)
        then obtain s' where "same_writer w w'" "represents_written w' s'" using e by (auto simp: call_ends_def)
        then show ?thesis using h Ret by (auto simp: writer_state_def same_writer_def represents_written_def)
      next
        case (Fail code)
        then consider "w' = w" | "writer_base w'" "same_writer w w'" "w_failure w' \<noteq> OK"
          using e by (auto simp: call_ends_def split: if_splits)
        then show ?thesis
        proof cases
          case 1
          then show ?thesis using h Fail w by simp
        next
          case 2
          then show ?thesis using h Fail ready_failed by (auto simp: writer_state_def same_writer_def)
        qed
      next
        case Stuck
        then show ?thesis using e by (simp add: call_ends_def)
      qed
    next
      case True
      then obtain given where c: "c = Finish given" by blast
      show ?thesis
      proof (cases given)
        case False
        then show ?thesis using c p w by (auto simp: writer_finish_def discard_def handed_over_def)
      next
        case True
        from s show ?thesis
        proof (cases rule: finish_result)
          case (finished v bs area u)
          then have "w' = u" "r = Ret ()" using p c True by (auto simp: discard_def)
          then show ?thesis using finished c True by (auto simp: writer_state_def writer_ready_def handed_over_def)
        next
          case (failed code u)
          then have "w' = u" "r = Fail code" using p c True by (auto simp: discard_def)
          then show ?thesis using failed c True ready_failed by (auto simp: writer_state_def same_writer_def handed_over_def)
        qed
      qed
    qed
  qed
  then show "r \<noteq> Stuck" "writer_state w'" "outside w' = outside w + handed_over c w" by blast+
qed

text \<open>The writers a client can have, with the memory that is not theirs.\<close>

inductive reachable_writer :: "nat \<Rightarrow> writer \<Rightarrow> bool" where
  created: "writer_create prof requested flags True h = (Ret w, h') \<Longrightarrow> reachable_writer (live h) w"
| called: "reachable_writer n w \<Longrightarrow> call_ok c \<Longrightarrow> perform c w = (r, w') \<Longrightarrow> reachable_writer (n + handed_over c w) w'"

lemma reachable_state: "reachable_writer n w \<Longrightarrow> writer_state w \<and> outside w = n"
proof (induction rule: reachable_writer.induct)
  case (created prof requested flags h w h')
  obtain l where "fresh_writer prof l flags h w"
    using writer_create_ends [of prof requested flags True h] created by auto
  then show ?case using represents_created by (auto simp: writer_state_def fresh_writer_def)
next
  case (called n w c r w')
  then show ?case using perform_state [of w c r w'] by blast
qed

lemma reachable_release:
  assumes "reachable_writer n w"
  shows "live (release_writer w) = n"
  using reachable_state [OF assms] by (simp add: release_writer_live outside_def)

end
