(* ===== verification/Writer_Props.thy ===== *)
theory Writer_Props
  imports Output_Text Writer_Machine Parser_Props
begin

text \<open>
  The properties of the writer (\<^verbatim>\<open>src/writer.c\<close>, \<^verbatim>\<open>src/serialize.c\<close>) as its callers see it: every
  call is a step of the abstract machine or fails for a stated reason, failures stick, nothing
  leaks, and the output is a text of the value written that the parser reads back.
\<close>

declare grow_capacity.simps [code]

section \<open>Sequences of calls\<close>

text \<open>Calls one after the other, as long as they succeed.\<close>

fun run_calls :: "writer_call list \<Rightarrow> writer \<Rightarrow> unit call" where
  "run_calls [] w = (Ret (), w)"
| "run_calls (c # cs) w = andthen (perform c w) (\<lambda>_. run_calls cs)"

inductive writer_runs :: "profile \<Rightarrow> writer_call list \<Rightarrow> written \<Rightarrow> written \<Rightarrow> bool" for prof where
  runs_nil: "writer_runs prof [] s s"
| runs_step: "writer_step prof c s s' \<Longrightarrow> writer_runs prof cs s' s'' \<Longrightarrow> writer_runs prof (c # cs) s s''"

inductive_cases writer_runs_Cons [elim]: "writer_runs prof (c # cs) s s''"

definition building_call :: "writer_call \<Rightarrow> bool" where
  "building_call c \<longleftrightarrow> call_ok c \<and> (case c of Finish given \<Rightarrow> False | _ \<Rightarrow> True)"

lemma building_call_ends:
  assumes "represents_written w s" "building_call c"
  shows "call_ends w s c (perform c w)"
  by (rule perform_ends [OF assms(1)]) (use assms(2) in \<open>auto simp: building_call_def\<close>)

lemma building_call_returns:
  assumes "represents_written w s" "building_call c" "perform c w = (Ret x, w')"
  shows "same_writer w w' \<and> (\<exists>s'. writer_step (w_profile w) c s s' \<and> represents_written w' s')"
  using building_call_ends [OF assms(1,2)] assms(3) by (simp add: call_ends_def)

lemma run_calls_runs:
  "represents_written w s \<Longrightarrow> list_all building_call cs \<Longrightarrow> run_calls cs w = (Ret x, w') \<Longrightarrow>
   same_writer w w' \<and> (\<exists>s'. writer_runs (w_profile w) cs s s' \<and> represents_written w' s')"
proof (induction cs arbitrary: w s)
  case Nil
  then show ?case by (cases s) (auto intro: runs_nil)
next
  case (Cons c cs)
  obtain r u where c: "perform c w = (r, u)" by fastforce
  obtain y where r: "r = Ret y" using Cons.prems(3) c by (cases r) auto
  obtain t where t: "same_writer w u" "writer_step (w_profile w) c s t" "represents_written u t"
    using building_call_returns [OF Cons.prems(1), of c y u] Cons.prems(2) c r by auto
  have "run_calls cs u = (Ret x, w')" using Cons.prems(3) c r by simp
  from Cons.IH [OF t(3) _ this] Cons.prems(2) obtain s' where
    "same_writer u w'" "writer_runs (w_profile u) cs t s'" "represents_written w' s'" by auto
  moreover have "w_profile u = w_profile w" using t(1) by (simp add: same_writer_def)
  ultimately show ?case using runs_step [OF t(2)] same_writer_trans [OF t(1)] by metis
qed

lemma created_writer:
  assumes "writer_create prof requested flags True h = (Ret w, h')"
  obtains l where "limits_resolve requested = Ret l" "fresh_writer prof l flags h w" "prof \<in> {RFC8259, CONTRACT_ASCII}"
proof -
  from writer_create_ends [of prof requested flags True h] assms
  show thesis using that by (auto simp: writer_arguments_def)
qed

text \<open>What calls that all succeed have written.\<close>

lemma created_runs:
  assumes "writer_create prof requested flags True h = (Ret w, h')" "list_all building_call cs" "run_calls cs w = (Ret x, w')"
  obtains s l where "writer_runs prof cs (Building [], None) s" "represents_written w' s" "same_writer w w'"
    "w_profile w' = prof" "w_limits w' = l" "w_flags w' = flags" "limits_resolve requested = Ret l" "outside w' = live h"
proof -
  obtain l where l: "limits_resolve requested = Ret l" "fresh_writer prof l flags h w" using created_writer [OF assms(1)] .
  from run_calls_runs [OF represents_created [OF l(2)] assms(2,3)] l(2) obtain s where
    "same_writer w w'" "writer_runs prof cs (Building [], None) s" "represents_written w' s"
    by (auto simp: fresh_writer_def)
  then show thesis using that [of s l] l by (simp add: same_writer_def fresh_writer_def)
qed

text \<open>The value of a finished run.\<close>

lemma finished_value:
  assumes "represents_written w s" "writer_finish True w = (Ret (bs, area), w')"
  obtains v where "s = (Complete v, None)" "bs = output_text w v" "length bs \<le> maximum_bytes (w_limits w)"
    "valid_json (w_profile w) v" "json_height v \<le> maximum_depth (w_limits w)" "w_profile w \<in> {RFC8259, CONTRACT_ASCII}"
proof -
  from assms(1) show thesis
  proof (cases rule: finish_result)
    case (finished v bs' area' u)
    have e: "bs = bs'" using finished(2) assms(2) by simp
    have "writer_shape w (Complete v)" "writer_base w" using assms(1) finished(1) by (simp_all add: represents_written_def)
    then show thesis using that finished e writer_shapeD(5) [of w "Complete v"] by (simp add: writer_base_def)
  qed (use assms(2) in simp)
qed


section \<open>A writer to use\<close>

definition sample_calls :: "writer_call list" where
  "sample_calls =
     [Object_begin, Key (Some [0x62]) 1, Null, Key (Some [0x61]) 1, Array_begin, Unsigned 5, Text (Some [0x78]) 1, Array_end, Object_end]"

definition sample_output :: bytes where
  "sample_output = ascii ''{'' @ [QUOTE, 0x61, QUOTE] @ ascii '':[5,'' @ [QUOTE, 0x78, QUOTE] @ ascii ''],'' @ [QUOTE, 0x62, QUOTE] @ ascii '':null}''"

definition sample_run :: "unit call" where
  "sample_run =
     (case writer_create RFC8259 None 0 True plenty of (Ret w, h) \<Rightarrow> run_calls sample_calls w)"

definition finished_bytes :: "unit call \<Rightarrow> bytes option" where
  "finished_bytes m =
     (case m of (Ret _, w) \<Rightarrow> (case writer_finish True w of (Ret (bs, area), w) \<Rightarrow> Some bs | _ \<Rightarrow> None) | _ \<Rightarrow> None)"

definition sample_written :: json where
  "sample_written = JObj [([0x62], JNull), ([0x61], JArr [JNum [0x35], JStr [0x78]])]"

text \<open>The steps by inversion: the abstract machine run on these calls.\<close>

inductive_simps writer_runs_simps:
  "writer_runs prof [] s s'" "writer_runs prof (c # cs) s s'"

inductive_simps writer_step_simps:
  "writer_step prof Object_begin s s'" "writer_step prof Array_begin s s'" "writer_step prof Object_end s s'"
  "writer_step prof Array_end s s'" "writer_step prof (Key src sz) s s'" "writer_step prof (Text src sz) s s'"
  "writer_step prof (Unsigned x) s s'" "writer_step prof Null s s'"

lemma sample_runs: "writer_runs RFC8259 sample_calls (Building [], None) (Complete v, None) \<Longrightarrow> v = sample_written"
  by (clarsimp simp: sample_calls_def sample_written_def writer_runs_simps writer_step_simps text_bytes_def decimal.simps)

lemma sample_run_finishes: "finished_bytes sample_run = Some sample_output"
  by code_simp

lemma finished_bytes_Some:
  "finished_bytes m = Some bs \<Longrightarrow> \<exists>x w area w'. m = (Ret x, w) \<and> writer_finish True w = (Ret (bs, area), w')"
  by (auto simp: finished_bytes_def split: prod.splits outcome.splits)

lemma sample_created: "\<exists>w h. writer_create RFC8259 None 0 True plenty = (Ret w, h)"
proof -
  have a: "limits_resolve None = Ret \<lparr>maximum_bytes = 65535, maximum_depth = 32, maximum_tokens = 8192\<rparr>" by code_simp
  then have "\<exists>l. writer_arguments RFC8259 None 0 True l" by (auto simp: writer_arguments_def)
  moreover have "fates plenty = []" by (simp add: plenty_def)
  ultimately show ?thesis
    using writer_create_ends [of RFC8259 None 0 True plenty] by (auto split: prod.splits outcome.splits if_splits)
qed

lemma sample_writers:
  obtains w h w' bs area w'' where "writer_create RFC8259 None 0 True plenty = (Ret w, h)"
    "run_calls sample_calls w = (Ret (), w')" "writer_finish True w' = (Ret (sample_output, area), w'')"
proof -
  obtain w h where c: "writer_create RFC8259 None 0 True plenty = (Ret w, h)" using sample_created by blast
  then have "sample_run = run_calls sample_calls w" by (simp add: sample_run_def)
  then show thesis using finished_bytes_Some [OF sample_run_finishes] that [OF c] by auto
qed

lemma sample_building: "list_all building_call sample_calls"
  by (simp add: sample_calls_def building_call_def)

section \<open>Properties\<close>

text \<open>C12: the writer refines its abstract machine. When \<open>maelys_json_writer_create\<close> and then a sequence of
  calls all return OK, the abstract machine, started with nothing written, takes the same calls to
  a state that the writer represents: the containers open, what is written in each, and the pending
  key are those the calls describe, copied values included.\<close>

theorem writer_simulation:
  assumes "writer_create prof requested flags True h = (Ret w, h')" "list_all building_call cs"
    "run_calls cs w = (Ret (), w')"
  shows "\<exists>s. writer_runs prof cs (Building [], None) s \<and> represents_written w' s \<and>
    w_profile w' = prof \<and> w_flags w' = flags"
  using created_runs [OF assms] by metis

theorem writer_simulation_witness:
  "\<exists>s. writer_runs RFC8259 sample_calls (Building [], None) s"
proof -
  obtain w h w' where "writer_create RFC8259 None 0 True plenty = (Ret w, h)" "run_calls sample_calls w = (Ret (), w')"
    using sample_writers by metis
  from writer_simulation [OF this(1) sample_building this(2)] show ?thesis by blast
qed

text \<open>C17: the contract of every building call on a usable writer, whatever its arguments. It is
  \<open>call_ends\<close>: the call returns and is a step of the abstract machine; or it is refused with
  ARGUMENT and the writer is untouched; or it fails for a reason of the contract (the state, a
  limit, no memory) and the writer keeps that failure, a copy that meets a text the profile cannot
  carry keeping STATE. It never does anything else.\<close>

theorem writer_call_contract:
  assumes "represents_written w s" "building_call c"
  shows "call_ends w s c (perform c w)"
  by (rule building_call_ends [OF assms])

theorem writer_call_contract_witness:
  "\<exists>w. fst (perform Array_end w) = Fail ERR_STATE \<and> call_ends w (Building [], None) Array_end (perform Array_end w)"
proof -
  obtain w h where c: "writer_create RFC8259 None 0 True plenty = (Ret w, h)" using sample_created by blast
  obtain l where f: "fresh_writer RFC8259 l 0 plenty w" using created_writer [OF c] .
  have "fst (perform Array_end w) = Fail ERR_STATE"
    using f writer_shapeD(2) [of w "Building []"]
    by (simp add: fresh_writer_def writer_array_end_def container_end_def when_ready_def writer_ready_def writer_fail_def
        container_type_def current_container_def)
  moreover have "building_call Array_end" by (simp add: building_call_def)
  ultimately show ?thesis using writer_call_contract [OF represents_created [OF f]] by blast
qed



text \<open>C19: failures and the end stick. Once \<open>maelys_json_writer_status\<close> is not OK, or the writer is
  finished, every call fails, with STATE or ARGUMENT, and leaves the writer as it is, the memory
  it holds included.\<close>

theorem writer_sticky:
  assumes "writer_ready w \<noteq> OK"
  shows "snd (perform c w) = w \<and> fst (perform c w) \<in> {Fail ERR_STATE, Fail ERR_ARGUMENT}"
  using perform_refuses [OF assms, of c] by auto

theorem writer_sticky_witness:
  "\<exists>w. writer_ready w \<noteq> OK \<and> perform Null w = (Fail ERR_STATE, w)"
proof -
  obtain w h w' where f: "writer_create RFC8259 None 0 True plenty = (Ret w, h)" using sample_created by blast
  let ?w = "w\<lparr>w_failure := ERR_LIMIT\<rparr>"
  have r: "writer_ready ?w \<noteq> OK" by (simp add: writer_ready_def)
  have "fst (perform Null ?w) = Fail ERR_STATE" using r by (simp add: writer_null_def attach_scalar_def when_ready_refuses)
  with writer_sticky [OF r, of Null] have "perform Null ?w = (Fail ERR_STATE, ?w)" by (metis prod.collapse)
  with r show ?thesis by blast
qed

text \<open>C20: no leak. Whatever was called and however the calls ended, releasing the writer leaves
  allocated what was allocated before it was created and the outputs \<open>finish\<close> handed over.\<close>

theorem writer_no_leak:
  assumes "reachable_writer n w"
  shows "live (release_writer w) = n"
  by (rule reachable_release [OF assms])

theorem writer_no_leak_witness:
  "\<exists>w. reachable_writer 0 w \<and> live (release_writer w) = 0"
proof -
  obtain w h where c: "writer_create RFC8259 None 0 True plenty = (Ret w, h)" using sample_created by blast
  have "reachable_writer 0 w" using reachable_writer.created [OF c] by (simp add: plenty_def)
  with writer_no_leak [OF this] show ?thesis by blast
qed

text \<open>What \<open>maelys_json_writer_create\<close> does. It returns a writer with nothing written exactly when
  there is a place for it, the profile is not the reader-only one, the flags are known and the
  limits resolve, and memory holds out; else it fails with ARGUMENT or MEMORY, having freed all it
  had allocated.\<close>

theorem writer_create_exact:
  "case writer_create prof requested flags out_given h of
     (Ret w, h') \<Rightarrow> (\<exists>l. writer_arguments prof requested flags out_given l \<and> w_limits w = l) \<and>
       w_profile w = prof \<and> w_flags w = flags \<and> represents_written w (Building [], None) \<and> h' = w_heap w
   | (Fail code, h') \<Rightarrow> live h' = live h \<and>
       (if Ex (writer_arguments prof requested flags out_given) then code = ERR_MEMORY \<and> fates h \<noteq> [] else code = ERR_ARGUMENT)
   | (Stuck, _) \<Rightarrow> False"
proof -
  obtain r h' where c: "writer_create prof requested flags out_given h = (r, h')" by fastforce
  note ends = writer_create_ends [of prof requested flags out_given h, unfolded c]
  show ?thesis
  proof (cases r)
    case (Ret w)
    then obtain l where "writer_arguments prof requested flags out_given l" "fresh_writer prof l flags h w" "h' = w_heap w"
      using ends by auto
    then show ?thesis using c Ret represents_created [of prof l flags h w] by (auto simp: fresh_writer_def)
  qed (use ends c in simp_all)
qed

text \<open>C21: what \<open>maelys_json_writer_finish\<close> does when no allocation fails: STATE while something is
  open or nothing is written; LIMIT when the text of the value is longer than \<open>maximum_bytes\<close>; else
  exactly that text, keys in UTF-16 order at every depth, indented and escaped as the flags say,
  with room for the NUL after it.\<close>

theorem writer_finish_exact:
  assumes "represents_written w (p, k)" "fates (w_heap w) = []"
  shows "case p of
     Building fs \<Rightarrow> fst (writer_finish True w) = Fail ERR_STATE
   | Complete v \<Rightarrow>
       (if length (output_text w v) \<le> maximum_bytes (w_limits w)
        then \<exists>area > length (output_text w v). fst (writer_finish True w) = Ret (output_text w v, area)
        else fst (writer_finish True w) = Fail ERR_LIMIT)"
  using assms(1)
proof (cases rule: finish_result)
  case (finished v bs area w')
  then show ?thesis by auto
next
  case (failed code w')
  then show ?thesis using assms(2) by (cases p) (auto simp: finish_fails_def)
qed

theorem writer_finish_exact_witness:
  "\<exists>w. represents_written w (Building [], None) \<and> fst (writer_finish True w) = Fail ERR_STATE"
proof -
  obtain w h where c: "writer_create RFC8259 None 0 True plenty = (Ret w, h)" using sample_created by blast
  obtain l where f: "fresh_writer RFC8259 l 0 plenty w" using created_writer [OF c] .
  have "fates (w_heap w) = []" using f by (simp add: fresh_writer_def plenty_def)
  from writer_finish_exact [OF represents_created [OF f] this] represents_created [OF f] show ?thesis by auto
qed

text \<open>C13: writing and parsing are inverse. The output of a writer is a JSON text of its profile for the
  value the calls describe, keys in order; and when nothing runs out, parsing it under that profile
  returns a document of exactly that value.\<close>

theorem writer_output_parses:
  assumes "writer_create prof requested flags True h = (Ret w, h')" "list_all building_call cs"
    "run_calls cs w = (Ret (), w')" "writer_finish True w' = (Ret (bs, area), w'')"
  shows "\<exists>v. writer_runs prof cs (Building [], None) (Complete v, None) \<and> json_document prof bs (key_sorted v) \<and>
    (\<forall>limits l b g err. limits_resolve limits = Ret l \<and> parse_allocation_bound (length bs) prof limits True = Ret b \<and>
       json_height v \<le> maximum_depth l \<and> json_cells v \<le> maximum_tokens l \<and> fates g = [] \<longrightarrow>
       (\<exists>d err' g'. document_parse (Some bs) (length bs) prof limits True err g = (Ret d, err', g') \<and> represents d (key_sorted v)))"
proof -
  obtain s where s: "writer_runs prof cs (Building [], None) s" "represents_written w' s" "w_profile w' = prof"
    using created_runs [OF assms(1-3)] by metis
  from s(2) assms(4) obtain v where v: "s = (Complete v, None)" "bs = output_text w' v" "valid_json prof v" "prof \<in> {RFC8259, CONTRACT_ASCII}"
    using finished_value s(3) by metis
  have doc: "json_document prof bs (key_sorted v)"
    using output_text_grammar [of w' v] v(3,4) s(3) unfolding v(2) by simp
  have "\<exists>d err' g'. document_parse (Some bs) (length bs) prof limits True err g = (Ret d, err', g') \<and> represents d (key_sorted v)"
    if l: "limits_resolve limits = Ret l" and b: "parse_allocation_bound (length bs) prof limits True = Ret b"
      and r: "json_height v \<le> maximum_depth l" "json_cells v \<le> maximum_tokens l" and g: "fates g = []" for limits l b g err
  proof (cases rule: document_parse_cases [of "Some bs" "length bs" prof limits True err g])
    case (refused code)
    then show ?thesis using b by simp
  next
    case (parsed l' b')
    note wk = within_key_sorted [OF v(3) r]
    have "l' = l" using parsed(2) l by simp
    then show ?thesis using parse_document_resolved_exact [OF l doc wk(1) g, of err] parsed(1) wk(2) by auto
  qed
  then show ?thesis using s(1) v(1) doc by blast
qed

theorem writer_output_parses_witness:
  "json_document RFC8259 sample_output (key_sorted sample_written) \<and>
   (\<exists>d err g. document_parse (Some sample_output) (length sample_output) RFC8259 None True None plenty = (Ret d, err, g) \<and>
      represents d (key_sorted sample_written))"
proof -
  obtain w h w' area w'' where "writer_create RFC8259 None 0 True plenty = (Ret w, h)"
    "run_calls sample_calls w = (Ret (), w')" "writer_finish True w' = (Ret (sample_output, area), w'')"
    by (rule sample_writers)
  from writer_output_parses [OF this(1) sample_building this(2,3)] sample_runs
  have doc: "json_document RFC8259 sample_output (key_sorted sample_written)"
    and parse: "\<And>limits l b g err. limits_resolve limits = Ret l \<Longrightarrow> parse_allocation_bound (length sample_output) RFC8259 limits True = Ret b \<Longrightarrow>
       json_height sample_written \<le> maximum_depth l \<Longrightarrow> json_cells sample_written \<le> maximum_tokens l \<Longrightarrow> fates g = [] \<Longrightarrow>
       \<exists>d err' g'. document_parse (Some sample_output) (length sample_output) RFC8259 limits True err g = (Ret d, err', g') \<and> represents d (key_sorted sample_written)"
    by blast+
  have l: "limits_resolve None = Ret \<lparr>maximum_bytes = 65535, maximum_depth = 32, maximum_tokens = 8192\<rparr>" by code_simp
  have "returned (parse_allocation_bound (length sample_output) RFC8259 None True, ())" by code_simp
  then obtain b where b: "parse_allocation_bound (length sample_output) RFC8259 None True = Ret b"
    by (cases "parse_allocation_bound (length sample_output) RFC8259 None True") auto
  have g: "fates plenty = []" by (simp add: plenty_def)
  have "json_height sample_written \<le> 32" "json_cells sample_written \<le> 8192" by code_simp+
  with doc parse [OF l b _ _ g, of None] show ?thesis by simp
qed

section \<open>Copying\<close>

lemma number_document:
  assumes n: "number_syntax n" and len: "0 < length n"
  obtains d where "holds_value d 0 (JNum n)" "parsed_document d"
proof -
  have l: "limits_resolve None = Ret \<lparr>maximum_bytes = 65535, maximum_depth = 32, maximum_tokens = 8192\<rparr>" by code_simp
  have g: "json_number n" using n by (simp add: number_syntax_grammar)
  have doc: "json_document RFC8259 n (JNum n)"
    unfolding json_document_def by (intro exI [of _ "[]"] exI [of _ n]) (simp add: json_ws_def text_number [OF g])
  have within: "within \<lparr>maximum_bytes = 65535, maximum_depth = 32, maximum_tokens = 8192\<rparr> RFC8259 (JNum n)" by (simp add: within_def)
  have "fates plenty = []" by (simp add: plenty_def)
  from parse_document_resolved_exact [OF l doc within this, of None] obtain d where d: "represents d (JNum n)" by auto
  have "holds_value d 0 (JNum n)" using denotes_root [OF d] g by (simp add: holds_value_def)
  moreover have "parsed_document d" using d g by (auto simp: parsed_document_def)
  ultimately show thesis by (rule that)
qed

lemma holds_type: "holds_value d h v \<Longrightarrow> value_type (Some d) h = json_type_of v \<and> json_type_of v \<noteq> TYPE_NONE"
  using value_type_denotes [of d h v] by (cases v) (auto simp: holds_value_def)

lemma fresh_sample:
  obtains w where "represents_written w (Building [], None)" "fates (w_heap w) = []" "w_profile w = RFC8259"
    "w_limits w = \<lparr>maximum_bytes = 65535, maximum_depth = 32, maximum_tokens = 8192\<rparr>"
proof -
  obtain w h where c: "writer_create RFC8259 None 0 True plenty = (Ret w, h)" using sample_created by blast
  obtain l where l: "limits_resolve None = Ret l" and f: "fresh_writer RFC8259 l 0 plenty w" using created_writer [OF c] .
  have "limits_resolve None = Ret \<lparr>maximum_bytes = 65535, maximum_depth = 32, maximum_tokens = 8192\<rparr>" by code_simp
  then have "l = \<lparr>maximum_bytes = 65535, maximum_depth = 32, maximum_tokens = 8192\<rparr>" using l by simp
  then show thesis using that [OF represents_created [OF f]] f by (simp add: fresh_writer_def plenty_def)
qed

text \<open>C22: a copy that has room is made. When the value fits where the writer is, the nodes and the
  nesting it needs are within the limits, no allocation fails, its texts are valid for the profile
  and not longer than \<open>maximum_bytes\<close>, no object in it repeats a key, and the integer part of every number
  is within 64 bits, \<open>maelys_json_writer_value\<close> returns OK and has written the whole value, every
  number by its lexeme (\<open>-0\<close> as \<open>0\<close>).\<close>

theorem writer_copy_succeeds:
  assumes "represents_written w (p, k)" "names_value d h v" "value_type (Some d) h \<noteq> TYPE_NONE" "copy_room w p v"
  shows "\<exists>w'. writer_value (Some d) h w = (Ret (), w') \<and> represents_written w' (place k (copied v) p, None)"
proof -
  have w: "writer_base w" "w_failure w = OK" "\<not> w_finished w" "writer_shape w p" "w_pending w = k"
    using assms(1) by (simp_all add: represents_written_def)
  obtain r w' where r: "writer_value (Some d) h w = (r, w')" by fastforce
  note ends = writer_value_copies [OF w(1-4) assms(2,3), unfolded copies_or_fails_def r prod.case]
  show ?thesis
  proof (cases r)
    case (Ret x)
    then show ?thesis using ends r w(3,5) by (simp add: represents_written_def same_writer_def)
  qed (use ends assms(4) in simp_all)
qed

theorem writer_copy_succeeds_witness:
  "\<exists>w d w'. writer_value (Some d) 0 w = (Ret (), w') \<and> represents_written w' (Complete (JNum (ascii ''-1.5'')), None)"
proof -
  obtain w where w: "represents_written w (Building [], None)" "fates (w_heap w) = []" "w_profile w = RFC8259"
    "w_limits w = \<lparr>maximum_bytes = 65535, maximum_depth = 32, maximum_tokens = 8192\<rparr>" by (rule fresh_sample)
  have "number_syntax (ascii ''-1.5'')" "0 < length (ascii ''-1.5'')" by code_simp+
  then obtain d where d: "holds_value d 0 (JNum (ascii ''-1.5''))" by (rule number_document)
  have "carried (ascii ''-1.5'')" "length (ascii ''-1.5'') \<le> 65535" "copied_lexeme (ascii ''-1.5'') = ascii ''-1.5''" by code_simp+
  then have room: "copy_room w (Building []) (JNum (ascii ''-1.5''))" and c: "copied (JNum (ascii ''-1.5'')) = JNum (ascii ''-1.5'')"
    using w by (simp_all add: copy_room_def has_room_def represents_written_def)
  have "names_value d 0 (JNum (ascii ''-1.5''))" using d by (simp add: names_value_def)
  from writer_copy_succeeds [OF w(1) this _ room] holds_type [OF d] c show ?thesis by auto
qed



section \<open>Sorting\<close>

text \<open>C24: the merge sort of the serializer. On nodes whose keys are UTF-8 texts, \<open>sort_keys\<close> over a whole
  array of node indices returns a permutation of it, in order by the UTF-16 code units of the keys;
  no comparison meets malformed text and no index leaves the array or the scratch.\<close>

theorem sort_keys_exact:
  assumes "\<forall>i \<in> set vs. utf8_text (key_bytes ns i)"
  shows "\<exists>result. sort_keys ns 0 (length vs) vs = Some result \<and> mset result = mset vs \<and>
    sorted_wrt (\<lambda>i j. key_le (key_bytes ns i) (key_bytes ns j)) result"
  using sort_keys_whole [OF assms] .

definition keyed_node :: "bytes \<Rightarrow> node" where
  "keyed_node k = fresh_node TYPE_NULL VALUE_NONE (Some k)"

theorem sort_keys_exact_witness:
  "sort_keys [keyed_node [0x62], keyed_node [0x63], keyed_node [0x61]] 0 3 [0, 1, 2] = Some [2, 0, 1] \<and>
   sorted_wrt (\<lambda>i j. key_le (key_bytes [keyed_node [0x62], keyed_node [0x63], keyed_node [0x61]] i)
     (key_bytes [keyed_node [0x62], keyed_node [0x63], keyed_node [0x61]] j)) [2, 0, 1::nat]"
proof -
  let ?ns = "[keyed_node [0x62], keyed_node [0x63], keyed_node [0x61]]"
  have r: "sort_keys ?ns 0 3 [0, 1, 2] = Some [2, 0, 1]" by code_simp
  have "\<forall>i \<in> set [0, 1, 2]. utf8_validate (key_bytes ?ns i)" by code_simp
  then have "\<forall>i \<in> set [0, 1, 2]. utf8_text (key_bytes ?ns i)" by (simp add: utf8_validate_iff)
  from sort_keys_exact [OF this] r show ?thesis by (simp add: numeral_3_eq_3)
qed
end
