(* ===== verification/Canonical.thy ===== *)
theory Canonical
  imports Document
begin

text \<open>
  \<^verbatim>\<open>src/canonical.c\<close>: whether the bytes a document was parsed from are its canonical form, decided
  by a cursor that demands byte after byte what the canonical writer would have produced.

  An \<open>expect\<close> answers \<open>Ret ()\<close> for 1 and \<open>Fail ()\<close> for 0; \<open>Stuck\<close> is a failed assertion or an
  access outside an array. \<open>expect_object\<close> and \<open>expect_array\<close> take the walk of a value one level
  down; \<open>expect_value\<close> recurses on the levels of nesting, fewer than the document has tokens.
\<close>

unbundle bit_operations_syntax

record cursor =
  c_bytes :: bytes
  c_offset :: nat

type_synonym expectation = "(unit, unit) outcome \<times> cursor"

definition expect :: "bytes \<Rightarrow> cursor \<Rightarrow> expectation" where
  "expect bs c =
     (if length (c_bytes c) - c_offset c < length bs \<or>
         take (length bs) (drop (c_offset c) (c_bytes c)) \<noteq> bs
      then (Fail (), c) else (Ret (), c\<lparr>c_offset := c_offset c + length bs\<rparr>))"

definition expect_byte :: "byte \<Rightarrow> cursor \<Rightarrow> expectation" where
  "expect_byte b c = expect [b] c"

definition expect_literal :: "string \<Rightarrow> cursor \<Rightarrow> expectation" where
  "expect_literal t c = expect (ascii t) c"

fun expect_content :: "bytes \<Rightarrow> cursor \<Rightarrow> expectation" where
  "expect_content [] c = (Ret (), c)"
| "expect_content (b # bs) c =
     andthen (expect (canonical_escape b) c) (\<lambda>_ c. expect_content bs c)"

definition expect_string :: "bytes \<Rightarrow> cursor \<Rightarrow> expectation" where
  "expect_string bs c =
     andthen (expect_byte QUOTE c) (\<lambda>_ c.
       andthen (expect_content bs c) (\<lambda>_ c. expect_byte QUOTE c))"

text \<open>The number read, as \<open>snprintf\<close> renders it; any failure of the reader answers 0.\<close>

definition expect_number :: "document \<Rightarrow> nat \<Rightarrow> token \<Rightarrow> cursor \<Rightarrow> expectation" where
  "expect_number d v t c =
     (let txt = token_text (arena d) t;
          rendered =
            (if txt \<noteq> [] \<and> txt ! 0 = MINUS
             then bind_outcome (value_i64 (Some d) v True) (\<lambda>n. Ret (decimal_int (sint n)))
             else bind_outcome (value_u64 (Some d) v True) (\<lambda>n. Ret (decimal (unat n))))
      in if \<exists>b \<in> set txt. b = DOT \<or> b = 0x65 \<or> b = 0x45 then (Fail (), c)
         else case rendered of
           Ret r \<Rightarrow> if 0 < length r \<and> length r < 32 then expect r c else (Stuck, c)
         | Fail code \<Rightarrow> (Fail (), c)
         | Stuck \<Rightarrow> (Stuck, c))"

text \<open>\<open>document->children[i]\<close>, which the walk reads without \<open>child_at\<close>.\<close>

definition child_index :: "document \<Rightarrow> nat \<Rightarrow> nat option" where
  "child_index d i =
     (case children d of
        None \<Rightarrow> None
      | Some cs \<Rightarrow> if i < length cs then Some (cs ! i) else None)"

type_synonym value_walk = "nat \<Rightarrow> cursor \<Rightarrow> expectation"

text \<open>The order of a key after the one before it: strict.\<close>

definition expect_order :: "bytes option \<Rightarrow> bytes \<Rightarrow> cursor \<Rightarrow> expectation" where
  "expect_order previous key c =
     (case previous of
        None \<Rightarrow> (Ret (), c)
      | Some p \<Rightarrow>
          (case utf16_compare p key of
             None \<Rightarrow> (Stuck, c)
           | Some r \<Rightarrow> if r \<ge> 0 then (Fail (), c) else (Ret (), c)))"

text \<open>The loops of \<open>expect_object\<close> and \<open>expect_array\<close>, by the turns left.\<close>

fun expect_members ::
  "value_walk \<Rightarrow> document \<Rightarrow> token \<Rightarrow> bytes option \<Rightarrow> nat \<Rightarrow> nat \<Rightarrow> cursor \<Rightarrow> expectation" where
  "expect_members walk d t previous i 0 c = (Ret (), c)"
| "expect_members walk d t previous i (Suc remaining) c =
     andthen (if i \<noteq> 0 then expect_byte COMMA c else (Ret (), c)) (\<lambda>_ c.
       case child_index d (children_offset t + 2 * i) of
         None \<Rightarrow> (Stuck, c)
       | Some k \<Rightarrow>
           if k \<ge> length (d_tokens d) \<or> \<not> object_key (d_tokens d ! k) then (Stuck, c)
           else
             let key = token_text (arena d) (d_tokens d ! k)
             in andthen (expect_order previous key c) (\<lambda>_ c.
                  andthen (expect_string key c) (\<lambda>_ c.
                    andthen (expect_byte COLON c) (\<lambda>_ c.
                      case child_index d (children_offset t + 2 * i + 1) of
                        None \<Rightarrow> (Stuck, c)
                      | Some v \<Rightarrow>
                          andthen (walk v c) (\<lambda>_ c.
                            expect_members walk d t (Some key) (i + 1) remaining c)))))"

definition expect_object :: "value_walk \<Rightarrow> document \<Rightarrow> token \<Rightarrow> cursor \<Rightarrow> expectation" where
  "expect_object walk d t c =
     andthen (expect_byte LBRACE c) (\<lambda>_ c.
       andthen (expect_members walk d t None 0 (child_count (links t) div 2) c) (\<lambda>_ c.
         expect_byte RBRACE c))"

fun expect_elements :: "value_walk \<Rightarrow> document \<Rightarrow> token \<Rightarrow> nat \<Rightarrow> nat \<Rightarrow> cursor \<Rightarrow> expectation" where
  "expect_elements walk d t i 0 c = (Ret (), c)"
| "expect_elements walk d t i (Suc remaining) c =
     andthen (if i \<noteq> 0 then expect_byte COMMA c else (Ret (), c)) (\<lambda>_ c.
       case child_index d (children_offset t + i) of
         None \<Rightarrow> (Stuck, c)
       | Some v \<Rightarrow> andthen (walk v c) (\<lambda>_ c. expect_elements walk d t (i + 1) remaining c))"

definition expect_array :: "value_walk \<Rightarrow> document \<Rightarrow> token \<Rightarrow> cursor \<Rightarrow> expectation" where
  "expect_array walk d t c =
     andthen (expect_byte LBRACKET c) (\<lambda>_ c.
       andthen (expect_elements walk d t 0 (child_count (links t)) c) (\<lambda>_ c.
         expect_byte RBRACKET c))"

fun expect_value :: "nat \<Rightarrow> document \<Rightarrow> value_walk" where
  "expect_value 0 d v c = (Stuck, c)"
| "expect_value (Suc levels) d v c =
     (if v \<ge> length (d_tokens d) then (Stuck, c)
      else
        let t = d_tokens d ! v
        in case ttype t of
             TYPE_OBJECT \<Rightarrow> expect_object (expect_value levels d) d t c
           | TYPE_ARRAY \<Rightarrow> expect_array (expect_value levels d) d t c
           | TYPE_STRING \<Rightarrow> expect_string (token_text (arena d) t) c
           | TYPE_NUMBER \<Rightarrow> expect_number d v t c
           | TYPE_BOOLEAN \<Rightarrow> expect_literal (if boolean_value t then ''true'' else ''false'') c
           | TYPE_NULL \<Rightarrow> expect_literal ''null'' c
           | TYPE_NONE \<Rightarrow> (Stuck, c))"

definition document_is_canonical ::
  "document option \<Rightarrow> u32 \<Rightarrow> bool \<Rightarrow> (result, bool) outcome" where
  "document_is_canonical document flags out_given =
     (case document of
        None \<Rightarrow> Fail ERR_ARGUMENT
      | Some d \<Rightarrow>
          if \<not> out_given \<or> flags AND NOT FLAG_FINAL_NEWLINE \<noteq> 0 then Fail ERR_ARGUMENT
          else if duplicate_count d \<noteq> 0 then Ret False
          else
            let walked = (if length (d_tokens d) \<noteq> 0
                          then expect_value (length (d_tokens d)) d 0 \<lparr>c_bytes = d_bytes d, c_offset = 0\<rparr>
                          else (Fail (), \<lparr>c_bytes = d_bytes d, c_offset = 0\<rparr>))
            in case andthen walked (\<lambda>_ c.
                      if flags AND FLAG_FINAL_NEWLINE \<noteq> 0 then expect_byte LF c else (Ret (), c)) of
                 (Ret _, c) \<Rightarrow> Ret (c_offset c = length (d_bytes d))
               | (Fail _, c) \<Rightarrow> Ret False
               | (Stuck, c) \<Rightarrow> Stuck)"

end
