(* ===== verification/Canonical_Correct.thy ===== *)
theory Canonical_Correct
  imports Canonical Output_Text Writer_Copy "HOL-Library.Sublist"
begin

text \<open>
  The cursor of \<^verbatim>\<open>src/canonical.c\<close> against the writer's rendering: it walks a document to the end
  exactly when the value is in the canonical domain, its keys ascend, and the bytes are what the
  writer produces for it. \<open>walks\<close> is the contract of the functions that move the cursor.
\<close>

unbundle bit_operations_syntax

section \<open>The texts of a parsed document\<close>

text \<open>Every key and string is UTF-8 without NUL.\<close>

definition text_bytes_ok :: "bytes \<Rightarrow> bool" where
  "text_bytes_ok bs \<longleftrightarrow> utf8_text bs \<and> (\<forall>b \<in> set bs. b \<noteq> 0)"

fun textual :: "json \<Rightarrow> bool" where
  "textual (JStr s) \<longleftrightarrow> text_bytes_ok s"
| "textual (JArr vs) \<longleftrightarrow> (\<forall>v \<in> set vs. textual v)"
| "textual (JObj ms) \<longleftrightarrow> (\<forall>(k, v) \<in> set ms. text_bytes_ok k \<and> textual v)"
| "textual v \<longleftrightarrow> True"

lemma text_bytes_ok_append: "text_bytes_ok xs \<Longrightarrow> text_bytes_ok ys \<Longrightarrow> text_bytes_ok (xs @ ys)"
  by (auto simp: text_bytes_ok_def intro: utf8_text_append)

lemma utf8_enc_nonzero: "scalar_value cp \<Longrightarrow> cp \<noteq> 0 \<Longrightarrow> b \<in> set (utf8_enc cp) \<Longrightarrow> b \<noteq> 0"
proof (cases "0x80 \<le> cp")
  case True
  assume "scalar_value cp" "b \<in> set (utf8_enc cp)"
  then have "0x80 \<le> b" using enc_high [OF _ True] by simp
  then show "b \<noteq> 0" by auto
next
  case False
  assume "cp \<noteq> 0" "b \<in> set (utf8_enc cp)"
  then have b: "b = of_nat cp" using False by (simp add: utf8_enc_def)
  have "unat (of_nat cp :: byte) = cp" using False by (intro unat_of_nat_byte) simp
  then show "b \<noteq> 0" using b \<open>cp \<noteq> 0\<close> by (metis unat_0)
qed

lemma text_bytes_ok_enc: "scalar_value cp \<Longrightarrow> cp \<noteq> 0 \<Longrightarrow> text_bytes_ok (utf8_enc cp)"
  using utf8_enc_nonzero by (auto simp: text_bytes_ok_def intro: utf8_text_enc)

lemma text_bytes_ok_byte: "b \<noteq> 0 \<Longrightarrow> unat b < 0x80 \<Longrightarrow> text_bytes_ok [b]"
  using utf8_text_ascii [of "[b]"] by (simp add: text_bytes_ok_def)

lemma string_chars_text: "string_chars raw out \<Longrightarrow> text_bytes_ok out"
proof (induction rule: string_chars.induct)
  case chars_end
  then show ?case using utf8_text_ascii [of "[]"] by (simp add: text_bytes_ok_def)
next
  case (chars_plain cp raw out)
  then show ?case by (intro text_bytes_ok_append text_bytes_ok_enc) auto
next
  case (chars_short e c raw out)
  have "c \<noteq> 0 \<and> unat c < 0x80" using chars_short(1) by (auto simp: short_escapes_def)
  then show ?case using text_bytes_ok_append [OF text_bytes_ok_byte chars_short(3)] by simp
next
  case (chars_unicode es v raw out)
  then show ?case using unicode_escape_scalar by (intro text_bytes_ok_append text_bytes_ok_enc) auto
qed

lemma json_string_text:
  assumes "json_string prof raw out"
  shows "text_bytes_ok out"
proof (cases "prof = CONTRACT_ASCII")
  case True
  then have "\<forall>b \<in> set out. b \<noteq> 0 \<and> unat b < 0x80" using assms by (auto simp: json_string_def word_le_nat_alt)
  then show ?thesis using utf8_text_ascii by (simp add: text_bytes_ok_def)
qed (use assms string_chars_text in \<open>simp add: json_string_def\<close>)

lemma json_text_textual:
  "json_text prof bs v \<Longrightarrow> textual v"
  "json_elements prof bs vs \<Longrightarrow> \<forall>v \<in> set vs. textual v"
  "json_members prof bs ms \<Longrightarrow> \<forall>(k, v) \<in> set ms. text_bytes_ok k \<and> textual v"
  by (induction rule: json_text_json_elements_json_members.inducts) (auto dest: json_string_text)

lemma last_wins_textual: "textual v \<Longrightarrow> textual (last_wins v)"
proof (induction v)
  case (JObj ms)
  have "set (last_members (map (\<lambda>(k, v). (k, last_wins v)) ms)) \<subseteq> set (map (\<lambda>(k, v). (k, last_wins v)) ms)"
    by (rule last_members_subset)
  then show ?case using JObj by fastforce
qed auto

lemma json_document_textual: "json_document prof bs v \<Longrightarrow> textual (last_wins v)"
  by (auto simp: json_document_def intro: last_wins_textual json_text_textual(1))

section \<open>The contract of an expectation\<close>

definition walks :: "cursor \<Rightarrow> bool \<Rightarrow> bytes \<Rightarrow> expectation \<Rightarrow> bool" where
  "walks c good bs m \<longleftrightarrow>
     (case m of (r, c') \<Rightarrow>
        (case r of
           Ret _ \<Rightarrow> good \<and> prefix bs (drop (c_offset c) (c_bytes c)) \<and> c' = c\<lparr>c_offset := c_offset c + length bs\<rparr>
         | Fail _ \<Rightarrow> \<not> (good \<and> prefix bs (drop (c_offset c) (c_bytes c)))
         | Stuck \<Rightarrow> False))"

lemma prefix_append_drop: "prefix (a @ b) xs \<longleftrightarrow> prefix a xs \<and> prefix b (drop (length a) xs)"
  by (auto simp: prefix_def)

lemma walks_andthen:
  assumes "walks c g1 b1 m" "\<And>x c'. g1 \<Longrightarrow> walks c' g2 b2 (k x c')"
  shows "walks c (g1 \<and> g2) (b1 @ b2) (andthen m k)"
proof -
  obtain r c' where m: "m = (r, c')" by fastforce
  show ?thesis
  proof (cases r)
    case (Ret x)
    then have c: "g1" "prefix b1 (drop (c_offset c) (c_bytes c))" "c' = c\<lparr>c_offset := c_offset c + length b1\<rparr>"
      using assms(1) m by (simp_all add: walks_def)
    obtain r2 c2 where k: "k x c' = (r2, c2)" by fastforce
    have "walks c' g2 b2 (r2, c2)" using assms(2) [OF c(1), of c' x] unfolding k .
    then show ?thesis using c k m Ret by (cases r2) (auto simp: walks_def prefix_append_drop drop_drop add.commute add.left_commute)
  next
    case (Fail code)
    then show ?thesis using assms(1) m by (auto simp: walks_def prefix_append_drop)
  next
    case Stuck
    then show ?thesis using assms(1) m by (simp add: walks_def)
  qed
qed

lemma walks_nothing: "walks c True [] (Ret (), c)"
  by (simp add: walks_def)

lemma walks_check: "walks c good [] (if good then (Ret (), c) else (Fail (), c))"
  by (simp add: walks_def)

lemma walks_weaken: "walks c g bs m \<Longrightarrow> g = g' \<Longrightarrow> bs = bs' \<Longrightarrow> walks c g' bs' m"
  by simp

lemma expect_walks: "walks c True bs (expect bs c)"
proof -
  let ?xs = "drop (c_offset c) (c_bytes c)"
  have "prefix bs ?xs \<longleftrightarrow> length bs \<le> length ?xs \<and> take (length bs) ?xs = bs"
    by (metis append_eq_conv_conj prefix_def prefix_length_le append_take_drop_id)
  then show ?thesis by (auto simp: walks_def expect_def)
qed

lemma expect_byte_walks: "walks c True [b] (expect_byte b c)"
  unfolding expect_byte_def by (rule expect_walks)

lemma expect_literal_walks: "walks c True (ascii t) (expect_literal t c)"
  unfolding expect_literal_def by (rule expect_walks)

lemma expect_content_walks: "walks c True (concat (map canonical_escape bs)) (expect_content bs c)"
proof (induction bs arbitrary: c)
  case Nil
  then show ?case by (simp add: walks_nothing)
next
  case (Cons b bs)
  from walks_andthen [OF expect_walks [of c "canonical_escape b"] Cons.IH] show ?case by simp
qed

definition plain :: style where
  "plain = \<lparr>st_indent = False, st_ascii = False\<rparr>"

lemma plain_simps [simp]: "\<not> st_indent plain" "\<not> st_ascii plain" "line_break plain level = []" "colon_text plain = [COLON]"
  by (simp_all add: plain_def line_break_def colon_text_def)

lemma expect_string_walks: "walks c True (string_text plain bs) (expect_string bs c)"
proof -
  have "walks c (True \<and> True \<and> True) ([QUOTE] @ concat (map canonical_escape bs) @ [QUOTE]) (expect_string bs c)"
    unfolding expect_string_def by (intro walks_andthen expect_byte_walks expect_content_walks)
  then show ?thesis by (simp add: string_text_def content_text_plain)
qed

text \<open>The numbers in the domain, and only those, as the writer renders them.\<close>

lemma not_integral: "b \<in> set n \<Longrightarrow> b = DOT \<or> b = 0x65 \<or> b = 0x45 \<Longrightarrow> \<not> integral_lexeme n"
proof
  assume b: "b \<in> set n" "b = DOT \<or> b = 0x65 \<or> b = 0x45" and i: "integral_lexeme n"
  have "b \<noteq> MINUS" "\<not> is_digit b" using b(2) by (auto simp: is_digit_def)
  then have "b \<in> set (unsigned_part n)" using b(1) by (cases n) (auto simp: unsigned_part_def lexeme_negative_def)
  moreover have "\<forall>b \<in> set (unsigned_part n). is_digit b" using i unfolding integral_lexeme_def by (metis set_takeWhileD)
  ultimately show False using \<open>\<not> is_digit b\<close> by blast
qed

lemma copied_lexeme_length: "json_number n \<Longrightarrow> integral_lexeme n \<Longrightarrow> carried n \<Longrightarrow> 0 < length (copied_lexeme n) \<and> length (copied_lexeme n) < 32"
proof -
  assume n: "json_number n" "integral_lexeme n" "carried n"
  have "integer_part n < 2 ^ 64" using n(3) by (auto simp: carried_def split: if_splits)
  then have "length (decimal (integer_part n)) \<le> 20" by (rule decimal_length)
  then have "length n \<le> 21" using arg_cong [OF json_number_integer(2) [OF n(1,2)], of length] by (simp split: if_splits)
  moreover have "n \<noteq> []" using json_number_integer(2) [OF n(1,2)] by (metis Nil_is_append_conv decimal_nonempty)
  ultimately show ?thesis by (auto simp: copied_lexeme_def)
qed

lemma expect_number_walks:
  assumes dn: "denotes d h (JNum n)" and g: "json_number n"
  shows "walks c (integral_lexeme n \<and> carried n) (copied_lexeme n) (expect_number d h (d_tokens d ! h) c)"
proof -
  have t: "token_text (arena d) (d_tokens d ! h) = n" using denotes_text [OF dn] by simp
  have neg: "n \<noteq> [] \<and> n ! 0 = MINUS \<longleftrightarrow> lexeme_negative n" by (simp add: lexeme_negative_def)
  let ?r = "if lexeme_negative n
             then bind_outcome (value_i64 (Some d) h True) (\<lambda>n. Ret (decimal_int (sint n)))
             else bind_outcome (value_u64 (Some d) h True) (\<lambda>n. Ret (decimal (unat n)))"
  have e: "expect_number d h (d_tokens d ! h) c =
     (if \<exists>b \<in> set n. b = DOT \<or> b = 0x65 \<or> b = 0x45 then (Fail (), c)
      else case ?r of
           Ret r \<Rightarrow> if 0 < length r \<and> length r < 32 then expect r c else (Stuck, c)
         | Fail code \<Rightarrow> (Fail (), c)
         | Stuck \<Rightarrow> (Stuck, c))"
    unfolding expect_number_def t Let_def neg ..
  show ?thesis
  proof (cases "integral_lexeme n \<and> carried n")
    case True
    have "?r = Ret (copied_lexeme n)"
      using copy_reader_signed [OF dn] copy_reader_unsigned [OF dn] True rendered_signed [OF g] rendered_unsigned [OF g] by simp
    moreover have "\<not> (\<exists>b \<in> set n. b = DOT \<or> b = 0x65 \<or> b = 0x45)" using not_integral True by blast
    ultimately have "expect_number d h (d_tokens d ! h) c = expect (copied_lexeme n) c"
      unfolding e using copied_lexeme_length [OF g] True by simp
    then show ?thesis using expect_walks True by simp
  next
    case False
    have "\<exists>code. ?r = Fail code"
      using copy_reader_signed [OF dn] copy_reader_unsigned [OF dn] False by (cases "carried n") simp_all
    then have "expect_number d h (d_tokens d ! h) c = (Fail (), c)" unfolding e by auto
    then show ?thesis unfolding walks_def using False by auto
  qed
qed


section \<open>Canonical values\<close>

definition key_lt :: "bytes \<Rightarrow> bytes \<Rightarrow> bool" where
  "key_lt a b \<longleftrightarrow> a \<noteq> b \<and> key_le a b"

fun ascending :: "bytes option \<Rightarrow> bytes list \<Rightarrow> bool" where
  "ascending previous [] \<longleftrightarrow> True"
| "ascending previous (k # ks) \<longleftrightarrow> (\<forall>p. previous = Some p \<longrightarrow> key_lt p k) \<and> ascending (Some k) ks"

text \<open>Numbers are integers of 64 bits and the keys of every object ascend.\<close>

fun canonical_value :: "json \<Rightarrow> bool" where
  "canonical_value (JNum n) \<longleftrightarrow> integral_lexeme n \<and> carried n"
| "canonical_value (JArr vs) \<longleftrightarrow> (\<forall>v \<in> set vs. canonical_value v)"
| "canonical_value (JObj ms) \<longleftrightarrow> ascending None (map fst ms) \<and> (\<forall>(k, v) \<in> set ms. canonical_value v)"
| "canonical_value v \<longleftrightarrow> True"

lemma expect_order_walks:
  assumes "utf8_text k" "\<forall>p. previous = Some p \<longrightarrow> utf8_text p"
  shows "walks c (\<forall>p. previous = Some p \<longrightarrow> key_lt p k) [] (expect_order previous k c)"
proof (cases previous)
  case None
  then show ?thesis by (simp add: expect_order_def walks_nothing)
next
  case (Some p)
  have "utf16_compare p k = Some (if p = k then 0 else if key_le p k then -1 else 1)"
    using utf16_compare_text assms Some by blast
  then have "expect_order previous k c = (if key_lt p k then (Ret (), c) else (Fail (), c))"
    using Some by (simp add: expect_order_def key_lt_def)
  then show ?thesis using walks_check [of c "key_lt p k"] Some by simp
qed

definition walked :: "document \<Rightarrow> nat \<Rightarrow> value_walk \<Rightarrow> bool" where
  "walked d levels walk \<longleftrightarrow>
     (\<forall>h v level c. denotes d h v \<and> grammatical v \<and> textual v \<and> json_cells v \<le> levels \<longrightarrow>
        walks c (canonical_value v) (value_text plain level (copied v)) (walk h c))"

lemma child_index_at: "child_at d t i = Ret j \<Longrightarrow> child_index d (children_offset t + i) = Some j"
  by (auto simp: child_at_def child_index_def split: if_splits option.splits)

lemma expect_elements_walks:
  assumes "walked d levels walk" "denotes d h (JArr vs)" "\<forall>v \<in> set vs. grammatical v \<and> textual v \<and> json_cells v \<le> levels"
  shows "i + n = length vs \<Longrightarrow>
    walks c (\<forall>v \<in> set (drop i vs). canonical_value v) (elements_text plain level (i = 0) (map copied (drop i vs)))
      (expect_elements walk d (d_tokens d ! h) i n c)"
proof (induction n arbitrary: i c)
  case 0
  then show ?case by (simp add: walks_nothing)
next
  case (Suc n)
  then have i: "i < length vs" by simp
  let ?v = "vs ! i" and ?j = "element_handles (h + 1) vs ! i"
  have "child_at d (d_tokens d ! h) i = Ret ?j" using denotes_children(2) [OF assms(2), of i] i by simp
  note ci = child_index_at [OF this]
  have w: "walks c (canonical_value ?v) (value_text plain (level + 1) (copied ?v)) (walk ?j c)" for c
    using assms(1,3) denotes_element [OF assms(2) i] i unfolding walked_def by simp
  have comma: "walks c True (if i = 0 then [] else [COMMA]) (if i \<noteq> 0 then expect_byte COMMA c else (Ret (), c))" for c
    by (simp add: walks_nothing expect_byte_walks)
  have "walks c (True \<and> canonical_value ?v \<and> (\<forall>v \<in> set (drop (i + 1) vs). canonical_value v))
      ((if i = 0 then [] else [COMMA]) @ value_text plain (level + 1) (copied ?v) @
        elements_text plain level (i + 1 = 0) (map copied (drop (i + 1) vs)))
      (expect_elements walk d (d_tokens d ! h) i (Suc n) c)"
    unfolding expect_elements.simps ci option.case
    by (intro walks_andthen comma w Suc.IH) (use Suc.prems in simp)
  then show ?case by (rule walks_weaken) (simp_all add: Cons_nth_drop_Suc [OF i, symmetric])
qed

lemma key_token:
  assumes "denotes d h (JObj ms)" "i < length ms"
  obtains j where "child_index d (children_offset (d_tokens d ! h) + 2 * i) = Some j" "j < length (d_tokens d)"
    "object_key (d_tokens d ! j)" "token_text (arena d) (d_tokens d ! j) = fst (ms ! i)"
proof -
  obtain t where t: "key_at d (d_tokens d ! h) (2 * i) = Ret t" "token_text (arena d) t = fst (ms ! i)"
    using key_at_denotes [OF assms] by blast
  obtain j where j: "child_at d (d_tokens d ! h) (2 * i) = Ret j"
    using t(1) by (auto simp: key_at_def outcome_iff)
  then have "j < length (d_tokens d)" "object_key (d_tokens d ! j)" "t = d_tokens d ! j"
    using t(1) by (auto simp: key_at_def split: if_splits)
  then show thesis using that child_index_at [OF j] t(2) by simp
qed

lemma expect_members_walks:
  assumes "walked d levels walk" "denotes d h (JObj ms)"
    "\<forall>(k, v) \<in> set ms. text_bytes_ok k \<and> grammatical v \<and> textual v \<and> json_cells v \<le> levels"
  shows "i + n = length ms \<Longrightarrow> \<forall>p. previous = Some p \<longrightarrow> utf8_text p \<Longrightarrow>
    walks c (ascending previous (map fst (drop i ms)) \<and> (\<forall>(k, v) \<in> set (drop i ms). canonical_value v))
      (members_text plain level (i = 0) (map (\<lambda>(k, v). (k, copied v)) (drop i ms)))
      (expect_members walk d (d_tokens d ! h) previous i n c)"
proof (induction n arbitrary: i c previous)
  case 0
  then show ?case by (simp add: walks_nothing)
next
  case (Suc n)
  then have i: "i < length ms" by simp
  obtain k v where kv: "ms ! i = (k, v)" by fastforce
  then have m: "text_bytes_ok k" "grammatical v" "textual v" "json_cells v \<le> levels" using assms(3) i nth_mem [OF i] by auto
  let ?j = "member_handles (h + 1) ms ! (2 * i + 1)"
  have "child_at d (d_tokens d ! h) (2 * i + 1) = Ret ?j" using denotes_children(2) [OF assms(2), of "2 * i + 1"] i by simp
  note vi = child_index_at [OF this]
  obtain j where j: "child_index d (children_offset (d_tokens d ! h) + 2 * i) = Some j" "\<not> (j \<ge> length (d_tokens d) \<or> \<not> object_key (d_tokens d ! j))"
    "token_text (arena d) (d_tokens d ! j) = k" using key_token [OF assms(2) i] kv by (metis fst_conv not_le)
  have w: "walks c (canonical_value v) (value_text plain (level + 1) (copied v)) (walk ?j c)" for c
    using assms(1) denotes_member [OF assms(2) i] m kv unfolding walked_def by simp
  have comma: "walks c True (if i = 0 then [] else [COMMA]) (if i \<noteq> 0 then expect_byte COMMA c else (Ret (), c))" for c
    by (simp add: walks_nothing expect_byte_walks)
  have order: "walks c (\<forall>p. previous = Some p \<longrightarrow> key_lt p k) [] (expect_order previous k c)" for c
    using expect_order_walks m(1) Suc.prems(2) by (simp add: text_bytes_ok_def)
  have rest: "walks c (ascending (Some k) (map fst (drop (i + 1) ms)) \<and> (\<forall>(k, v) \<in> set (drop (i + 1) ms). canonical_value v))
      (members_text plain level (i + 1 = 0) (map (\<lambda>(k, v). (k, copied v)) (drop (i + 1) ms)))
      (expect_members walk d (d_tokens d ! h) (Some k) (i + 1) n c)" for c
    by (rule Suc.IH) (use Suc.prems m(1) in \<open>simp_all add: text_bytes_ok_def\<close>)
  have vi': "child_index d (children_offset (d_tokens d ! h) + 2 * i + 1) = Some ?j" using vi by (simp add: add.assoc)
  have "walks c (True \<and> (\<forall>p. previous = Some p \<longrightarrow> key_lt p k) \<and> True \<and> True \<and> canonical_value v \<and>
        ascending (Some k) (map fst (drop (i + 1) ms)) \<and> (\<forall>(k, v) \<in> set (drop (i + 1) ms). canonical_value v))
      ((if i = 0 then [] else [COMMA]) @ [] @ string_text plain k @ [COLON] @ value_text plain (level + 1) (copied v) @
        members_text plain level (i + 1 = 0) (map (\<lambda>(k, v). (k, copied v)) (drop (i + 1) ms)))
      (expect_members walk d (d_tokens d ! h) previous i (Suc n) c)"
    unfolding expect_members.simps j(1) option.case if_not_P [OF j(2)] Let_def j(3) vi'
    by (intro walks_andthen comma order expect_string_walks expect_byte_walks w rest)
  then show ?case by (rule walks_weaken) (use kv in \<open>auto simp: Cons_nth_drop_Suc [OF i, symmetric]\<close>)
qed

lemma json_cells_bound:
  "json_cells (JArr vs) \<le> Suc n \<Longrightarrow> v \<in> set vs \<Longrightarrow> json_cells v \<le> n"
  "json_cells (JObj ms) \<le> Suc n \<Longrightarrow> (k, v) \<in> set ms \<Longrightarrow> json_cells v \<le> n"
proof -
  show "json_cells (JArr vs) \<le> Suc n \<Longrightarrow> v \<in> set vs \<Longrightarrow> json_cells v \<le> n"
    using member_le_sum_list [of "json_cells v" "map json_cells vs"] by fastforce
  assume "json_cells (JObj ms) \<le> Suc n" "(k, v) \<in> set ms"
  moreover from this(2) have "1 + json_cells v \<in> set (map (\<lambda>(k, v). 1 + json_cells v) ms)" by (force intro: rev_image_eqI)
  then have "1 + json_cells v \<le> sum_list (map (\<lambda>(k, v). 1 + json_cells v) ms)" by (rule member_le_sum_list) simp
  ultimately show "json_cells v \<le> n" by simp
qed

lemma expect_value_walks: "walked d levels (expect_value levels d)"
proof (induction levels)
  case 0
  then show ?case unfolding walked_def using json_cells_positive by (metis le_zero_eq less_irrefl)
next
  case (Suc levels)
  have "walks c (canonical_value v) (value_text plain level (copied v)) (expect_value (Suc levels) d h c)"
    if dn: "denotes d h v" and g: "grammatical v" "textual v" and height: "json_cells v \<le> Suc levels" for h v level c
  proof -
    note h = denotes_cell [OF dn]
    have e: "expect_value (Suc levels) d h c =
       (case json_type_of v of
             TYPE_OBJECT \<Rightarrow> expect_object (expect_value levels d) d (d_tokens d ! h) c
           | TYPE_ARRAY \<Rightarrow> expect_array (expect_value levels d) d (d_tokens d ! h) c
           | TYPE_STRING \<Rightarrow> expect_string (token_text (arena d) (d_tokens d ! h)) c
           | TYPE_NUMBER \<Rightarrow> expect_number d h (d_tokens d ! h) c
           | TYPE_BOOLEAN \<Rightarrow> expect_literal (if boolean_value (d_tokens d ! h) then ''true'' else ''false'') c
           | TYPE_NULL \<Rightarrow> expect_literal ''null'' c
           | TYPE_NONE \<Rightarrow> (Stuck, c))"
      using h(1,3) by (simp add: Let_def)
    show ?thesis
    proof (cases v)
      case JNull
      then show ?thesis unfolding e using expect_literal_walks [of c "''null''"] by simp
    next
      case (JBool b)
      have "boolean_value (d_tokens d ! h) = b"
        using h JBool by (auto simp: cells_def cell_of_def)
      then show ?thesis unfolding e using expect_literal_walks [of c "if b then ''true'' else ''false''"] JBool by simp
    next
      case (JNum n)
      then show ?thesis unfolding e using expect_number_walks [of d h n c] dn g by simp
    next
      case (JStr s)
      have "token_text (arena d) (d_tokens d ! h) = s" using denotes_text [OF dn] JStr by simp
      then show ?thesis unfolding e using expect_string_walks [of c s] JStr by simp
    next
      case (JArr vs)
      have "\<forall>v \<in> set vs. grammatical v \<and> textual v \<and> json_cells v \<le> levels"
        using g height JArr json_cells_bound(1) by simp
      note el = expect_elements_walks [OF Suc.IH dn [unfolded JArr] this, of 0 "length vs", simplified]
      have cc: "child_count (links (d_tokens d ! h)) = length vs" using denotes_children(1) [OF dn] JArr by simp
      have "walks c (True \<and> (\<forall>v \<in> set vs. canonical_value v) \<and> True) ([LBRACKET] @ elements_text plain level True (map copied vs) @ [RBRACKET])
          (expect_array (expect_value levels d) d (d_tokens d ! h) c)"
        unfolding expect_array_def cc by (intro walks_andthen expect_byte_walks el)
      then show ?thesis unfolding e using JArr by (cases vs) (simp_all add: ascii_def)
    next
      case (JObj ms)
      have "\<forall>(k, v) \<in> set ms. text_bytes_ok k \<and> grammatical v \<and> textual v \<and> json_cells v \<le> levels"
        using g height JObj json_cells_bound(2) [of ms levels] by fastforce
      note me = expect_members_walks [OF Suc.IH dn [unfolded JObj] this, of 0 "length ms" None, simplified]
      have cc: "child_count (links (d_tokens d ! h)) div 2 = length ms" using denotes_children(1) [OF dn] JObj by simp
      have "walks c (True \<and> (ascending None (map fst ms) \<and> (\<forall>(k, v) \<in> set ms. canonical_value v)) \<and> True)
          ([LBRACE] @ members_text plain level True (map (\<lambda>(k, v). (k, copied v)) ms) @ [RBRACE])
          (expect_object (expect_value levels d) d (d_tokens d ! h) c)"
        unfolding expect_object_def cc by (intro walks_andthen expect_byte_walks me)
      then show ?thesis unfolding e using JObj by (cases ms) (auto simp: ascii_def)
    qed
  qed
  then show ?case by (simp add: walked_def)
qed

section \<open>The check\<close>

definition trailer :: "u32 \<Rightarrow> bytes" where
  "trailer flags = (if flags AND FLAG_FINAL_NEWLINE \<noteq> 0 then [LF] else [])"

lemma represents_size: "represents d v \<Longrightarrow> length (d_tokens d) = json_cells v"
  using layout_size by (simp add: represents_def)

lemma document_is_canonical_walks:
  assumes v: "represents d v" "grammatical v" "textual v" and flags: "flags AND NOT FLAG_FINAL_NEWLINE = 0"
  shows "document_is_canonical (Some d) flags True =
    Ret (duplicate_count d = 0 \<and> canonical_value v \<and> d_bytes d = value_text plain 0 (copied v) @ trailer flags)"
proof (cases "duplicate_count d = 0")
  case True
  let ?c = "\<lparr>c_bytes = d_bytes d, c_offset = 0\<rparr>" and ?bs = "value_text plain 0 (copied v) @ trailer flags"
  let ?k = "\<lambda>_ c. if flags AND FLAG_FINAL_NEWLINE \<noteq> 0 then expect_byte LF c else (Ret (), c)"
  have n: "length (d_tokens d) = json_cells v" using represents_size [OF v(1)] .
  then have n0: "length (d_tokens d) \<noteq> 0" by (metis json_cells_positive less_irrefl)
  have "walks c (canonical_value v) (value_text plain 0 (copied v)) (expect_value (length (d_tokens d)) d 0 c)" for c
    using expect_value_walks [of d "length (d_tokens d)"] denotes_root [OF v(1)] v(2,3) n unfolding walked_def by simp
  then have "walks ?c (canonical_value v \<and> True) ?bs (andthen (expect_value (length (d_tokens d)) d 0 ?c) ?k)"
    by (rule walks_andthen) (simp add: trailer_def expect_byte_walks walks_nothing)
  then have w: "walks ?c (canonical_value v) ?bs (andthen (expect_value (length (d_tokens d)) d 0 ?c) ?k)" by simp
  obtain r c' where m: "andthen (expect_value (length (d_tokens d)) d 0 ?c) ?k = (r, c')" by fastforce
  have e: "document_is_canonical (Some d) flags True =
      (case (r, c') of (Ret _, c) \<Rightarrow> Ret (c_offset c = length (d_bytes d)) | (Fail _, c) \<Rightarrow> Ret False | (Stuck, c) \<Rightarrow> Stuck)"
    using True flags n0 m by (simp add: document_is_canonical_def Let_def)
  have p: "prefix ?bs (d_bytes d) \<and> length ?bs = length (d_bytes d) \<longleftrightarrow> d_bytes d = ?bs"
    by (auto simp: prefix_def)
  show ?thesis
  proof (cases r)
    case (Ret x)
    then show ?thesis using w e p True unfolding m by (auto simp: walks_def)
  next
    case (Fail x)
    then have "\<not> (canonical_value v \<and> prefix ?bs (d_bytes d))" using w unfolding m by (simp add: walks_def)
    then show ?thesis using e p Fail by auto
  next
    case Stuck
    then show ?thesis using w unfolding m by (simp add: walks_def)
  qed
qed (use flags in \<open>simp add: document_is_canonical_def Let_def\<close>)

section \<open>Canonical JSON as the format's specification has it\<close>

text \<open>Numbers are 64-bit integers in shortest base 10, and the keys of an object strictly ascend.\<close>

fun canonical_json :: "json \<Rightarrow> bool" where
  "canonical_json (JNum n) \<longleftrightarrow> (\<exists>i. - (2 ^ 63) \<le> i \<and> i < 2 ^ 64 \<and> n = decimal_int i)"
| "canonical_json (JArr vs) \<longleftrightarrow> (\<forall>v \<in> set vs. canonical_json v)"
| "canonical_json (JObj ms) \<longleftrightarrow> sorted_wrt key_lt (map fst ms) \<and> (\<forall>(k, v) \<in> set ms. canonical_json v)"
| "canonical_json v \<longleftrightarrow> True"

lemma key_lt_trans: "utf8_text a \<Longrightarrow> utf8_text b \<Longrightarrow> utf8_text c \<Longrightarrow> key_lt a b \<Longrightarrow> key_lt b c \<Longrightarrow> key_lt a c"
  unfolding key_lt_def using key_le_trans key_le_antisym by metis

lemma ascending_sorted:
  "\<forall>k \<in> set ks. utf8_text k \<Longrightarrow> \<forall>p. previous = Some p \<longrightarrow> utf8_text p \<Longrightarrow>
   ascending previous ks \<longleftrightarrow> sorted_wrt key_lt ks \<and> (\<forall>p. previous = Some p \<longrightarrow> (\<forall>k \<in> set ks. key_lt p k))"
proof (induction ks arbitrary: previous)
  case (Cons k ks)
  have "ascending (Some k) ks \<longleftrightarrow> sorted_wrt key_lt ks \<and> (\<forall>k' \<in> set ks. key_lt k k')"
    using Cons.IH [of "Some k"] Cons.prems(1) by simp
  moreover have "key_lt p k' " if "previous = Some p" "key_lt p k" "k' \<in> set ks" "key_lt k k'" for p k'
    using key_lt_trans [of p k k'] that Cons.prems by simp
  ultimately show ?case by auto
qed simp

lemma decimal_int_lexeme:
  assumes "- (2 ^ 63) \<le> i" "i < 2 ^ 64"
  shows "integral_lexeme (decimal_int i) \<and> carried (decimal_int i) \<and> copied_lexeme (decimal_int i) = decimal_int i"
proof -
  let ?n = "nat \<bar>i\<bar>"
  have d: "\<forall>b \<in> set (decimal ?n). is_digit b" using decimal_digits [of ?n] by (simp add: is_digit_def is_digit_byte_def)
  obtain b bs where b: "decimal ?n = b # bs" "is_digit b" using d decimal_nonempty [of ?n] by (cases "decimal ?n") auto
  have e: "decimal_int i = (if i < 0 then [MINUS] else []) @ decimal ?n" by (simp add: decimal_int_def)
  have neg: "lexeme_negative (decimal_int i) \<longleftrightarrow> i < 0" using b unfolding e by (auto simp: lexeme_negative_def is_digit_def)
  have u: "unsigned_part (decimal_int i) = decimal ?n" using neg by (simp add: unsigned_part_def e)
  have t: "takeWhile is_digit (decimal ?n) = decimal ?n" using d by simp
  have il: "integral_lexeme (decimal_int i)" using u t by (simp add: integral_lexeme_def)
  have "decimal (integer_part (decimal_int i)) = decimal ?n"
    using json_number_integer(1) [OF json_number_decimal_int il] u by simp
  then have p: "integer_part (decimal_int i) = ?n" by (metis digits_value_decimal)
  have "decimal_int i \<noteq> [MINUS, 0x30]"
  proof
    assume z: "decimal_int i = [MINUS, 0x30]"
    then have "i < 0" using neg by (simp add: lexeme_negative_def)
    moreover from this have "decimal ?n = [0x30]" using z e by simp
    then have "decimal ?n = decimal 0" by (simp add: decimal.simps)
    then have "?n = 0" by (metis digits_value_decimal)
    ultimately show False by simp
  qed
  then show ?thesis using u t neg p assms by (auto simp: integral_lexeme_def carried_def copied_lexeme_def)
qed

lemma lexeme_decimal_int:
  assumes "json_number n" "integral_lexeme n" "carried n" "copied_lexeme n = n"
  shows "\<exists>i. - (2 ^ 63) \<le> i \<and> i < 2 ^ 64 \<and> n = decimal_int i"
proof (cases "lexeme_negative n")
  case False
  have "n = decimal_int (int (integer_part n))"
    using json_number_integer(2) [OF assms(1,2)] False by (simp add: decimal_int_def)
  moreover have "int (integer_part n) < 2 ^ 64" using assms(3) False by (simp add: carried_def)
  ultimately show ?thesis by (intro exI [of _ "int (integer_part n)"]) simp
next
  case True
  have "sint (of_int (- int (integer_part n)) :: u64) = - int (integer_part n)"
    using assms(3) True unfolding carried_def by (intro sint_of_int_u64) simp_all
  then have "n = decimal_int (- int (integer_part n))" using rendered_signed [OF assms(1-3) True] assms(4) by simp
  moreover have "int (integer_part n) \<le> 2 ^ 63" using assms(3) True by (simp add: carried_def)
  ultimately show ?thesis by (intro exI [of _ "- int (integer_part n)"]) simp
qed

lemma canonical_json_iff:
  "grammatical v \<Longrightarrow> textual v \<Longrightarrow> canonical_json v \<longleftrightarrow> canonical_value v \<and> copied v = v"
proof (induction v)
  case (JNum n)
  then show ?case using decimal_int_lexeme lexeme_decimal_int [of n] by auto
next
  case (JArr vs)
  have "map copied vs = vs \<longleftrightarrow> (\<forall>v \<in> set vs. copied v = v)" by (induction vs) auto
  then show ?case using JArr by auto
next
  case (JObj ms)
  have "\<forall>k \<in> set (map fst ms). utf8_text k" using JObj.prems by (auto simp: text_bytes_ok_def)
  from ascending_sorted [OF this, of None] have s: "ascending None (map fst ms) \<longleftrightarrow> sorted_wrt key_lt (map fst ms)" by simp
  have m: "canonical_json v \<longleftrightarrow> canonical_value v \<and> copied v = v" if "(k, v) \<in> set ms" for k v
    using JObj.IH [OF that, of v] JObj.prems that by auto
  have "map (\<lambda>(k, v). (k, copied v)) ms = ms \<longleftrightarrow> (\<forall>(k, v) \<in> set ms. copied v = v)"
    by (induction ms) auto
  then show ?case using s m by (fastforce simp: s)
qed simp_all

section \<open>One text, one value\<close>

lemma string_chars_printable:
  "\<forall>b \<in> set raw. 0x20 \<le> b \<and> b \<le> 0x7e \<and> b \<noteq> QUOTE \<and> b \<noteq> BACKSLASH \<Longrightarrow> string_chars raw raw"
proof (induction raw)
  case (Cons b raw)
  then have b: "0x20 \<le> unat b" "unat b \<le> 0x7e" "b \<noteq> QUOTE" "b \<noteq> BACKSLASH" by (simp_all add: word_le_nat_alt)
  have "unat b \<noteq> 0x22" "unat b \<noteq> 0x5c" using b(3,4) word_unat_eq_iff [of b QUOTE] word_unat_eq_iff [of b BACKSLASH] by simp_all
  moreover have "scalar_value (unat b)" using b(2) by (simp add: scalar_value_def)
  ultimately have "string_chars (utf8_enc (unat b) @ raw) (utf8_enc (unat b) @ raw)"
    using Cons b(1) by (intro chars_plain) simp_all
  then show ?case using enc_ascii [of b] b(2) by simp
qed (rule chars_end)

lemma json_string_profile: "json_string prof raw out \<Longrightarrow> json_string RFC8259 raw out"
  using string_chars_printable [of raw] by (auto simp: json_string_def split: if_splits)

lemma json_text_profile:
  "json_text prof bs v \<Longrightarrow> json_text RFC8259 bs v"
  "json_elements prof bs vs \<Longrightarrow> json_elements RFC8259 bs vs"
  "json_members prof bs ms \<Longrightarrow> json_members RFC8259 bs ms"
  by (induction rule: json_text_json_elements_json_members.inducts)
    (auto intro: json_text_json_elements_json_members.intros json_string_profile)

lemma json_document_profile: "json_document prof bs v \<Longrightarrow> json_document RFC8259 bs v"
  using json_text_profile(1) unfolding json_document_def by metis

lemma json_document_unambiguous:
  assumes "json_document RFC8259 bs v" "json_document RFC8259 bs w" "within l RFC8259 v" "within l RFC8259 w"
    "maximum_tokens l \<le> SIZE_MAX div 256"
  shows "v = w"
proof -
  let ?h = "\<lparr>fates = [], live = 0, peak = 0\<rparr>"
  have u: "last_wins v = v" "last_wins w = w" using assms(3,4) last_wins_unique by (simp_all add: within_def)
  obtain d h' where "parse_document bs RFC8259 l None ?h = (Ret d, None, h')" "represents d v"
    using parse_document_exact [OF assms(5) _ assms(1,3), of None ?h] u by auto
  moreover obtain d' h'' where "parse_document bs RFC8259 l None ?h = (Ret d', None, h'')" "represents d' w"
    using parse_document_exact [OF assms(5) _ assms(2,4), of None ?h] u by auto
  ultimately show "v = w" using represents_unique by auto
qed

text \<open>The value copied and the value sorted keep what the limits and the grammar are about.\<close>

lemma valid_json_iff: "valid_json RFC8259 v \<longleftrightarrow> grammatical v \<and> textual v \<and> unique_keys v"
proof (induction v)
  case (JObj ms)
  then show ?case by (fastforce simp: valid_bytes_iff text_bytes_ok_def utf8_validate_iff)
qed (auto simp: valid_bytes_iff text_bytes_ok_def utf8_validate_iff)

lemma copied_lexeme_number: "json_number n \<Longrightarrow> json_number (copied_lexeme n)"
  using json_number_decimal(1) [of 0] by (simp add: copied_lexeme_def decimal.simps)

lemma valid_copied: "valid_json prof v \<Longrightarrow> valid_json prof (copied v)"
proof (induction v)
  case (JObj ms)
  have "distinct (map fst (map (\<lambda>(k, v). (k, copied v)) ms))" unfolding fst_sorted using JObj.prems by simp
  then show ?case using JObj by (fastforce simp del: map_map)
qed (auto simp: copied_lexeme_number)

lemma cells_copied [simp]: "json_cells (copied v) = json_cells v"
proof (induction v)
  case (JArr vs)
  then show ?case by (simp add: comp_def cong: map_cong)
next
  case (JObj ms)
  have "json_cells (copied (snd m)) = json_cells (snd m)" if "m \<in> set ms" for m
    using JObj [OF that, of "snd m"] by (cases m) simp
  then have "map (\<lambda>(k, v). 1 + json_cells v) (map (\<lambda>(k, v). (k, copied v)) ms) = map (\<lambda>(k, v). 1 + json_cells v) ms"
    by (auto simp: case_prod_beta)
  then show ?case by (simp del: map_map)
qed simp_all

lemma height_copied [simp]: "json_height (copied v) = json_height v"
proof (induction v)
  case (JArr vs)
  then show ?case by (simp add: comp_def cong: map_cong)
next
  case (JObj ms)
  have "json_height (copied (snd m)) = json_height (snd m)" if "m \<in> set ms" for m
    using JObj [OF that, of "snd m"] by (cases m) simp
  then have "map (\<lambda>(k, v). json_height v) (map (\<lambda>(k, v). (k, copied v)) ms) = map (\<lambda>(k, v). json_height v) ms"
    by (auto simp: case_prod_beta)
  then show ?case by (simp del: map_map)
qed simp_all

lemma plain_document:
  assumes "valid_json RFC8259 v"
  shows "json_document RFC8259 (value_text plain 0 v @ trailer flags) v"
  unfolding json_document_def
  by (intro exI [of _ "[]"] exI, intro conjI, unfold append_Nil, rule refl)
    (use value_text_grammar(1) [OF _ assms] in \<open>simp_all add: json_ws_def trailer_def\<close>)

lemma within_same:
  "valid_json RFC8259 w \<Longrightarrow> json_height w = json_height v \<Longrightarrow> json_cells w = json_cells v \<Longrightarrow> within l RFC8259 v \<Longrightarrow> within l RFC8259 w"
  using unique_key_sorted by (simp add: within_def)

text \<open>Bytes that are the rendering of a rearrangement of their value are that of the value itself.\<close>

lemma rendering_unambiguous:
  assumes "json_document prof bs v" "within l RFC8259 v" "maximum_tokens l \<le> SIZE_MAX div 256"
    and w: "valid_json RFC8259 w" "json_height w = json_height v" "json_cells w = json_cells v"
    and bs: "bs = value_text plain 0 w @ trailer flags"
  shows "v = w"
  using json_document_unambiguous [OF json_document_profile [OF assms(1)] _ assms(2) within_same [OF w assms(2)] assms(3)]
    plain_document [OF w(1), of flags] unfolding bs by blast

section \<open>Rewriting\<close>

fun all_integers :: "json \<Rightarrow> bool" where
  "all_integers (JNum n) \<longleftrightarrow> integral_lexeme n \<and> carried n"
| "all_integers (JArr vs) \<longleftrightarrow> (\<forall>v \<in> set vs. all_integers v)"
| "all_integers (JObj ms) \<longleftrightarrow> (\<forall>(k, v) \<in> set ms. all_integers v)"
| "all_integers v \<longleftrightarrow> True"

fun keys_ascend :: "json \<Rightarrow> bool" where
  "keys_ascend (JArr vs) \<longleftrightarrow> (\<forall>v \<in> set vs. keys_ascend v)"
| "keys_ascend (JObj ms) \<longleftrightarrow> sorted_wrt key_lt (map fst ms) \<and> (\<forall>(k, v) \<in> set ms. keys_ascend v)"
| "keys_ascend v \<longleftrightarrow> True"

lemma canonical_json_split:
  "grammatical v \<Longrightarrow> textual v \<Longrightarrow> canonical_json v \<longleftrightarrow> keys_ascend v \<and> all_integers v \<and> copied v = v"
proof (induction v)
  case (JNum n)
  then show ?case using canonical_json_iff [of "JNum n"] by simp
next
  case (JArr vs)
  have "map copied vs = vs \<longleftrightarrow> (\<forall>v \<in> set vs. copied v = v)" by (induction vs) auto
  then show ?case using JArr by auto
next
  case (JObj ms)
  have m: "canonical_json v \<longleftrightarrow> keys_ascend v \<and> all_integers v \<and> copied v = v" if "(k, v) \<in> set ms" for k v
    using JObj.IH [OF that, of v] JObj.prems that by auto
  have "map (\<lambda>(k, v). (k, copied v)) ms = ms \<longleftrightarrow> (\<forall>(k, v) \<in> set ms. copied v = v)"
    by (induction ms) auto
  then show ?case using m by fastforce
qed simp_all

lemma sorted_key_le: "sorted_wrt key_lt ks \<Longrightarrow> sorted_wrt key_le ks"
  by (rule sorted_wrt_mono_rel) (auto simp: key_lt_def)

lemma sorted_key_lt: "distinct ks \<Longrightarrow> sorted_wrt key_le ks \<Longrightarrow> sorted_wrt key_lt ks"
  by (induction ks) (auto simp: key_lt_def)

lemma sorted_member_le: "sorted_wrt member_le ms \<longleftrightarrow> sorted_wrt key_le (map fst ms)"
  by (simp add: sorted_wrt_map member_le_def [abs_def])

lemma key_sorted_ascend: "valid_json RFC8259 v \<Longrightarrow> keys_ascend (key_sorted v)"
proof (induction v)
  case (JObj ms)
  let ?xs = "map (\<lambda>(k, v). (k, key_sorted v)) ms"
  have k: "\<forall>x \<in> set ?xs. utf8_text (fst x)" using JObj.prems by (auto simp: valid_bytes_iff utf8_validate_iff)
  have "member_le = (\<lambda>x y. key_le (fst x) (fst y))" by (intro ext) (simp add: member_le_def)
  then have "sorted_wrt member_le (sort_by member_le ?xs)" using utf16_order.sort_ordered [OF k] by simp
  moreover have "distinct (map fst (sort_by member_le ?xs))" unfolding distinct_sort_by fst_sorted using JObj.prems by simp
  ultimately have "sorted_wrt key_lt (map fst (sort_by member_le ?xs))" using sorted_key_lt sorted_member_le by blast
  moreover have "keys_ascend (key_sorted u)" if "(k, u) \<in> set ms" for k u
    using JObj.IH [OF that, of u] JObj.prems that by auto
  ultimately show ?case by auto
qed auto

lemma ascend_key_sorted: "valid_json RFC8259 v \<Longrightarrow> keys_ascend v \<Longrightarrow> key_sorted v = v"
proof (induction v)
  case (JArr vs)
  then show ?case by (simp add: map_idI)
next
  case (JObj ms)
  have s: "sorted_wrt member_le ms" using JObj.prems sorted_key_le sorted_member_le by auto
  have "sort_by member_le (map sorted_member ms) = map sorted_member ms"
    by (rule sort_members_unique [OF refl s]) (use JObj.prems in \<open>auto simp: valid_bytes_iff utf8_validate_iff\<close>)
  moreover have "key_sorted u = u" if "(k, u) \<in> set ms" for k u
    using JObj.IH [OF that, of u] JObj.prems that by auto
  then have "map sorted_member ms = ms" by (auto simp: sorted_member_def intro!: map_idI)
  ultimately show ?case by (simp only: key_sorted_members)
qed simp_all

lemma copied_idem: "copied (copied v) = copied v"
  by (induction v) (auto simp: copied_lexeme_def)

lemma copied_key_sorted: "copied v = v \<Longrightarrow> copied (key_sorted v) = key_sorted v"
proof (induction v)
  case (JArr vs)
  have "map copied vs = vs \<longleftrightarrow> (\<forall>v \<in> set vs. copied v = v)" by (induction vs) auto
  then show ?case using JArr by simp
next
  case (JObj ms)
  have "map (\<lambda>(k, v). (k, copied v)) ms = ms \<longleftrightarrow> (\<forall>(k, v) \<in> set ms. copied v = v)"
    by (induction ms) auto
  then have "\<forall>(k, u) \<in> set ms. copied (key_sorted u) = key_sorted u" using JObj by fastforce
  then have "\<forall>(k, u) \<in> set (sort_by member_le (map (\<lambda>(k, v). (k, key_sorted v)) ms)). copied u = u" by auto
  then show ?case by (auto intro!: map_idI)
qed simp_all

text \<open>A value is canonical when copying and sorting leave it as it is.\<close>

lemma canonical_rewritten:
  assumes "valid_json RFC8259 v"
  shows "canonical_json v \<longleftrightarrow> all_integers v \<and> key_sorted (copied v) = v"
proof -
  have g: "grammatical v" "textual v" using assms valid_json_iff by blast+
  show ?thesis
  proof
    assume "canonical_json v"
    then show "all_integers v \<and> key_sorted (copied v) = v" using canonical_json_split [OF g] ascend_key_sorted [OF assms] by simp
  next
    assume r: "all_integers v \<and> key_sorted (copied v) = v"
    then have "copied v = v" using copied_key_sorted [OF copied_idem [of v]] by simp
    moreover have "keys_ascend v" using key_sorted_ascend [OF valid_copied [OF assms]] r by simp
    ultimately show "canonical_json v" using canonical_json_split [OF g] r by simp
  qed
qed

section \<open>What the check answers\<close>

lemma parsed_document_is_canonical:
  assumes doc: "json_document prof bs v" "within l prof v" "maximum_tokens l \<le> SIZE_MAX div 256"
    and d: "represents d (last_wins v)" "d_bytes d = bs" "duplicate_count d = 0 \<longrightarrow> unique_keys v"
    and flags: "flags AND NOT FLAG_FINAL_NEWLINE = 0"
  shows "document_is_canonical (Some d) flags True =
    Ret (duplicate_count d = 0 \<and> canonical_json (last_wins v) \<and> bs = value_text plain 0 (last_wins v) @ trailer flags)"
proof -
  note g = json_document_grammatical [OF doc(1)] json_document_textual [OF doc(1)]
  note e = document_is_canonical_walks [OF d(1) g flags]
  show ?thesis
  proof (cases "duplicate_count d = 0")
    case True
    then have u: "unique_keys v" "last_wins v = v" using d(3) last_wins_unique by auto
    have vj: "valid_json RFC8259 v" using g u valid_json_iff by simp
    have wi: "within l RFC8259 v" using doc(2) u(1) by (simp add: within_def)
    have "v = copied v" if "bs = value_text plain 0 (copied v) @ trailer flags"
      by (rule rendering_unambiguous [OF doc(1) wi doc(3) valid_copied [OF vj] _ _ that]) simp_all
    then show ?thesis unfolding e d(2) u(2) using canonical_json_iff [of v] g u(2) by auto
  qed (simp add: e)
qed
end
