(* ===== verification/Canonical_Props.thy ===== *)
theory Canonical_Props
  imports Canonical_Correct Writer_Props
begin

text \<open>
  The properties of \<open>maelys_json_document_is_canonical\<close> (\<^verbatim>\<open>src/canonical.c\<close>) on parsed documents:
  what it decides, and how the answer fits what the writer produces.
\<close>

unbundle bit_operations_syntax

section \<open>Parsed documents\<close>

lemma parsed_facts:
  assumes "document_parse (Some bs) (length bs) prof requested True err h = (Ret d, err', h')"
  obtains l v where "limits_resolve requested = Ret l" "json_document prof bs v" "within l prof v"
    "represents d (last_wins v)" "d_bytes d = bs" "duplicate_count d = 0 \<longrightarrow> unique_keys v" "maximum_tokens l \<le> SIZE_MAX div 256"
    "prof \<noteq> RFC8259_LAST_WINS \<longrightarrow> duplicate_count d = 0"
proof (cases rule: document_parse_cases [of "Some bs" "length bs" prof requested True err h])
  case (refused code)
  then show thesis using assms by simp
next
  case (parsed l b)
  then have e: "parse_document bs prof l (map_option (\<lambda>_. no_error) err) h = (Ret d, err', h')" using assms by simp
  from parse_document_resolved [OF parsed(2), of bs prof err h] obtain v where
    v: "json_document prof bs v" "json_height v \<le> maximum_depth l" "json_cells v \<le> document_token_capacity (length bs) l"
      "prof \<noteq> RFC8259_LAST_WINS \<longrightarrow> unique_keys v" "duplicate_count d = 0 \<longrightarrow> unique_keys v" "represents d (last_wins v)" "d_bytes d = bs"
      "prof \<noteq> RFC8259_LAST_WINS \<longrightarrow> duplicate_count d = 0"
    unfolding e parse_ends_def by auto
  note t = resolved_limits [OF parsed(2)]
  show thesis using that [OF parsed(2) v(1) parsed_within [OF v(1,3) conjunct2 [OF t] v(2,4)] v(6,7,5) _ v(8)] t by blast
qed

lemma last_wins_valid: "json_document prof bs v \<Longrightarrow> valid_json RFC8259 (last_wins v)"
  using json_document_grammatical json_document_textual last_wins_unique_keys valid_json_iff by blast

text \<open>The flags under which the writer's output is canonical.\<close>

lemma canonical_flags:
  assumes "flags AND NOT FLAG_FINAL_NEWLINE = 0"
  shows "flags AND FLAG_INDENT = 0" "flags AND FLAG_ASCII = 0"
proof -
  have "flags = flags AND (FLAG_FINAL_NEWLINE OR NOT FLAG_FINAL_NEWLINE)" by simp
  also have "\<dots> = (flags AND FLAG_FINAL_NEWLINE) OR (flags AND NOT FLAG_FINAL_NEWLINE)" by (rule bit.conj_disj_distrib)
  finally have f: "flags = flags AND FLAG_FINAL_NEWLINE" using assms by simp
  show "flags AND FLAG_INDENT = 0" "flags AND FLAG_ASCII = 0"
    by (subst f, simp add: and.assoc FLAG_FINAL_NEWLINE_def FLAG_INDENT_def FLAG_ASCII_def)+
qed

lemma canonical_output:
  assumes "w_flags w AND NOT FLAG_FINAL_NEWLINE = 0"
  shows "output_text w v = value_text plain 0 (key_sorted v) @ trailer (w_flags w)"
  using canonical_flags [OF assms] by (simp add: output_text_def rendered_def writer_style_def plain_def trailer_def)

lemma valid_bytes_profile:
  assumes "valid_bytes prof s"
  shows "valid_bytes RFC8259 s"
proof (cases "prof = RFC8259")
  case False
  then have b: "0x20 \<le> unat b \<and> unat b \<le> 0x7e" if "b \<in> set s" for b
    using assms that by (auto simp: valid_bytes_iff word_less_nat_alt not_less)
  then have "\<forall>b \<in> set s. unat b < 0x80" by fastforce
  then have "utf8_text s" by (rule utf8_text_ascii)
  moreover have "\<forall>b \<in> set s. b \<noteq> 0" using b by fastforce
  ultimately show ?thesis by (simp add: valid_bytes_iff utf8_validate_iff)
qed (use assms in simp)

lemma valid_json_profile: "valid_json prof v \<Longrightarrow> valid_json RFC8259 v"
  by (induction v) (use valid_bytes_profile in fastforce)+

section \<open>Properties\<close>

text \<open>C14: what the canonical check decides. On a parsed document and with no flag but the final newline
  it always answers, and answers yes exactly when the text repeated no key, every number of the
  value is an integer from -2^63 to 2^64 - 1 in shortest base 10, the keys of every object strictly
  ascend by their UTF-16 code units, and the bytes are the rendering of the value without white space and with
  the canonical escapes, followed by the line feed when the flag asks for it.\<close>

theorem document_is_canonical_exact:
  assumes "document_parse (Some bs) (length bs) prof requested True err h = (Ret d, err', h')"
    "flags AND NOT FLAG_FINAL_NEWLINE = 0"
  shows "\<exists>v. represents d v \<and> document_is_canonical (Some d) flags True =
    Ret (duplicate_count d = 0 \<and> canonical_json v \<and> bs = value_text plain 0 v @ trailer flags)"
proof -
  obtain l v where res: "limits_resolve requested = Ret l" and v: "json_document prof bs v" "within l prof v" "represents d (last_wins v)" "d_bytes d = bs"
    "duplicate_count d = 0 \<longrightarrow> unique_keys v" "maximum_tokens l \<le> SIZE_MAX div 256" "prof \<noteq> RFC8259_LAST_WINS \<longrightarrow> duplicate_count d = 0"
    by (rule parsed_facts [OF assms(1)])
  from parsed_document_is_canonical [OF v(1,2,6,3-5) assms(2)] v(3) show ?thesis by blast
qed

definition canonical_answer :: "bytes \<Rightarrow> u32 \<Rightarrow> bool option" where
  "canonical_answer bs flags =
     (case document_parse (Some bs) (length bs) RFC8259 None True None plenty of
        (Ret d, _) \<Rightarrow> (case document_is_canonical (Some d) flags True of Ret b \<Rightarrow> Some b | _ \<Rightarrow> None)
      | _ \<Rightarrow> None)"

lemma canonical_answer_Some:
  assumes "canonical_answer bs flags = Some b"
  obtains d err h where "document_parse (Some bs) (length bs) RFC8259 None True None plenty = (Ret d, err, h)"
    "document_is_canonical (Some d) flags True = Ret b"
  using assms by (auto simp: canonical_answer_def split: prod.splits outcome.splits)

theorem document_is_canonical_exact_witness:
  "\<exists>v. canonical_json v \<and> ascii ''[1,null]'' = value_text plain 0 v @ trailer 0"
proof -
  have "canonical_answer (ascii ''[1,null]'') 0 = Some True" by code_simp
  then obtain d e h where d: "document_parse (Some (ascii ''[1,null]'')) (length (ascii ''[1,null]'')) RFC8259 None True None plenty = (Ret d, e, h)"
    "document_is_canonical (Some d) 0 True = Ret True" by (rule canonical_answer_Some)
  from document_is_canonical_exact [OF d(1), of 0] d(2) show ?thesis by auto
qed

text \<open>C15: the canonical check and the writer agree. Copy the root of a parsed document into a new RFC 8259
  writer whose flags are the flags of the check, and finish: the check answers yes exactly when the
  text repeated no key, all its numbers are 64-bit integers, and the bytes written are the bytes parsed.\<close>

theorem document_is_canonical_rewrites:
  assumes "document_parse (Some bs) (length bs) prof requested True err h = (Ret d, err', h')"
    "flags AND NOT FLAG_FINAL_NEWLINE = 0" "writer_create RFC8259 limits flags True g = (Ret w, g')"
    "writer_value (Some d) 0 w = (Ret (), w')" "writer_finish True w' = (Ret (out, area), w'')"
  shows "\<exists>v. represents d v \<and> document_is_canonical (Some d) flags True = Ret (duplicate_count d = 0 \<and> all_integers v \<and> out = bs)"
proof -
  obtain l v where res: "limits_resolve requested = Ret l" and v: "json_document prof bs v" "within l prof v" "represents d (last_wins v)" "d_bytes d = bs"
    "duplicate_count d = 0 \<longrightarrow> unique_keys v" "maximum_tokens l \<le> SIZE_MAX div 256" "prof \<noteq> RFC8259_LAST_WINS \<longrightarrow> duplicate_count d = 0"
    by (rule parsed_facts [OF assms(1)])
  let ?v = "last_wins v"
  have vj: "valid_json RFC8259 ?v" by (rule last_wins_valid [OF v(1)])
  have g: "grammatical ?v" using vj valid_json_iff by blast
  have hold: "holds_value d 0 ?v" using denotes_root [OF v(3)] g by (simp add: holds_value_def)
  have "parsed_document d" using v(3) g by (auto simp: parsed_document_def)
  then have b: "building_call (Copy (Some d) 0)" by (simp add: building_call_def)
  obtain l' where f: "fresh_writer RFC8259 l' flags g w" using created_writer [OF assms(3)] by blast
  note r0 = represents_created [OF f]
  have w: "writer_base w" "w_failure w = OK" "\<not> w_finished w" "writer_shape w (Building [])" "w_pending w = None"
    using r0 by (simp_all add: represents_written_def)
  have "copies_or_fails w (copy_room w (Building []) ?v) (place None (copied ?v) (Building [])) (writer_value (Some d) 0 w)"
    using writer_value_copies [OF w(1-4), of d 0 ?v] hold holds_type [OF hold] w(5) by (simp add: names_value_def)
  then have w': "represents_written w' (Complete (copied ?v), None)" "w_flags w' = flags" "w_profile w' = RFC8259"
    using assms(4) f by (auto simp: copies_or_fails_def represents_written_def same_writer_def fresh_writer_def)
  have out: "out = value_text plain 0 (key_sorted (copied ?v)) @ trailer flags"
  proof -
    obtain u where "(Complete (copied ?v), None) = (Complete u, None :: bytes option)" "out = output_text w' u"
      using finished_value [OF w'(1) assms(5)] by metis
    then show ?thesis using canonical_output [of w' u] assms(2) w'(2) by simp
  qed
  note e = parsed_document_is_canonical [OF v(1,2,6,3-5) assms(2)]
  show ?thesis
  proof (cases "duplicate_count d = 0")
    case False
    then show ?thesis using e v(3) by auto
  next
    case True
    then have u: "unique_keys v" "?v = v" using v(5) last_wins_unique by auto
    have wi: "within l RFC8259 v" using v(2) u(1) by (simp add: within_def)
    have vw: "valid_json RFC8259 (key_sorted (copied v))" using valid_key_sorted [OF valid_copied] vj u(2) by simp
    have "v = key_sorted (copied v)" if "out = bs"
      by (rule rendering_unambiguous [OF v(1) wi v(6) vw, where flags = flags]) (use that out u(2) in simp_all)
    then have "canonical_json v \<and> bs = value_text plain 0 v @ trailer flags \<longleftrightarrow> all_integers v \<and> out = bs"
      using canonical_rewritten [of v] vj u(2) out by auto
    then show ?thesis using e v(3) u(2) True by auto
  qed
qed


definition rewritten :: "bytes \<Rightarrow> u32 \<Rightarrow> bytes option" where
  "rewritten bs flags =
     (case (document_parse (Some bs) (length bs) RFC8259 None True None plenty, writer_create RFC8259 None flags True plenty) of
        ((Ret d, _), (Ret w, _)) \<Rightarrow> finished_bytes (writer_value (Some d) 0 w)
      | _ \<Rightarrow> None)"

lemma rewritten_Some:
  assumes "rewritten bs flags = Some out"
  obtains d err h w g w' area w'' where "document_parse (Some bs) (length bs) RFC8259 None True None plenty = (Ret d, err, h)"
    "writer_create RFC8259 None flags True plenty = (Ret w, g)" "writer_value (Some d) 0 w = (Ret (), w')"
    "writer_finish True w' = (Ret (out, area), w'')"
  using assms by (auto simp: rewritten_def split: prod.splits outcome.splits dest!: finished_bytes_Some)

theorem document_is_canonical_rewrites_witness:
  "\<exists>d. document_is_canonical (Some d) 0 True = Ret False \<and> d_bytes d = ascii ''[1, null]'' \<and>
     rewritten (ascii ''[1, null]'') 0 = Some (ascii ''[1,null]'')"
proof -
  have r: "rewritten (ascii ''[1, null]'') 0 = Some (ascii ''[1,null]'')" by code_simp
  then obtain d e h w g w' area w'' where d: "document_parse (Some (ascii ''[1, null]'')) (length (ascii ''[1, null]'')) RFC8259 None True None plenty = (Ret d, e, h)"
    "writer_create RFC8259 None 0 True plenty = (Ret w, g)" "writer_value (Some d) 0 w = (Ret (), w')"
    "writer_finish True w' = (Ret (ascii ''[1,null]'', area), w'')" by (rule rewritten_Some)
  have "ascii ''[1,null]'' \<noteq> ascii ''[1, null]''" by code_simp
  with document_is_canonical_rewrites [OF d(1) _ d(2-4)] have "document_is_canonical (Some d) 0 True = Ret False" by auto
  moreover obtain l v where "limits_resolve None = Ret l" "json_document RFC8259 (ascii ''[1, null]'') v" "within l RFC8259 v"
    "represents d (last_wins v)" and b: "d_bytes d = ascii ''[1, null]''" and "duplicate_count d = 0 \<longrightarrow> unique_keys v"
    "maximum_tokens l \<le> SIZE_MAX div 256"
    "RFC8259 \<noteq> RFC8259_LAST_WINS \<longrightarrow> duplicate_count d = 0" by (rule parsed_facts [OF d(1)])
  ultimately show ?thesis using r b by blast
qed

text \<open>Every number written as the shortest decimal of a 64-bit integer.\<close>

fun shortest_numbers :: "json \<Rightarrow> bool" where
  "shortest_numbers (JNum n) \<longleftrightarrow> (\<exists>i. - (2 ^ 63) \<le> i \<and> i < 2 ^ 64 \<and> n = decimal_int i)"
| "shortest_numbers (JArr vs) \<longleftrightarrow> (\<forall>v \<in> set vs. shortest_numbers v)"
| "shortest_numbers (JObj ms) \<longleftrightarrow> (\<forall>(k, v) \<in> set ms. shortest_numbers v)"
| "shortest_numbers v \<longleftrightarrow> True"

lemma canonical_json_shortest: "canonical_json v \<longleftrightarrow> keys_ascend v \<and> shortest_numbers v"
  by (induction v) auto

lemma shortest_key_sorted: "shortest_numbers (key_sorted v) \<longleftrightarrow> shortest_numbers v"
  by (induction v) fastforce+

lemma canonical_key_sorted: "valid_json RFC8259 v \<Longrightarrow> canonical_json (key_sorted v) \<longleftrightarrow> shortest_numbers v"
  using key_sorted_ascend by (simp add: canonical_json_shortest shortest_key_sorted)

text \<open>C16: the writer's output is canonical. Parse what a writer without presentation flags wrote, under
  its profile and within limits that hold the value: the canonical check with the same flags
  answers yes exactly when every number written is the shortest decimal of a 64-bit integer, that
  is, unless \<open>maelys_json_writer_number_text\<close> or a copy brought in another lexeme.\<close>

theorem writer_output_canonical:
  assumes "writer_create prof requested flags True h = (Ret w, h')" "list_all building_call cs"
    "run_calls cs w = (Ret (), w')" "writer_finish True w' = (Ret (bs, area), w'')" "flags AND NOT FLAG_FINAL_NEWLINE = 0"
    "document_parse (Some bs) (length bs) prof limits True err g = (Ret d, err', g')" "limits_resolve limits = Ret l"
  shows "\<exists>v. writer_runs prof cs (Building [], None) (Complete v, None) \<and>
    (json_height v \<le> maximum_depth l \<and> json_cells v \<le> maximum_tokens l \<longrightarrow>
       represents d (key_sorted v) \<and> document_is_canonical (Some d) flags True = Ret (shortest_numbers v))"
proof -
  obtain s where s: "writer_runs prof cs (Building [], None) s" "represents_written w' s" "w_profile w' = prof" "w_flags w' = flags"
    using created_runs [OF assms(1-3)] by metis
  from s(2) assms(4) obtain v where v: "s = (Complete v, None)" "bs = output_text w' v" "valid_json prof v" "prof \<in> {RFC8259, CONTRACT_ASCII}"
    using finished_value s(3) by metis
  have doc: "json_document prof bs (key_sorted v)"
    using output_text_grammar [of w' v] v(3,4) s(3) unfolding v(2) by simp
  have bs: "bs = value_text plain 0 (key_sorted v) @ trailer flags"
    using canonical_output [of w' v] assms(5) s(4) v(2) by simp
  obtain l' u where res: "limits_resolve limits = Ret l'" and u: "json_document prof bs u" "within l' prof u" "represents d (last_wins u)"
    "d_bytes d = bs" "duplicate_count d = 0 \<longrightarrow> unique_keys u" "maximum_tokens l' \<le> SIZE_MAX div 256" "prof \<noteq> RFC8259_LAST_WINS \<longrightarrow> duplicate_count d = 0"
    by (rule parsed_facts [OF assms(6)])
  have l: "l' = l" using res assms(7) by simp
  have "represents d (key_sorted v) \<and> document_is_canonical (Some d) flags True = Ret (shortest_numbers v)"
    if r: "json_height v \<le> maximum_depth l" "json_cells v \<le> maximum_tokens l"
  proof -
    have wu: "within l prof u" "prof \<noteq> RFC8259_LAST_WINS" using u(2) v(4) l by auto
    then have uu: "unique_keys u" "last_wins u = u" using last_wins_unique by (auto simp: within_def)
    have "within l RFC8259 u" using wu uu by (simp add: within_def)
    moreover have kv: "valid_json RFC8259 (key_sorted v)"
      using last_wins_valid [OF doc] within_key_sorted(2) [OF v(3) r] by simp
    then have "within l RFC8259 (key_sorted v)" using r unique_key_sorted [OF kv] by (simp add: within_def)
    ultimately have e: "u = key_sorted v"
      using json_document_unambiguous [OF json_document_profile [OF u(1)] json_document_profile [OF doc]] u(6) l by blast
    have rep: "represents d (key_sorted v)" using u(3) uu(2) e by simp
    have "duplicate_count d = 0" using u(7) wu(2) by simp
    then show ?thesis
      using parsed_document_is_canonical [OF u(1,2,6,3-5) assms(5)] e uu(2) bs rep canonical_key_sorted [OF valid_json_profile [OF v(3)]]
      by simp
  qed
  then show ?thesis using s(1) v(1) by blast
qed

theorem writer_output_canonical_witness:
  "\<exists>d. represents d (key_sorted sample_written) \<and> document_is_canonical (Some d) 0 True = Ret (shortest_numbers sample_written)"
proof -
  obtain w h w' area w'' where c: "writer_create RFC8259 None 0 True plenty = (Ret w, h)"
    "run_calls sample_calls w = (Ret (), w')" "writer_finish True w' = (Ret (sample_output, area), w'')"
    by (rule sample_writers)
  have "canonical_answer sample_output 0 = Some True" by code_simp
  then obtain d e g where d: "document_parse (Some sample_output) (length sample_output) RFC8259 None True None plenty = (Ret d, e, g)"
    by (rule canonical_answer_Some)
  have l: "limits_resolve None = Ret \<lparr>maximum_bytes = 65535, maximum_depth = 32, maximum_tokens = 8192\<rparr>" by code_simp
  have "json_height sample_written \<le> 32" "json_cells sample_written \<le> 8192" by code_simp+
  with writer_output_canonical [OF c(1) sample_building c(2,3) _ d l] sample_runs show ?thesis by fastforce
qed
end
