(* ===== verification/Pointer.thy ===== *)
theory Pointer
  imports Utf8
begin

text \<open>
  \<^verbatim>\<open>src/pointer.c\<close>: the JSON Pointer (RFC 6901) of the value under construction at the offset of
  an error, found by a structural rescan of the input that validates nothing.

  The emitter's buffer is the list of its \<open>capacity\<close> bytes. The scan is a loop over the input: its
  turns are bounded by the bytes up to the offset, since every turn moves on.
\<close>

unbundle bit_operations_syntax

section \<open>The emitter\<close>

record frame =
  is_object :: bool
  f_index :: nat
  key_start :: nat
  key_end :: nat
  has_key :: bool
  in_value :: bool

record emitter =
  em_buffer :: bytes
  em_capacity :: nat
  em_length :: nat

definition emit_byte :: "byte \<Rightarrow> emitter \<Rightarrow> emitter" where
  "emit_byte b e =
     (let e' = (if em_length e + 1 < em_capacity e
                then e\<lparr>em_buffer := (em_buffer e)[em_length e := b]\<rparr> else e)
      in e'\<lparr>em_length := em_length e + 1\<rparr>)"

definition emit_finish :: "emitter \<Rightarrow> emitter" where
  "emit_finish e =
     (if em_capacity e \<noteq> 0 then
        let stop = (if em_length e < em_capacity e then em_length e else em_capacity e - 1)
        in e\<lparr>em_buffer := (em_buffer e)[stop := 0]\<rparr>
      else e)"

text \<open>One turn of the loop of \<open>emit_token\<close>.\<close>

definition emit_escaped :: "byte \<Rightarrow> emitter \<Rightarrow> emitter" where
  "emit_escaped b e =
     (if b = TILDE then emit_byte 0x30 (emit_byte TILDE e)
      else if b = SLASH then emit_byte 0x31 (emit_byte TILDE e)
      else emit_byte b e)"

definition emit_token :: "bytes \<Rightarrow> emitter \<Rightarrow> emitter" where
  "emit_token bs e = fold emit_escaped bs (emit_byte SLASH e)"

text \<open>The digits in the order the loop stores them, the last one first.\<close>

fun index_digits :: "nat \<Rightarrow> bytes" where
  "index_digits n =
     of_nat (48 + n mod 10) # (if n div 10 = 0 then [] else index_digits (n div 10))"

declare index_digits.simps [simp del]

definition emit_index :: "nat \<Rightarrow> emitter \<Rightarrow> emitter" where
  "emit_index n e = fold emit_byte (rev (index_digits n)) (emit_byte SLASH e)"

text \<open>Whether the allocation of the decoding buffer succeeds is an argument.\<close>

definition emit_key :: "bool \<Rightarrow> bytes \<Rightarrow> frame \<Rightarrow> emitter \<Rightarrow> emitter" where
  "emit_key allocated bs frame e =
     (let raw = take (key_end frame - key_start frame) (drop (key_start frame) bs)
      in case decode_string raw RFC8259 of
           Ret decoded \<Rightarrow> if allocated then emit_token decoded e else emit_token raw e
         | _ \<Rightarrow> emit_token raw e)"

section \<open>The scan\<close>

definition pointer_space :: "byte \<Rightarrow> bool" where
  "pointer_space b \<longleftrightarrow> b = SPACE \<or> b = TAB \<or> b = CR \<or> b = LF"

definition pointer_delimiter :: "byte \<Rightarrow> bool" where
  "pointer_delimiter b \<longleftrightarrow> b = COMMA \<or> b = RBRACE \<or> b = RBRACKET \<or> b = COLON \<or> pointer_space b"

function skip_string_loop :: "bytes \<Rightarrow> nat \<Rightarrow> nat" where
  "skip_string_loop bs pos =
     (if pos < length bs \<and> bs ! pos \<noteq> QUOTE
      then skip_string_loop bs (pos + (if bs ! pos = BACKSLASH then 2 else 1)) else pos)"
  by pat_completeness auto
termination
  by (relation "measure (\<lambda>(bs, pos). length bs - pos)") auto

declare skip_string_loop.simps [simp del]

definition skip_string :: "bytes \<Rightarrow> nat \<Rightarrow> nat" where
  "skip_string bs pos =
     (let pos = skip_string_loop bs (pos + 1)
      in if pos < length bs then pos + 1 else length bs)"

definition fresh_frame :: "bool \<Rightarrow> frame" where
  "fresh_frame object =
     \<lparr>is_object = object, f_index = 0, key_start = 0, key_end = 0, has_key = False, in_value = False\<rparr>"

text \<open>
  \<open>frames[0 .. depth)\<close> as a list, the innermost frame first: \<open>top\<close> of the code is its head. One turn of the
  loop of \<open>scan\<close> returns the frames and the position after it.
\<close>

fun update_top :: "(frame \<Rightarrow> frame) \<Rightarrow> frame list \<Rightarrow> frame list" where
  "update_top f [] = []"
| "update_top f (inner # rest) = f inner # rest"

definition comma_frame :: "frame \<Rightarrow> frame" where
  "comma_frame f =
     (if is_object f then f\<lparr>has_key := False, in_value := False\<rparr> else f\<lparr>f_index := f_index f + 1\<rparr>)"

definition colon_frame :: "frame \<Rightarrow> frame" where
  "colon_frame f = (if is_object f \<and> has_key f then f\<lparr>in_value := True\<rparr> else f)"

definition string_frame :: "bytes \<Rightarrow> nat \<Rightarrow> nat \<Rightarrow> frame \<Rightarrow> frame" where
  "string_frame bs pos stop f =
     (if is_object f \<and> \<not> in_value f then
        f\<lparr>key_start := pos + 1,
          key_end := (if stop > pos + 1 \<and> bs ! (stop - 1) = QUOTE \<and> stop - 1 > pos then stop - 1 else stop),
          has_key := True\<rparr>
      else f)"

definition scan_step :: "bytes \<Rightarrow> nat \<Rightarrow> frame list \<Rightarrow> frame list \<times> nat" where
  "scan_step bs pos frames =
     (let b = bs ! pos in
      if pointer_space b then (frames, pos + 1)
      else if b = LBRACE \<or> b = LBRACKET then
        (if length frames < MAXIMUM_DEPTH then fresh_frame (b = LBRACE) # frames else frames, pos + 1)
      else if b = RBRACE \<or> b = RBRACKET then (tl frames, pos + 1)
      else if b = COMMA then (update_top comma_frame frames, pos + 1)
      else if b = COLON then (update_top colon_frame frames, pos + 1)
      else if b = QUOTE then
        let stop = skip_string bs pos in (update_top (string_frame bs pos stop) frames, stop)
      else (frames, scan_while (\<lambda>b. \<not> pointer_delimiter b) bs pos))"

text \<open>Every turn moves on: this is what lets the loop be a function.\<close>

lemma skip_string_loop_ge: "pos \<le> skip_string_loop bs pos"
  by (induction bs pos rule: skip_string_loop.induct) (subst skip_string_loop.simps, auto)

lemma skip_string_gt: "pos < length bs \<Longrightarrow> pos < skip_string bs pos"
  using skip_string_loop_ge [of "pos + 1" bs] by (auto simp: skip_string_def Let_def)

lemma skip_string_le: "skip_string bs pos \<le> length bs"
  by (auto simp: skip_string_def Let_def)

lemma scan_step_moves:
  assumes "pos < length bs"
  shows "pos < snd (scan_step bs pos frames)"
proof -
  have "pos < scan_while (\<lambda>b. \<not> pointer_delimiter b) bs pos" if "\<not> pointer_delimiter (bs ! pos)"
    using that assms scan_while_ge [of "Suc pos"] by (subst scan_while.simps) (simp add: Suc_le_eq)
  then show ?thesis
    using skip_string_gt [OF assms] by (auto simp: scan_step_def Let_def pointer_delimiter_def)
qed

function scan_loop :: "bytes \<Rightarrow> nat \<Rightarrow> nat \<Rightarrow> frame list \<Rightarrow> frame list" where
  "scan_loop bs limit pos frames =
     (if pos < limit \<and> pos < length bs then
        let (frames, pos) = scan_step bs pos frames in scan_loop bs limit pos frames
      else frames)"
  by pat_completeness auto
termination
  by (relation "measure (\<lambda>(bs, limit, pos, frames). length bs - pos)")
    (auto, metis diff_less_mono2 scan_step_moves snd_conv)

declare scan_loop.simps [simp del]

definition scan :: "bytes \<Rightarrow> nat \<Rightarrow> frame list" where
  "scan bs limit = rev (scan_loop bs limit 0 [])"

text \<open>The loop that emits the frames, the outermost first.\<close>

fun emit_frames :: "bool list \<Rightarrow> bytes \<Rightarrow> frame list \<Rightarrow> emitter \<Rightarrow> emitter" where
  "emit_frames luck bs [] e = e"
| "emit_frames luck bs (f # fs) e =
     (if is_object f then
        if \<not> has_key f \<or> \<not> in_value f then e
        else emit_frames (tl luck) bs fs (emit_key (luck = [] \<or> hd luck) bs f e)
      else emit_frames luck bs fs (emit_index (f_index f) e))"

text \<open>
  \<open>maelys_json_error_pointer\<close>: the buffer after it and the length returned. The buffer is \<open>None\<close> for
  NULL, the input of \<open>sz\<close> bytes and the error likewise. The first of \<open>luck\<close> is the fate of
  the frame array, the others those of the decoding buffers; an allocation that fails leaves the
  root, respectively the raw key.
\<close>

definition error_pointer ::
  "bool list \<Rightarrow> bytes option \<Rightarrow> nat \<Rightarrow> json_error option \<Rightarrow> bytes option \<Rightarrow> nat \<Rightarrow> bytes \<times> nat" where
  "error_pointer luck src sz err buffer capacity =
     (let e = \<lparr>em_buffer = (case buffer of None \<Rightarrow> [] | Some b \<Rightarrow> b),
               em_capacity = (if buffer = None then 0 else capacity), em_length = 0\<rparr>
      in case (err, src) of
        (Some er, Some input) \<Rightarrow>
          let bs = take sz input in
          if sz = 0 then (em_buffer (emit_finish e), 0)
          else
            let limit = (if err_offset er < sz then err_offset er else sz)
            in if luck \<noteq> [] \<and> \<not> hd luck then (em_buffer (emit_finish e), 0)
               else
                 let e = emit_frames (tl luck) bs (scan bs limit) e
                 in (em_buffer (emit_finish e), em_length e)
      | _ \<Rightarrow> (em_buffer (emit_finish e), 0))"

end
