(* ===== verification/Pointer_Props.thy ===== *)
theory Pointer_Props
  imports Pointer Utf8_Strings Reader
begin

text \<open>
  The text of an error pointer (\<^verbatim>\<open>src/pointer.c\<close>): the emitter writes it into the buffer as \<open>snprintf\<close>
  would, and its tokens can be read back with the rules of RFC 6901.
\<close>

section \<open>The text\<close>

definition escape_byte :: "byte \<Rightarrow> bytes" where
  "escape_byte b = (if b = TILDE then [TILDE, 0x30] else if b = SLASH then [TILDE, 0x31] else [b])"

definition token_escaped :: "bytes \<Rightarrow> bytes" where
  "token_escaped bs = concat (map escape_byte bs)"

definition pointer_text :: "bytes list \<Rightarrow> bytes" where
  "pointer_text ts = concat (map (\<lambda>t. SLASH # token_escaped t) ts)"

lemma pointer_text_simps [simp]:
  "pointer_text [] = []" "pointer_text (t # ts) = SLASH # token_escaped t @ pointer_text ts"
  by (simp_all add: pointer_text_def)

definition key_token :: "bool \<Rightarrow> bytes \<Rightarrow> frame \<Rightarrow> bytes" where
  "key_token allocated bs f =
     (let raw = take (key_end f - key_start f) (drop (key_start f) bs)
      in case decode_string raw RFC8259 of Ret decoded \<Rightarrow> if allocated then decoded else raw | _ \<Rightarrow> raw)"

text \<open>The tokens of the frames, the outermost first, up to an object without a value.\<close>

fun path_tokens :: "bool list \<Rightarrow> bytes \<Rightarrow> frame list \<Rightarrow> bytes list" where
  "path_tokens luck bs [] = []"
| "path_tokens luck bs (f # fs) =
     (if is_object f then
        if \<not> has_key f \<or> \<not> in_value f then []
        else key_token (luck = [] \<or> hd luck) bs f # path_tokens (tl luck) bs fs
      else decimal (f_index f) # path_tokens luck bs fs)"

section \<open>The emitter\<close>

text \<open>The emitter has put out \<open>t\<close> since its buffer was \<open>b\<close>.\<close>

definition emitted :: "bytes \<Rightarrow> nat \<Rightarrow> bytes \<Rightarrow> emitter \<Rightarrow> bool" where
  "emitted b cap t e \<longleftrightarrow>
     em_length e = length t \<and> em_capacity e = cap \<and>
     em_buffer e = take (cap - 1) t @ drop (min (cap - 1) (length t)) b"

lemma emit_byte_emits:
  assumes "emitted b cap t e" "cap \<le> length b"
  shows "emitted b cap (t @ [x]) (emit_byte x e)"
proof (cases "length t + 1 < cap")
  case True
  then have "em_buffer e = t @ drop (length t) b" "length t < length b" using assms by (auto simp: emitted_def)
  moreover have "drop (length t) b = b ! length t # drop (length t + 1) b" using calculation(2) by (simp add: Cons_nth_drop_Suc)
  ultimately show ?thesis using True assms by (simp add: emitted_def emit_byte_def Let_def)
next
  case False
  then show ?thesis using assms by (simp add: emitted_def emit_byte_def Let_def)
qed

lemma emit_bytes_emits: "emitted b cap t e \<Longrightarrow> cap \<le> length b \<Longrightarrow> emitted b cap (t @ xs) (fold emit_byte xs e)"
proof (induction xs arbitrary: t e)
  case (Cons x xs)
  from Cons.IH [OF emit_byte_emits [OF Cons.prems] Cons.prems(2)] show ?case by simp
qed simp

lemma emit_escaped_emits: "emitted b cap t e \<Longrightarrow> cap \<le> length b \<Longrightarrow> emitted b cap (t @ escape_byte x) (emit_escaped x e)"
  using emit_byte_emits [of b cap t e] emit_byte_emits [OF emit_byte_emits [of b cap t e]]
  by (simp add: emit_escaped_def escape_byte_def)

lemma emit_token_emits:
  assumes "emitted b cap t e" "cap \<le> length b"
  shows "emitted b cap (t @ SLASH # token_escaped xs) (emit_token xs e)"
proof -
  have "emitted b cap (t @ token_escaped xs) (fold emit_escaped xs e)" if "emitted b cap t e" for t e
    using that
  proof (induction xs arbitrary: t e)
    case (Cons x xs)
    from Cons.IH [OF emit_escaped_emits [OF Cons.prems assms(2)]] show ?case by (simp add: token_escaped_def)
  qed (simp add: token_escaped_def)
  from this [OF emit_byte_emits [OF assms]] show ?thesis by (simp add: emit_token_def)
qed

lemma index_digits_decimal: "rev (index_digits n) = decimal n"
proof (induction n rule: index_digits.induct)
  case (1 n)
  show ?case
  proof (cases "n div 10 = 0")
    case True
    then have "n < 10" by simp
    then show ?thesis using True by (subst index_digits.simps, subst decimal.simps) simp
  next
    case False
    then show ?thesis using 1 by (subst index_digits.simps, subst decimal.simps) simp
  qed
qed

lemma token_escaped_decimal: "token_escaped (decimal n) = decimal n"
proof -
  have "escape_byte b = [b]" if "b \<in> set (decimal n)" for b
    using decimal_digits [of n] that by (auto simp: escape_byte_def is_digit_byte_def)
  then have "map escape_byte (decimal n) = map (\<lambda>b. [b]) (decimal n)" by simp
  moreover have "concat (map (\<lambda>b. [b]) xs) = xs" for xs :: bytes by (induction xs) simp_all
  ultimately show ?thesis unfolding token_escaped_def by (simp only:)
qed

lemma emit_index_emits:
  "emitted b cap t e \<Longrightarrow> cap \<le> length b \<Longrightarrow> emitted b cap (t @ SLASH # token_escaped (decimal n)) (emit_index n e)"
  using emit_bytes_emits [OF emit_byte_emits [of b cap t e]]
  by (simp add: emit_index_def index_digits_decimal token_escaped_decimal)

lemma emit_key_emits:
  "emitted b cap t e \<Longrightarrow> cap \<le> length b \<Longrightarrow> emitted b cap (t @ SLASH # token_escaped (key_token a bs f)) (emit_key a bs f e)"
  using emit_token_emits by (auto simp: emit_key_def key_token_def Let_def split: outcome.splits)

lemma emit_frames_emits:
  "emitted b cap t e \<Longrightarrow> cap \<le> length b \<Longrightarrow> emitted b cap (t @ pointer_text (path_tokens luck bs fs)) (emit_frames luck bs fs e)"
proof (induction luck bs fs e arbitrary: t rule: emit_frames.induct)
  case (2 luck bs f fs e)
  show ?case
  proof (cases "is_object f")
    case True
    show ?thesis
    proof (cases "\<not> has_key f \<or> \<not> in_value f")
      case False
      from 2(1) [OF True False emit_key_emits [OF 2(3,4)] 2(4)] show ?thesis using True False by simp
    qed (use True 2(3) in simp)
  next
    case False
    from 2(2) [OF False emit_index_emits [OF 2(3,4)] 2(4)] show ?thesis using False by simp
  qed
qed simp

text \<open>What \<open>snprintf\<close> leaves in a buffer for a text.\<close>

definition printed :: "bytes \<Rightarrow> nat \<Rightarrow> bytes \<Rightarrow> bytes" where
  "printed b cap t =
     (if cap = 0 then b else take (cap - 1) t @ [0] @ drop (min (cap - 1) (length t) + 1) b)"

lemma emit_finish_prints:
  assumes "emitted b cap t e" "cap \<le> length b"
  shows "em_buffer (emit_finish e) = printed b cap t"
proof (cases "cap = 0")
  case True
  then show ?thesis using assms by (simp add: emitted_def emit_finish_def printed_def)
next
  case False
  let ?n = "min (cap - 1) (length t)"
  have n: "?n < length b" "length (take (cap - 1) t) = ?n" using False assms(2) by auto
  have "(if em_length e < em_capacity e then em_length e else em_capacity e - 1) = ?n"
    using assms False by (auto simp: emitted_def)
  then have "em_buffer (emit_finish e) = (take (cap - 1) t @ drop ?n b)[?n := 0]"
    using assms False by (simp add: emitted_def emit_finish_def Let_def)
  also have "\<dots> = take (cap - 1) t @ (drop ?n b)[0 := 0]" using n(2) by (simp add: list_update_append)
  also have "drop ?n b = b ! ?n # drop (?n + 1) b" using n(1) by (simp add: Cons_nth_drop_Suc)
  finally show ?thesis using False by (simp add: printed_def)
qed

text \<open>The tokens \<open>maelys_json_error_pointer\<close> names; none without an error, an input, or the frames.\<close>

definition error_tokens :: "bool list \<Rightarrow> bytes option \<Rightarrow> nat \<Rightarrow> json_error option \<Rightarrow> bytes list" where
  "error_tokens luck src sz err =
     (case (err, src) of
        (Some er, Some input) \<Rightarrow>
          if sz = 0 \<or> luck \<noteq> [] \<and> \<not> hd luck then []
          else path_tokens (tl luck) (take sz input) (scan (take sz input) (min (err_offset er) sz))
      | _ \<Rightarrow> [])"

lemma error_pointer_prints:
  assumes "cap \<le> length b"
  shows "error_pointer luck src sz err (Some b) cap =
    (printed b cap (pointer_text (error_tokens luck src sz err)), length (pointer_text (error_tokens luck src sz err)))"
proof -
  let ?e = "\<lparr>em_buffer = b, em_capacity = cap, em_length = 0\<rparr>"
  have e: "emitted b cap [] ?e" by (simp add: emitted_def)
  note none = emit_finish_prints [OF e assms]
  have some: "em_buffer (emit_finish (emit_frames l bs fs ?e)) = printed b cap (pointer_text (path_tokens l bs fs)) \<and>
      em_length (emit_frames l bs fs ?e) = length (pointer_text (path_tokens l bs fs))" for l bs fs
    using emit_finish_prints [OF emit_frames_emits [OF e assms] assms] emit_frames_emits [OF e assms]
    by (simp add: emitted_def)
  show ?thesis
    using none some by (auto simp: error_pointer_def error_tokens_def Let_def min_def split: option.splits)
qed

section \<open>Reading a pointer back\<close>

text \<open>RFC 6901: tokens between slashes, in which \<open>~1\<close> is a slash and \<open>~0\<close> a tilde.\<close>

fun unescape :: "bytes \<Rightarrow> bytes option" where
  "unescape [] = Some []"
| "unescape (b # bs) =
     (if b = TILDE then
        (case bs of
           [] \<Rightarrow> None
         | c # cs \<Rightarrow>
             if c = 0x30 then map_option ((#) TILDE) (unescape cs)
             else if c = 0x31 then map_option ((#) SLASH) (unescape cs)
             else None)
      else map_option ((#) b) (unescape bs))"

function read_pointer :: "bytes \<Rightarrow> bytes list option" where
  "read_pointer [] = Some []"
| "read_pointer (b # bs) =
     (if b \<noteq> SLASH then None
      else case (unescape (takeWhile (\<lambda>x. x \<noteq> SLASH) bs), read_pointer (dropWhile (\<lambda>x. x \<noteq> SLASH) bs)) of
        (Some t, Some ts) \<Rightarrow> Some (t # ts)
      | _ \<Rightarrow> None)"
  by pat_completeness auto
termination
  by (relation "measure length") (auto simp: le_imp_less_Suc length_dropWhile_le)

lemma unescape_escaped: "unescape (token_escaped t) = Some t"
  by (induction t) (auto simp: token_escaped_def escape_byte_def)

lemma token_escaped_slash: "x \<in> set (token_escaped t) \<Longrightarrow> x \<noteq> SLASH"
  by (auto simp: token_escaped_def escape_byte_def split: if_splits)

lemma read_pointer_text: "read_pointer (pointer_text ts) = Some ts"
proof (induction ts)
  case (Cons t ts)
  have slash: "pointer_text ts = [] \<or> (\<exists>r. pointer_text ts = SLASH # r)" by (cases ts) auto
  have "takeWhile (\<lambda>x. x \<noteq> SLASH) (token_escaped t @ pointer_text ts) = token_escaped t"
    using slash token_escaped_slash by (subst takeWhile_append2) auto
  moreover have "dropWhile (\<lambda>x. x \<noteq> SLASH) (token_escaped t @ pointer_text ts) = pointer_text ts"
    using slash token_escaped_slash by (subst dropWhile_append2) auto
  ultimately show ?case using Cons by (simp add: unescape_escaped)
qed simp


section \<open>Properties\<close>

lemma read_error_pointer: "read_pointer (pointer_text (error_tokens luck src sz err)) = Some (error_tokens luck src sz err)"
  by (rule read_pointer_text)

text \<open>C28: the pointer as text. Whatever the error, the input and the buffer of \<open>cap\<close> bytes, what
  \<open>maelys_json_error_pointer\<close> writes is what \<open>snprintf\<close> would: the bytes of one text as far as they fit,
  a NUL, and nothing past the capacity; it returns the length of the whole text, which depends neither on the
  capacity nor on whether there is a buffer; and the text is an RFC 6901 pointer that reads back as the tokens of the path.\<close>

theorem error_pointer_exact:
  assumes "cap \<le> length b"
  shows "\<exists>t. read_pointer t = Some (error_tokens luck src sz err) \<and>
    error_pointer luck src sz err (Some b) cap =
      (if cap = 0 then b else take (cap - 1) t @ [0] @ drop (min (cap - 1) (length t) + 1) b, length t) \<and>
    error_pointer luck src sz err None n = ([], length t)"
proof (intro exI conjI)
  let ?t = "pointer_text (error_tokens luck src sz err)"
  show "read_pointer ?t = Some (error_tokens luck src sz err)" by (rule read_error_pointer)
  show "error_pointer luck src sz err (Some b) cap =
      (if cap = 0 then b else take (cap - 1) ?t @ [0] @ drop (min (cap - 1) (length ?t) + 1) b, length ?t)"
    using error_pointer_prints [OF assms] by (simp add: printed_def)
  have "error_pointer luck src sz err None n = error_pointer luck src sz err (Some []) 0" by (simp add: error_pointer_def)
  then show "error_pointer luck src sz err None n = ([], length ?t)"
    using error_pointer_prints [of 0 "[]"] by (simp add: printed_def)
qed

definition pointer_input :: bytes where
  "pointer_input = LBRACE # [QUOTE, 0x61, SLASH, QUOTE] @ COLON # ascii ''[1,x''"

definition pointer_error :: json_error where
  "pointer_error = no_error\<lparr>err_offset := 9\<rparr>"

theorem error_pointer_exact_witness:
  "error_pointer [] (Some pointer_input) 10 (Some pointer_error) (Some [1, 1, 1, 1, 1]) 4 = ([SLASH, 0x61, TILDE, 0, 1], 6) \<and>
   (\<exists>t. read_pointer t = Some [[0x61, SLASH], [0x31]] \<and> error_pointer [] (Some pointer_input) 10 (Some pointer_error) None 0 = ([], length t))"
proof -
  have p: "error_pointer [] (Some pointer_input) 10 (Some pointer_error) (Some [1, 1, 1, 1, 1]) 4 = ([SLASH, 0x61, TILDE, 0, 1], 6)"
    "error_tokens [] (Some pointer_input) 10 (Some pointer_error) = [[0x61, SLASH], [0x31]]" by code_simp+
  have "(4::nat) \<le> length [1, 1, 1, 1, 1 :: byte]" by simp
  from error_pointer_exact [OF this, of "[]" "Some pointer_input" 10 "Some pointer_error" 0] p show ?thesis by auto
qed
end
