(* ===== verification/Pointer_Path.thy ===== *)
theory Pointer_Path
  imports Pointer_Props Parser_Complete
begin

text \<open>
  What \<^verbatim>\<open>src/pointer.c\<close> finds: at an offset where a value of the text is about to start, the frames of
  the scan are the path to that value. \<open>goes_over\<close> is that the scan goes over a part of the text;
  it composes, so that a whole value leaves the frames as they were and a prefix of a text leaves
  one frame for each container still open.
\<close>

section \<open>Going over a part of the text\<close>

definition passes :: "bytes \<Rightarrow> nat \<Rightarrow> frame list \<Rightarrow> nat \<Rightarrow> frame list \<Rightarrow> bool" where
  "passes bs i fs j gs \<longleftrightarrow> i \<le> j \<and> (\<forall>limit \<ge> j. scan_loop bs limit i fs = scan_loop bs limit j gs)"

text \<open>After \<open>xs\<close> and before \<open>ys\<close>, the scan goes over \<open>t\<close> and turns the frames \<open>fs\<close> into \<open>gs\<close>.\<close>

definition goes_over :: "bytes \<Rightarrow> bytes \<Rightarrow> bytes \<Rightarrow> frame list \<Rightarrow> frame list \<Rightarrow> bool" where
  "goes_over xs t ys fs gs \<longleftrightarrow> passes (xs @ t @ ys) (length xs) fs (length xs + length t) gs"

lemma passes_step:
  assumes "i < length bs" "scan_step bs i fs = (gs, j)"
  shows "passes bs i fs j gs"
proof -
  have j: "i < j" using scan_step_moves [OF assms(1), of fs] assms(2) by simp
  have "scan_loop bs limit i fs = scan_loop bs limit j gs" if "j \<le> limit" for limit
    using that j assms by (subst scan_loop.simps) simp
  then show ?thesis using j by (simp add: passes_def)
qed

lemma reads_nothing [simp]: "goes_over xs [] ys fs fs"
  by (simp add: goes_over_def passes_def)

lemma reads_append:
  assumes "goes_over xs s (t @ ys) fs gs" "goes_over (xs @ s) t ys gs hs"
  shows "goes_over xs (s @ t) ys fs hs"
  using assms by (auto simp: goes_over_def passes_def add.assoc)

lemma reads_Cons:
  assumes "goes_over xs [b] (t @ ys) fs gs" "goes_over (xs @ [b]) t ys gs hs"
  shows "goes_over xs (b # t) ys fs hs"
  using reads_append [OF assms] by simp

lemma reads_step:
  assumes "t \<noteq> []" "scan_step (xs @ t @ ys) (length xs) fs = (gs, length xs + length t)"
  shows "goes_over xs t ys fs gs"
  unfolding goes_over_def by (rule passes_step [OF _ assms(2)]) (use assms(1) in simp)

lemma reads_space: "pointer_space b \<Longrightarrow> goes_over xs [b] ys fs fs"
  by (rule reads_step) (simp_all add: scan_step_def Let_def)

lemma reads_ws: "json_ws w \<Longrightarrow> goes_over xs w ys fs fs"
proof (induction w arbitrary: xs)
  case (Cons b w)
  have "goes_over xs [b] (w @ ys) fs fs" using Cons.prems by (intro reads_space) (auto simp: json_ws_def pointer_space_def)
  then show ?case by (rule reads_Cons) (use Cons in \<open>simp add: json_ws_def\<close>)
qed simp

lemma reads_open:
  assumes "length fs < MAXIMUM_DEPTH"
  shows "goes_over xs [LBRACE] ys fs (fresh_frame True # fs)" "goes_over xs [LBRACKET] ys fs (fresh_frame False # fs)"
  by (rule reads_step; use assms in \<open>simp add: scan_step_def Let_def pointer_space_def\<close>)+

lemma reads_close: "goes_over xs [RBRACE] ys (f # fs) fs" "goes_over xs [RBRACKET] ys (f # fs) fs"
  by (rule reads_step; simp add: scan_step_def Let_def pointer_space_def)+

lemma reads_comma: "goes_over xs [COMMA] ys (f # fs) (comma_frame f # fs)"
  by (rule reads_step) (simp_all add: scan_step_def Let_def pointer_space_def)

lemma reads_colon: "goes_over xs [COLON] ys (f # fs) (colon_frame f # fs)"
  by (rule reads_step) (simp_all add: scan_step_def Let_def pointer_space_def)

lemmas reads_marks = reads_open reads_close reads_comma reads_colon

section \<open>Words and strings\<close>

definition word_ends :: "bytes \<Rightarrow> bool" where
  "word_ends ys \<longleftrightarrow> ys = [] \<or> pointer_delimiter (hd ys)"

definition word_byte :: "byte \<Rightarrow> bool" where
  "word_byte b \<longleftrightarrow> \<not> pointer_delimiter b \<and> b \<noteq> QUOTE \<and> b \<noteq> LBRACE \<and> b \<noteq> LBRACKET"

lemma reads_word:
  assumes "t \<noteq> []" "\<forall>b \<in> set t. word_byte b" "word_ends ys"
  shows "goes_over xs t ys fs fs"
proof (rule reads_step [OF assms(1)])
  have d: "\<forall>b \<in> set t. \<not> pointer_delimiter b" using assms(2) by (simp add: word_byte_def)
  have "takeWhile (\<lambda>b. \<not> pointer_delimiter b) ys = []" using assms(3) by (cases ys) (simp_all add: word_ends_def)
  then have "takeWhile (\<lambda>b. \<not> pointer_delimiter b) (t @ ys) = t" using d by (simp add: takeWhile_append2)
  then have w: "scan_while (\<lambda>b. \<not> pointer_delimiter b) (xs @ t @ ys) (length xs) = length xs + length t"
    by (simp add: scan_while_takeWhile)
  obtain b r where t: "t = b # r" using assms(1) by (cases t) auto
  then have "word_byte b" using assms(2) by simp
  then have b: "\<not> pointer_space b" "b \<noteq> QUOTE" "b \<noteq> LBRACE" "b \<noteq> LBRACKET" "b \<noteq> RBRACE" "b \<noteq> RBRACKET" "b \<noteq> COMMA" "b \<noteq> COLON"
    by (auto simp: word_byte_def pointer_delimiter_def)
  have at: "(xs @ t @ ys) ! length xs = b" using t by simp
  show "scan_step (xs @ t @ ys) (length xs) fs = (fs, length xs + length t)"
    unfolding scan_step_def Let_def at w using b by simp
qed

lemma skip_body: "string_body prof raw \<Longrightarrow> skip_string_loop (xs @ raw @ QUOTE # ys) (length xs) = length xs + length raw"
proof (induction prof raw arbitrary: xs rule: string_body.induct)
  case (1 prof)
  then show ?case by (subst skip_string_loop.simps) simp
next
  case (2 prof b)
  then have "b \<noteq> QUOTE" "b \<noteq> BACKSLASH" by (simp_all add: plain_byte_def)
  then show ?case by (subst skip_string_loop.simps, simp) (subst skip_string_loop.simps, simp add: nth_append)
next
  case (3 prof b c bs)
  show ?case
  proof (cases "b = BACKSLASH")
    case True
    then show ?thesis using 3(1) [of "xs @ [b, c]"] 3(3) by (subst skip_string_loop.simps) simp
  next
    case False
    then have "b \<noteq> QUOTE" using 3(3) by (simp add: plain_byte_def)
    then show ?thesis using 3(2) [of "xs @ [b]"] 3(3) False by (subst skip_string_loop.simps) simp
  qed
qed

text \<open>What a string does to the innermost frame, when it is a key.\<close>

definition keyed_frame :: "nat \<Rightarrow> nat \<Rightarrow> frame \<Rightarrow> frame" where
  "keyed_frame i j f = f\<lparr>key_start := i, key_end := j, has_key := True\<rparr>"

definition takes_key :: "frame list \<Rightarrow> bool" where
  "takes_key fs \<longleftrightarrow> fs \<noteq> [] \<and> is_object (hd fs) \<and> \<not> in_value (hd fs)"

lemma reads_string:
  assumes "string_body prof raw"
  shows "goes_over xs (QUOTE # raw @ [QUOTE]) ys fs
    (if takes_key fs then update_top (keyed_frame (length xs + 1) (length xs + 1 + length raw)) fs else fs)"
proof (rule reads_step)
  let ?bs = "xs @ (QUOTE # raw @ [QUOTE]) @ ys"
  have "skip_string_loop ?bs (length xs + 1) = length xs + 1 + length raw"
    using skip_body [OF assms, of "xs @ [QUOTE]" ys] by simp
  then have skip: "skip_string ?bs (length xs) = length xs + length (QUOTE # raw @ [QUOTE])"
    by (simp add: skip_string_def Let_def)
  have at: "?bs ! length xs = QUOTE" "?bs ! (length xs + 1 + length raw) = QUOTE"
    using nth_append_length [of "xs @ QUOTE # raw" QUOTE ys] by simp_all
  have frame: "string_frame ?bs (length xs) (length xs + length (QUOTE # raw @ [QUOTE])) f =
      (if is_object f \<and> \<not> in_value f then keyed_frame (length xs + 1) (length xs + 1 + length raw) f else f)" for f
    using at(2) by (simp add: string_frame_def keyed_frame_def)
  show "scan_step ?bs (length xs) fs =
      ((if takes_key fs then update_top (keyed_frame (length xs + 1) (length xs + 1 + length raw)) fs else fs),
       length xs + length (QUOTE # raw @ [QUOTE]))"
    unfolding scan_step_def Let_def at(1) skip
    by (cases fs) (simp_all only: update_top.simps frame takes_key_def, simp_all add: pointer_space_def)
qed simp

section \<open>Values\<close>

lemma json_string_body: "json_string prof raw k \<Longrightarrow> string_body prof raw"
  by (simp add: json_string_iff)

lemma word_ends_after [simp]:
  "word_ends (COMMA # ys)" "word_ends (RBRACKET # ys)" "word_ends (RBRACE # ys)"
  by (simp_all add: word_ends_def pointer_delimiter_def)

lemma word_ends_ws: "json_ws w \<Longrightarrow> word_ends ys \<Longrightarrow> word_ends (w @ ys)"
  by (cases w) (auto simp: word_ends_def json_ws_def pointer_delimiter_def pointer_space_def)

lemma number_word: "number_char b \<Longrightarrow> word_byte b"
  by (auto simp: number_char_def is_digit_def word_byte_def pointer_delimiter_def pointer_space_def)

lemma literal_words:
  "\<forall>b \<in> set (ascii ''null''). word_byte b" "\<forall>b \<in> set (ascii ''true''). word_byte b" "\<forall>b \<in> set (ascii ''false''). word_byte b"
  by code_simp+

lemma literal_nonempty: "ascii ''null'' \<noteq> []" "ascii ''true'' \<noteq> []" "ascii ''false'' \<noteq> []"
  by (simp_all add: ascii_def)

text \<open>A value is read without a change; the parts of a container only change its own frame.\<close>

lemma reads_key:
  assumes "json_ws w1" "json_string prof raw k" "json_ws w2" "json_ws w3" "is_object f" "\<not> in_value f"
  shows "goes_over xs (w1 @ QUOTE # raw @ QUOTE # w2 @ COLON # w3) ys (f # fs)
    (keyed_frame (length xs + length w1 + 1) (length xs + length w1 + 1 + length raw) f\<lparr>in_value := True\<rparr> # fs)"
proof -
  let ?i = "length xs + length w1 + 1"
  let ?g = "keyed_frame ?i (?i + length raw) f"
  have g: "colon_frame ?g = ?g\<lparr>in_value := True\<rparr>" using assms(5) by (simp add: colon_frame_def keyed_frame_def)
  have str: "goes_over (xs @ w1) (QUOTE # raw @ [QUOTE]) ((w2 @ [COLON] @ w3) @ ys) (f # fs) (?g # fs)"
    using reads_string [OF json_string_body [OF assms(2)], of "xs @ w1" "(w2 @ [COLON] @ w3) @ ys" "f # fs"] assms(5,6)
    by (simp add: takes_key_def)
  have "goes_over xs (w1 @ (QUOTE # raw @ [QUOTE]) @ w2 @ [COLON] @ w3) ys (f # fs) (?g\<lparr>in_value := True\<rparr> # fs)"
    unfolding g [symmetric]
    by (rule reads_append [OF reads_ws [OF assms(1)]], rule reads_append [OF str],
      rule reads_append [OF reads_ws [OF assms(3)]], rule reads_append [OF reads_colon reads_ws [OF assms(4)]])
  then show ?thesis by simp
qed

lemma reads_value:
  shows "json_text prof t v \<Longrightarrow> word_ends ys \<Longrightarrow> \<not> takes_key fs \<Longrightarrow> length fs + json_height v \<le> MAXIMUM_DEPTH \<Longrightarrow> goes_over xs t ys fs fs"
    and "json_elements prof t vs \<Longrightarrow> word_ends ys \<Longrightarrow> \<not> is_object f \<Longrightarrow>
      \<forall>v \<in> set vs. length fs + 1 + json_height v \<le> MAXIMUM_DEPTH \<Longrightarrow> \<exists>g. goes_over xs t ys (f # fs) (g # fs)"
    and "json_members prof t ms \<Longrightarrow> word_ends ys \<Longrightarrow> is_object f \<Longrightarrow> \<not> in_value f \<Longrightarrow>
      \<forall>(k, v) \<in> set ms. length fs + 1 + json_height v \<le> MAXIMUM_DEPTH \<Longrightarrow> \<exists>g. goes_over xs t ys (f # fs) (g # fs)"
proof (induction arbitrary: xs ys fs and xs ys fs f and xs ys fs f rule: json_text_json_elements_json_members.inducts)
  case text_null
  show ?case by (rule reads_word [OF literal_nonempty(1) literal_words(1) text_null(1)])
next
  case text_true
  show ?case by (rule reads_word [OF literal_nonempty(2) literal_words(2) text_true(1)])
next
  case text_false
  show ?case by (rule reads_word [OF literal_nonempty(3) literal_words(3) text_false(1)])
next
  case (text_number n)
  then show ?case using number_chars [OF text_number(1)] number_word by (intro reads_word) auto
next
  case (text_string raw s)
  then show ?case using reads_string [OF json_string_body [OF text_string(1)], of xs ys fs] by simp
next
  case (text_empty_array w)
  have o: "length fs < MAXIMUM_DEPTH" using text_empty_array by simp
  show ?case
    by (rule reads_Cons [OF reads_open(2) [OF o]], rule reads_append [OF reads_ws [OF text_empty_array(1)] reads_close(2)])
next
  case (text_array t vs)
  have o: "length fs < MAXIMUM_DEPTH" using text_array.prems by simp
  have "\<forall>v \<in> set vs. length fs + 1 + json_height v \<le> MAXIMUM_DEPTH"
    using text_array.prems(3) fold_max_le [of "map json_height vs" 0 "MAXIMUM_DEPTH - length fs - 1"] by auto
  then have "\<exists>g. goes_over (xs @ [LBRACKET]) t ([RBRACKET] @ ys) (fresh_frame False # fs) (g # fs)"
    by (intro text_array.IH) (simp_all add: fresh_frame_def)
  then obtain g where g: "goes_over (xs @ [LBRACKET]) t ([RBRACKET] @ ys) (fresh_frame False # fs) (g # fs)" by blast
  show ?case by (rule reads_Cons [OF reads_open(2) [OF o]], rule reads_append [OF g reads_close(2)])
next
  case (text_empty_object w)
  have o: "length fs < MAXIMUM_DEPTH" using text_empty_object by simp
  show ?case
    by (rule reads_Cons [OF reads_open(1) [OF o]], rule reads_append [OF reads_ws [OF text_empty_object(1)] reads_close(1)])
next
  case (text_object t ms)
  have o: "length fs < MAXIMUM_DEPTH" using text_object.prems by simp
  have "\<forall>(k, v) \<in> set ms. length fs + 1 + json_height v \<le> MAXIMUM_DEPTH"
    using text_object.prems(3) fold_max_le [of "map (\<lambda>(k, v). json_height v) ms" 0 "MAXIMUM_DEPTH - length fs - 1"] by fastforce
  then have "\<exists>g. goes_over (xs @ [LBRACE]) t ([RBRACE] @ ys) (fresh_frame True # fs) (g # fs)"
    by (intro text_object.IH) (simp_all add: fresh_frame_def)
  then obtain g where g: "goes_over (xs @ [LBRACE]) t ([RBRACE] @ ys) (fresh_frame True # fs) (g # fs)" by blast
  show ?case by (rule reads_Cons [OF reads_open(1) [OF o]], rule reads_append [OF g reads_close(1)])
next
  case (elements_one w1 t v w2)
  have v: "goes_over (xs @ w1) t (w2 @ ys) (f # fs) (f # fs)"
    by (rule elements_one.IH) (use elements_one.prems elements_one.hyps word_ends_ws in \<open>simp_all add: takes_key_def\<close>)
  show ?case
    by (intro exI) (rule reads_append [OF reads_ws reads_append [OF v reads_ws]], (rule elements_one.hyps)+)
next
  case (elements_more w1 t v w2 bs vs)
  have v: "goes_over (xs @ w1) t ((w2 @ [COMMA] @ bs) @ ys) (f # fs) (f # fs)"
    by (rule elements_more.IH) (use elements_more.prems elements_more.hyps word_ends_ws in \<open>simp_all add: takes_key_def\<close>)
  have "\<exists>g. goes_over (((xs @ w1) @ t) @ w2 @ [COMMA]) bs ys (comma_frame f # fs) (g # fs)"
    by (rule elements_more.IH) (use elements_more.prems in \<open>simp_all add: comma_frame_def\<close>)
  then obtain g where g: "goes_over (((xs @ w1) @ t) @ w2 @ [COMMA]) bs ys (comma_frame f # fs) (g # fs)" by blast
  have "goes_over xs (w1 @ t @ (w2 @ [COMMA]) @ bs) ys (f # fs) (g # fs)"
    by (rule reads_append [OF reads_ws [OF elements_more.hyps(1)]], rule reads_append, use v in simp,
      rule reads_append [OF _ g], rule reads_append [OF reads_ws [OF elements_more.hyps(2)] reads_comma])
  then show ?case by auto
next
  case (members_one w1 raw k w2 w3 t v w4)
  let ?f = "keyed_frame (length xs + length w1 + 1) (length xs + length w1 + 1 + length raw) f\<lparr>in_value := True\<rparr>"
  let ?key = "w1 @ QUOTE # raw @ QUOTE # w2 @ COLON # w3"
  have v: "goes_over (xs @ ?key) t (w4 @ ys) (?f # fs) (?f # fs)"
    by (rule members_one.IH) (use members_one.prems members_one.hyps word_ends_ws in \<open>simp_all add: takes_key_def\<close>)
  have "goes_over xs (?key @ t @ w4) ys (f # fs) (?f # fs)"
    by (rule reads_append [OF reads_key reads_append [OF v reads_ws]]) (use members_one in simp_all)
  then show ?case by auto
next
  case (members_more w1 raw k w2 w3 t v w4 bs ms)
  let ?f = "keyed_frame (length xs + length w1 + 1) (length xs + length w1 + 1 + length raw) f\<lparr>in_value := True\<rparr>"
  let ?key = "w1 @ QUOTE # raw @ QUOTE # w2 @ COLON # w3"
  have v: "goes_over (xs @ ?key) t (((w4 @ [COMMA]) @ bs) @ ys) (?f # fs) (?f # fs)"
    by (rule members_more.IH) (use members_more.prems members_more.hyps word_ends_ws in \<open>simp_all add: takes_key_def\<close>)
  have "\<exists>g. goes_over (((xs @ ?key) @ t) @ w4 @ [COMMA]) bs ys (comma_frame ?f # fs) (g # fs)"
    by (rule members_more.IH) (use members_more.prems in \<open>simp_all add: comma_frame_def keyed_frame_def\<close>)
  then obtain g where g: "goes_over (((xs @ ?key) @ t) @ w4 @ [COMMA]) bs ys (comma_frame ?f # fs) (g # fs)" by blast
  have "goes_over xs (?key @ t @ (w4 @ [COMMA]) @ bs) ys (f # fs) (g # fs)"
    by (rule reads_append [OF reads_key reads_append [OF v reads_append [OF reads_append [OF reads_ws reads_comma] g]]])
      (use members_more in simp_all)
  then show ?case by auto
qed
section \<open>The start of a value\<close>

text \<open>Elements, respectively members, with the comma after each, none nested deeper than \<open>h\<close>.\<close>

inductive elements_before :: "nat \<Rightarrow> bytes \<Rightarrow> nat \<Rightarrow> bool" for h where
  no_element: "elements_before h [] 0"
| one_element: "elements_before h body n \<Longrightarrow> json_ws w1 \<Longrightarrow> json_text RFC8259 t v \<Longrightarrow> json_height v \<le> h \<Longrightarrow> json_ws w2 \<Longrightarrow>
    elements_before h (body @ w1 @ t @ w2 @ [COMMA]) (Suc n)"

inductive members_before :: "nat \<Rightarrow> bytes \<Rightarrow> bool" for h where
  no_member: "members_before h []"
| one_member: "members_before h body \<Longrightarrow> json_ws w1 \<Longrightarrow> json_string RFC8259 raw k \<Longrightarrow> json_ws w2 \<Longrightarrow> json_ws w3 \<Longrightarrow>
    json_text RFC8259 t v \<Longrightarrow> json_height v \<le> h \<Longrightarrow> json_ws w4 \<Longrightarrow>
    members_before h (body @ w1 @ QUOTE # raw @ QUOTE # w2 @ COLON # w3 @ t @ w4 @ [COMMA])"

text \<open>
  \<open>at_value pre ts\<close>: \<open>pre\<close> is the beginning of a text up to the start of the value whose path is \<open>ts\<close>,
  an index in decimal or a decoded key for each container around it, the outermost first.
\<close>

inductive at_value :: "bytes \<Rightarrow> bytes list \<Rightarrow> bool" where
  at_root: "json_ws w \<Longrightarrow> at_value w []"
| at_element: "at_value pre ts \<Longrightarrow> length ts < MAXIMUM_DEPTH \<Longrightarrow> elements_before (MAXIMUM_DEPTH - Suc (length ts)) body n \<Longrightarrow> json_ws w \<Longrightarrow>
    at_value (pre @ LBRACKET # body @ w) (ts @ [decimal n])"
| at_member: "at_value pre ts \<Longrightarrow> length ts < MAXIMUM_DEPTH \<Longrightarrow> members_before (MAXIMUM_DEPTH - Suc (length ts)) body \<Longrightarrow>
    json_ws w1 \<Longrightarrow> json_string RFC8259 raw k \<Longrightarrow> json_ws w2 \<Longrightarrow> json_ws w3 \<Longrightarrow>
    at_value (pre @ LBRACE # body @ w1 @ QUOTE # raw @ QUOTE # w2 @ COLON # w3) (ts @ [k])"

lemma reads_elements_before:
  assumes "elements_before h body n" "\<not> is_object f" "length fs + 1 + h \<le> MAXIMUM_DEPTH"
  shows "goes_over xs body ys (f # fs) (f\<lparr>f_index := f_index f + n\<rparr> # fs)"
  using assms(1)
proof (induction arbitrary: ys rule: elements_before.induct)
  case (one_element body n w1 t v w2)
  let ?f = "f\<lparr>f_index := f_index f + n\<rparr>"
  have v: "goes_over ((xs @ body) @ w1) t ((w2 @ [COMMA]) @ ys) (?f # fs) (?f # fs)"
    by (rule reads_value(1) [OF one_element.hyps(3)])
      (use one_element.hyps word_ends_ws assms in \<open>simp_all add: takes_key_def\<close>)
  have c: "comma_frame ?f = f\<lparr>f_index := f_index f + Suc n\<rparr>" using assms(2) by (simp add: comma_frame_def)
  have "goes_over xs (body @ w1 @ t @ w2 @ [COMMA]) ys (f # fs) (comma_frame ?f # fs)"
    by (rule reads_append [OF one_element.IH reads_append [OF reads_ws reads_append [OF v reads_append [OF reads_ws reads_comma]]]])
      (use one_element.hyps in simp_all)
  then show ?case unfolding c .
qed simp

lemma reads_members_before:
  assumes "members_before h body" "is_object f" "\<not> in_value f" "length fs + 1 + h \<le> MAXIMUM_DEPTH"
  shows "\<exists>g. is_object g \<and> \<not> in_value g \<and> (\<forall>ys. goes_over xs body ys (f # fs) (g # fs))"
  using assms(1)
proof (induction rule: members_before.induct)
  case no_member
  then show ?case using assms(2,3) by (intro exI [of _ f]) simp
next
  case (one_member body w1 raw k w2 w3 t v w4)
  then obtain g where g: "is_object g" "\<not> in_value g" "\<And>ys. goes_over xs body ys (f # fs) (g # fs)" by blast
  let ?g = "keyed_frame (length (xs @ body) + length w1 + 1) (length (xs @ body) + length w1 + 1 + length raw) g\<lparr>in_value := True\<rparr>"
  let ?key = "w1 @ QUOTE # raw @ QUOTE # w2 @ COLON # w3"
  have v: "goes_over ((xs @ body) @ ?key) t ((w4 @ [COMMA]) @ ys) (?g # fs) (?g # fs)" for ys
    by (rule reads_value(1) [OF one_member.hyps(6)])
      (use one_member.hyps word_ends_ws assms in \<open>simp_all add: takes_key_def\<close>)
  have "goes_over xs (body @ ?key @ t @ w4 @ [COMMA]) ys (f # fs) (comma_frame ?g # fs)" for ys
    by (rule reads_append [OF g(3) reads_append [OF reads_key reads_append [OF v reads_append [OF reads_ws reads_comma]]]])
      (use one_member.hyps g in simp_all)
  moreover have "is_object (comma_frame ?g)" "\<not> in_value (comma_frame ?g)"
    using g(1) by (simp_all add: comma_frame_def keyed_frame_def)
  ultimately show ?case by (intro exI [of _ "comma_frame ?g"]) simp
qed

section \<open>The path\<close>

text \<open>Every frame stands at a value.\<close>

definition valued :: "frame list \<Rightarrow> bool" where
  "valued fs \<longleftrightarrow> (\<forall>f \<in> set fs. is_object f \<longrightarrow> has_key f \<and> in_value f)"

lemma lucky_tl: "list_all id luck \<Longrightarrow> list_all id (tl luck) \<and> (luck = [] \<or> hd luck)"
  by (cases luck) simp_all

lemma path_tokens_lucky: "list_all id luck \<Longrightarrow> path_tokens luck bs fs = path_tokens [] bs fs"
proof (induction luck bs fs rule: path_tokens.induct)
  case (2 luck bs f fs)
  note l = lucky_tl [OF 2(3)]
  show ?case
  proof (cases "is_object f")
    case True
    then show ?thesis using 2(1) [OF True] l by (auto simp: id_def)
  next
    case False
    then show ?thesis using 2(2) [OF False 2(3)] by simp
  qed
qed simp

lemma path_tokens_append: "valued fs \<Longrightarrow> path_tokens [] bs (fs @ gs) = path_tokens [] bs fs @ path_tokens [] bs gs"
  by (induction fs) (auto simp: valued_def)

lemma valued_takes_key: "valued fs \<Longrightarrow> \<not> takes_key fs"
  by (cases fs) (auto simp: valued_def takes_key_def)

text \<open>The scan of a beginning: as many frames as the path has tokens, which they name.\<close>

definition scanned :: "bytes \<Rightarrow> bytes list \<Rightarrow> frame list \<Rightarrow> bool" where
  "scanned pre ts fs \<longleftrightarrow>
     valued fs \<and> length fs = length ts \<and>
     (\<forall>ys. goes_over [] pre ys [] fs \<and> path_tokens [] (pre @ ys) (rev fs) = ts)"

lemma scanned_push:
  assumes "scanned pre ts fs" "valued [f]" "\<And>ys. goes_over pre body ys fs (f # fs)"
    "\<And>ys. path_tokens [] ((pre @ body) @ ys) [f] = [t]"
  shows "scanned (pre @ body) (ts @ [t]) (f # fs)"
  unfolding scanned_def
proof (intro conjI allI)
  fix ys
  have fs: "valued fs" "goes_over [] pre (body @ ys) [] fs" "path_tokens [] (pre @ body @ ys) (rev fs) = ts"
    using assms(1) by (simp_all add: scanned_def)
  show "goes_over [] (pre @ body) ys [] (f # fs)" by (rule reads_append [OF fs(2)]) (simp add: assms(3))
  have "valued (rev fs)" using fs(1) by (simp add: valued_def)
  then show "path_tokens [] ((pre @ body) @ ys) (rev (f # fs)) = ts @ [t]"
    using fs(3) assms(4) [of ys] by (simp add: path_tokens_append)
qed (use assms(1,2) in \<open>simp_all add: scanned_def valued_def\<close>)

lemma at_value_scanned: "at_value pre ts \<Longrightarrow> \<exists>fs. scanned pre ts fs"
proof (induction rule: at_value.induct)
  case (at_root w)
  have "goes_over [] w ys [] []" for ys by (rule reads_ws [OF at_root])
  then have "scanned w [] []" unfolding scanned_def valued_def by simp
  then show ?case ..
next
  case (at_element pre ts body n w)
  then obtain fs where fs: "scanned pre ts fs" by blast
  have len: "length fs < MAXIMUM_DEPTH" using fs at_element.hyps(2) by (simp add: scanned_def)
  let ?f = "fresh_frame False\<lparr>f_index := n\<rparr>"
  have b: "goes_over (pre @ [LBRACKET]) body (w @ ys) (fresh_frame False # fs) (?f # fs)" for ys
    using reads_elements_before [OF at_element.hyps(3), of "fresh_frame False" fs] len fs
    by (simp add: fresh_frame_def scanned_def)
  have "goes_over pre (LBRACKET # body @ w) ys fs (?f # fs)" for ys
    by (rule reads_Cons [OF reads_open(2) [OF len] reads_append [OF b reads_ws [OF at_element.hyps(4)]]])
  then have "scanned (pre @ LBRACKET # body @ w) (ts @ [decimal n]) (?f # fs)"
    by (intro scanned_push [OF fs]) (simp_all add: valued_def fresh_frame_def)
  then show ?case by blast
next
  case (at_member pre ts body w1 raw k w2 w3)
  then obtain fs where fs: "scanned pre ts fs" by blast
  have len: "length fs < MAXIMUM_DEPTH" "length fs + 1 + (MAXIMUM_DEPTH - Suc (length ts)) \<le> MAXIMUM_DEPTH"
    using fs at_member.hyps(2) by (simp_all add: scanned_def)
  obtain g where g: "is_object g" "\<not> in_value g" "\<And>ys. goes_over (pre @ [LBRACE]) body ys (fresh_frame True # fs) (g # fs)"
    using reads_members_before [OF at_member.hyps(3) _ _ len(2), of "fresh_frame True" "pre @ [LBRACE]"]
    by (auto simp: fresh_frame_def)
  let ?i = "length ((pre @ [LBRACE]) @ body) + length w1 + 1"
  let ?f = "keyed_frame ?i (?i + length raw) g\<lparr>in_value := True\<rparr>"
  let ?key = "w1 @ QUOTE # raw @ QUOTE # w2 @ COLON # w3"
  have "goes_over pre (LBRACE # body @ ?key) ys fs (?f # fs)" for ys
    by (rule reads_Cons [OF reads_open(1) [OF len(1)] reads_append [OF g(3) reads_key]])
      (use at_member.hyps g in simp_all)
  moreover have "path_tokens [] ((pre @ LBRACE # body @ ?key) @ ys) [?f] = [k]" for ys
  proof -
    have "drop ?i (((pre @ LBRACE # body @ w1 @ [QUOTE]) @ raw) @ QUOTE # w2 @ COLON # w3 @ ys) = raw @ QUOTE # w2 @ COLON # w3 @ ys"
      by (simp only: append_assoc) simp
    then have "take (length raw) (drop ?i ((pre @ LBRACE # body @ ?key) @ ys)) = raw" by simp
    then show ?thesis using g(1) at_member.hyps(5) by (simp add: keyed_frame_def key_token_def json_string_iff)
  qed
  ultimately have "scanned (pre @ LBRACE # body @ ?key) (ts @ [k]) (?f # fs)"
    by (intro scanned_push [OF fs]) (simp_all add: valued_def keyed_frame_def)
  then show ?case by blast
qed

lemma at_value_tokens:
  assumes "at_value pre ts" "err_offset e = length pre" "list_all id luck"
  shows "error_tokens luck (Some (pre @ rest)) (length (pre @ rest)) (Some e) = ts"
proof (cases "pre @ rest = []")
  case True
  then have "ts = []" using assms(1) by (auto elim: at_value.cases)
  then show ?thesis using True by (simp add: error_tokens_def)
next
  case False
  obtain fs where fs: "scanned pre ts fs" using at_value_scanned [OF assms(1)] by blast
  have "passes (pre @ rest) 0 [] (length pre) fs" using fs by (auto simp: scanned_def goes_over_def)
  then have "scan_loop (pre @ rest) (length pre) 0 [] = scan_loop (pre @ rest) (length pre) (length pre) fs"
    by (simp add: passes_def)
  then have "scan (pre @ rest) (length pre) = rev fs" by (simp add: scan_def scan_loop.simps [of _ "length pre" "length pre"])
  moreover have "path_tokens (tl luck) (pre @ rest) (rev fs) = ts"
    using path_tokens_lucky [of "tl luck" "pre @ rest" "rev fs"] lucky_tl [OF assms(3)] fs by (simp add: scanned_def)
  ultimately show ?thesis
    using False assms(2) lucky_tl [OF assms(3)] by (auto simp: error_tokens_def)
qed

section \<open>Properties\<close>

text \<open>C27: the error pointer names the value where the error is. When the bytes before the offset of an error
  are the beginning of a JSON text up to where some value starts, behind any number of complete members and
  elements, at any depth the parser allows, and no allocation fails, then whatever follows the offset the
  tokens of the pointer are the path to that value: for each container around it, from the outermost in, the
  index of the element or the decoded key of the member.\<close>

theorem error_pointer_path:
  assumes "at_value pre ts" "err_offset e = length pre" "cap \<le> length b" "list_all id luck"
  shows "\<exists>t. read_pointer t = Some ts \<and>
    error_pointer luck (Some (pre @ rest)) (length (pre @ rest)) (Some e) (Some b) cap = (printed b cap t, length t)"
  using error_pointer_prints [OF assms(3), of luck "Some (pre @ rest)" "length (pre @ rest)" "Some e"]
    at_value_tokens [OF assms(1,2,4), of rest] read_pointer_text by metis

lemma decimal_1: "decimal 1 = [0x31]"
  by code_simp

theorem error_pointer_path_witness:
  "at_value (LBRACE # [QUOTE, 0x61, SLASH, QUOTE] @ COLON # ascii ''[1,'') [[0x61, SLASH], [0x31]] \<and>
   (\<exists>t. read_pointer t = Some [[0x61, SLASH], [0x31]] \<and>
     error_pointer [] (Some pointer_input) 10 (Some pointer_error) (Some [0, 0, 0, 0]) 4 = (printed [0, 0, 0, 0] 4 t, length t))"
proof -
  have s: "json_string RFC8259 [0x61, SLASH] [0x61, SLASH]"
    unfolding json_string_iff by code_simp
  have n: "json_text RFC8259 [0x31] (JNum [0x31])"
  proof (rule text_number)
    have "number_syntax [0x31]" by code_simp
    then show "json_number [0x31]" by (simp add: number_syntax_grammar)
  qed
  have w: "json_ws []" by (simp add: json_ws_def)
  have "at_value ([] @ LBRACE # [] @ [] @ QUOTE # [0x61, SLASH] @ QUOTE # [] @ COLON # []) ([] @ [[0x61, SLASH]])"
    by (rule at_member [OF at_root [OF w] _ no_member w s w w]) (simp add: MAXIMUM_DEPTH_def)
  moreover have "length ([] @ [[0x61 :: byte, SLASH]]) < MAXIMUM_DEPTH" by (simp add: MAXIMUM_DEPTH_def)
  moreover have "elements_before (MAXIMUM_DEPTH - Suc (length ([] @ [[0x61 :: byte, SLASH]]))) ([] @ [] @ [0x31] @ [] @ [COMMA]) (Suc 0)"
    by (rule one_element [OF no_element w n _ w]) simp
  ultimately have "at_value (([] @ LBRACE # [] @ [] @ QUOTE # [0x61, SLASH] @ QUOTE # [] @ COLON # []) @
      LBRACKET # ([] @ [] @ [0x31] @ [] @ [COMMA]) @ []) (([] @ [[0x61, SLASH]]) @ [decimal (Suc 0)])"
    by (rule at_element [OF _ _ _ w])
  then have a: "at_value (LBRACE # [QUOTE, 0x61, SLASH, QUOTE] @ COLON # ascii ''[1,'') [[0x61, SLASH], [0x31]]"
    using decimal_1 by (simp add: ascii_def)
  have "err_offset pointer_error = length (LBRACE # [QUOTE, 0x61, SLASH, QUOTE] @ COLON # ascii ''[1,'')" "list_all id []"
    by code_simp+
  moreover have "(4 :: nat) \<le> length [0, 0, 0, 0 :: byte]" by simp
  moreover have "pointer_input = (LBRACE # [QUOTE, 0x61, SLASH, QUOTE] @ COLON # ascii ''[1,'') @ ascii ''x''" "length pointer_input = 10"
    by code_simp+
  ultimately show ?thesis using error_pointer_path [OF a, of pointer_error 4 "[0, 0, 0, 0]" "[]" "ascii ''x''"] a by simp
qed
end
