(* ===== verification/Stdio.thy ===== *)
theory Stdio
  imports Serialize
begin

text \<open>
  \<^verbatim>\<open>src/stdio.c\<close>: parsing a file and writing to a stream, over the standard library's streams.

  A stream open for reading has its contents, the offset its next read starts at, the offset
  where reading fails (\<open>None\<close> for never), and the two indicators that \<open>feof\<close> and \<open>ferror\<close> read.
  \<open>fread\<close> delivers fewer bytes than it was asked for only at the end of the contents or at the
  failure, and sets the indicator then, as the C standard has it. A stream open for writing takes
  \<open>room\<close> bytes, the others fail.
\<close>

unbundle bit_operations_syntax

section \<open>Streams\<close>

record in_stream =
  contents :: bytes
  position :: nat
  fails_at :: "nat option"
  feof :: bool
  ferror :: bool

definition fread :: "nat \<Rightarrow> in_stream \<Rightarrow> bytes \<times> in_stream" where
  "fread n f =
     (let stop = (case fails_at f of None \<Rightarrow> length (contents f) | Some e \<Rightarrow> min e (length (contents f)));
          chunk = take n (take (stop - position f) (drop (position f) (contents f)));
          moved = f\<lparr>position := position f + length chunk\<rparr>
      in (chunk,
          if length chunk = n then moved
          else if (case fails_at f of None \<Rightarrow> True | Some e \<Rightarrow> length (contents f) < e)
          then moved\<lparr>feof := True\<rparr> else moved\<lparr>ferror := True\<rparr>))"

section \<open>Reading\<close>

lemma fread_length: "length (fst (fread n f)) \<le> n"
  by (simp add: fread_def Let_def)

lemma fread_short:
  "length (fst (fread n f)) < n \<Longrightarrow> feof (snd (fread n f)) \<or> ferror (snd (fread n f))"
  by (auto simp: fread_def Let_def)

text \<open>The loop of \<open>read_stream\<close>; the bytes read so far are the buffer's.\<close>

function read_loop :: "nat \<Rightarrow> bytes \<Rightarrow> in_stream \<Rightarrow> bytes \<times> in_stream" where
  "read_loop capacity buffer f =
     (if length buffer < capacity \<and> \<not> feof f \<and> \<not> ferror f then
        let (chunk, f) = fread (capacity - length buffer) f in read_loop capacity (buffer @ chunk) f
      else (buffer, f))"
  by pat_completeness auto
termination
proof (relation "measure (\<lambda>(capacity, buffer, f).
    (capacity - length buffer) + (if feof f \<or> ferror f then 0 else 1))", goal_cases)
  case (2 capacity buffer f p chunk f')
  let ?n = "capacity - length buffer"
  have "(chunk, f') = fread ?n f" using 2(2,3) by simp
  then have c: "chunk = fst (fread ?n f)" "f' = snd (fread ?n f)" by (metis fst_conv, metis snd_conv)
  show ?case
  proof (cases "length chunk < ?n")
    case True
    with c fread_short [of ?n f] 2 show ?thesis by auto
  next
    case False
    with c fread_length [of ?n f] have "length chunk = ?n" by simp
    with 2 show ?thesis by auto
  qed
qed simp

declare read_loop.simps [simp del]

definition read_stream :: "in_stream \<Rightarrow> nat \<Rightarrow> (result, bytes) outcome" where
  "read_stream f capacity =
     (let (buffer, f) = read_loop capacity [] f
      in if ferror f then Fail ERR_IO else Ret buffer)"

text \<open>
  \<open>maelys_json_document_parse_file\<close>. The file system is what \<open>fopen\<close> returns for the path (\<open>None\<close>
  when it fails) and whether \<open>fclose\<close> succeeds; a NULL path is \<open>None\<close>.
\<close>

definition document_parse_file ::
  "(bytes \<Rightarrow> in_stream option) \<Rightarrow> bool \<Rightarrow> bytes option \<Rightarrow> profile \<Rightarrow> limits option \<Rightarrow> bool \<Rightarrow>
   json_error option \<Rightarrow> heap \<Rightarrow> (result, document) outcome \<times> json_error option \<times> heap" where
  "document_parse_file fopen fclose_ok path prof requested out_given out_error h =
     (let err = map_option (\<lambda>_. no_error) out_error;
          report = (\<lambda>code h. (Fail code, error_set err code None 0 0, h))
      in case (path, limits_resolve requested) of
           (Some p, Ret l) \<Rightarrow>
             if \<not> out_given \<or> \<not> profile_valid prof then report ERR_ARGUMENT h
             else
               (case fopen p of
                  None \<Rightarrow> report ERR_IO h
                | Some stream \<Rightarrow>
                    let capacity = maximum_bytes l + 1
                    in case malloc capacity h of
                         (False, h) \<Rightarrow> report ERR_MEMORY h
                       | (True, h) \<Rightarrow>
                           (let r = read_stream stream capacity;
                                r = (case r of Ret buffer \<Rightarrow> if \<not> fclose_ok then Fail ERR_IO else Ret buffer
                                     | _ \<Rightarrow> r);
                                r = (case r of Ret buffer \<Rightarrow>
                                       if length buffer \<ge> capacity then Fail ERR_LIMIT else Ret buffer
                                     | _ \<Rightarrow> r)
                            in case r of
                                 Ret buffer \<Rightarrow>
                                   (case document_parse (Some buffer) (length buffer) prof (Some l) True err h of
                                      (r, err, h) \<Rightarrow> (r, err, mfree capacity h))
                               | Fail code \<Rightarrow> report code (mfree capacity h)
                               | Stuck \<Rightarrow> (Stuck, err, h)))
         | _ \<Rightarrow> report ERR_ARGUMENT h)"

section \<open>Writing\<close>

record out_stream =
  written :: bytes
  room :: nat
  flush_ok :: bool

definition fwrite :: "bytes \<Rightarrow> out_stream \<Rightarrow> nat \<times> out_stream" where
  "fwrite bs f =
     (let n = min (length bs) (room f)
      in (n, f\<lparr>written := written f @ take n bs, room := room f - n\<rparr>))"

text \<open>\<open>maelys_json_writer_finish_file\<close>: the outcome, the writer, and the stream.\<close>

definition writer_finish_file ::
  "out_stream option \<Rightarrow> writer \<Rightarrow> (result, unit) outcome \<times> writer \<times> out_stream option" where
  "writer_finish_file stream w =
     (case stream of
        None \<Rightarrow> (Fail ERR_ARGUMENT, w, None)
      | Some f \<Rightarrow>
          (case writer_finish True w of
             (Ret (bs, area), w) \<Rightarrow>
               (let (n, f) = fwrite bs f;
                    w = w\<lparr>w_heap := mfree area (w_heap w)\<rparr>
                in (if n \<noteq> length bs \<or> \<not> flush_ok f then Fail ERR_IO else Ret (), w, Some f))
           | (Fail code, w) \<Rightarrow> (Fail code, w, Some f)
           | (Stuck, w) \<Rightarrow> (Stuck, w, Some f)))"

end
