(* ===== verification/Stdio_Props.thy ===== *)
theory Stdio_Props
  imports Stdio Writer_Props
begin

text \<open>
  The properties of \<^verbatim>\<open>src/stdio.c\<close>: what parsing a file makes of the bytes the stream delivers, and
  what finishing to a stream writes.
\<close>

section \<open>Reading a stream\<close>

text \<open>A stream just opened: its contents and where reading it fails, if ever.\<close>

definition opened :: "bytes \<Rightarrow> nat option \<Rightarrow> in_stream" where
  "opened c e = \<lparr>contents = c, position = 0, fails_at = e, feof = False, ferror = False\<rparr>"

text \<open>Whether the first \<open>capacity\<close> bytes, or all there are, can be read.\<close>

definition readable :: "bytes \<Rightarrow> nat option \<Rightarrow> nat \<Rightarrow> bool" where
  "readable c e capacity \<longleftrightarrow> (\<forall>x. e = Some x \<and> x \<le> length c \<longrightarrow> capacity \<le> x)"

lemma read_loop_opened:
  assumes "0 < capacity"
  shows "ferror (snd (read_loop capacity [] (opened c e))) \<longleftrightarrow> \<not> readable c e capacity"
    "readable c e capacity \<Longrightarrow> fst (read_loop capacity [] (opened c e)) = take capacity c"
proof -
  obtain chunk f where r: "fread capacity (opened c e) = (chunk, f)" by fastforce
  have "length chunk = capacity \<or> feof f \<or> ferror f"
    using fread_short [of capacity "opened c e"] fread_length [of capacity "opened c e"] r by (cases "length chunk < capacity") auto
  then have "read_loop capacity [] (opened c e) = (chunk, f)"
    using assms r by (subst read_loop.simps) (auto simp: opened_def read_loop.simps [of _ chunk])
  moreover have "ferror f \<longleftrightarrow> \<not> readable c e capacity" "readable c e capacity \<Longrightarrow> chunk = take capacity c"
    using r assms by (auto simp: fread_def opened_def readable_def Let_def min_def split: option.splits if_splits)
  ultimately show "ferror (snd (read_loop capacity [] (opened c e))) \<longleftrightarrow> \<not> readable c e capacity"
    "readable c e capacity \<Longrightarrow> fst (read_loop capacity [] (opened c e)) = take capacity c" by simp_all
qed

lemma read_stream_opened:
  "0 < capacity \<Longrightarrow> read_stream (opened c e) capacity = (if readable c e capacity then Ret (take capacity c) else Fail ERR_IO)"
  using read_loop_opened [of capacity c e] by (cases "read_loop capacity [] (opened c e)") (auto simp: read_stream_def)

text \<open>What finishing to a stream does to a writer that represents what was written.\<close>

lemma finish_file_result:
  assumes "represents_written w s"
  obtains (finished) v w' where "s = (Complete v, None)" "length (output_text w v) \<le> maximum_bytes (w_limits w)"
      "writer_finish_file (Some f) w =
        (if length (output_text w v) \<le> room f \<and> flush_ok f then Ret () else Fail ERR_IO, w',
         Some (f\<lparr>written := written f @ take (room f) (output_text w v), room := room f - length (output_text w v)\<rparr>))"
      "outside w' = outside w" "w_finished w'" "\<exists>area. fst (writer_finish True w) = Ret (output_text w v, area)"
  | (failed) code w' where "writer_finish_file (Some f) w = (Fail code, w', Some f)" "fst (writer_finish True w) = Fail code"
      "finish_fails w (fst s) code" "outside w' = outside w" "w_failure w' = code"
  using assms
proof (cases rule: finish_result)
  case (finished v bs area w')
  have t: "take (min (length bs) (room f)) bs = take (room f) bs" by (cases "length bs \<le> room f") simp_all
  have r: "room f - min (length bs) (room f) = room f - length bs" by simp
  have o: "outside (w'\<lparr>w_heap := mfree area (w_heap w')\<rparr>) = outside w"
    using finished(7-9) by (simp add: outside_def writer_footprint_def)
  show thesis
    by (rule that(1) [of v "w'\<lparr>w_heap := mfree area (w_heap w')\<rparr>"])
      (use finished t r o in \<open>auto simp: writer_finish_file_def fwrite_def Let_def\<close>)
next
  case (failed code w')
  then show thesis by (intro that(2) [of code w']) (simp_all add: writer_finish_file_def same_writer_def)
qed

section \<open>Properties\<close>

text \<open>C25: what parsing a file does once the file is open and the buffer allocated, on every branch. A
  read that fails within the first \<open>maximum_bytes + 1\<close> bytes, or a close that fails, is IO; a file
  longer than \<open>maximum_bytes\<close> is LIMIT; any other file gives exactly what \<open>document_parse\<close> gives on
  its contents. The buffer is freed in each case and the error never carries a position for a
  failure of the file itself.\<close>

theorem document_parse_file_exact:
  assumes "fopen path = Some (opened c e)" "limits_resolve requested = Ret l" "profile_valid prof"
    "malloc (maximum_bytes l + 1) h = (True, h1)"
  shows "document_parse_file fopen fclose_ok (Some path) prof requested True err h =
    (let err = map_option (\<lambda>_. no_error) err; room = maximum_bytes l + 1 in
     if \<not> readable c e room \<or> \<not> fclose_ok then (Fail ERR_IO, error_set err ERR_IO None 0 0, mfree room h1)
     else if maximum_bytes l < length c then (Fail ERR_LIMIT, error_set err ERR_LIMIT None 0 0, mfree room h1)
     else (case document_parse (Some c) (length c) prof (Some l) True err h1 of (r, err', h2) \<Rightarrow> (r, err', mfree room h2)))"
  using assms by (simp add: document_parse_file_def read_stream_opened Let_def)

definition disk :: "bytes \<Rightarrow> in_stream option" where
  "disk path = (if path = ascii ''a.json'' then Some (opened (ascii ''[1]'') None) else None)"

theorem document_parse_file_exact_witness:
  "\<exists>d err h. document_parse_file disk True (Some (ascii ''a.json'')) RFC8259 None True None plenty = (Ret d, err, h)"
proof -
  have l: "limits_resolve None = Ret \<lparr>maximum_bytes = 65535, maximum_depth = 32, maximum_tokens = 8192\<rparr>" by code_simp
  let ?l = "\<lparr>maximum_bytes = 65535, maximum_depth = 32, maximum_tokens = 8192\<rparr>" and ?h = "snd (malloc 65536 plenty)"
  have f: "disk (ascii ''a.json'') = Some (opened (ascii ''[1]'') None)" by (simp add: disk_def)
  have m: "malloc (maximum_bytes ?l + 1) plenty = (True, ?h)" by (simp add: plenty_def malloc_def)
  have p: "profile_valid RFC8259" by code_simp
  have s: "\<not> 65535 < length (ascii ''[1]'')" by code_simp
  have "returned (document_parse (Some (ascii ''[1]'')) (length (ascii ''[1]'')) RFC8259 (Some ?l) True None (snd (malloc 65536 plenty)))"
    by code_simp
  then obtain d e h where d: "document_parse (Some (ascii ''[1]'')) (length (ascii ''[1]'')) RFC8259 (Some ?l) True None ?h = (Ret d, e, h)"
    using returned_Ret by blast
  from document_parse_file_exact [where fopen = disk, OF f l p m, of True None] s d show ?thesis
    by (simp add: readable_def)
qed

text \<open>C26: finishing to a stream. When \<open>finish\<close> succeeds its bytes, and nothing else, are written, as many as
  the stream takes; the call is OK exactly when it took them all and flushed, and IO otherwise; the writer is
  finished and the output freed. When \<open>finish\<close> fails nothing is written and its failure is returned. A NULL
  stream is ARGUMENT.\<close>

theorem writer_finish_file_exact:
  assumes "represents_written w s"
  shows "writer_finish_file None w = (Fail ERR_ARGUMENT, w, None) \<and>
    (case writer_finish_file (Some f) w of
       (r, w', f') \<Rightarrow>
         outside w' = outside w \<and> r \<noteq> Stuck \<and>
         (case fst (writer_finish True w) of
            Ret (bs, area) \<Rightarrow>
              r = (if length bs \<le> room f \<and> flush_ok f then Ret () else Fail ERR_IO) \<and>
              f' = Some (f\<lparr>written := written f @ take (room f) bs, room := room f - length bs\<rparr>) \<and> w_finished w'
          | Fail code \<Rightarrow> r = Fail code \<and> f' = Some f \<and> w_failure w' = code
          | Stuck \<Rightarrow> False))"
  using assms
proof (cases rule: finish_file_result [where f = f])
  case (finished v w')
  then show ?thesis by (auto simp: writer_finish_file_def [of None])
next
  case (failed code w')
  then show ?thesis by (simp add: writer_finish_file_def [of None])
qed

theorem writer_finish_file_exact_witness:
  "\<exists>w f. fst (writer_finish_file (Some \<lparr>written = [], room = 3, flush_ok = True\<rparr>) w) = Fail ERR_IO \<and>
     snd (snd (writer_finish_file (Some \<lparr>written = [], room = 3, flush_ok = True\<rparr>) w)) = Some f \<and> written f = take 3 sample_output"
proof -
  obtain w h w' area w'' where c: "writer_create RFC8259 None 0 True plenty = (Ret w, h)"
    "run_calls sample_calls w = (Ret (), w')" "writer_finish True w' = (Ret (sample_output, area), w'')"
    by (rule sample_writers)
  obtain s where s: "represents_written w' s" using created_runs [OF c(1) sample_building c(2)] by metis
  have "\<not> length sample_output \<le> 3" by code_simp
  with writer_finish_file_exact [OF s, of "\<lparr>written = [], room = 3, flush_ok = True\<rparr>"] c(3)
  show ?thesis by (intro exI [of _ w']) (auto split: prod.splits)
qed

end
