(* ===== verification/Canon.thy ===== *)
theory Canon
  imports Stdio Pointer Canonical
begin

text \<open>
  \<^verbatim>\<open>tools/canon.c\<close>, the command \<^verbatim>\<open>maelys-json-canon\<close>: it reads a document from the standard input and
  checks it for the canonical form, or writes it to the standard output again.

  The state of the process is its three streams, the heap, the fates of the allocations inside
  \<open>error_pointer\<close>, and what the array \<^verbatim>\<open>pointer\<close> of the error branch holds before it is written to. What is
  printed to the standard error is kept as bytes: the code ignores the results of printing there.
\<close>

unbundle bit_operations_syntax

section \<open>The standard input\<close>

definition INPUT_LIMIT :: nat where "INPUT_LIMIT = 16777216"

text \<open>
  The loop of \<open>read_stdin\<close>, with the bytes read so far. The value is the buffer, NULL when it could
  not grow, and its capacity; a loop that does not end has no value.
\<close>

partial_function (option) read_stdin_loop ::
  "nat \<Rightarrow> bytes \<Rightarrow> in_stream \<Rightarrow> heap \<Rightarrow> (bytes option \<times> nat \<times> in_stream \<times> heap) option" where
  "read_stdin_loop capacity buffer f h =
     (case fread (capacity - length buffer) f of
        (chunk, f) \<Rightarrow>
          if length (buffer @ chunk) < capacity \<or> capacity \<ge> INPUT_LIMIT
          then Some (Some (buffer @ chunk), capacity, f, h)
          else
            (case realloc capacity (capacity * 2) h of
               (grown, h) \<Rightarrow>
                 if \<not> grown then Some (None, 0, f, mfree capacity h)
                 else read_stdin_loop (capacity * 2) (buffer @ chunk) f h))"

declare read_stdin_loop.simps [code]

definition read_stdin :: "in_stream \<Rightarrow> heap \<Rightarrow> (bytes option \<times> nat \<times> in_stream \<times> heap) option" where
  "read_stdin f h =
     (case malloc 65536 h of
        (True, h) \<Rightarrow> read_stdin_loop 65536 [] f h
      | (False, h) \<Rightarrow> Some (None, 0, f, h))"

section \<open>The process\<close>

record process =
  p_in :: in_stream
  p_out :: out_stream
  p_err :: bytes
  p_luck :: "bool list"
  p_pointer :: bytes
  p_heap :: heap

type_synonym 'a run = "(result, 'a) outcome \<times> process"

definition complain :: "bytes \<Rightarrow> process \<Rightarrow> process" where
  "complain message p = p\<lparr>p_err := p_err p @ message\<rparr>"

text \<open>\<open>print_escaped\<close>: a writer that failed has given no bytes, and \<open>free(NULL)\<close> does nothing.\<close>

definition print_escaped :: "bytes \<Rightarrow> process \<Rightarrow> unit run" where
  "print_escaped message p =
     (case writer_create RFC8259 None FLAG_ASCII True (p_heap p) of
        (Stuck, h) \<Rightarrow> (Stuck, p)
      | (Fail code, h) \<Rightarrow> (Ret (), complain (ascii ''(pointer not printable)'') (p\<lparr>p_heap := h\<rparr>))
      | (Ret w, h) \<Rightarrow>
          (case andthen (writer_string_cstr (Some message) w) (\<lambda>_. writer_finish True) of
             (Ret (bs, area), w) \<Rightarrow>
               (Ret (), complain bs (p\<lparr>p_heap := release_writer (w\<lparr>w_heap := mfree area (w_heap w)\<rparr>)\<rparr>))
           | (Fail code, w) \<Rightarrow>
               (Ret (), complain (ascii ''(pointer not printable)'') (p\<lparr>p_heap := release_writer w\<rparr>))
           | (Stuck, w) \<Rightarrow> (Stuck, p)))"

text \<open>The arguments after the name of the command; \<open>None\<close> is the usage message.\<close>

fun parse_arguments :: "bytes list \<Rightarrow> profile \<Rightarrow> u32 \<Rightarrow> bool \<Rightarrow> (profile \<times> u32 \<times> bool) option" where
  "parse_arguments [] prof flags check = Some (prof, flags, check)"
| "parse_arguments (a # as) prof flags check =
     (if c_string a = ascii ''--contract'' then parse_arguments as CONTRACT_ASCII flags check
      else if c_string a = ascii ''--indent'' then parse_arguments as prof (flags OR FLAG_INDENT) check
      else if c_string a = ascii ''--ascii'' then parse_arguments as prof (flags OR FLAG_ASCII) check
      else if c_string a = ascii ''--newline'' then parse_arguments as prof (flags OR FLAG_FINAL_NEWLINE) check
      else if c_string a = ascii ''--check'' then parse_arguments as prof flags True
      else None)"

definition usage :: bytes where
  "usage = ascii ''usage: maelys-json-canon [--contract] [--indent] [--ascii] [--newline] [--check]'' @ [LF]"

definition canon_limits :: limits where
  "canon_limits =
     \<lparr>maximum_bytes = INPUT_LIMIT, maximum_depth = MAXIMUM_DEPTH, maximum_tokens = INPUT_LIMIT\<rparr>"

section \<open>The three branches of the command\<close>

text \<open>The error branch. Printing \<^verbatim>\<open>pointer\<close> needs a NUL in it.\<close>

definition report_error :: "bytes \<Rightarrow> json_error \<Rightarrow> process \<Rightarrow> nat run" where
  "report_error input e p =
     (let message = c_string (fst (error_format (Some e) True 128));
          pointer = fst (error_pointer (p_luck p) (Some input) (length input) (Some e) (Some (p_pointer p)) 256)
      in if 0 \<notin> set pointer then (Stuck, p)
         else andthen (print_escaped (c_string pointer) (complain (message @ ascii '' at '') p))
           (\<lambda>_ p. (Ret 2, complain [LF] p)))"

definition check_document :: "document \<Rightarrow> u32 \<Rightarrow> process \<Rightarrow> nat run" where
  "check_document d flags p =
     (case document_is_canonical (Some d) (flags AND FLAG_FINAL_NEWLINE) True of
        Ret canonical \<Rightarrow> (Ret (if canonical then 0 else 1), p)
      | Fail code \<Rightarrow> (Ret 2, p)
      | Stuck \<Rightarrow> (Stuck, p))"

definition rewrite_status :: "result \<Rightarrow> nat" where
  "rewrite_status code = (if code = ERR_NOT_INTEGER \<or> code = ERR_RANGE then 3 else 2)"

definition rewrite_failed :: "result \<Rightarrow> process \<Rightarrow> nat run" where
  "rewrite_failed code p = (Ret (rewrite_status code), complain (result_string code @ [LF]) p)"

definition rewrite_document :: "document \<Rightarrow> profile \<Rightarrow> u32 \<Rightarrow> process \<Rightarrow> nat run" where
  "rewrite_document d prof flags p =
     (case writer_create prof (Some canon_limits) flags True (p_heap p) of
        (Stuck, h) \<Rightarrow> (Stuck, p)
      | (Fail code, h) \<Rightarrow> rewrite_failed code (p\<lparr>p_heap := h\<rparr>)
      | (Ret w, h) \<Rightarrow>
          (case writer_value (Some d) 0 w of
             (Stuck, w) \<Rightarrow> (Stuck, p)
           | (Fail code, w) \<Rightarrow> rewrite_failed code (p\<lparr>p_heap := release_writer w\<rparr>)
           | (Ret _, w) \<Rightarrow>
               (case writer_finish_file (Some (p_out p)) w of
                  (Ret _, w, Some f) \<Rightarrow> (Ret 0, p\<lparr>p_out := f, p_heap := release_writer w\<rparr>)
                | (Fail code, w, Some f) \<Rightarrow> rewrite_failed code (p\<lparr>p_out := f, p_heap := release_writer w\<rparr>)
                | (_, w, _) \<Rightarrow> (Stuck, p))))"

section \<open>The command\<close>

definition free_input :: "nat \<Rightarrow> process \<Rightarrow> process" where
  "free_input capacity p = p\<lparr>p_heap := mfree capacity (p_heap p)\<rparr>"

definition run_on :: "bytes \<Rightarrow> profile \<Rightarrow> u32 \<Rightarrow> bool \<Rightarrow> process \<Rightarrow> nat run" where
  "run_on input prof flags check p =
     (case document_parse (Some input) (length input) prof (Some canon_limits) True (Some no_error) (p_heap p) of
        (Ret d, _, h) \<Rightarrow>
          andthen (if check then check_document d flags (p\<lparr>p_heap := h\<rparr>)
                   else rewrite_document d prof flags (p\<lparr>p_heap := h\<rparr>))
            (\<lambda>status p. (Ret status, p\<lparr>p_heap := document_release d (p_heap p)\<rparr>))
      | (Fail code, Some e, h) \<Rightarrow> report_error input e (p\<lparr>p_heap := h\<rparr>)
      | (_, _, h) \<Rightarrow> (Stuck, p))"

text \<open>\<^verbatim>\<open>main\<close>: the exit status and the process.\<close>

definition main_canon :: "bytes list \<Rightarrow> process \<Rightarrow> nat run" where
  "main_canon arguments p =
     (case parse_arguments arguments RFC8259 0 False of
        None \<Rightarrow> (Ret 4, complain usage p)
      | Some (prof, flags, check) \<Rightarrow>
          (case read_stdin (p_in p) (p_heap p) of
             None \<Rightarrow> (Stuck, p)
           | Some (None, capacity, f, h) \<Rightarrow>
               (Ret 2, complain (ascii ''out of memory'' @ [LF]) (p\<lparr>p_in := f, p_heap := h\<rparr>))
           | Some (Some input, capacity, f, h) \<Rightarrow>
               andthen (run_on input prof flags check (p\<lparr>p_in := f, p_heap := h\<rparr>))
                 (\<lambda>status p. (Ret status, free_input capacity p))))"

end
