(* ===== verification/Canon_Props.thy ===== *)
theory Canon_Props
  imports Canon Stdio_Props Canonical_Props Pointer_Props
begin

text \<open>
  The properties of the command \<^verbatim>\<open>maelys-json-canon\<close> (\<^verbatim>\<open>tools/canon.c\<close>): its exit status and its output in
  terms of the bytes on its standard input, over the lemmas of the parser, the canonical check, the
  writer and the error pointer.
\<close>

unbundle bit_operations_syntax

section \<open>The standard input\<close>

text \<open>What a stream delivers before its end or its failure, and how much of it the command reads.\<close>

definition delivered :: "bytes \<Rightarrow> nat option \<Rightarrow> bytes" where
  "delivered c e = (case e of None \<Rightarrow> c | Some x \<Rightarrow> take x c)"

definition read_input :: "bytes \<Rightarrow> nat option \<Rightarrow> bytes" where
  "read_input c e = take INPUT_LIMIT (delivered c e)"

definition stream_at :: "bytes \<Rightarrow> nat option \<Rightarrow> nat \<Rightarrow> in_stream \<Rightarrow> bool" where
  "stream_at c e k f \<longleftrightarrow> contents f = c \<and> fails_at f = e \<and> position f = k"

lemma delivered_take: "take (case e of None \<Rightarrow> length c | Some x \<Rightarrow> min x (length c)) c = delivered c e"
  by (cases e) (simp_all add: delivered_def min_def)

lemma fread_at:
  assumes "stream_at c e k f" "k \<le> length (delivered c e)" "k \<le> n"
  obtains f' where "fread (n - k) f = (drop k (take n (delivered c e)), f')"
    "stream_at c e (length (take n (delivered c e))) f'"
proof -
  let ?d = "delivered c e"
  let ?stop = "case e of None \<Rightarrow> length c | Some x \<Rightarrow> min x (length c)"
  have f: "contents f = c" "fails_at f = e" "position f = k" using assms(1) by (simp_all add: stream_at_def)
  have "take (n - k) (take (?stop - k) (drop k c)) = drop k (take n (take ?stop c))"
    by (simp only: drop_take)
  then have chunk: "take (n - k) (take (?stop - k) (drop k c)) = drop k (take n ?d)"
    by (simp only: delivered_take)
  have len: "k + length (drop k (take n ?d)) = length (take n ?d)" using assms(2,3) by simp
  let ?g = "f\<lparr>position := length (take n ?d)\<rparr>"
  have "\<exists>P Q. fread (n - k) f = (drop k (take n ?d), if P then ?g else if Q then ?g\<lparr>feof := True\<rparr> else ?g\<lparr>ferror := True\<rparr>)"
    unfolding fread_def f Let_def chunk len by (intro exI) (rule refl)
  then obtain P Q where r: "fread (n - k) f = (drop k (take n ?d), if P then ?g else if Q then ?g\<lparr>feof := True\<rparr> else ?g\<lparr>ferror := True\<rparr>)"
    by blast
  show thesis by (rule that [OF r]) (use f in \<open>auto simp: stream_at_def\<close>)
qed

lemma power_gt_one: "(1 :: nat) < 2 * 2 ^ n"
  using one_less_power [of "2 :: nat" "Suc n"] by simp

text \<open>One turn of the loop.\<close>

lemma read_stdin_turn:
  assumes "stream_at c e k f" "k \<le> length (delivered c e)" "k \<le> capacity"
  obtains f' where "read_stdin_loop capacity (take k (delivered c e)) f h =
      (if length (take capacity (delivered c e)) < capacity \<or> capacity \<ge> INPUT_LIMIT
       then Some (Some (take capacity (delivered c e)), capacity, f', h)
       else case realloc capacity (capacity * 2) h of
         (grown, h) \<Rightarrow>
           if \<not> grown then Some (None, 0, f', mfree capacity h)
           else read_stdin_loop (capacity * 2) (take capacity (delivered c e)) f' h)"
    "stream_at c e (length (take capacity (delivered c e))) f'"
proof -
  let ?d = "delivered c e"
  obtain f' where f': "fread (capacity - k) f = (drop k (take capacity ?d), f')" "stream_at c e (length (take capacity ?d)) f'"
    by (rule fread_at [OF assms])
  have b: "take k ?d @ drop k (take capacity ?d) = take capacity ?d"
    using append_take_drop_id [of k "take capacity ?d"] assms(3) by (simp add: min_def)
  have len: "length (take k ?d) = k" using assms(2) by simp
  show thesis
    by (rule that [OF _ f'(2)]) (subst read_stdin_loop.simps, simp only: len f'(1) prod.case b)
qed

text \<open>What reading the standard input ends with: the buffer and its capacity, or NULL when it could not grow.\<close>

definition reading_ends :: "bytes \<Rightarrow> nat \<Rightarrow> heap \<Rightarrow> (bytes option \<times> nat \<times> in_stream \<times> heap) option \<Rightarrow> bool" where
  "reading_ends input owned h r \<longleftrightarrow>
     (case r of
        None \<Rightarrow> False
      | Some (None, _, _, h') \<Rightarrow> live h' + owned = live h \<and> fates h \<noteq> []
      | Some (Some bs, capacity, _, h') \<Rightarrow>
          bs = input \<and> live h' + owned = live h + capacity \<and> (fates h = [] \<longrightarrow> fates h' = []))"

lemma reading_ends_later:
  assumes "reading_ends input owned' h' r" "live h' + owned = live h + owned'" "fates h = [] \<Longrightarrow> fates h' = []"
  shows "reading_ends input owned h r"
proof (cases r)
  case (Some x)
  obtain b capacity f h2 where "x = (b, capacity, f, h2)" by (metis prod_cases4)
  then show ?thesis using assms Some by (cases b) (auto simp: reading_ends_def)
qed (use assms(1) in \<open>simp add: reading_ends_def\<close>)

lemma read_stdin_loop_reads:
  assumes "capacity * 2 ^ n = INPUT_LIMIT" "stream_at c e k f" "k \<le> length (delivered c e)" "k \<le> capacity" "capacity \<le> live h"
  shows "reading_ends (read_input c e) capacity h (read_stdin_loop capacity (take k (delivered c e)) f h)"
  using assms
proof (induction n arbitrary: capacity k f h)
  case 0
  let ?d = "delivered c e"
  obtain f' where "read_stdin_loop capacity (take k ?d) f h =
      (if length (take capacity ?d) < capacity \<or> capacity \<ge> INPUT_LIMIT then Some (Some (take capacity ?d), capacity, f', h)
       else case realloc capacity (capacity * 2) h of
         (grown, h) \<Rightarrow> if \<not> grown then Some (None, 0, f', mfree capacity h) else read_stdin_loop (capacity * 2) (take capacity ?d) f' h)"
    by (rule read_stdin_turn [OF 0(2-4)])
  then show ?case using 0(1) by (simp add: reading_ends_def read_input_def)
next
  case (Suc n)
  let ?d = "delivered c e"
  obtain f' where f': "read_stdin_loop capacity (take k ?d) f h =
      (if length (take capacity ?d) < capacity \<or> capacity \<ge> INPUT_LIMIT then Some (Some (take capacity ?d), capacity, f', h)
       else case realloc capacity (capacity * 2) h of
         (grown, h) \<Rightarrow> if \<not> grown then Some (None, 0, f', mfree capacity h) else read_stdin_loop (capacity * 2) (take capacity ?d) f' h)"
    "stream_at c e (length (take capacity ?d)) f'"
    by (rule read_stdin_turn [OF Suc.prems(2-4)])
  have "capacity \<noteq> 0"
  proof
    assume "capacity = 0"
    then show False using Suc.prems(1) by (simp add: INPUT_LIMIT_def)
  qed
  then have lim: "capacity < INPUT_LIMIT" using power_gt_one [of n] by (simp add: Suc.prems(1) [symmetric])
  obtain grown h' where r: "realloc capacity (capacity * 2) h = (grown, h')" by fastforce
  note f = realloc_facts [OF r]
  have facts: "live h' + (if grown then capacity else 0) = live h + (if grown then capacity * 2 else 0)"
    "fates h = [] \<Longrightarrow> grown \<and> fates h' = []" "grown \<Longrightarrow> capacity * 2 \<le> live h'"
    using f Suc.prems(5) by auto
  show ?case
  proof (cases "length (take capacity ?d) < capacity")
    case True
    then have "take capacity ?d = read_input c e" using lim by (simp add: read_input_def)
    then show ?thesis using True unfolding f'(1) by (simp add: reading_ends_def)
  next
    case False
    then have full: "length (take capacity ?d) = capacity" "capacity \<le> length ?d" by simp_all
    have step: "read_stdin_loop capacity (take k ?d) f h =
        (if \<not> grown then Some (None, 0, f', mfree capacity h') else read_stdin_loop (capacity * 2) (take capacity ?d) f' h')"
      using False lim unfolding f'(1) r by simp
    show ?thesis
    proof (cases grown)
      case True
      have "reading_ends (read_input c e) (capacity * 2) h' (read_stdin_loop (capacity * 2) (take capacity ?d) f' h')"
        by (rule Suc.IH) (use Suc.prems(1) f'(2) full facts(3) True in \<open>simp_all add: ac_simps\<close>)
      from reading_ends_later [OF this, of capacity h] show ?thesis using facts(1,2) True unfolding step by simp
    next
      case False
      then show ?thesis using facts(1,2) Suc.prems(5) unfolding step by (auto simp: reading_ends_def)
    qed
  qed
qed

lemma read_stdin_reads: "reading_ends (read_input c e) 0 h (read_stdin (opened c e) h)"
proof -
  obtain b h' where m: "malloc 65536 h = (b, h')" by fastforce
  note f = malloc_facts [OF m]
  show ?thesis
  proof (cases b)
    case True
    have "reading_ends (read_input c e) 65536 h' (read_stdin_loop 65536 (take 0 (delivered c e)) (opened c e) h')"
      by (rule read_stdin_loop_reads [where n = 8]) (use f True in \<open>simp_all add: INPUT_LIMIT_def stream_at_def opened_def\<close>)
    from reading_ends_later [OF this, of 0 h] show ?thesis using m f True by (simp add: read_stdin_def)
  next
    case False
    then show ?thesis using m f by (auto simp: read_stdin_def reading_ends_def)
  qed
qed

lemma read_input_bound: "length (read_input c e) \<le> INPUT_LIMIT"
  by (simp add: read_input_def)

section \<open>Parsing\<close>

text \<open>The values the command accepts.\<close>

definition accepted :: "profile \<Rightarrow> bytes \<Rightarrow> json \<Rightarrow> bool" where
  "accepted prof bs v \<longleftrightarrow> json_document prof bs v \<and> within canon_limits prof v"

lemma canon_limits_resolve: "limits_resolve (Some canon_limits) = Ret canon_limits"
  by code_simp

lemma bounded_sum_small: "acc + sum_list ss \<le> SIZE_MAX \<Longrightarrow> bounded_sum ss acc = Ret (acc + sum_list ss)"
  by (induction ss acc rule: bounded_sum.induct) auto

lemma command_storage:
  assumes "s \<le> 16777216" "n \<le> 16777216" "k \<le> 33554440" "c \<in> {1, 2 :: nat}"
  shows "SIZEOF_DOCUMENT + (s + 1) + c * (n * SIZEOF_TOKEN) + c * (s + n + 1) + k * SIZEOF_SIZE_T + n * SIZEOF_SIZE_T \<le> SIZE_MAX"
proof -
  have "c * (n * SIZEOF_TOKEN) \<le> 2 * (16777216 * SIZEOF_TOKEN)" "c * (s + n + 1) \<le> 2 * (16777216 + 16777216 + 1)"
    using assms by (intro mult_le_mono add_le_mono; auto)+
  moreover have "k * SIZEOF_SIZE_T \<le> 33554440 * SIZEOF_SIZE_T" "n * SIZEOF_SIZE_T \<le> 16777216 * SIZEOF_SIZE_T"
    using assms by (intro mult_le_mono; simp)+
  moreover have "SIZEOF_DOCUMENT + (16777216 + 1) + 2 * (16777216 * SIZEOF_TOKEN) + 2 * (16777216 + 16777216 + 1) +
      33554440 * SIZEOF_SIZE_T + 16777216 * SIZEOF_SIZE_T \<le> SIZE_MAX" by code_simp
  ultimately show ?thesis using assms(1) by linarith
qed

lemma canon_allocation_bound:
  assumes "length bs \<le> INPUT_LIMIT" "profile_valid prof"
  shows "\<exists>b. parse_allocation_bound (length bs) prof (Some canon_limits) True = Ret b"
proof -
  let ?n = "document_token_capacity (length bs) canon_limits"
  have n: "?n \<le> 16777216"
    using assms(1) by (auto simp: document_token_capacity_def canon_limits_def INPUT_LIMIT_def Let_def)
  have k: "keyset_capacity (?n div 2 + 1) \<le> 8 \<or> keyset_capacity (?n div 2 + 1) < (?n div 2 + 1) * 4"
    using keyset_capacity_spec [of "?n div 2 + 1"] by auto
  have k': "keyset_capacity (?n div 2 + 1) \<le> 33554440" using k n by auto
  have len: "length bs \<le> 16777216" "length bs \<noteq> SIZE_MAX" using assms(1) by (auto simp: INPUT_LIMIT_def SIZE_MAX_def)
  let ?parts = "[SIZEOF_DOCUMENT, length bs + 1] @ replicate (copies_of prof) (?n * SIZEOF_TOKEN) @
      replicate (copies_of prof) (length bs + ?n + 1) @ [keyset_capacity (?n div 2 + 1) * SIZEOF_SIZE_T, ?n * SIZEOF_SIZE_T]"
  have "sum_list ?parts = storage_bound (length bs) ?n (copies_of prof)"
    by (simp add: storage_bound_def sum_list_replicate)
  moreover have "storage_bound (length bs) ?n (copies_of prof) \<le> SIZE_MAX"
    using command_storage [OF len(1) n k', of "copies_of prof"] by (simp add: storage_bound_def copies_of_def)
  ultimately have "bounded_sum ?parts 0 = Ret (0 + sum_list ?parts)" by (intro bounded_sum_small) simp
  moreover have "parse_allocation_bound (length bs) prof (Some canon_limits) True = bounded_sum ?parts 0"
    using assms len(2) canon_limits_resolve
    by (simp add: parse_allocation_bound_def copies_of_def Let_def canon_limits_def)
  ultimately show ?thesis by (intro exI) (rule trans)
qed

text \<open>Where no allocation fails, none after the parse fails either.\<close>

lemma parse_document_reliable:
  assumes "maximum_tokens l \<le> SIZE_MAX div 256" "\<And>e. err = Some e \<Longrightarrow> err_code e = OK" "prof \<noteq> RFC8259_LAST_WINS"
    "parse_document bs prof l err h = (Ret d, err', h')" "fates h = []"
  shows "fates h' = []"
proof -
  let ?n = "document_token_capacity (length bs) l"
  have n: "?n \<le> SIZE_MAX div 256" by (rule document_token_capacity_bounds(1) [OF assms(1)])
  obtain h0 where h0: "allocate_document bs l h = (Ret (fresh_document bs ?n), h0)" "fates h0 = []"
    using allocate_document_ends [of bs l h] assms(5) by blast
  obtain r p where p: "run_parser (initial_parser (fresh_document bs ?n) prof l err h0) = (r, p)" by fastforce
  note run = run_parser_ends [OF n, where err = err and bs = bs and prof = prof and l = l and h = h0, OF assms(2),
      unfolded p run_ends_def fst_conv snd_conv Let_def]
  show ?thesis
  proof (cases r)
    case (Ret u)
    then have run': "duplicate_count (pdocument p) = 0" "fates (pheap p) = []" using run assms(3) h0(2) by auto
    have "finish_document (pdocument p) (pheap p) = (case build_children (pdocument p) (pheap p) of
        (Ret d', h) \<Rightarrow> (Ret d', d', h) | (Fail e, h) \<Rightarrow> (Fail e, pdocument p, h) | (Stuck, h) \<Rightarrow> (Stuck, pdocument p, h))"
      using run' by (simp add: finish_document_def)
    moreover have "fates (snd (build_children (pdocument p) (pheap p))) = []"
      using run'(2) by (simp add: build_children_def malloc_def split: option.splits)
    ultimately show ?thesis
      using assms(4) h0(1) p Ret
      by (auto simp: parse_document_def Let_def split: prod.splits outcome.splits)
  qed (use assms(4) h0(1) p in \<open>auto simp: parse_document_def Let_def\<close>)
qed

text \<open>What the parse of the command ends with, for the profiles its arguments can name.\<close>

lemma command_parse:
  assumes "prof \<in> {RFC8259, CONTRACT_ASCII}" "length bs \<le> INPUT_LIMIT"
  obtains (parsed) d v h' where "document_parse (Some bs) (length bs) prof (Some canon_limits) True (Some no_error) h = (Ret d, Some no_error, h')"
      "accepted prof bs v" "represents d v" "d_bytes d = bs" "duplicate_count d = 0" "unique_keys v" "live h' = live h + footprint d"
      "fates h = [] \<Longrightarrow> fates h' = []"
  | (refused) code e h' where "document_parse (Some bs) (length bs) prof (Some canon_limits) True (Some no_error) h = (Fail code, Some e, h')"
      "live h' = live h" "\<And>u. fates h = [] \<Longrightarrow> \<not> accepted prof bs u"
proof -
  let ?m = "parse_document bs prof canon_limits (Some no_error) h"
  have prof: "profile_valid prof" "prof \<noteq> RFC8259_LAST_WINS" using assms(1) by auto
  have t: "maximum_tokens canon_limits \<le> SIZE_MAX div 256" "0 < maximum_tokens canon_limits"
    by (simp_all add: canon_limits_def INPUT_LIMIT_def SIZE_MAX_def)
  have err: "\<And>e. Some no_error = Some e \<Longrightarrow> err_code e = OK" by (auto simp: no_error_def)
  obtain b where b: "parse_allocation_bound (length bs) prof (Some canon_limits) True = Ret b"
    using canon_allocation_bound [OF assms(2) prof(1)] by blast
  have m: "document_parse (Some bs) (length bs) prof (Some canon_limits) True (Some no_error) h = ?m"
  proof (cases rule: document_parse_cases [of "Some bs" "length bs" prof "Some canon_limits" True "Some no_error" h])
    case (refused code)
    then show ?thesis using b by simp
  next
    case (parsed l b')
    then show ?thesis using canon_limits_resolve by simp
  qed
  have ends: "parse_ends bs prof canon_limits (Some no_error) h ?m"
    by (rule parse_document_ends [OF t(1) err])
  obtain r err' h' where r: "?m = (r, err', h')" by (metis prod_cases3)
  show thesis
  proof (cases r)
    case (Ret d)
    obtain v where v: "json_document prof bs v" "json_height v \<le> maximum_depth canon_limits"
        "json_cells v \<le> document_token_capacity (length bs) canon_limits" "unique_keys v" "represents d (last_wins v)"
        "duplicate_count d = 0" "err' = Some no_error" "d_bytes d = bs" "live h' = live h + footprint d"
      using ends prof(2) unfolding r Ret parse_ends_def by auto
    have "within canon_limits prof v" by (rule parsed_within [OF v(1,3) t(2) v(2)]) (simp add: v(4))
    moreover have "last_wins v = v" using last_wins_unique [OF v(4)] .
    ultimately show thesis
      using v m r Ret parse_document_reliable [OF t(1) err prof(2) r [unfolded Ret]]
      by (intro parsed [of d h' v]) (simp_all add: accepted_def)
  next
    case (Fail code)
    obtain e where e: "err' = Some e" using ends unfolding r Fail parse_ends_def error_at_def
      by (auto simp: error_set_def Let_def)
    have "\<not> accepted prof bs u" if "fates h = []" for u
    proof
      assume "accepted prof bs u"
      then have "json_document prof bs u" "within canon_limits prof u" by (simp_all add: accepted_def)
      from parse_document_exact [where err = "Some no_error", OF t(1) err this that] show False using r Fail by auto
    qed
    then show thesis using m r Fail e ends by (intro refused [of code e h']) (simp_all add: parse_ends_def)
  next
    case Stuck
    then show thesis using ends r by (simp add: parse_ends_def)
  qed
qed
section \<open>What the branches do to the process\<close>

text \<open>A run ends with a status, and what it leaves allocated besides what \<open>p\<close> had is \<open>extra\<close>.\<close>

definition run_ends_with :: "process \<Rightarrow> nat \<Rightarrow> (nat \<Rightarrow> process \<Rightarrow> bool) \<Rightarrow> nat run \<Rightarrow> bool" where
  "run_ends_with p extra good m \<longleftrightarrow>
     (\<exists>status p'. m = (Ret status, p') \<and> live (p_heap p') = live (p_heap p) + extra \<and> good status p')"

lemma complain_fields [simp]:
  "p_heap (complain m p) = p_heap p" "p_out (complain m p) = p_out p" "p_in (complain m p) = p_in p"
  "p_luck (complain m p) = p_luck p" "p_pointer (complain m p) = p_pointer p"
  by (simp_all add: complain_def)

lemma created_writer_state:
  "fresh_writer prof l flags h w \<Longrightarrow> writer_state w \<and> outside w = live h"
  using represents_created by (auto simp: writer_state_def fresh_writer_def)

lemma release_outside: "live (release_writer w) = outside w"
  by (simp add: release_writer_live outside_def)

lemma outside_after_free: "outside (w\<lparr>w_heap := mfree area (w_heap w)\<rparr>) = outside w - area"
  by (simp add: outside_def writer_footprint_def)

lemma print_escaped_prints:
  "\<exists>p'. print_escaped message p = (Ret (), p') \<and> live (p_heap p') = live (p_heap p) \<and> p_out p' = p_out p"
proof -
  obtain r h where c: "writer_create RFC8259 None FLAG_ASCII True (p_heap p) = (r, h)" by fastforce
  note create = writer_create_ends [of RFC8259 None FLAG_ASCII True "p_heap p", unfolded c prod.case]
  show ?thesis
  proof (cases r)
    case (Ret w)
    then obtain l where "fresh_writer RFC8259 l FLAG_ASCII (p_heap p) w" using create by auto
    note w = created_writer_state [OF this]
    obtain r1 w1 where s: "writer_string_cstr (Some message) w = (r1, w1)" by fastforce
    have s1: "r1 \<noteq> Stuck" "writer_state w1" "outside w1 = outside w"
      using perform_state [of w "Text_cstr (Some message)" r1 w1] w s by (simp_all add: handed_over_def)
    show ?thesis
    proof (cases r1)
      case (Ret u)
      obtain r2 w2 where f: "writer_finish True w1 = (r2, w2)" by fastforce
      obtain r3 where d: "discard (r2, w2) = (r3, w2)" by (cases r2) (auto simp: discard_def)
      have s2: "r3 \<noteq> Stuck" "outside w2 = outside w1 + handed_over (Finish True) w1"
        using perform_state [of w1 "Finish True" r3 w2] s1(2) f d by simp_all
      show ?thesis
        using c s f s1 s2 d w \<open>r = Ret w\<close> Ret
        by (cases r2) (auto simp: print_escaped_def discard_def handed_over_def release_outside outside_after_free)
    qed (use c s s1 w \<open>r = Ret w\<close> in \<open>auto simp: print_escaped_def release_outside\<close>)
  qed (use c create in \<open>auto simp: print_escaped_def\<close>)
qed

lemma report_error_ends:
  assumes "length (p_pointer p) = 256"
  shows "run_ends_with p 0 (\<lambda>status p'. status = 2 \<and> p_out p' = p_out p) (report_error input e p)"
proof -
  let ?message = "c_string (fst (error_format (Some e) True 128))"
  have "0 \<in> set (fst (error_pointer (p_luck p) (Some input) (length input) (Some e) (Some (p_pointer p)) 256))"
    using assms by (simp add: error_pointer_prints printed_def)
  moreover obtain p' where "print_escaped (c_string (fst (error_pointer (p_luck p) (Some input) (length input) (Some e) (Some (p_pointer p)) 256)))
      (complain (?message @ ascii '' at '') p) = (Ret (), p')" "live (p_heap p') = live (p_heap p)" "p_out p' = p_out p"
    using print_escaped_prints by (metis complain_fields(1,2))
  ultimately show ?thesis by (simp add: report_error_def Let_def run_ends_with_def)
qed

lemma newline_flags: "(flags AND FLAG_FINAL_NEWLINE) AND NOT FLAG_FINAL_NEWLINE = 0"
  by (simp add: and.assoc)

lemma check_document_answers:
  assumes "accepted prof bs v" "represents d v" "d_bytes d = bs" "duplicate_count d = 0" "unique_keys v"
  shows "check_document d flags p =
    (Ret (if canonical_json v \<and> bs = value_text plain 0 v @ trailer (flags AND FLAG_FINAL_NEWLINE) then 0 else 1), p)"
proof -
  have t: "maximum_tokens canon_limits \<le> SIZE_MAX div 256" by (simp add: canon_limits_def INPUT_LIMIT_def SIZE_MAX_def)
  have doc: "json_document prof bs v" "within canon_limits prof v" using assms(1) by (simp_all add: accepted_def)
  have lw: "last_wins v = v" using last_wins_unique [OF assms(5)] .
  have "represents d (last_wins v)" "duplicate_count d = 0 \<longrightarrow> unique_keys v" using assms(2,5) lw by simp_all
  from parsed_document_is_canonical [OF doc t this(1) assms(3) this(2) newline_flags]
  show ?thesis using assms(4) lw by (simp add: check_document_def)
qed
section \<open>Writing again\<close>

text \<open>The integer part of every number is within 64 bits.\<close>

fun all_carried :: "json \<Rightarrow> bool" where
  "all_carried (JNum n) \<longleftrightarrow> carried n"
| "all_carried (JArr vs) \<longleftrightarrow> (\<forall>v \<in> set vs. all_carried v)"
| "all_carried (JObj ms) \<longleftrightarrow> (\<forall>(k, v) \<in> set ms. all_carried v)"
| "all_carried _ \<longleftrightarrow> True"

text \<open>The text the command writes for a value.\<close>

definition command_style :: "u32 \<Rightarrow> style" where
  "command_style flags = \<lparr>st_indent = (flags AND FLAG_INDENT \<noteq> 0), st_ascii = (flags AND FLAG_ASCII \<noteq> 0)\<rparr>"

definition command_text :: "u32 \<Rightarrow> json \<Rightarrow> bytes" where
  "command_text flags v = value_text (command_style flags) 0 (key_sorted (copied v)) @ trailer flags"

lemma command_output: "w_flags w = flags \<Longrightarrow> output_text w (copied v) = command_text flags v"
  by (simp add: output_text_def rendered_def writer_style_def command_style_def command_text_def trailer_def)

lemma json_string_portable:
  assumes "prof \<in> {RFC8259, CONTRACT_ASCII}" "json_string prof raw s"
  shows "valid_bytes prof s \<and> length s \<le> length raw"
proof
  show "length s \<le> length raw" using assms(2) decode_string_length [of raw prof s] by (simp add: json_string_iff)
  show "valid_bytes prof s"
  proof (cases "prof = RFC8259")
    case True
    then show ?thesis using json_string_text [OF assms(2)] by (simp add: valid_bytes_iff text_bytes_ok_def utf8_validate_iff)
  next
    case False
    then show ?thesis using assms by (auto simp: valid_bytes_iff json_string_def)
  qed
qed

lemma json_text_portable:
  assumes "prof \<in> {RFC8259, CONTRACT_ASCII}"
  shows "json_text prof t v \<Longrightarrow> length t \<le> n \<Longrightarrow> unique_keys v \<Longrightarrow> all_carried v \<Longrightarrow> portable prof n v"
    and "json_elements prof t vs \<Longrightarrow> length t \<le> n \<Longrightarrow> \<forall>v \<in> set vs. unique_keys v \<Longrightarrow> \<forall>v \<in> set vs. all_carried v \<Longrightarrow>
      \<forall>v \<in> set vs. portable prof n v"
    and "json_members prof t ms \<Longrightarrow> length t \<le> n \<Longrightarrow> \<forall>(k, v) \<in> set ms. unique_keys v \<Longrightarrow> \<forall>(k, v) \<in> set ms. all_carried v \<Longrightarrow>
      \<forall>(k, v) \<in> set ms. valid_bytes prof k \<and> length k \<le> n \<and> portable prof n v"
proof (induction rule: json_text_json_elements_json_members.inducts)
  case (text_string raw s)
  then show ?case using json_string_portable [OF assms text_string(1)] by simp
next
  case (members_one w1 raw k w2 w3 t v w4)
  then show ?case using json_string_portable [OF assms, of raw k] by simp
next
  case (members_more w1 raw k w2 w3 t v w4 bs ms)
  then show ?case using json_string_portable [OF assms, of raw k] by simp
qed auto

lemma accepted_portable:
  assumes "prof \<in> {RFC8259, CONTRACT_ASCII}" "accepted prof bs v" "length bs \<le> n" "unique_keys v" "all_carried v"
  shows "portable prof n v"
proof -
  obtain w1 t w2 where "bs = w1 @ t @ w2" "json_text prof t v" using assms(2) by (auto simp: accepted_def json_document_def)
  then show ?thesis using json_text_portable(1) [OF assms(1)] assms(3-5) by simp
qed

lemma portable_carried: "portable prof n v \<Longrightarrow> all_carried v"
  by (induction v) fastforce+

lemma tree_size_cells: "tree_size v \<le> json_cells v"
proof (induction v)
  case (JArr vs)
  then show ?case by (simp add: sum_list_mono)
next
  case (JObj ms)
  then have "sum_list (map (\<lambda>(k, v). tree_size v) ms) \<le> sum_list (map (\<lambda>(k, v). 1 + json_cells v) ms)"
    by (intro sum_list_mono) fastforce
  then show ?case by simp
qed simp_all

definition value_rewritten :: "u32 \<Rightarrow> json \<Rightarrow> process \<Rightarrow> nat \<Rightarrow> process \<Rightarrow> bool" where
  "value_rewritten flags v p status p' \<longleftrightarrow>
     status \<in> {0, 2, 3} \<and>
     (status = 0 \<longrightarrow> written (p_out p') = written (p_out p) @ command_text flags v \<and> flush_ok (p_out p)) \<and>
     (fates (p_heap p) = [] \<and> all_carried v \<and> length (command_text flags v) \<le> INPUT_LIMIT \<and>
        length (command_text flags v) \<le> room (p_out p) \<and> flush_ok (p_out p) \<longrightarrow> status = 0)"

lemma rewrite_document_ends:
  assumes "prof \<in> {RFC8259, CONTRACT_ASCII}" "flags AND NOT known_flags = 0" "accepted prof bs v" "length bs \<le> INPUT_LIMIT"
    "unique_keys v" "represents d v"
  shows "run_ends_with p 0 (value_rewritten flags v p) (rewrite_document d prof flags p)"
proof -
  note run_defs = rewrite_document_def rewrite_failed_def rewrite_status_def run_ends_with_def value_rewritten_def
  have doc: "json_document prof bs v" "within canon_limits prof v" using assms(3) by (simp_all add: accepted_def)
  have g: "grammatical v" using json_document_grammatical [OF doc(1)] last_wins_unique [OF assms(5)] by simp
  have hold: "holds_value d 0 v" using denotes_root [OF assms(6)] g by (simp add: holds_value_def)
  obtain r h where c: "writer_create prof (Some canon_limits) flags True (p_heap p) = (r, h)" by fastforce
  have args: "writer_arguments prof (Some canon_limits) flags True canon_limits"
    using assms(1,2) canon_limits_resolve by (simp add: writer_arguments_def)
  note create = writer_create_ends [of prof "Some canon_limits" flags True "p_heap p", unfolded c prod.case]
  show ?thesis
  proof (cases r)
    case Stuck
    then show ?thesis using create by simp
  next
    case (Fail code)
    then have "live h = live (p_heap p)" "code = ERR_MEMORY" "fates (p_heap p) \<noteq> []" using create args by (auto split: if_splits)
    then show ?thesis using c Fail by (simp add: run_defs)
  next
    case (Ret w)
    then obtain l where f: "fresh_writer prof l flags (p_heap p) w" "writer_arguments prof (Some canon_limits) flags True l"
      using create by auto
    have l: "l = canon_limits" using f(2) canon_limits_resolve by (simp add: writer_arguments_def)
    note w = represents_created [OF f(1)]
    have wf: "w_profile w = prof" "w_limits w = canon_limits" "w_flags w = flags" "outside w = live (p_heap p)"
      "fates (p_heap p) = [] \<longrightarrow> fates (w_heap w) = []" "w_pending w = None"
      using f(1) l by (simp_all add: fresh_writer_def)
    have room: "copy_room w (Building []) v" if "fates (p_heap p) = []" "all_carried v"
    proof -
      have "portable prof INPUT_LIMIT v" by (rule accepted_portable [OF assms(1,3,4,5) that(2)])
      then show ?thesis using that(1) wf doc(2) order.trans [OF tree_size_cells [of v]]
        by (simp add: copy_room_def has_room_def within_def canon_limits_def)
    qed
    obtain r1 w1 where v1: "writer_value (Some d) 0 w = (r1, w1)" by fastforce
    have "copies_or_fails w (copy_room w (Building []) v) (place None (copied v) (Building [])) (r1, w1)"
      using writer_value_copies [of w "Building []" d 0 v] w hold holds_type [OF hold] wf(6) v1
      by (simp add: names_value_def represents_written_def)
    note copy = this [unfolded copies_or_fails_def prod.case]
    show ?thesis
    proof (cases r1)
      case Stuck
      then show ?thesis using copy by simp
    next
      case (Fail code)
      then have "\<not> (fates (p_heap p) = [] \<and> all_carried v)" "outside w1 = outside w" using copy room by (auto simp: same_writer_def)
      then show ?thesis using c v1 Ret Fail wf(4)
        by (auto simp: run_defs release_outside)
    next
      case (Ret u)
      then have w1: "represents_written w1 (Complete (copied v), None)" "outside w1 = outside w" "w_flags w1 = flags"
          "w_limits w1 = canon_limits" "fates (p_heap p) = [] \<longrightarrow> fates (w_heap w1) = []"
        using copy wf w by (simp_all add: represents_written_def same_writer_def)
      note out = command_output [OF w1(3), of v]
      have lim: "maximum_bytes canon_limits = INPUT_LIMIT" by (simp add: canon_limits_def)
      from w1(1) show ?thesis
      proof (cases rule: finish_file_result [where f = "p_out p"])
        case (finished u w')
        then have "output_text w1 u = command_text flags v" using out by simp
        then show ?thesis using finished c v1 \<open>r = Ret w\<close> Ret wf(4) w1(2,4) lim
          by (cases "length (command_text flags v) \<le> room (p_out p) \<and> flush_ok (p_out p)")
            (auto simp: run_defs release_outside)
      next
        case (failed code w')
        then show ?thesis using out c v1 \<open>r = Ret w\<close> Ret wf(4) w1(2,4,5) lim
          by (auto simp: run_defs release_outside finish_fails_def)
      qed
    qed
  qed
qed
lemma parse_arguments_valid:
  assumes "parse_arguments as prof flags check = Some (prof', flags', check')" "prof \<in> {RFC8259, CONTRACT_ASCII}"
    "flags AND NOT known_flags = 0"
  shows "prof' \<in> {RFC8259, CONTRACT_ASCII} \<and> flags' AND NOT known_flags = 0"
proof -
  have k: "FLAG_INDENT AND NOT known_flags = 0" "FLAG_ASCII AND NOT known_flags = 0" "FLAG_FINAL_NEWLINE AND NOT known_flags = 0"
    by code_simp+
  show ?thesis using assms
    by (induction as prof flags check rule: parse_arguments.induct)
      (auto simp: word_ao_dist k simp del: insert_iff split: if_splits)
qed

section \<open>The command\<close>

definition shown_canonical :: "profile \<Rightarrow> u32 \<Rightarrow> bytes \<Rightarrow> bool" where
  "shown_canonical prof flags bs \<longleftrightarrow>
     (\<exists>v. accepted prof bs v \<and> canonical_json v \<and> bs = value_text plain 0 v @ trailer (flags AND FLAG_FINAL_NEWLINE))"

text \<open>What a run that has its input may end with.\<close>

definition check_result :: "bytes \<Rightarrow> profile \<Rightarrow> u32 \<Rightarrow> process \<Rightarrow> nat \<Rightarrow> process \<Rightarrow> bool" where
  "check_result input prof flags p status p' \<longleftrightarrow>
     p_out p' = p_out p \<and> status \<in> {0, 1, 2} \<and>
     (fates (p_heap p) = [] \<longrightarrow>
        status = (if shown_canonical prof flags input then 0 else if \<exists>v. accepted prof input v then 1 else 2))"

definition rewrite_result :: "bytes \<Rightarrow> profile \<Rightarrow> u32 \<Rightarrow> process \<Rightarrow> nat \<Rightarrow> process \<Rightarrow> bool" where
  "rewrite_result input prof flags p status p' \<longleftrightarrow>
     status \<in> {0, 2, 3} \<and>
     (status = 0 \<longrightarrow> (\<exists>v. accepted prof input v \<and> written (p_out p') = written (p_out p) @ command_text flags v \<and> flush_ok (p_out p))) \<and>
     (\<forall>v. fates (p_heap p) = [] \<and> accepted prof input v \<and> all_carried v \<and> length (command_text flags v) \<le> INPUT_LIMIT \<and>
        length (command_text flags v) \<le> room (p_out p) \<and> flush_ok (p_out p) \<longrightarrow> status = 0)"

lemma check_result_free: "check_result input prof flags p status (free_input n p') = check_result input prof flags p status p'"
  by (simp add: check_result_def free_input_def)

lemma rewrite_result_free: "rewrite_result input prof flags p status (free_input n p') = rewrite_result input prof flags p status p'"
  by (simp add: rewrite_result_def free_input_def)

lemma accepted_unique:
  assumes "prof \<in> {RFC8259, CONTRACT_ASCII}" "accepted prof bs v" "accepted prof bs u"
  shows "u = v"
proof -
  have rfc: "json_document RFC8259 bs w \<and> within canon_limits RFC8259 w" if "accepted prof bs w" for w
    using that assms(1) json_document_profile [of prof bs w] by (auto simp: accepted_def within_def)
  have "maximum_tokens canon_limits \<le> SIZE_MAX div 256" by (simp add: canon_limits_def INPUT_LIMIT_def SIZE_MAX_def)
  then show ?thesis using json_document_unambiguous [of bs u v canon_limits] rfc [OF assms(2)] rfc [OF assms(3)] by blast
qed

lemma run_on_ends:
  assumes "prof \<in> {RFC8259, CONTRACT_ASCII}" "flags AND NOT known_flags = 0" "length input \<le> INPUT_LIMIT" "length (p_pointer p) = 256"
  shows "run_ends_with p 0 (if check then check_result input prof flags p else rewrite_result input prof flags p)
    (run_on input prof flags check p)"
  using assms(1,3)
proof (cases rule: command_parse [where h = "p_heap p"])
  case (parsed d v h')
  note only = accepted_unique [OF assms(1) parsed(2)]
  have release: "live (document_release d h) = live (p_heap p)" if "live h = live h'" for h
    using parsed(7) that by simp
  show ?thesis
  proof (cases check)
    case True
    have "shown_canonical prof flags input \<longleftrightarrow> canonical_json v \<and> input = value_text plain 0 v @ trailer (flags AND FLAG_FINAL_NEWLINE)"
    proof
      assume "shown_canonical prof flags input"
      then obtain u where u: "accepted prof input u" "canonical_json u" "input = value_text plain 0 u @ trailer (flags AND FLAG_FINAL_NEWLINE)"
        unfolding shown_canonical_def by blast
      show "canonical_json v \<and> input = value_text plain 0 v @ trailer (flags AND FLAG_FINAL_NEWLINE)"
        using u(2,3) unfolding only [OF u(1)] by simp
    next
      assume "canonical_json v \<and> input = value_text plain 0 v @ trailer (flags AND FLAG_FINAL_NEWLINE)"
      then show "shown_canonical prof flags input" using parsed(2) unfolding shown_canonical_def by blast
    qed
    then have status: "(if canonical_json v \<and> input = value_text plain 0 v @ trailer (flags AND FLAG_FINAL_NEWLINE) then 0 else 1 :: nat) =
        (if shown_canonical prof flags input then 0 else if \<exists>v. accepted prof input v then 1 else 2)"
      using exI [of "accepted prof input", OF parsed(2)] by simp
    let ?status = "if shown_canonical prof flags input then 0 else if \<exists>v. accepted prof input v then 1 else 2 :: nat"
    let ?q = "p\<lparr>p_heap := document_release d h'\<rparr>"
    have "run_on input prof flags check p = (Ret ?status, ?q)"
      unfolding run_on_def parsed(1) using True check_document_answers [OF parsed(2-6), of flags "p\<lparr>p_heap := h'\<rparr>", unfolded status]
      by simp
    moreover have "check_result input prof flags p ?status ?q" by (simp add: check_result_def)
    ultimately show ?thesis using True release [of h'] unfolding run_ends_with_def by simp
  next
    case False
    from rewrite_document_ends [OF assms(1,2) parsed(2) assms(3) parsed(6,3), of "p\<lparr>p_heap := h'\<rparr>"] obtain status p' where r:
      "rewrite_document d prof flags (p\<lparr>p_heap := h'\<rparr>) = (Ret status, p')" "live (p_heap p') = live h'"
      "value_rewritten flags v (p\<lparr>p_heap := h'\<rparr>) status p'"
      by (auto simp: run_ends_with_def)
    note w = r(3) [unfolded value_rewritten_def]
    have "rewrite_result input prof flags p status (p'\<lparr>p_heap := document_release d (p_heap p')\<rparr>)"
      unfolding rewrite_result_def
    proof (intro conjI allI impI)
      show "status \<in> {0, 2, 3}" using w by simp
    next
      assume "status = 0"
      then show "\<exists>v. accepted prof input v \<and>
          written (p_out (p'\<lparr>p_heap := document_release d (p_heap p')\<rparr>)) = written (p_out p) @ command_text flags v \<and> flush_ok (p_out p)"
        using w parsed(2) by (intro exI [of _ v]) simp
    next
      fix u
      assume u: "fates (p_heap p) = [] \<and> accepted prof input u \<and> all_carried u \<and> length (command_text flags u) \<le> INPUT_LIMIT \<and>
        length (command_text flags u) \<le> room (p_out p) \<and> flush_ok (p_out p)"
      then have "u = v" using only by blast
      then show "status = 0" using w u parsed(8) by simp
    qed
    then show ?thesis using False parsed(1) r(1) release [OF r(2)] by (simp add: run_on_def run_ends_with_def)
  qed
next
  case (refused code e h')
  from report_error_ends [of "p\<lparr>p_heap := h'\<rparr>" input e] assms(4) obtain p' where
    "report_error input e (p\<lparr>p_heap := h'\<rparr>) = (Ret 2, p')" "live (p_heap p') = live h'" "p_out p' = p_out p"
    by (auto simp: run_ends_with_def)
  then show ?thesis using refused
    by (auto simp: run_on_def run_ends_with_def check_result_def rewrite_result_def shown_canonical_def)
qed

text \<open>The whole command, from the bytes on its standard input.\<close>

lemma main_ends:
  assumes "p_in p = opened c e" "length (p_pointer p) = 256"
    "parse_arguments arguments RFC8259 0 False = Some (prof, flags, check)"
  obtains (no_memory) p' where "main_canon arguments p = (Ret 2, p')" "live (p_heap p') = live (p_heap p)" "p_out p' = p_out p"
      "fates (p_heap p) \<noteq> []"
  | (ran) status p' q where "main_canon arguments p = (Ret status, p')" "live (p_heap p') = live (p_heap p)"
      "(if check then check_result (read_input c e) prof flags q status p' else rewrite_result (read_input c e) prof flags q status p')"
      "p_out q = p_out p" "fates (p_heap p) = [] \<Longrightarrow> fates (p_heap q) = []"
proof -
  have args: "prof \<in> {RFC8259, CONTRACT_ASCII}" "flags AND NOT known_flags = 0"
    using parse_arguments_valid [OF assms(3)] by simp_all
  obtain b capacity f h where r: "read_stdin (p_in p) (p_heap p) = Some (b, capacity, f, h)" and
    e: "reading_ends (read_input c e) 0 (p_heap p) (Some (b, capacity, f, h))"
    using read_stdin_reads [of c e "p_heap p"] assms(1) by (cases "read_stdin (p_in p) (p_heap p)") (auto simp: reading_ends_def)
  show thesis
  proof (cases b)
    case None
    then show thesis using r e assms(3)
      by (intro no_memory [of "complain (ascii ''out of memory'' @ [LF]) (p\<lparr>p_in := f, p_heap := h\<rparr>)"])
        (simp_all add: main_canon_def reading_ends_def)
  next
    case (Some input)
    let ?q = "p\<lparr>p_in := f, p_heap := h\<rparr>"
    have input: "input = read_input c e" "live h = live (p_heap p) + capacity" "fates (p_heap p) = [] \<Longrightarrow> fates h = []"
      using e Some by (auto simp: reading_ends_def)
    have len: "length input \<le> INPUT_LIMIT" using input(1) read_input_bound by simp
    have "run_ends_with ?q 0 (if check then check_result input prof flags ?q else rewrite_result input prof flags ?q) (run_on input prof flags check ?q)"
      by (rule run_on_ends [OF args len]) (simp add: assms(2))
    then obtain status p' where run: "run_on input prof flags check ?q = (Ret status, p')" "live (p_heap p') = live h"
      "if check then check_result input prof flags ?q status p' else rewrite_result input prof flags ?q status p'"
      by (auto simp: run_ends_with_def split: if_splits)
    show thesis
    proof (rule ran)
      show "main_canon arguments p = (Ret status, free_input capacity p')" using r run(1) assms(3) Some by (simp add: main_canon_def)
      show "live (p_heap (free_input capacity p')) = live (p_heap p)" using run(2) input(2) by (simp add: free_input_def)
      show "if check then check_result (read_input c e) prof flags ?q status (free_input capacity p')
        else rewrite_result (read_input c e) prof flags ?q status (free_input capacity p')"
        using run(3) unfolding input(1) check_result_free rewrite_result_free .
    qed (use input(3) in simp_all)
  qed
qed
section \<open>Properties\<close>

text \<open>C37: the command always ends, whatever is on the standard input and whichever allocations fail, with one
  of its five statuses, and frees all it allocated. Status 4 is exactly for an argument it does not know;
  status 1 is only given with \<^verbatim>\<open>--check\<close>, status 3 only without; and with \<^verbatim>\<open>--check\<close> or an unknown argument
  nothing is written to the standard output.\<close>

theorem command_total:
  assumes "p_in p = opened c e" "length (p_pointer p) = 256"
  shows "\<exists>status p'. main_canon arguments p = (Ret status, p') \<and> status \<le> 4 \<and> live (p_heap p') = live (p_heap p) \<and>
    (case parse_arguments arguments RFC8259 0 False of
       None \<Rightarrow> status = 4 \<and> p_out p' = p_out p
     | Some (prof, flags, True) \<Rightarrow> status \<in> {0, 1, 2} \<and> p_out p' = p_out p
     | Some (prof, flags, False) \<Rightarrow> status \<in> {0, 2, 3})"
proof (cases "parse_arguments arguments RFC8259 0 False")
  case None
  then show ?thesis by (simp add: main_canon_def)
next
  case (Some a)
  obtain prof flags check where a: "parse_arguments arguments RFC8259 0 False = Some (prof, flags, check)"
    using Some by (cases a) auto
  from assms a show ?thesis
  proof (cases rule: main_ends)
    case (no_memory p')
    then show ?thesis using a by (cases check) auto
  next
    case (ran status p' q)
    then show ?thesis using a by (cases check) (auto simp: check_result_def rewrite_result_def)
  qed
qed

definition run_of :: "bytes \<Rightarrow> process" where
  "run_of input =
     \<lparr>p_in = opened input None, p_out = \<lparr>written = [], room = 100, flush_ok = True\<rparr>, p_err = [], p_luck = [],
      p_pointer = replicate 256 0, p_heap = plenty\<rparr>"

lemma run_of_fields [simp]:
  "p_in (run_of c) = opened c None" "length (p_pointer (run_of c)) = 256" "fates (p_heap (run_of c)) = []"
  "live (p_heap (run_of c)) = 0" "p_out (run_of c) = \<lparr>written = [], room = 100, flush_ok = True\<rparr>"
  by (simp_all add: run_of_def plenty_def)

theorem command_total_witness:
  "\<exists>status p'. main_canon [ascii ''--check''] (run_of (ascii ''[1,'')) = (Ret status, p') \<and> status \<in> {0, 1, 2} \<and> live (p_heap p') = 0"
proof -
  have "parse_arguments [ascii ''--check''] RFC8259 0 False = Some (RFC8259, 0, True)" by code_simp
  with command_total [of "run_of (ascii ''[1,'')" "ascii ''[1,''" None "[ascii ''--check'']"] show ?thesis by auto
qed




end
